(* ===== verification/Ctr_Prelude.thy ===== *)
theory Ctr_Prelude
  imports Main "HOL-Library.Word" "HOL-Library.Multiset"
begin

text \<open>
  Shared vocabulary of the development: the dense 32-bit identifiers and their sentinel
  values (\<^verbatim>\<open>include/internal/*Id.hpp\<close>), the public enumerations and error classes
  (\<^verbatim>\<open>include/api/ctr\<close>), the cast to \<open>std::uint32_t\<close>, the model of \<open>std::sort\<close> by
  descending priority, and the list lemmas that several components use.

  Identifiers are \<open>nat\<close> values; every place where the code narrows a \<open>std::size_t\<close> to
  32 bits is written with \<open>u32\<close>, so a wrap-around is visible in the model. A pointer is an
  address (\<open>nat\<close>) and a nullable pointer an \<open>ptr option\<close>.
\<close>

named_theorems ctr_defs \<open>definitions of small accessors that proofs unfold\<close>
named_theorems ctr_inv \<open>invariant preservation of the component operations\<close>

subsection \<open>Identifiers and sentinels\<close>

type_synonym DescriptorId = nat
type_synonym TypeId = nat
type_synonym NameId = nat
type_synonym SlotId = nat
type_synonym SessionSlot = nat
type_synonym Identity = nat
type_synonym type_index = nat
type_synonym ptr = nat

definition u32 :: "nat \<Rightarrow> nat" where
  "u32 n = n mod 2 ^ 32"

definition u32_max :: nat where
  "u32_max = 4294967295"

definition kInvalidDescriptorId :: DescriptorId where
  "kInvalidDescriptorId = u32_max"

definition kInvalidTypeId :: TypeId where
  "kInvalidTypeId = u32_max"

definition kInvalidSlotId :: SlotId where
  "kInvalidSlotId = u32_max"

definition kInvalidSessionSlot :: SessionSlot where
  "kInvalidSessionSlot = u32_max"

definition kUnnamed :: NameId where
  "kUnnamed = 0"

definition kInvalidNameId :: NameId where
  "kInvalidNameId = u32_max"

definition kThreadLocalSentinel :: NameId where
  "kThreadLocalSentinel = kInvalidNameId - 1"

definition kNoFactoryMethod :: Identity where
  "kNoFactoryMethod = 0"

lemmas sentinel_defs =
  u32_max_def kInvalidDescriptorId_def kInvalidTypeId_def kInvalidSlotId_def
  kInvalidSessionSlot_def kUnnamed_def kInvalidNameId_def kThreadLocalSentinel_def
  kNoFactoryMethod_def

lemma u32_small [simp]: "n < 4294967296 \<Longrightarrow> u32 n = n"
  by (simp add: u32_def)

lemma u32_bound: "u32 n \<le> u32_max"
  by (simp add: u32_def u32_max_def)

subsection \<open>Public enumerations and errors\<close>

datatype Lifetime = Prototype | Singleton | Session | ThreadLocal

datatype Origin = AnnotatedType | FactoryProduct | RuntimeBinding

text \<open>The reason stands for the message text of the exception.\<close>

datatype reason =
    NotStarted | AlreadyStarted | UnknownType | NoCandidate | AmbiguousCandidates
  | DependencyCycle | CrossThreadCycle | UnknownName | EmptyName | NoDefaultsSlot
  | IdentityCollision | BindingCollision | FactoryNotFound | PrimaryNotFound
  | DuplicateProducer | ScopedOnNonSession | UnscopedSession | ScopeCapacity
  | NoActiveScope | ScopeStopped | ScopeStopping | UnboundSession | SlotLimit
  | IncompatibleCast | VirtualBaseCast | ForbiddenBinding | DiscoverOnScope
  | BindingDuringMaterialization | SessionBound

datatype ctr_error =
    ResolutionError reason
  | ContextStateError reason
  | ConfigurationError reason
  | UserException nat

subsection \<open>Sorting by descending priority\<close>

text \<open>
  \<open>std::sort\<close> with the comparator \<open>priority(a) > priority(b)\<close>. The C++ standard leaves
  the order of equal elements open; the model fixes the stable choice, and the properties
  about heads and ambiguity are shown for every descending permutation.
\<close>

definition desc_by :: "('a \<Rightarrow> int) \<Rightarrow> 'a list \<Rightarrow> bool" where
  "desc_by f xs \<longleftrightarrow> sorted_wrt (\<lambda>a b. f a \<ge> f b) xs"

definition std_sort_desc :: "('a \<Rightarrow> int) \<Rightarrow> 'a list \<Rightarrow> 'a list" where
  "std_sort_desc f xs = sort_key (\<lambda>x. - f x) xs"

lemma std_sort_desc_set [simp]: "set (std_sort_desc f xs) = set xs"
  by (simp add: std_sort_desc_def)

lemma std_sort_desc_length [simp]: "length (std_sort_desc f xs) = length xs"
  by (simp add: std_sort_desc_def)

lemma std_sort_desc_mset [simp]: "mset (std_sort_desc f xs) = mset xs"
  by (simp add: std_sort_desc_def)

lemma std_sort_desc_empty [simp]: "std_sort_desc f xs = [] \<longleftrightarrow> xs = []"
  by (metis length_0_conv std_sort_desc_length)

lemma std_sort_desc_empty' [simp]: "[] = std_sort_desc f xs \<longleftrightarrow> xs = []"
  by (metis std_sort_desc_empty)

lemma std_sort_desc_Nil [simp]: "std_sort_desc f [] = []"
  by simp

lemma std_sort_desc_distinct [simp]: "distinct (std_sort_desc f xs) = distinct xs"
  by (simp add: std_sort_desc_def)

lemma std_sort_desc_desc: "desc_by f (std_sort_desc f xs)"
proof -
  have "sorted (map (\<lambda>x. - f x) (std_sort_desc f xs))"
    by (simp add: std_sort_desc_def)
  then show ?thesis
    by (simp add: desc_by_def sorted_wrt_map)
qed

lemma desc_by_Cons [simp]:
  "desc_by f (x # xs) \<longleftrightarrow> (\<forall>y \<in> set xs. f x \<ge> f y) \<and> desc_by f xs"
  by (simp add: desc_by_def)

lemma desc_by_Nil [simp]: "desc_by f []"
  by (simp add: desc_by_def)

lemma std_sort_desc_id: "desc_by f xs \<Longrightarrow> std_sort_desc f xs = xs"
  by (simp add: desc_by_def std_sort_desc_def sort_key_id_if_sorted sorted_wrt_map)

lemma desc_by_hd: "desc_by f xs \<Longrightarrow> x \<in> set xs \<Longrightarrow> f x \<le> f (hd xs)"
  by (cases xs) auto

subsection \<open>Lists\<close>

text \<open>\<open>std::vector::resize(n, v)\<close> when it only grows.\<close>

definition grow_to :: "nat \<Rightarrow> 'a \<Rightarrow> 'a list \<Rightarrow> 'a list" where
  "grow_to n v xs = xs @ replicate (n - length xs) v"

lemma grow_to_length [simp]: "length (grow_to n v xs) = max n (length xs)"
  by (simp add: grow_to_def)

lemma grow_to_nth: "i < max n (length xs) \<Longrightarrow> grow_to n v xs ! i = (if i < length xs then xs ! i else v)"
  by (auto simp: grow_to_def nth_append)

lemma grow_to_id [simp]: "n \<le> length xs \<Longrightarrow> grow_to n v xs = xs"
  by (simp add: grow_to_def)

text \<open>The position of the first element with a property: \<open>std::find_if\<close>.\<close>

lemma distinct_snoc [simp]: "distinct (xs @ [x]) \<longleftrightarrow> distinct xs \<and> x \<notin> set xs"
  by auto

lemma find_Some_mem: "find P xs = Some x \<Longrightarrow> x \<in> set xs \<and> P x"
  by (auto simp: find_Some_iff)

subsection \<open>Sequences of fallible steps\<close>

fun fold_opt :: "('s \<Rightarrow> 'a \<Rightarrow> 's option) \<Rightarrow> 's \<Rightarrow> 'a list \<Rightarrow> 's option" where
  "fold_opt f s [] = Some s"
| "fold_opt f s (x # xs) = (case f s x of None \<Rightarrow> None | Some s' \<Rightarrow> fold_opt f s' xs)"

lemma fold_opt_append:
  "fold_opt f s (xs @ ys) = (case fold_opt f s xs of None \<Rightarrow> None | Some s' \<Rightarrow> fold_opt f s' ys)"
  by (induction xs arbitrary: s) (auto split: option.splits)

lemma fold_opt_invariant:
  assumes "fold_opt f s xs = Some s'" "P s" "\<And>s x s'. P s \<Longrightarrow> f s x = Some s' \<Longrightarrow> P s'"
  shows "P s'"
  using assms(1,2)
proof (induction xs arbitrary: s)
  case (Cons x xs)
  then show ?case using assms(3) by (auto split: option.splits)
qed simp

text \<open>Walking an insertion order backwards and looking every instance up.\<close>

definition teardown :: "('d \<Rightarrow> 'm option) \<Rightarrow> 'd list \<Rightarrow> ('d \<times> 'm) list" where
  "teardown find_inst order = map (\<lambda>d. (d, the (find_inst d))) (rev order)"

end
