(* ===== verification/Interning.thy ===== *)
theory Interning
  imports Ctr_Prelude
begin

text \<open>
  The two interning tables of the registry (\<^verbatim>\<open>NameInterning.hpp\<close>, \<^verbatim>\<open>TypeInterning.hpp\<close>),
  the per-type defaults table (\<^verbatim>\<open>DefaultsTable.hpp\<close>), and the interface \<open>interning\<close> that the
  registry relies on: interning is idempotent, never changes an id that was handed out, and
  gives distinct keys distinct ids. Both tables are instances of that interface.
\<close>

subsection \<open>The interning interface\<close>

locale interning =
  fixes intern :: "'s \<Rightarrow> 'k \<Rightarrow> nat \<times> 's"
    and known :: "'s \<Rightarrow> 'k \<Rightarrow> nat option"
    and name_of :: "'s \<Rightarrow> nat \<Rightarrow> 'k option"
    and invar :: "'s \<Rightarrow> bool"
    and room :: "'s \<Rightarrow> nat"
  assumes invar_intern: "invar s \<Longrightarrow> 0 < room s \<Longrightarrow> invar (snd (intern s k))"
    and room_intern: "invar s \<Longrightarrow> room s - 1 \<le> room (snd (intern s k))"
    and known_intern: "invar s \<Longrightarrow> known (snd (intern s k)) k = Some (fst (intern s k))"
    and known_intern_other: "invar s \<Longrightarrow> k' \<noteq> k \<Longrightarrow> known (snd (intern s k)) k' = known s k'"
    and intern_known: "invar s \<Longrightarrow> known s k = Some i \<Longrightarrow> intern s k = (i, s)"
    and known_name_of: "invar s \<Longrightarrow> known s k = Some i \<Longrightarrow> name_of s i = Some k"
begin

text \<open>Interning a sequence of keys, as the merge loop of \<open>start()\<close> does.\<close>

fun intern_all :: "'s \<Rightarrow> 'k list \<Rightarrow> nat list \<times> 's" where
  "intern_all s [] = ([], s)"
| "intern_all s (k # ks) =
     (fst (intern s k) # fst (intern_all (snd (intern s k)) ks),
      snd (intern_all (snd (intern s k)) ks))"

lemma known_inj: "invar s \<Longrightarrow> known s k = Some i \<Longrightarrow> known s k' = Some i \<Longrightarrow> k = k'"
  by (metis known_name_of option.inject)

lemma intern_idem: "invar s \<Longrightarrow> 0 < room s \<Longrightarrow>
    intern (snd (intern s k)) k = (fst (intern s k), snd (intern s k))"
  by (intro intern_known invar_intern known_intern)

lemma known_stable: "invar s \<Longrightarrow> known s k' = Some i \<Longrightarrow> known (snd (intern s k)) k' = Some i"
  by (cases "k' = k") (auto simp: intern_known known_intern_other)

lemma intern_all_stable:
  "invar s \<Longrightarrow> length ks \<le> room s \<Longrightarrow> known s k = Some i \<Longrightarrow> known (snd (intern_all s ks)) k = Some i"
proof (induction ks arbitrary: s)
  case Nil
  then show ?case by simp
next
  case (Cons a ks)
  have "invar (snd (intern s a))" "length ks \<le> room (snd (intern s a))"
    using Cons.prems invar_intern [of s a] room_intern [of s a] by auto
  moreover have "known (snd (intern s a)) k = Some i"
    using Cons.prems by (intro known_stable) auto
  ultimately have "known (snd (intern_all (snd (intern s a)) ks)) k = Some i"
    by (rule Cons.IH)
  then show ?case by simp
qed

lemma intern_all_length: "length (fst (intern_all s ks)) = length ks"
  by (induction ks arbitrary: s) auto

lemma intern_all_known:
  assumes "invar s" "length ks \<le> room s" "j < length ks"
  shows "known (snd (intern_all s ks)) (ks ! j) = Some (fst (intern_all s ks) ! j)"
  using assms
proof (induction ks arbitrary: s j)
  case Nil
  then show ?case by simp
next
  case (Cons a ks)
  let ?s1 = "snd (intern s a)"
  have s1: "invar ?s1" "length ks \<le> room ?s1"
    using Cons.prems invar_intern [of s a] room_intern [of s a] by auto
  show ?case
  proof (cases j)
    case 0
    have "known ?s1 a = Some (fst (intern s a))"
      using Cons.prems by (intro known_intern) auto
    then have "known (snd (intern_all ?s1 ks)) a = Some (fst (intern s a))"
      using s1 by (intro intern_all_stable)
    then show ?thesis by (simp add: 0)
  next
    case (Suc j')
    with Cons.prems have "j' < length ks" by simp
    with s1 have "known (snd (intern_all ?s1 ks)) (ks ! j') = Some (fst (intern_all ?s1 ks) ! j')"
      by (rule Cons.IH)
    then show ?thesis by (simp add: Suc)
  qed
qed

lemma intern_all_invar: "invar s \<Longrightarrow> length ks \<le> room s \<Longrightarrow> invar (snd (intern_all s ks))"
proof (induction ks arbitrary: s)
  case Nil
  then show ?case by simp
next
  case (Cons a ks)
  have "invar (snd (intern s a))" "length ks \<le> room (snd (intern s a))"
    using Cons.prems invar_intern [of s a] room_intern [of s a] by auto
  then have "invar (snd (intern_all (snd (intern s a)) ks))"
    by (rule Cons.IH)
  then show ?case by simp
qed

text \<open>Ids agree exactly when the keys agree.\<close>

lemma intern_all_eq_iff:
  assumes "invar s" "length ks \<le> room s" "i < length ks" "j < length ks"
  shows "fst (intern_all s ks) ! i = fst (intern_all s ks) ! j \<longleftrightarrow> ks ! i = ks ! j"
proof
  assume eq: "fst (intern_all s ks) ! i = fst (intern_all s ks) ! j"
  from assms intern_all_known [of s ks i] intern_all_known [of s ks j] eq
  show "ks ! i = ks ! j"
    by (intro known_inj [OF intern_all_invar [OF assms(1,2)]]) auto
next
  assume "ks ! i = ks ! j"
  with assms intern_all_known [of s ks i] intern_all_known [of s ks j]
  show "fst (intern_all s ks) ! i = fst (intern_all s ks) ! j" by simp
qed

end

subsection \<open>Bean names: \<^verbatim>\<open>NameInterning\<close>\<close>

record name_interning =
  ni_nameToId :: "string \<rightharpoonup> NameId"
  ni_idToName :: "string list"

definition ni_init :: name_interning where
  "ni_init = \<lparr>ni_nameToId = Map.empty, ni_idToName = [[]]\<rparr>"

definition ni_intern :: "name_interning \<Rightarrow> string \<Rightarrow> NameId \<times> name_interning" where
  "ni_intern s beanName =
     (if beanName = [] then (kUnnamed, s)
      else case ni_nameToId s beanName of
        Some i \<Rightarrow> (i, s)
      | None \<Rightarrow>
          (let i = u32 (length (ni_idToName s))
           in (i, s\<lparr>ni_nameToId := (ni_nameToId s)(beanName \<mapsto> i),
                    ni_idToName := ni_idToName s @ [beanName]\<rparr>)))"

definition ni_lookup :: "name_interning \<Rightarrow> string \<Rightarrow> NameId" where
  "ni_lookup s beanName =
     (if beanName = [] then kUnnamed
      else case ni_nameToId s beanName of Some i \<Rightarrow> i | None \<Rightarrow> kInvalidNameId)"

text \<open>\<open>None\<close> stands for a violated precondition \<open>id < size()\<close> (an assertion in the code).\<close>

definition ni_nameOf :: "name_interning \<Rightarrow> NameId \<Rightarrow> string option" where
  "ni_nameOf s i = (if i < length (ni_idToName s) then Some (ni_idToName s ! i) else None)"

definition ni_size :: "name_interning \<Rightarrow> nat" where
  "ni_size s = length (ni_idToName s)"

text \<open>
  The reverse table holds the empty name at slot 0 and every other known name once, and
  there are fewer entries than the smallest sentinel \<open>kInvalidNameId - 2\<close>.
\<close>

definition ni_inv :: "name_interning \<Rightarrow> bool" where
  "ni_inv s \<longleftrightarrow>
     ni_idToName s \<noteq> [] \<and> ni_idToName s ! 0 = [] \<and> distinct (ni_idToName s)
     \<and> length (ni_idToName s) \<le> kInvalidNameId - 2
     \<and> (\<forall>n i. ni_nameToId s n = Some i \<longleftrightarrow> n \<noteq> [] \<and> i < length (ni_idToName s) \<and> ni_idToName s ! i = n)"

definition ni_room :: "name_interning \<Rightarrow> nat" where
  "ni_room s = kInvalidNameId - 2 - length (ni_idToName s)"

definition ni_known :: "name_interning \<Rightarrow> string \<Rightarrow> NameId option" where
  "ni_known s n = (if n = [] then Some kUnnamed else ni_nameToId s n)"

lemma ni_inv_init: "ni_inv ni_init"
  by (auto simp: ni_inv_def ni_init_def sentinel_defs)

lemma ni_inv_id_bound: "ni_inv s \<Longrightarrow> ni_known s n = Some i \<Longrightarrow> i < kInvalidNameId - 2"
  by (auto simp: ni_inv_def ni_known_def sentinel_defs split: if_splits)

lemma ni_lookup_known: "ni_lookup s n = (case ni_known s n of Some i \<Rightarrow> i | None \<Rightarrow> kInvalidNameId)"
  by (simp add: ni_lookup_def ni_known_def)

lemma ni_intern_fresh:
  assumes "ni_inv s" "n \<noteq> []" "ni_nameToId s n = None"
  shows "n \<notin> set (ni_idToName s)"
proof
  assume "n \<in> set (ni_idToName s)"
  then obtain i where "i < length (ni_idToName s)" "ni_idToName s ! i = n"
    by (auto simp: in_set_conv_nth)
  with assms(1,2) have "ni_nameToId s n = Some i" by (simp add: ni_inv_def)
  with assms(3) show False by simp
qed

lemma ni_inv_intern:
  assumes inv: "ni_inv s" and room: "0 < ni_room s"
  shows "ni_inv (snd (ni_intern s n))"
proof (cases "n = [] \<or> ni_nameToId s n \<noteq> None")
  case True
  with inv show ?thesis by (auto simp: ni_intern_def)
next
  case False
  then have n: "n \<noteq> []" "ni_nameToId s n = None" by auto
  let ?len = "length (ni_idToName s)"
  have len: "?len < kInvalidNameId - 2"
    using room by (simp add: ni_room_def)
  then have id: "u32 ?len = ?len"
    by (simp add: sentinel_defs)
  have fresh: "n \<notin> set (ni_idToName s)"
    using ni_intern_fresh [OF inv n] .
  show ?thesis
    using inv n len fresh
    by (auto simp: ni_intern_def ni_inv_def id Let_def nth_append sentinel_defs
        less_Suc_eq in_set_conv_nth split: if_splits)
qed

interpretation nin: interning ni_intern ni_known ni_nameOf ni_inv ni_room
proof (unfold_locales, goal_cases)
  case (1 s k)
  then show ?case by (rule ni_inv_intern)
next
  case (2 s k)
  then show ?case
    by (auto simp: ni_room_def ni_intern_def Let_def split: option.splits)
next
  case (3 s k)
  then show ?case
    by (auto simp: ni_known_def ni_intern_def Let_def split: option.splits)
next
  case (4 s k' k)
  then show ?case
    by (auto simp: ni_known_def ni_intern_def Let_def split: option.splits)
next
  case (5 s k i)
  then show ?case
    by (auto simp: ni_known_def ni_intern_def split: if_splits)
next
  case (6 s k i)
  then show ?case
    by (auto simp: ni_known_def ni_nameOf_def ni_inv_def kUnnamed_def split: if_splits)
qed

subsection \<open>Types: \<^verbatim>\<open>TypeInterning\<close>\<close>

record type_interning =
  ti_nameToId :: "string \<rightharpoonup> TypeId"
  ti_idToName :: "string list"
  ti_indexToId :: "type_index \<rightharpoonup> TypeId"
  ti_overflowNameToId :: "string \<rightharpoonup> TypeId"
  ti_overflowIdToName :: "string list"
  ti_overflowIndexToId :: "type_index \<rightharpoonup> TypeId"
  ti_frozen :: bool

definition ti_init :: type_interning where
  "ti_init = \<lparr>ti_nameToId = Map.empty, ti_idToName = [], ti_indexToId = Map.empty,
     ti_overflowNameToId = Map.empty, ti_overflowIdToName = [],
     ti_overflowIndexToId = Map.empty, ti_frozen = False\<rparr>"

text \<open>\<open>unordered_map::emplace\<close> keeps an existing entry.\<close>

definition emplace :: "('k \<rightharpoonup> 'v) \<Rightarrow> 'k \<Rightarrow> 'v \<Rightarrow> ('k \<rightharpoonup> 'v)" where
  "emplace m k v = (case m k of None \<Rightarrow> m(k \<mapsto> v) | Some _ \<Rightarrow> m)"

definition ti_internByName :: "type_interning \<Rightarrow> string \<Rightarrow> type_index \<Rightarrow> TypeId \<times> type_interning" where
  "ti_internByName s qualifiedName tinfo =
     (case ti_nameToId s qualifiedName of
        Some i \<Rightarrow> (i, s)
      | None \<Rightarrow>
          if \<not> ti_frozen s then
            (let i = u32 (length (ti_idToName s))
             in (i, s\<lparr>ti_nameToId := (ti_nameToId s)(qualifiedName \<mapsto> i),
                      ti_idToName := ti_idToName s @ [qualifiedName],
                      ti_indexToId := emplace (ti_indexToId s) tinfo i\<rparr>))
          else case ti_overflowNameToId s qualifiedName of
            Some i \<Rightarrow> (i, s)
          | None \<Rightarrow>
              (let i = u32 (length (ti_idToName s) + length (ti_overflowIdToName s))
               in (i, s\<lparr>ti_overflowNameToId := (ti_overflowNameToId s)(qualifiedName \<mapsto> i),
                        ti_overflowIdToName := ti_overflowIdToName s @ [qualifiedName],
                        ti_overflowIndexToId := emplace (ti_overflowIndexToId s) tinfo i\<rparr>)))"

definition ti_freeze :: "type_interning \<Rightarrow> type_interning" where
  "ti_freeze s = s\<lparr>ti_frozen := True\<rparr>"

definition ti_lookupByTypeIndex :: "type_interning \<Rightarrow> type_index \<Rightarrow> TypeId" where
  "ti_lookupByTypeIndex s index =
     (case ti_indexToId s index of
        Some i \<Rightarrow> i
      | None \<Rightarrow> (case ti_overflowIndexToId s index of Some i \<Rightarrow> i | None \<Rightarrow> kInvalidTypeId))"

definition ti_nameOf :: "type_interning \<Rightarrow> TypeId \<Rightarrow> string option" where
  "ti_nameOf s i =
     (if i < length (ti_idToName s) then Some (ti_idToName s ! i)
      else if i - length (ti_idToName s) < length (ti_overflowIdToName s)
      then Some (ti_overflowIdToName s ! (i - length (ti_idToName s)))
      else None)"

definition ti_size :: "type_interning \<Rightarrow> nat" where
  "ti_size s = length (ti_idToName s) + length (ti_overflowIdToName s)"

abbreviation ti_names :: "type_interning \<Rightarrow> string list" where
  "ti_names s \<equiv> ti_idToName s @ ti_overflowIdToName s"

definition ti_known :: "type_interning \<Rightarrow> string \<Rightarrow> TypeId option" where
  "ti_known s n = (case ti_nameToId s n of Some i \<Rightarrow> Some i
                   | None \<Rightarrow> if ti_frozen s then ti_overflowNameToId s n else None)"

text \<open>
  The startup table and the overflow table together number the names densely; the reverse
  maps send a type's \<open>type_index\<close> to the id of its name. \<open>tinfo\<close> is the C++ fact that a
  qualified name determines the type: \<open>TypeInfoGetter<T>::get\<close> for the type of that name.
\<close>

definition ti_inv :: "(string \<Rightarrow> type_index) \<Rightarrow> type_interning \<Rightarrow> bool" where
  "ti_inv tinfo s \<longleftrightarrow>
     distinct (ti_names s) \<and> length (ti_names s) \<le> kInvalidTypeId
     \<and> (\<not> ti_frozen s \<longrightarrow> ti_overflowIdToName s = [])
     \<and> (\<forall>n i. ti_nameToId s n = Some i \<longleftrightarrow> i < length (ti_idToName s) \<and> ti_idToName s ! i = n)
     \<and> (\<forall>n i. ti_overflowNameToId s n = Some i \<longleftrightarrow>
           length (ti_idToName s) \<le> i \<and> i < length (ti_names s) \<and> ti_names s ! i = n)
     \<and> (\<forall>n i. ti_indexToId s (tinfo n) = Some i \<longleftrightarrow> ti_nameToId s n = Some i)
     \<and> (\<forall>n i. ti_overflowIndexToId s (tinfo n) = Some i \<longleftrightarrow> ti_overflowNameToId s n = Some i)"

definition ti_room :: "type_interning \<Rightarrow> nat" where
  "ti_room s = kInvalidTypeId - length (ti_names s)"

lemma ti_inv_init: "ti_inv tinfo ti_init"
  by (simp add: ti_inv_def ti_init_def)

lemma ti_inv_freeze: "ti_inv tinfo s \<Longrightarrow> ti_inv tinfo (ti_freeze s)"
  by (simp add: ti_inv_def ti_freeze_def)

lemma ti_overflow_empty:
  assumes "ti_inv tinfo s" "\<not> ti_frozen s"
  shows "ti_overflowNameToId s n = None"
proof (cases "ti_overflowNameToId s n")
  case (Some i)
  with assms have "length (ti_idToName s) \<le> i" "i < length (ti_names s)" "ti_overflowIdToName s = []"
    unfolding ti_inv_def by blast+
  then show ?thesis by simp
qed

lemma ti_known_iff:
  assumes inv: "ti_inv tinfo s"
  shows "ti_known s n = Some i \<longleftrightarrow> i < length (ti_names s) \<and> ti_names s ! i = n"
proof -
  have base: "ti_nameToId s n = Some j \<longleftrightarrow> j < length (ti_idToName s) \<and> ti_idToName s ! j = n" for j
    using inv unfolding ti_inv_def by blast
  have over: "ti_overflowNameToId s n = Some j \<longleftrightarrow>
      length (ti_idToName s) \<le> j \<and> j < length (ti_names s) \<and> ti_names s ! j = n" for j
    using inv unfolding ti_inv_def by blast
  have uniq: "j = k" if "j < length (ti_names s)" "k < length (ti_names s)"
      "ti_names s ! j = n" "ti_names s ! k = n" for j k
    using inv that unfolding ti_inv_def by (metis nth_eq_iff_index_eq)
  have mono: "j < length (ti_idToName s) \<Longrightarrow> ti_idToName s ! j = ti_names s ! j
      \<and> j < length (ti_names s)" for j
    by (simp add: nth_append)
  show ?thesis
  proof (cases "ti_nameToId s n")
    case None
    then have nb: "\<not> (i < length (ti_idToName s) \<and> ti_names s ! i = n)"
      using base [of i] mono by auto
    have ov: "ti_known s n = ti_overflowNameToId s n"
      using None ti_overflow_empty [OF inv] by (simp add: ti_known_def)
    show ?thesis unfolding ov over using nb by auto
  next
    case (Some k)
    then have k: "k < length (ti_names s)" "ti_names s ! k = n"
      using base [of k] mono [of k] by auto
    with Some uniq show ?thesis by (auto simp: ti_known_def)
  qed
qed

lemma ti_known_fresh:
  assumes "ti_inv tinfo s" "ti_known s n = None"
  shows "n \<notin> set (ti_names s)"
  using assms ti_known_iff [OF assms(1)] by (metis in_set_conv_nth option.distinct(1))

lemma ti_intern_known: "ti_known s n = Some i \<Longrightarrow> ti_internByName s n t = (i, s)"
  by (auto simp: ti_known_def ti_internByName_def split: option.splits if_splits)

lemma emplace_None: "m k = None \<Longrightarrow> emplace m k v = m(k \<mapsto> v)"
  by (simp add: emplace_def)

lemma ti_intern_new:
  assumes inv: "ti_inv tinfo s" and room: "0 < ti_room s" and new: "ti_known s n = None"
  shows "ti_internByName s n (tinfo n) =
    (length (ti_names s),
     if ti_frozen s
     then s\<lparr>ti_overflowNameToId := (ti_overflowNameToId s)(n \<mapsto> length (ti_names s)),
            ti_overflowIdToName := ti_overflowIdToName s @ [n],
            ti_overflowIndexToId := (ti_overflowIndexToId s)(tinfo n \<mapsto> length (ti_names s))\<rparr>
     else s\<lparr>ti_nameToId := (ti_nameToId s)(n \<mapsto> length (ti_names s)),
            ti_idToName := ti_idToName s @ [n],
            ti_indexToId := (ti_indexToId s)(tinfo n \<mapsto> length (ti_names s))\<rparr>)"
proof -
  have base: "ti_nameToId s n = None"
    using new by (auto simp: ti_known_def split: option.splits)
  have small: "u32 (length (ti_names s)) = length (ti_names s)"
    using room by (simp add: ti_room_def sentinel_defs)
  have idx: "ti_indexToId s (tinfo n) = None"
    using inv base unfolding ti_inv_def by (metis option.exhaust)
  show ?thesis
  proof (cases "ti_frozen s")
    case True
    have over: "ti_overflowNameToId s n = None"
      using new base True by (simp add: ti_known_def)
    have "ti_overflowIndexToId s (tinfo n) = None"
      using inv over unfolding ti_inv_def by (metis option.exhaust)
    with True base over small show ?thesis
      by (simp add: ti_internByName_def Let_def emplace_None)
  next
    case False
    with inv have "ti_overflowIdToName s = []" by (simp add: ti_inv_def)
    with False base idx small show ?thesis
      by (simp add: ti_internByName_def Let_def emplace_None)
  qed
qed

lemma ti_inv_intern:
  assumes inv: "ti_inv tinfo s" and inj: "inj tinfo" and room: "0 < ti_room s"
  shows "ti_inv tinfo (snd (ti_internByName s n (tinfo n)))"
proof (cases "ti_known s n")
  case (Some i)
  with inv show ?thesis by (simp add: ti_intern_known)
next
  case None
  have fresh: "n \<notin> set (ti_names s)" by (rule ti_known_fresh [OF inv None])
  have len: "length (ti_names s) < kInvalidTypeId" using room by (simp add: ti_room_def)
  have tn: "tinfo m = tinfo n \<longleftrightarrow> m = n" for m using inj by (auto dest: injD)
  have base: "ti_nameToId s n = None" "ti_overflowNameToId s n = None"
    using None ti_overflow_empty [OF inv] by (auto simp: ti_known_def split: option.splits if_splits)
  show ?thesis
  proof (cases "ti_frozen s")
    case True
    have eq: "snd (ti_internByName s n (tinfo n)) = s\<lparr>ti_overflowNameToId := (ti_overflowNameToId s)(n \<mapsto> length (ti_names s)),
            ti_overflowIdToName := ti_overflowIdToName s @ [n],
            ti_overflowIndexToId := (ti_overflowIndexToId s)(tinfo n \<mapsto> length (ti_names s))\<rparr>" (is "_ = ?s'")
      using True by (simp add: ti_intern_new [OF inv room None])
    have nm: "ti_overflowNameToId ?s' m = Some i \<longleftrightarrow>
           length (ti_idToName ?s') \<le> i \<and> i < length (ti_names ?s') \<and> ti_names ?s' ! i = m" for m i
    proof -
      have old: "ti_overflowNameToId s m = Some i \<longleftrightarrow>
          length (ti_idToName s) \<le> i \<and> i < length (ti_names s) \<and> ti_names s ! i = m"
        using inv unfolding ti_inv_def by blast
      have names: "ti_names ?s' = ti_names s @ [n]" by simp
      show ?thesis unfolding names using old fresh
        by (auto simp: nth_append less_Suc_eq in_set_conv_nth simp del: append_assoc)
    qed
    show ?thesis unfolding eq ti_inv_def
    proof (intro conjI)
      show "\<forall>m i. ti_overflowNameToId ?s' m = Some i \<longleftrightarrow>
          length (ti_idToName ?s') \<le> i \<and> i < length (ti_names ?s') \<and> ti_names ?s' ! i = m"
        using nm by blast
    qed (use inv True fresh len in \<open>auto simp: ti_inv_def tn\<close>)
  next
    case False
    then have ov: "ti_overflowIdToName s = []" using inv by (simp add: ti_inv_def)
    have eq: "snd (ti_internByName s n (tinfo n)) = s\<lparr>ti_nameToId := (ti_nameToId s)(n \<mapsto> length (ti_names s)),
            ti_idToName := ti_idToName s @ [n],
            ti_indexToId := (ti_indexToId s)(tinfo n \<mapsto> length (ti_names s))\<rparr>" (is "_ = ?s'")
      using False by (simp add: ti_intern_new [OF inv room None])
    have nm: "ti_nameToId ?s' m = Some i \<longleftrightarrow> i < length (ti_idToName ?s') \<and> ti_idToName ?s' ! i = m" for m i
    proof -
      have old: "ti_nameToId s m = Some i \<longleftrightarrow> i < length (ti_idToName s) \<and> ti_idToName s ! i = m"
        using inv unfolding ti_inv_def by blast
      show ?thesis using old fresh ov
        by (auto simp: nth_append less_Suc_eq in_set_conv_nth)
    qed
    have none: "ti_overflowNameToId s m = None" for m
      by (rule ti_overflow_empty [OF inv False])
    show ?thesis unfolding eq ti_inv_def
    proof (intro conjI)
      show "\<forall>m i. ti_nameToId ?s' m = Some i \<longleftrightarrow> i < length (ti_idToName ?s') \<and> ti_idToName ?s' ! i = m"
        using nm by blast
    qed (use inv none False fresh len ov in \<open>auto simp: ti_inv_def tn\<close>)
  qed
qed

lemma ti_frozen_intern [simp]: "ti_frozen (snd (ti_internByName s n t)) = ti_frozen s"
  by (auto simp: ti_internByName_def Let_def split: option.splits)

interpretation tin: interning "\<lambda>s n. ti_internByName s n (tinfo n)" ti_known ti_nameOf
    "\<lambda>s. inj tinfo \<and> ti_inv tinfo s" ti_room for tinfo
proof (unfold_locales, goal_cases)
  case (1 s k)
  then show ?case by (auto intro: ti_inv_intern)
next
  case (2 s k)
  show ?case
    by (auto simp: ti_room_def ti_internByName_def Let_def split: option.splits)
next
  case (3 s k)
  show ?case
    by (auto simp: ti_known_def ti_internByName_def Let_def split: option.splits)
next
  case (4 s k' k)
  then show ?case
    by (auto simp: ti_known_def ti_internByName_def Let_def split: option.splits)
next
  case (5 s k i)
  then show ?case by (simp add: ti_intern_known)
next
  case (6 s k i)
  then have "i < length (ti_names s)" "ti_names s ! i = k" using ti_known_iff [of tinfo s k i] by auto
  then show ?case by (auto simp: ti_nameOf_def nth_append)
qed

text \<open>\<open>lookupByTypeIndex\<close> on the type of a name finds the id of that name.\<close>

lemma ti_lookup_known:
  assumes "ti_inv tinfo s"
  shows "ti_lookupByTypeIndex s (tinfo n) = (case ti_known s n of Some i \<Rightarrow> i | None \<Rightarrow> kInvalidTypeId)"
proof -
  have i: "ti_indexToId s (tinfo n) = ti_nameToId s n"
    using assms unfolding ti_inv_def by (metis option.exhaust)
  have o: "ti_overflowIndexToId s (tinfo n) = ti_overflowNameToId s n"
    using assms unfolding ti_inv_def by (metis option.exhaust)
  show ?thesis
    using i o ti_overflow_empty [OF assms, of n]
    by (auto simp: ti_lookupByTypeIndex_def ti_known_def split: option.splits)
qed

subsection \<open>Runtime default names: \<^verbatim>\<open>DefaultsTable\<close>\<close>

type_synonym defaults_table = "NameId list"

definition dt_resize :: "nat \<Rightarrow> defaults_table" where
  "dt_resize typeCount = replicate typeCount kUnnamed"

text \<open>The precondition \<open>typeId < size()\<close> is an assertion; outside it the model leaves the table alone.\<close>

definition dt_setDefault :: "defaults_table \<Rightarrow> TypeId \<Rightarrow> NameId \<Rightarrow> defaults_table" where
  "dt_setDefault d typeId nameId = d[typeId := nameId]"

definition dt_getDefault :: "defaults_table \<Rightarrow> TypeId \<Rightarrow> NameId" where
  "dt_getDefault d typeId = (if length d \<le> typeId then kUnnamed else d ! typeId)"

definition dt_size :: "defaults_table \<Rightarrow> nat" where
  "dt_size d = length d"

lemma dt_get_set:
  "typeId < dt_size d \<Longrightarrow>
   dt_getDefault (dt_setDefault d typeId nameId) t = (if t = typeId then nameId else dt_getDefault d t)"
  by (auto simp: dt_getDefault_def dt_setDefault_def dt_size_def)

lemma dt_get_resize [simp]: "dt_getDefault (dt_resize n) t = kUnnamed"
  by (simp add: dt_getDefault_def dt_resize_def)

lemma dt_size_set [simp]: "dt_size (dt_setDefault d t n) = dt_size d"
  by (simp add: dt_size_def dt_setDefault_def)

subsection \<open>An injective numbering of names\<close>

text \<open>A concrete \<open>type_index\<close> per qualified name, for the concrete instances below.\<close>

primrec name_code :: "string \<Rightarrow> nat" where
  "name_code [] = 0"
| "name_code (c # cs) = of_char c + 1 + 257 * name_code cs"

lemma name_code_inj: "inj name_code"
proof (rule injI)
  fix a b :: string
  show "name_code a = name_code b \<Longrightarrow> a = b"
  proof (induction a arbitrary: b)
    case Nil
    then show ?case by (cases b) auto
  next
    case (Cons x xs)
    then obtain y ys where b: "b = y # ys" by (cases b) auto
    have lt: "(of_char x :: nat) < 256" "(of_char y :: nat) < 256" by simp_all
    have eq: "of_char x + 1 + 257 * name_code xs = of_char y + 1 + 257 * name_code ys" using Cons.prems by (simp add: b)
    have "(of_char x + 1 + 257 * name_code xs) mod 257 = of_char x + 1"
      "(of_char y + 1 + 257 * name_code ys) mod 257 = of_char y + 1" using lt by simp_all
    with eq have same: "(of_char x :: nat) = of_char y" by simp
    then have "name_code xs = name_code ys" using eq by simp
    then show ?case using Cons.IH same by (simp add: b)
  qed
qed

end
