(* ===== verification/Type_Index.thy ===== *)
theory Type_Index
  imports Interning
begin

text \<open>
  The two-level candidate index (\<^verbatim>\<open>TypeIndex.hpp\<close>, \<^verbatim>\<open>NameTable.hpp\<close>) and the choice of one
  descriptor in \<^verbatim>\<open>Registry::resolve\<close>. A \<open>flat_map\<close> is an association list with ascending
  keys. The abstract specification is \<open>select_spec\<close>: among the candidates that were
  registered for a type and a name, the one with the highest priority, provided it is
  unique; the index with its precomputed heads, ambiguity bits and single-candidate table
  refines it in every state that the registry can publish.
\<close>

subsection \<open>\<open>std::flat_map\<close>\<close>

fun fm_upsert :: "nat \<Rightarrow> 'v \<Rightarrow> ('v \<Rightarrow> 'v) \<Rightarrow> (nat \<times> 'v) list \<Rightarrow> (nat \<times> 'v) list" where
  "fm_upsert k d f [] = [(k, f d)]"
| "fm_upsert k d f ((k', v) # xs) =
     (if k < k' then (k, f d) # (k', v) # xs
      else if k = k' then (k', f v) # xs
      else (k', v) # fm_upsert k d f xs)"

definition fm_sorted :: "(nat \<times> 'v) list \<Rightarrow> bool" where
  "fm_sorted xs \<longleftrightarrow> sorted_wrt (<) (map fst xs)"

lemma fm_sorted_Nil [simp]: "fm_sorted []"
  by (simp add: fm_sorted_def)

lemma fm_upsert_keys: "set (map fst (fm_upsert k d f xs)) = insert k (fst ` set xs)"
  by (induction k d f xs rule: fm_upsert.induct) auto

lemma fm_upsert_sorted: "fm_sorted xs \<Longrightarrow> fm_sorted (fm_upsert k d f xs)"
proof (induction k d f xs rule: fm_upsert.induct)
  case (1 k d f)
  then show ?case by (simp add: fm_sorted_def)
next
  case (2 k d f k' v xs)
  have tail: "fm_sorted xs" and lt: "\<forall>x \<in> fst ` set xs. k' < x"
    using "2.prems" by (auto simp: fm_sorted_def)
  show ?case
  proof (cases "k < k' \<or> k = k'")
    case True
    then show ?thesis using "2.prems" lt by (auto simp: fm_sorted_def)
  next
    case False
    then have "fm_sorted (fm_upsert k d f xs)" using "2.IH" tail by auto
    moreover have "\<forall>x \<in> set (map fst (fm_upsert k d f xs)). k' < x"
      using lt False unfolding fm_upsert_keys by auto
    ultimately show ?thesis using False by (auto simp: fm_sorted_def)
  qed
qed

lemma map_of_fm_upsert:
  "fm_sorted xs \<Longrightarrow>
   map_of (fm_upsert k d f xs) = (map_of xs)(k \<mapsto> f (case map_of xs k of None \<Rightarrow> d | Some v \<Rightarrow> v))"
proof (induction k d f xs rule: fm_upsert.induct)
  case (1 k d f)
  then show ?case by simp
next
  case (2 k d f k' v xs)
  have "k < k' \<Longrightarrow> map_of xs k = None"
    using "2.prems" by (force simp: fm_sorted_def map_of_eq_None_iff)
  with 2 show ?case by (auto simp: fm_sorted_def fun_upd_twist)
qed

subsection \<open>State\<close>

record name_entry =
  ne_candidates :: "DescriptorId list"
  ne_head :: DescriptorId
  ne_ambiguous :: bool

definition ne_default :: name_entry where
  "ne_default = \<lparr>ne_candidates = [], ne_head = kInvalidDescriptorId, ne_ambiguous = False\<rparr>"

type_synonym name_table = "(NameId \<times> name_entry) list"

record tindex =
  tix_tables :: "name_table option list"
  tix_pending :: "(NameId \<times> DescriptorId) list list"
  tix_finalized :: bool
  tix_ambiguous :: "NameId list option list"
  tix_singleUnnamed :: "DescriptorId list"

definition tix_init :: tindex where
  "tix_init = \<lparr>tix_tables = [], tix_pending = [], tix_finalized = False,
     tix_ambiguous = [], tix_singleUnnamed = []\<rparr>"

subsection \<open>Operations\<close>

definition tix_ensureTable :: "TypeId \<Rightarrow> name_table option list \<Rightarrow> name_table option list" where
  "tix_ensureTable typeId ts =
     (let ts' = grow_to (typeId + 1) None ts
      in if ts' ! typeId = None then ts'[typeId := Some []] else ts')"

definition ne_push :: "DescriptorId list \<Rightarrow> name_entry \<Rightarrow> name_entry" where
  "ne_push ds e = e\<lparr>ne_candidates := ne_candidates e @ ds\<rparr>"

definition tix_insertCandidate :: "tindex \<Rightarrow> TypeId \<Rightarrow> NameId \<Rightarrow> DescriptorId \<Rightarrow> tindex" where
  "tix_insertCandidate s typeId nameId descId =
     (if \<not> tix_finalized s then
        (let p = grow_to (typeId + 1) [] (tix_pending s)
         in s\<lparr>tix_pending := p[typeId := p ! typeId @ [(nameId, descId)]]\<rparr>)
      else
        (let ts = tix_ensureTable typeId (tix_tables s)
         in s\<lparr>tix_tables := ts[typeId := Some (fm_upsert nameId ne_default (ne_push [descId])
                                              (the (ts ! typeId)))]\<rparr>))"

definition tix_entryFor :: "tindex \<Rightarrow> TypeId \<Rightarrow> NameId \<Rightarrow> name_entry option" where
  "tix_entryFor s typeId nameId =
     (if length (tix_tables s) \<le> typeId then None
      else case tix_tables s ! typeId of None \<Rightarrow> None | Some tbl \<Rightarrow> map_of tbl nameId)"

definition tix_candidatesFor :: "tindex \<Rightarrow> TypeId \<Rightarrow> NameId \<Rightarrow> DescriptorId list option" where
  "tix_candidatesFor s typeId nameId = map_option ne_candidates (tix_entryFor s typeId nameId)"

definition tix_tableFor :: "tindex \<Rightarrow> TypeId \<Rightarrow> name_table option" where
  "tix_tableFor s typeId =
     (if length (tix_tables s) \<le> typeId then None else tix_tables s ! typeId)"

definition tix_headFor :: "tindex \<Rightarrow> TypeId \<Rightarrow> NameId \<Rightarrow> DescriptorId \<times> bool" where
  "tix_headFor s typeId nameId =
     (case tix_entryFor s typeId nameId of
        None \<Rightarrow> (kInvalidDescriptorId, False)
      | Some e \<Rightarrow> (ne_head e, ne_ambiguous e))"

definition tix_updateSingleUnnamed :: "tindex \<Rightarrow> TypeId \<Rightarrow> tindex" where
  "tix_updateSingleUnnamed s typeId =
     (let su = grow_to (typeId + 1) kInvalidDescriptorId (tix_singleUnnamed s)
      in s\<lparr>tix_singleUnnamed := su[typeId :=
            (case tix_candidatesFor s typeId kUnnamed of
               Some [c] \<Rightarrow> c | _ \<Rightarrow> kInvalidDescriptorId)]\<rparr>)"

text \<open>
  \<open>sortAllCandidates\<close>: the pending pairs of a type are sorted by name and pushed group by
  group; then every candidate vector is sorted and the derived state recomputed.
\<close>

function (sequential) tix_groupInsert :: "(NameId \<times> DescriptorId) list \<Rightarrow> name_table \<Rightarrow> name_table" where
  "tix_groupInsert [] tbl = tbl"
| "tix_groupInsert ((cur, d) # rest) tbl =
     tix_groupInsert (dropWhile (\<lambda>p. fst p = cur) rest)
       (fm_upsert cur ne_default (ne_push (d # map snd (takeWhile (\<lambda>p. fst p = cur) rest))) tbl)"
  by pat_completeness auto
termination
  by (relation "measure (\<lambda>(p, t). length p)") (auto simp: le_imp_less_Suc length_dropWhile_le)

definition tix_flushOne :: "name_table option list \<Rightarrow> TypeId \<Rightarrow> (NameId \<times> DescriptorId) list
    \<Rightarrow> name_table option list" where
  "tix_flushOne ts i pend =
     (if pend = [] then ts
      else (let ts' = tix_ensureTable i ts
            in ts'[i := Some (tix_groupInsert (sort_key fst pend) (the (ts' ! i)))]))"

fun tix_flush :: "name_table option list \<Rightarrow> TypeId \<Rightarrow> (NameId \<times> DescriptorId) list list
    \<Rightarrow> name_table option list" where
  "tix_flush ts i [] = ts"
| "tix_flush ts i (pend # ps) = tix_flush (tix_flushOne ts i pend) (Suc i) ps"

definition ne_finish :: "(DescriptorId \<Rightarrow> int) \<Rightarrow> name_entry \<Rightarrow> name_entry" where
  "ne_finish priorityOf e =
     (let vec = std_sort_desc priorityOf (ne_candidates e);
          ambig = (2 \<le> length vec \<and> priorityOf (vec ! 0) = priorityOf (vec ! 1))
      in \<lparr>ne_candidates = vec,
          ne_head = (if vec = [] then kInvalidDescriptorId else vec ! 0),
          ne_ambiguous = ambig\<rparr>)"

definition tix_ambiguousNames :: "name_table option \<Rightarrow> NameId list option" where
  "tix_ambiguousNames t =
     (case t of None \<Rightarrow> None
      | Some tbl \<Rightarrow> (let ns = map fst (filter (\<lambda>(n, e). ne_ambiguous e) tbl)
                     in if ns = [] then None else Some ns))"

definition tix_singleOf :: "name_table option \<Rightarrow> DescriptorId" where
  "tix_singleOf t =
     (case t of None \<Rightarrow> kInvalidDescriptorId
      | Some tbl \<Rightarrow>
          (case map_of tbl kUnnamed of
             Some e \<Rightarrow> if length (ne_candidates e) = 1 \<and> \<not> ne_ambiguous e
                       then ne_candidates e ! 0 else kInvalidDescriptorId
           | None \<Rightarrow> kInvalidDescriptorId))"

definition tix_sortAllCandidates :: "(DescriptorId \<Rightarrow> int) \<Rightarrow> tindex \<Rightarrow> tindex" where
  "tix_sortAllCandidates priorityOf s =
     (let ts = tix_flush (tix_tables s) 0 (tix_pending s);
          ts' = map (map_option (map (\<lambda>(n, e). (n, ne_finish priorityOf e)))) ts
      in \<lparr>tix_tables = ts', tix_pending = [], tix_finalized = True,
          tix_ambiguous = map tix_ambiguousNames ts',
          tix_singleUnnamed = map tix_singleOf ts'\<rparr>)"

text \<open>\<open>std::binary_search\<close> on an ascending vector.\<close>

function std_binary_search :: "nat list \<Rightarrow> nat \<Rightarrow> bool" where
  "std_binary_search v x =
     (if v = [] then False
      else (let mid = length v div 2
            in if v ! mid < x then std_binary_search (drop (Suc mid) v) x
               else if x < v ! mid then std_binary_search (take mid v) x
               else True))"
  by pat_completeness auto
termination
  by (relation "measure (\<lambda>(v, x). length v)") auto

declare std_binary_search.simps [simp del]

definition tix_isAmbiguousFor :: "tindex \<Rightarrow> TypeId \<Rightarrow> NameId \<Rightarrow> bool" where
  "tix_isAmbiguousFor s typeId nameId =
     (if length (tix_ambiguous s) \<le> typeId then False
      else case tix_ambiguous s ! typeId of
        None \<Rightarrow> False | Some v \<Rightarrow> std_binary_search v nameId)"

definition tix_singleUnnamedCandidate :: "tindex \<Rightarrow> TypeId \<Rightarrow> DescriptorId" where
  "tix_singleUnnamedCandidate s typeId =
     (if length (tix_singleUnnamed s) \<le> typeId then kInvalidDescriptorId
      else tix_singleUnnamed s ! typeId)"

text \<open>
  The choice of a descriptor in \<^verbatim>\<open>Registry::resolve\<close>: the single-candidate fast path, the
  precomputed head, and the fallback on the candidate vector for entries that a post-start
  insertion has created.
\<close>

definition resolve_select :: "tindex \<Rightarrow> (DescriptorId \<Rightarrow> int) \<Rightarrow> TypeId \<Rightarrow> NameId \<Rightarrow> ctr_error + DescriptorId" where
  "resolve_select s priorityOf typeId effectiveNameId =
     (if effectiveNameId = kUnnamed \<and> tix_singleUnnamedCandidate s typeId \<noteq> kInvalidDescriptorId
      then Inr (tix_singleUnnamedCandidate s typeId)
      else
        (let entry = tix_entryFor s typeId effectiveNameId;
             head = (case entry of None \<Rightarrow> kInvalidDescriptorId | Some e \<Rightarrow> ne_head e)
         in if head = kInvalidDescriptorId then
              (case map_option ne_candidates entry of
                 None \<Rightarrow> Inl (ResolutionError NoCandidate)
               | Some cs \<Rightarrow>
                   if cs = [] then Inl (ResolutionError NoCandidate)
                   else if 2 \<le> length cs \<and> priorityOf (cs ! 0) = priorityOf (cs ! 1)
                   then Inl (ResolutionError AmbiguousCandidates)
                   else Inr (cs ! 0))
            else if ne_ambiguous (the entry) then Inl (ResolutionError AmbiguousCandidates)
            else Inr head))"

subsection \<open>Specification\<close>

definition select_spec :: "(DescriptorId \<Rightarrow> int) \<Rightarrow> DescriptorId list \<Rightarrow> ctr_error + DescriptorId" where
  "select_spec priorityOf cs =
     (if cs = [] then Inl (ResolutionError NoCandidate)
      else (let tops = filter (\<lambda>d. \<forall>d' \<in> set cs. priorityOf d' \<le> priorityOf d) cs
            in if length tops = 1 then Inr (hd tops)
               else Inl (ResolutionError AmbiguousCandidates)))"

lemma select_spec_perm:
  assumes "mset cs = mset cs'"
  shows "select_spec p cs = select_spec p cs'"
proof -
  have set: "set cs = set cs'" using assms by (metis set_mset_mset)
  define tops where "tops xs = filter (\<lambda>d. \<forall>d' \<in> set cs. p d' \<le> p d) xs" for xs
  have m: "mset (tops cs) = mset (tops cs')"
    using assms by (simp add: tops_def mset_filter)
  have len: "length (tops cs) = length (tops cs')" using m by (metis size_mset)
  have hd: "length (tops cs) = 1 \<Longrightarrow> hd (tops cs) = hd (tops cs')"
    using m by (metis (no_types) Cons_eq_append_conv One_nat_def length_0_conv length_Suc_conv list.sel(1)
        len mset_single_iff mset.simps(1) mset.simps(2))
  have empty: "cs = [] \<longleftrightarrow> cs' = []" using assms by auto
  show ?thesis
    unfolding select_spec_def Let_def set [symmetric] tops_def [symmetric]
    using len hd empty by simp
qed

lemma select_spec_desc:
  assumes "desc_by p (c # cs)"
  shows "select_spec p (c # cs) =
    (if cs \<noteq> [] \<and> p c = p (hd cs) then Inl (ResolutionError AmbiguousCandidates) else Inr c)"
proof -
  let ?P = "\<lambda>d. \<forall>d' \<in> set (c # cs). p d' \<le> p d"
  have top: "?P d \<longleftrightarrow> p d = p c" if "d \<in> set cs" for d
    using assms that by fastforce
  have "filter ?P (c # cs) = c # filter ?P cs"
    using assms by auto
  moreover have "filter ?P cs = filter (\<lambda>d. p d = p c) cs"
    by (rule filter_cong) (use top in auto)
  moreover have "filter (\<lambda>d. p d = p c) cs = [] \<longleftrightarrow> \<not> (cs \<noteq> [] \<and> p c = p (hd cs))"
  proof (cases cs)
    case Nil
    then show ?thesis by simp
  next
    case (Cons d ds)
    have "\<And>x. x \<in> set ds \<Longrightarrow> p x \<le> p d" "p d \<le> p c" using assms Cons by auto
    then show ?thesis unfolding Cons
      by (cases "p d = p c") (simp, fastforce simp: filter_empty_conv)
  qed
  ultimately show ?thesis
    by (simp add: select_spec_def Let_def)
qed

subsection \<open>The index as a table of candidate lists\<close>

definition tbl_at :: "name_table option list \<Rightarrow> TypeId \<Rightarrow> name_table option" where
  "tbl_at ts t = (if t < length ts then ts ! t else None)"

definition pend_at :: "(NameId \<times> DescriptorId) list list \<Rightarrow> TypeId \<Rightarrow> NameId \<Rightarrow> DescriptorId list" where
  "pend_at ps t n = (if t < length ps then map snd (filter (\<lambda>p. fst p = n) (ps ! t)) else [])"

definition cands_in :: "name_table option \<Rightarrow> NameId \<Rightarrow> DescriptorId list" where
  "cands_in t n = (case t of None \<Rightarrow> [] | Some tbl \<Rightarrow>
     (case map_of tbl n of None \<Rightarrow> [] | Some e \<Rightarrow> ne_candidates e))"

definition tix_cands :: "tindex \<Rightarrow> TypeId \<Rightarrow> NameId \<Rightarrow> DescriptorId list" where
  "tix_cands s t n = cands_in (tbl_at (tix_tables s) t) n @ pend_at (tix_pending s) t n"

lemma tix_entryFor_tbl:
  "tix_entryFor s t n = (case tbl_at (tix_tables s) t of None \<Rightarrow> None | Some tbl \<Rightarrow> map_of tbl n)"
  by (auto simp: tix_entryFor_def tbl_at_def)

text \<open>Well-formed index: ascending keys, no empty entry, only valid descriptors.\<close>

definition tix_wf :: "tindex \<Rightarrow> bool" where
  "tix_wf s \<longleftrightarrow>
     (\<forall>t tbl. tbl_at (tix_tables s) t = Some tbl \<longrightarrow>
        fm_sorted tbl \<and> (\<forall>n e. map_of tbl n = Some e \<longrightarrow> ne_candidates e \<noteq> []))
     \<and> (tix_finalized s \<longrightarrow> tix_pending s = [])
     \<and> (\<forall>t n. kInvalidDescriptorId \<notin> set (tix_cands s t n))"

text \<open>An index that can be queried: sorted vectors and truthful derived state.\<close>

definition ne_truthful :: "(DescriptorId \<Rightarrow> int) \<Rightarrow> name_entry \<Rightarrow> bool" where
  "ne_truthful p e \<longleftrightarrow>
     desc_by p (ne_candidates e)
     \<and> (ne_head e \<noteq> kInvalidDescriptorId \<longrightarrow>
          ne_head e = ne_candidates e ! 0
          \<and> ne_ambiguous e = (2 \<le> length (ne_candidates e)
                              \<and> p (ne_candidates e ! 0) = p (ne_candidates e ! 1)))"

definition tix_ready :: "(DescriptorId \<Rightarrow> int) \<Rightarrow> tindex \<Rightarrow> bool" where
  "tix_ready p s \<longleftrightarrow>
     tix_wf s \<and> tix_finalized s
     \<and> (\<forall>t n e. tix_entryFor s t n = Some e \<longrightarrow> ne_truthful p e)
     \<and> (\<forall>t. tix_singleUnnamedCandidate s t \<noteq> kInvalidDescriptorId \<longrightarrow>
           tix_cands s t kUnnamed = [tix_singleUnnamedCandidate s t])"

lemma tix_ready_cands:
  assumes "tix_ready p s"
  shows "tix_cands s t n = (case tix_entryFor s t n of None \<Rightarrow> [] | Some e \<Rightarrow> ne_candidates e)"
  using assms
  by (auto simp: tix_ready_def tix_wf_def tix_cands_def cands_in_def pend_at_def tix_entryFor_tbl
      split: option.splits)

lemma select_spec_sorted:
  assumes "cs \<noteq> []" "desc_by p cs"
  shows "select_spec p cs = (if 2 \<le> length cs \<and> p (cs ! 0) = p (cs ! 1)
           then Inl (ResolutionError AmbiguousCandidates) else Inr (cs ! 0))"
proof -
  obtain c cs' where cs: "cs = c # cs'" using assms(1) by (cases cs) auto
  have "cs' \<noteq> [] \<and> p c = p (hd cs') \<longleftrightarrow> 2 \<le> length cs \<and> p (cs ! 0) = p (cs ! 1)"
    by (cases cs') (auto simp: cs)
  then show ?thesis using select_spec_desc [of p c cs'] assms(2) by (simp add: cs)
qed

lemma resolve_select_refines:
  assumes ready: "tix_ready p s"
  shows "resolve_select s p t n = select_spec p (tix_cands s t n)"
proof (cases "n = kUnnamed \<and> tix_singleUnnamedCandidate s t \<noteq> kInvalidDescriptorId")
  case True
  then have "tix_cands s t n = [tix_singleUnnamedCandidate s t]"
    using ready by (auto simp: tix_ready_def)
  then show ?thesis using True by (simp add: resolve_select_def select_spec_def)
next
  case False
  show ?thesis
  proof (cases "tix_entryFor s t n")
    case None
    then have "tix_cands s t n = []" using tix_ready_cands [OF ready] by simp
    then show ?thesis using False None by (simp add: resolve_select_def select_spec_def Let_def)
  next
    case (Some e)
    have cs: "tix_cands s t n = ne_candidates e" using tix_ready_cands [OF ready] Some by simp
    have truth: "ne_truthful p e" using ready Some by (auto simp: tix_ready_def)
    have ne: "ne_candidates e \<noteq> []"
      using ready Some by (auto simp: tix_ready_def tix_wf_def tix_entryFor_tbl split: option.splits)
    have "select_spec p (ne_candidates e) =
        (if 2 \<le> length (ne_candidates e) \<and> p (ne_candidates e ! 0) = p (ne_candidates e ! 1)
         then Inl (ResolutionError AmbiguousCandidates) else Inr (ne_candidates e ! 0))"
      using ne truth by (intro select_spec_sorted) (auto simp: ne_truthful_def)
    then show ?thesis using False Some cs truth ne
      by (auto simp: resolve_select_def Let_def ne_truthful_def)
  qed
qed

subsection \<open>Insertion and sorting keep the candidates\<close>

lemma tbl_at_ensureTable:
  "tbl_at (tix_ensureTable i ts) t =
     (if t = i then Some (case tbl_at ts i of None \<Rightarrow> [] | Some tbl \<Rightarrow> tbl) else tbl_at ts t)"
  by (auto simp: tix_ensureTable_def tbl_at_def Let_def grow_to_nth nth_list_update split: option.splits)

lemma length_ensureTable: "i < length (tix_ensureTable i ts)"
  by (simp add: tix_ensureTable_def Let_def less_max_iff_disj)

lemma tbl_at_update: "i < length ts \<Longrightarrow> tbl_at (ts[i := x]) t = (if t = i then x else tbl_at ts t)"
  by (auto simp: tbl_at_def nth_list_update)

lemma the_nth_ensureTable:
  "the (tix_ensureTable i ts ! i) = (case tbl_at ts i of None \<Rightarrow> [] | Some tbl \<Rightarrow> tbl)"
  using tbl_at_ensureTable [of i ts i] length_ensureTable [of i ts] by (simp add: tbl_at_def)

lemma ne_push_simps [simp]:
  "ne_candidates (ne_push ds e) = ne_candidates e @ ds"
  "ne_head (ne_push ds e) = ne_head e"
  "ne_ambiguous (ne_push ds e) = ne_ambiguous e"
  "ne_push ds (ne_push ds' e) = ne_push (ds' @ ds) e"
  by (simp_all add: ne_push_def)

lemma ne_push_Nil [simp]: "ne_push [] e = e"
  by (simp add: ne_push_def)

lemma groupInsert_sorted: "fm_sorted tbl \<Longrightarrow> fm_sorted (tix_groupInsert pend tbl)"
  by (induction pend tbl rule: tix_groupInsert.induct) (auto simp: fm_upsert_sorted)

lemma filter_group:
  "map snd (filter (\<lambda>p. fst p = n) ((cur, d) # rest)) =
     (if n = cur then d # map snd (takeWhile (\<lambda>p. fst p = cur) rest) else [])
     @ map snd (filter (\<lambda>p. fst p = n) (dropWhile (\<lambda>p. fst p = cur) rest))"
proof -
  let ?tw = "takeWhile (\<lambda>p. fst p = cur) rest" and ?dw = "dropWhile (\<lambda>p. fst p = cur) rest"
  have "filter (\<lambda>p. fst p = n) rest = filter (\<lambda>p. fst p = n) ?tw @ filter (\<lambda>p. fst p = n) ?dw"
    by (metis filter_append takeWhile_dropWhile_id)
  moreover have "filter (\<lambda>p. fst p = n) ?tw = (if n = cur then ?tw else [])"
    by (auto simp: filter_empty_conv filter_id_conv dest: set_takeWhileD)
  ultimately show ?thesis by auto
qed

lemma map_of_groupInsert:
  assumes "fm_sorted tbl"
  shows "map_of (tix_groupInsert pend tbl) n =
    (let ds = map snd (filter (\<lambda>p. fst p = n) pend)
     in if ds = [] then map_of tbl n
        else Some (ne_push ds (case map_of tbl n of None \<Rightarrow> ne_default | Some e \<Rightarrow> e)))"
  using assms
proof (induction pend tbl rule: tix_groupInsert.induct)
  case (1 tbl)
  then show ?case by simp
next
  case (2 cur d rest tbl)
  let ?g = "d # map snd (takeWhile (\<lambda>p. fst p = cur) rest)"
  let ?tbl = "fm_upsert cur ne_default (ne_push ?g) tbl"
  have upd: "map_of ?tbl = (map_of tbl)(cur \<mapsto> ne_push ?g (case map_of tbl cur of None \<Rightarrow> ne_default | Some e \<Rightarrow> e))"
    using "2.prems" by (rule map_of_fm_upsert)
  have "fm_sorted ?tbl" using "2.prems" by (rule fm_upsert_sorted)
  from "2.IH" [OF this] show ?case
    unfolding filter_group by (auto simp: upd Let_def)
qed

lemma tbl_at_flushOne:
  "tbl_at (tix_flushOne ts i pend) t =
     (if t = i \<and> pend \<noteq> []
      then Some (tix_groupInsert (sort_key fst pend) (case tbl_at ts i of None \<Rightarrow> [] | Some tbl \<Rightarrow> tbl))
      else tbl_at ts t)"
  by (auto simp: tix_flushOne_def Let_def tbl_at_update length_ensureTable the_nth_ensureTable tbl_at_ensureTable)

lemma tbl_at_flush:
  "tbl_at (tix_flush ts i ps) t =
     (if i \<le> t \<and> t < i + length ps \<and> ps ! (t - i) \<noteq> []
      then Some (tix_groupInsert (sort_key fst (ps ! (t - i))) (case tbl_at ts t of None \<Rightarrow> [] | Some tbl \<Rightarrow> tbl))
      else tbl_at ts t)"
proof (induction ts i ps rule: tix_flush.induct)
  case (1 ts i)
  then show ?case by auto
next
  case (2 ts i pend ps)
  show ?case
  proof (cases "t = i")
    case True
    then show ?thesis using 2 by (simp add: tbl_at_flushOne)
  next
    case False
    then have "Suc i \<le> t \<Longrightarrow> (pend # ps) ! (t - i) = ps ! (t - Suc i)"
      by (simp add: nth_Cons')
    then show ?thesis using False 2 by (auto simp: tbl_at_flushOne)
  qed
qed

lemma cands_groupInsert:
  assumes "fm_sorted tbl"
  shows "cands_in (Some (tix_groupInsert pend tbl)) n =
    cands_in (Some tbl) n @ map snd (filter (\<lambda>p. fst p = n) pend)"
  by (auto simp: cands_in_def map_of_groupInsert [OF assms] Let_def ne_default_def split: option.splits)

lemma wf_sorted_tbl: "tix_wf s \<Longrightarrow> fm_sorted (case tbl_at (tix_tables s) t of None \<Rightarrow> [] | Some tbl \<Rightarrow> tbl)"
  by (auto simp: tix_wf_def split: option.splits)

lemma cands_case_Nil: "cands_in (Some (case t of None \<Rightarrow> [] | Some tbl \<Rightarrow> tbl)) n = cands_in t n"
  by (simp add: cands_in_def split: option.splits)

lemma flush_cands:
  assumes "tix_wf s"
  shows "cands_in (tbl_at (tix_flush (tix_tables s) 0 (tix_pending s)) t) n = tix_cands s t n"
proof (cases "t < length (tix_pending s) \<and> tix_pending s ! t \<noteq> []")
  case True
  then show ?thesis
    by (simp add: tbl_at_flush cands_groupInsert wf_sorted_tbl [OF assms] cands_case_Nil
        tix_cands_def pend_at_def sort_key_stable)
next
  case False
  then show ?thesis by (auto simp: tbl_at_flush tix_cands_def pend_at_def)
qed

lemma flush_table_ok:
  assumes wf: "tix_wf s" and tbl: "tbl_at (tix_flush (tix_tables s) 0 (tix_pending s)) t = Some tbl"
  shows "fm_sorted tbl" "map_of tbl n = Some e \<Longrightarrow> ne_candidates e \<noteq> []"
proof -
  let ?old = "case tbl_at (tix_tables s) t of None \<Rightarrow> [] | Some tbl \<Rightarrow> tbl"
  have old: "fm_sorted ?old" by (rule wf_sorted_tbl [OF wf])
  have ne: "map_of ?old m = Some e' \<Longrightarrow> ne_candidates e' \<noteq> []" for m e'
    using wf by (auto simp: tix_wf_def split: option.splits)
  consider "tbl = ?old" | pend where "tbl = tix_groupInsert pend ?old"
    using tbl by (auto simp: tbl_at_flush split: if_splits)
  then show "fm_sorted tbl" "map_of tbl n = Some e \<Longrightarrow> ne_candidates e \<noteq> []"
    using ne [of n] old
    by (cases; auto simp: groupInsert_sorted map_of_groupInsert [OF old] Let_def
        split: if_splits option.splits)+
qed

lemma map_of_finish: "map_of (map (\<lambda>(n, e). (n, f e)) tbl) n = map_option f (map_of tbl n)"
  by (induction tbl) auto

lemma fm_sorted_finish: "fm_sorted (map (\<lambda>(n, e). (n, f e)) tbl) = fm_sorted tbl"
proof -
  have "map fst (map (\<lambda>(n, e). (n, f e)) tbl) = map fst tbl" by (induction tbl) auto
  then show ?thesis by (simp only: fm_sorted_def)
qed

lemma tbl_at_map: "tbl_at (map f ts) t = (if t < length ts then f (ts ! t) else None)"
  by (simp add: tbl_at_def)

lemma sortAll_entry:
  "tix_entryFor (tix_sortAllCandidates p s) t n =
     (case tbl_at (tix_flush (tix_tables s) 0 (tix_pending s)) t of
        None \<Rightarrow> None | Some tbl \<Rightarrow> map_option (ne_finish p) (map_of tbl n))"
  by (auto simp: tix_entryFor_tbl tix_sortAllCandidates_def Let_def tbl_at_def map_of_finish
      split: option.splits)

lemma ne_finish_candidates [simp]: "ne_candidates (ne_finish p e) = std_sort_desc p (ne_candidates e)"
  by (simp add: ne_finish_def Let_def)

lemma ne_finish_head: "ne_candidates e \<noteq> [] \<Longrightarrow> ne_head (ne_finish p e) \<in> set (ne_candidates e)"
  using nth_mem [of 0 "std_sort_desc p (ne_candidates e)"] by (simp add: ne_finish_def Let_def)

lemma ne_finish_truthful: "ne_truthful p (ne_finish p e)"
  using std_sort_desc_desc [of p "ne_candidates e"]
  by (auto simp: ne_truthful_def ne_finish_def Let_def)

lemma cands_in_entry: "cands_in (tbl_at (tix_tables s) t) n =
    (case tix_entryFor s t n of None \<Rightarrow> [] | Some e \<Rightarrow> ne_candidates e)"
  by (simp add: cands_in_def tix_entryFor_tbl split: option.splits)

lemma sortAll_cands:
  assumes "tix_wf s"
  shows "tix_cands (tix_sortAllCandidates p s) t n = std_sort_desc p (tix_cands s t n)"
proof -
  have "pend_at (tix_pending (tix_sortAllCandidates p s)) t n = []"
    by (simp add: pend_at_def tix_sortAllCandidates_def Let_def)
  then have "tix_cands (tix_sortAllCandidates p s) t n =
      std_sort_desc p (cands_in (tbl_at (tix_flush (tix_tables s) 0 (tix_pending s)) t) n)"
    unfolding tix_cands_def cands_in_entry sortAll_entry
    by (cases "tbl_at (tix_flush (tix_tables s) 0 (tix_pending s)) t")
       (simp_all add: cands_in_def split: option.split)
  then show ?thesis by (simp add: flush_cands [OF assms])
qed

lemma sortAll_single:
  "tix_singleUnnamedCandidate (tix_sortAllCandidates p s) t \<noteq> kInvalidDescriptorId \<Longrightarrow>
   tix_cands (tix_sortAllCandidates p s) t kUnnamed
     = [tix_singleUnnamedCandidate (tix_sortAllCandidates p s) t]"
  by (auto simp: tix_singleUnnamedCandidate_def tix_sortAllCandidates_def Let_def tix_singleOf_def
      tix_cands_def cands_in_def tbl_at_def pend_at_def length_Suc_conv split: option.splits if_splits)

lemma sortAll_wf:
  assumes wf: "tix_wf s"
  shows "tix_wf (tix_sortAllCandidates p s)"
proof -
  let ?ts = "tix_flush (tix_tables s) 0 (tix_pending s)"
  have "fm_sorted tbl \<and> (\<forall>n e. map_of tbl n = Some e \<longrightarrow> ne_candidates e \<noteq> [])"
    if at: "tbl_at (tix_tables (tix_sortAllCandidates p s)) t = Some tbl" for t tbl
  proof -
    obtain tbl0 where t0: "tbl_at ?ts t = Some tbl0" "tbl = map (\<lambda>(n, e). (n, ne_finish p e)) tbl0"
      using at by (auto simp: tix_sortAllCandidates_def Let_def tbl_at_def split: if_splits)
    show ?thesis
      using flush_table_ok [OF wf t0(1)] by (auto simp: t0(2) fm_sorted_finish map_of_finish)
  qed
  moreover have "kInvalidDescriptorId \<notin> set (tix_cands (tix_sortAllCandidates p s) t n)" for t n
    using wf by (simp add: sortAll_cands tix_wf_def)
  moreover have "tix_pending (tix_sortAllCandidates p s) = []"
    by (simp add: tix_sortAllCandidates_def Let_def)
  ultimately show ?thesis unfolding tix_wf_def by blast
qed

lemma sortAll_ready:
  assumes "tix_wf s"
  shows "tix_ready p (tix_sortAllCandidates p s)"
proof -
  have "ne_truthful p e" if "tix_entryFor (tix_sortAllCandidates p s) t n = Some e" for t n e
    using that by (auto simp: sortAll_entry ne_finish_truthful split: option.splits)
  moreover have "tix_finalized (tix_sortAllCandidates p s)"
    by (simp add: tix_sortAllCandidates_def Let_def)
  ultimately show ?thesis
    unfolding tix_ready_def using sortAll_wf [OF assms] sortAll_single by blast
qed

lemma insert_cands:
  assumes wf: "tix_wf s"
  shows "tix_cands (tix_insertCandidate s t n d) t' n' =
    tix_cands s t' n' @ (if t' = t \<and> n' = n then [d] else [])"
proof (cases "tix_finalized s")
  case False
  then show ?thesis
    by (auto simp: tix_insertCandidate_def Let_def tix_cands_def pend_at_def grow_to_nth nth_list_update)
next
  case True
  then have pend: "tix_pending s = []" using wf by (simp add: tix_wf_def)
  let ?old = "case tbl_at (tix_tables s) t of None \<Rightarrow> [] | Some tbl \<Rightarrow> tbl"
  have old: "fm_sorted ?old" by (rule wf_sorted_tbl [OF wf])
  have tbl: "tbl_at (tix_tables (tix_insertCandidate s t n d)) t' =
      (if t' = t then Some (fm_upsert n ne_default (ne_push [d]) ?old) else tbl_at (tix_tables s) t')"
    using True by (simp add: tix_insertCandidate_def Let_def tbl_at_update length_ensureTable
        the_nth_ensureTable tbl_at_ensureTable)
  have "cands_in (Some (fm_upsert n ne_default (ne_push [d]) ?old)) n' =
      cands_in (Some ?old) n' @ (if n' = n then [d] else [])"
    by (auto simp: cands_in_def map_of_fm_upsert [OF old] ne_default_def split: option.splits)
  moreover have "tix_pending (tix_insertCandidate s t n d) = []"
    using True pend by (simp add: tix_insertCandidate_def Let_def)
  ultimately show ?thesis
    by (auto simp: tix_cands_def tbl pend pend_at_def cands_case_Nil)
qed

lemma insert_wf [ctr_inv]:
  assumes wf: "tix_wf s" and d: "d \<noteq> kInvalidDescriptorId"
  shows "tix_wf (tix_insertCandidate s t n d)"
proof (cases "tix_finalized s")
  case False
  have "kInvalidDescriptorId \<notin> set (tix_cands (tix_insertCandidate s t n d) t' n')" for t' n'
    using wf d by (auto simp: insert_cands [OF wf] tix_wf_def)
  with False wf show ?thesis
    by (auto simp: tix_wf_def tix_insertCandidate_def Let_def)
next
  case True
  let ?old = "case tbl_at (tix_tables s) t of None \<Rightarrow> [] | Some tbl \<Rightarrow> tbl"
  have old: "fm_sorted ?old" by (rule wf_sorted_tbl [OF wf])
  have ne: "map_of ?old m = Some e \<Longrightarrow> ne_candidates e \<noteq> []" for m e
    using wf by (auto simp: tix_wf_def split: option.splits)
  have tbl: "tbl_at (tix_tables (tix_insertCandidate s t n d)) t' =
      (if t' = t then Some (fm_upsert n ne_default (ne_push [d]) ?old) else tbl_at (tix_tables s) t')" for t'
    using True by (simp add: tix_insertCandidate_def Let_def tbl_at_update length_ensureTable
        the_nth_ensureTable tbl_at_ensureTable)
  have "fm_sorted tb \<and> (\<forall>n e. map_of tb n = Some e \<longrightarrow> ne_candidates e \<noteq> [])"
    if "tbl_at (tix_tables (tix_insertCandidate s t n d)) t' = Some tb" for t' tb
    using that wf ne unfolding tbl
    by (auto simp: tix_wf_def fm_upsert_sorted old map_of_fm_upsert [OF old] split: if_splits)
  moreover have "kInvalidDescriptorId \<notin> set (tix_cands (tix_insertCandidate s t n d) t' n')" for t' n'
    using wf d by (auto simp: insert_cands [OF wf] tix_wf_def)
  moreover have "tix_pending (tix_insertCandidate s t n d) = []"
    using True wf by (simp add: tix_insertCandidate_def Let_def tix_wf_def)
  ultimately show ?thesis unfolding tix_wf_def by blast
qed

lemma init_wf: "tix_wf tix_init"
  by (simp add: tix_wf_def tix_init_def tbl_at_def tix_cands_def cands_in_def pend_at_def)

lemma init_cands [simp]: "tix_cands tix_init t n = []"
  by (simp add: tix_init_def tbl_at_def tix_cands_def cands_in_def pend_at_def)

lemma update_cands [simp]: "tix_cands (tix_updateSingleUnnamed s u) t n = tix_cands s t n"
  by (simp add: tix_updateSingleUnnamed_def Let_def tix_cands_def)

lemma update_entry [simp]: "tix_entryFor (tix_updateSingleUnnamed s u) t n = tix_entryFor s t n"
  by (simp add: tix_updateSingleUnnamed_def Let_def tix_entryFor_def)

lemma update_wf [ctr_inv]: "tix_wf s \<Longrightarrow> tix_wf (tix_updateSingleUnnamed s u)"
  unfolding tix_wf_def update_cands by (simp add: tix_updateSingleUnnamed_def Let_def)

lemma update_single:
  "tix_singleUnnamedCandidate (tix_updateSingleUnnamed s u) t =
     (if t = u then (case tix_candidatesFor s u kUnnamed of Some [c] \<Rightarrow> c | _ \<Rightarrow> kInvalidDescriptorId)
      else tix_singleUnnamedCandidate s t)"
  by (auto simp: tix_singleUnnamedCandidate_def tix_updateSingleUnnamed_def Let_def grow_to_nth nth_list_update)

lemma candidatesFor_single:
  assumes wf: "tix_wf s" and fin: "tix_finalized s"
    and c: "(case tix_candidatesFor s t kUnnamed of Some [c] \<Rightarrow> c | _ \<Rightarrow> kInvalidDescriptorId) = c"
    and valid: "c \<noteq> kInvalidDescriptorId"
  shows "tix_cands s t kUnnamed = [c]"
proof -
  have pend: "pend_at (tix_pending s) t kUnnamed = []"
    using wf fin by (simp add: tix_wf_def pend_at_def)
  have "tix_candidatesFor s t kUnnamed = Some [c]"
    using c valid by (auto split: option.splits list.splits)
  then show ?thesis
    by (auto simp: tix_cands_def pend cands_in_entry tix_candidatesFor_def)
qed

lemma update_ready:
  assumes wf: "tix_wf s" and fin: "tix_finalized s"
    and truth: "\<And>t n e. tix_entryFor s t n = Some e \<Longrightarrow> ne_truthful p e"
    and single: "\<And>t. t \<noteq> u \<Longrightarrow> tix_singleUnnamedCandidate s t \<noteq> kInvalidDescriptorId \<Longrightarrow>
           tix_cands s t kUnnamed = [tix_singleUnnamedCandidate s t]"
  shows "tix_ready p (tix_updateSingleUnnamed s u)"
proof -
  have "tix_cands s t kUnnamed = [tix_singleUnnamedCandidate (tix_updateSingleUnnamed s u) t]"
    if "tix_singleUnnamedCandidate (tix_updateSingleUnnamed s u) t \<noteq> kInvalidDescriptorId" for t
    using that single [of t] candidatesFor_single [OF wf fin, of t]
    by (cases "t = u") (auto simp: update_single)
  moreover have "tix_finalized (tix_updateSingleUnnamed s u)"
    using fin by (simp add: tix_updateSingleUnnamed_def Let_def)
  ultimately show ?thesis
    using update_wf [OF wf] truth unfolding tix_ready_def update_cands update_entry by blast
qed

subsection \<open>Everything the registry does with the index\<close>

text \<open>The candidates that a log of registrations gives for one type and one name.\<close>

type_synonym reg_log = "(TypeId \<times> NameId \<times> DescriptorId) list"

definition registered :: "reg_log \<Rightarrow> TypeId \<Rightarrow> NameId \<Rightarrow> DescriptorId list" where
  "registered ops t n = map (\<lambda>(t', n', d). d) (filter (\<lambda>(t', n', d). t' = t \<and> n' = n) ops)"

definition tix_insertAll :: "reg_log \<Rightarrow> tindex \<Rightarrow> tindex" where
  "tix_insertAll ops s = fold (\<lambda>(t, n, d) s. tix_insertCandidate s t n d) ops s"

lemma registered_simps [simp]:
  "registered [] t n = []"
  "registered ((t', n', d) # ops) t n = (if t' = t \<and> n' = n then [d] else []) @ registered ops t n"
  "registered (ops @ ops') t n = registered ops t n @ registered ops' t n"
  by (simp_all add: registered_def)

lemma tix_insertAll_simps [simp]:
  "tix_insertAll [] s = s"
  "tix_insertAll ((t, n, d) # ops) s = tix_insertAll ops (tix_insertCandidate s t n d)"
  by (simp_all add: tix_insertAll_def)

definition valid_log :: "reg_log \<Rightarrow> bool" where
  "valid_log ops = list_all (\<lambda>(t, n, d). d \<noteq> kInvalidDescriptorId) ops"

lemma insertAll_wf_cands:
  "tix_wf s \<Longrightarrow> valid_log ops \<Longrightarrow>
   tix_wf (tix_insertAll ops s) \<and> tix_cands (tix_insertAll ops s) t n = tix_cands s t n @ registered ops t n"
proof (induction ops arbitrary: s)
  case Nil
  then show ?case by simp
next
  case (Cons a ops)
  obtain t' n' d where a: "a = (t', n', d)" by (cases a)
  have "tix_wf (tix_insertCandidate s t' n' d)" "valid_log ops"
    using Cons.prems by (auto simp: a valid_log_def intro: insert_wf)
  from Cons.IH [OF this] show ?case
    using Cons.prems by (auto simp: a insert_cands)
qed

text \<open>
  The index states between two calls of the registry, with the log of what was registered:
  \<^verbatim>\<open>Registry::start\<close> inserts the merged descriptors and sorts (\<open>pub_start\<close>);
  \<^verbatim>\<open>registerContextBean\<close> inserts after the sort, into a key that has no candidate, because
  \<^verbatim>\<open>bindSingleton<BeanContext>\<close> is rejected (\<open>pub_context\<close>); post-start bindings insert,
  sort again and refresh the single-candidate entry (\<open>pub_bind\<close>).
\<close>

inductive tix_published :: "(DescriptorId \<Rightarrow> int) \<Rightarrow> tindex \<Rightarrow> reg_log \<Rightarrow> bool" for p where
  pub_start: "valid_log ops \<Longrightarrow>
     tix_published p (tix_sortAllCandidates p (tix_insertAll ops tix_init)) ops"
| pub_context: "tix_published p s ops \<Longrightarrow> d \<noteq> kInvalidDescriptorId \<Longrightarrow> registered ops t kUnnamed = [] \<Longrightarrow>
     tix_published p (tix_updateSingleUnnamed (tix_insertCandidate s t kUnnamed d) t) (ops @ [(t, kUnnamed, d)])"
| pub_bind: "tix_published p s ops \<Longrightarrow> d \<noteq> kInvalidDescriptorId \<Longrightarrow>
     tix_published p
       (tix_updateSingleUnnamed (tix_sortAllCandidates p (tix_insertCandidate s t n d)) t)
       (ops @ [(t, n, d)])"

lemma insert_single:
  "tix_singleUnnamedCandidate (tix_insertCandidate s t n d) t' = tix_singleUnnamedCandidate s t'"
  by (simp add: tix_singleUnnamedCandidate_def tix_insertCandidate_def Let_def)

lemma insert_fresh_ready:
  assumes ready: "tix_ready p s" and d: "d \<noteq> kInvalidDescriptorId" and new: "tix_cands s t kUnnamed = []"
  shows "tix_ready p (tix_updateSingleUnnamed (tix_insertCandidate s t kUnnamed d) t)"
proof (rule update_ready)
  have wf: "tix_wf s" and fin: "tix_finalized s" using ready by (auto simp: tix_ready_def)
  let ?s = "tix_insertCandidate s t kUnnamed d"
  show "tix_wf ?s" using wf d by (rule insert_wf)
  show "tix_finalized ?s" using fin by (simp add: tix_insertCandidate_def Let_def)
  show "tix_cands ?s t' kUnnamed = [tix_singleUnnamedCandidate ?s t']"
    if "t' \<noteq> t" "tix_singleUnnamedCandidate ?s t' \<noteq> kInvalidDescriptorId" for t'
    using that ready by (simp add: insert_cands [OF wf] tix_ready_def insert_single)
  let ?old = "case tbl_at (tix_tables s) t of None \<Rightarrow> [] | Some tbl \<Rightarrow> tbl"
  have old: "fm_sorted ?old" by (rule wf_sorted_tbl [OF wf])
  have none: "map_of ?old kUnnamed = None"
    using new wf by (fastforce simp: tix_cands_def cands_in_def tix_wf_def split: option.splits)
  have entry: "tix_entryFor ?s t' n =
      (if t' = t \<and> n = kUnnamed then Some (ne_push [d] ne_default) else tix_entryFor s t' n)" for t' n
    using fin none
    by (auto simp: tix_entryFor_tbl tix_insertCandidate_def Let_def tbl_at_update length_ensureTable
        the_nth_ensureTable tbl_at_ensureTable map_of_fm_upsert [OF old] split: option.splits)
  show "ne_truthful p e" if "tix_entryFor ?s t' n = Some e" for t' n e
    using that ready
    by (auto simp: entry tix_ready_def ne_truthful_def ne_push_def ne_default_def split: if_splits)
qed

lemma published_ready:
  "tix_published p s ops \<Longrightarrow>
   tix_ready p s \<and> (\<forall>t n. mset (tix_cands s t n) = mset (registered ops t n))"
proof (induction rule: tix_published.induct)
  case (pub_start ops)
  have "tix_wf (tix_insertAll ops tix_init)"
    and "tix_cands (tix_insertAll ops tix_init) t n = registered ops t n" for t n
    using insertAll_wf_cands [OF init_wf pub_start] by auto
  then show ?case by (simp add: sortAll_ready sortAll_cands)
next
  case (pub_context s ops d t)
  then have "mset (tix_cands s t kUnnamed) = mset (registered ops t kUnnamed)" "tix_wf s"
    by (auto simp: tix_ready_def)
  then have "tix_cands s t kUnnamed = []" "tix_wf s" using pub_context.hyps by auto
  with pub_context show ?case by (simp add: insert_fresh_ready insert_cands)
next
  case (pub_bind s ops d t n)
  then have wf: "tix_wf s" by (simp add: tix_ready_def)
  with pub_bind.hyps have wf': "tix_wf (tix_insertCandidate s t n d)" by (intro insert_wf)
  have ready: "tix_ready p (tix_sortAllCandidates p (tix_insertCandidate s t n d))"
    by (rule sortAll_ready [OF wf'])
  then have "tix_ready p (tix_updateSingleUnnamed (tix_sortAllCandidates p (tix_insertCandidate s t n d)) t)"
    by (intro update_ready) (auto simp: tix_ready_def)
  with pub_bind.IH show ?case by (simp add: sortAll_cands [OF wf'] insert_cands [OF wf])
qed

lemma published_select:
  assumes "tix_published p s ops"
  shows "resolve_select s p t n = select_spec p (registered ops t n)"
proof -
  have ready: "tix_ready p s" and m: "mset (tix_cands s t n) = mset (registered ops t n)"
    using published_ready [OF assms] by auto
  show ?thesis unfolding resolve_select_refines [OF ready] by (rule select_spec_perm [OF m])
qed

text \<open>
  C3. In every index state that the registry publishes (after \<open>start()\<close>, after the
  registration of the context bean, after any sequence of runtime bindings), the selection
  of \<open>resolve\<close> with its fast path, its precomputed head and its fallback returns exactly the
  unique highest-priority candidate registered for the type and the name, and fails with the
  right error when there is none or when the highest priority is shared.
\<close>

theorem resolve_select_correct:
  assumes "tix_published p s ops"
  shows "resolve_select s p t n = select_spec p (registered ops t n)"
  by (rule published_select [OF assms])

theorem resolve_select_correct_witness:
  "tix_published int (tix_sortAllCandidates int (tix_insertAll [(0, 0, 5), (0, 0, 7)] tix_init))
       [(0, 0, 5), (0, 0, 7)]
   \<and> resolve_select (tix_sortAllCandidates int (tix_insertAll [(0, 0, 5), (0, 0, 7)] tix_init)) int 0 0
     = Inr 7"
proof -
  have pub: "tix_published int (tix_sortAllCandidates int (tix_insertAll [(0, 0, 5), (0, 0, 7)] tix_init))
       [(0, 0, 5), (0, 0, 7)]"
    by (rule pub_start) (simp add: valid_log_def sentinel_defs)
  then show ?thesis
    using resolve_select_correct [OF pub, of 0 0] by (simp add: select_spec_def)
qed

subsection \<open>The ambiguity query\<close>

lemma std_binary_search_iff: "sorted v \<Longrightarrow> std_binary_search v x \<longleftrightarrow> x \<in> set v"
proof (induction v x rule: std_binary_search.induct)
  case (1 v x)
  show ?case
  proof (cases "v = []")
    case True
    then show ?thesis by (simp add: std_binary_search.simps)
  next
    case False
    let ?mid = "length v div 2"
    have mid: "?mid < length v" using False by simp
    have split: "v = take ?mid v @ v ! ?mid # drop (Suc ?mid) v" by (rule id_take_nth_drop [OF mid])
    have left: "\<forall>y \<in> set (take ?mid v). y \<le> v ! ?mid" and right: "\<forall>y \<in> set (drop (Suc ?mid) v). v ! ?mid \<le> y"
      using "1.prems" by (subst (asm) (1) split, simp add: sorted_append)+
    have set: "set v = set (take ?mid v) \<union> {v ! ?mid} \<union> set (drop (Suc ?mid) v)"
      by (subst split) auto
    have ih: "v ! ?mid < x \<Longrightarrow> std_binary_search (drop (Suc ?mid) v) x \<longleftrightarrow> x \<in> set (drop (Suc ?mid) v)"
      "\<not> v ! ?mid < x \<Longrightarrow> x < v ! ?mid \<Longrightarrow> std_binary_search (take ?mid v) x \<longleftrightarrow> x \<in> set (take ?mid v)"
      using 1 False by (auto simp: sorted_wrt_drop sorted_wrt_take)
    show ?thesis
    proof (cases "v ! ?mid < x")
      case True
      then have "x \<in> set v \<longleftrightarrow> x \<in> set (drop (Suc ?mid) v)" using left by (subst set) auto
      with True False ih(1) show ?thesis by (subst std_binary_search.simps) (simp add: Let_def)
    next
      case ge: False
      show ?thesis
      proof (cases "x < v ! ?mid")
        case True
        then have "x \<in> set v \<longleftrightarrow> x \<in> set (take ?mid v)" using right by (subst set) auto
        with True ge False ih(2) show ?thesis by (subst std_binary_search.simps) (simp add: Let_def)
      next
        case eq: False
        with ge have "x = v ! ?mid" by simp
        with mid have "x \<in> set v" by simp
        with eq ge False show ?thesis by (subst std_binary_search.simps) (simp add: Let_def)
      qed
    qed
  qed
qed

lemma ambiguousNames_search:
  assumes "fm_sorted tbl"
  shows "(case tix_ambiguousNames (Some tbl) of None \<Rightarrow> False | Some v \<Rightarrow> std_binary_search v n)
    \<longleftrightarrow> (\<exists>e. map_of tbl n = Some e \<and> ne_ambiguous e)"
proof -
  let ?ns = "map fst (filter (\<lambda>(n, e). ne_ambiguous e) tbl)"
  have sorted_tbl: "sorted_wrt (<) (map fst tbl)" using assms by (simp add: fm_sorted_def)
  then have "sorted_wrt (<) ?ns"
    by (induction tbl) auto
  then have srt: "sorted ?ns" by (rule strict_sorted_imp_sorted)
  have dist: "distinct (map fst tbl)" using sorted_tbl strict_sorted_iff by blast
  have mem: "n \<in> set ?ns \<longleftrightarrow> (\<exists>e. map_of tbl n = Some e \<and> ne_ambiguous e)"
    using dist by (force simp: map_of_eq_Some_iff)
  show ?thesis
    unfolding mem [symmetric] using std_binary_search_iff [OF srt, of n]
    by (cases "?ns = []") (simp_all add: tix_ambiguousNames_def Let_def)
qed

lemma sortAll_isAmbiguous:
  assumes wf: "tix_wf s"
  shows "tix_isAmbiguousFor (tix_sortAllCandidates p s) t n \<longleftrightarrow>
    (\<exists>e. tix_entryFor (tix_sortAllCandidates p s) t n = Some e \<and> ne_ambiguous e)"
proof (cases "tbl_at (tix_tables (tix_sortAllCandidates p s)) t")
  case None
  then show ?thesis
    by (auto simp: tix_isAmbiguousFor_def tix_entryFor_tbl tix_sortAllCandidates_def Let_def
        tbl_at_def tix_ambiguousNames_def split: if_splits)
next
  case (Some tbl)
  then have "fm_sorted tbl" using sortAll_wf [OF wf] by (simp add: tix_wf_def)
  moreover have "tix_isAmbiguousFor (tix_sortAllCandidates p s) t n \<longleftrightarrow>
      (case tix_ambiguousNames (Some tbl) of None \<Rightarrow> False | Some v \<Rightarrow> std_binary_search v n)"
    using Some by (auto simp: tix_isAmbiguousFor_def tix_sortAllCandidates_def Let_def tbl_at_def split: if_splits)
  ultimately show ?thesis
    by (simp add: ambiguousNames_search tix_entryFor_tbl Some)
qed

text \<open>
  After \<open>start()\<close> has sorted the candidates, the precomputed ambiguity list, searched by
  bisection, answers \<open>isAmbiguousFor\<close> with true exactly for the keys on which \<open>resolve\<close>
  reports an ambiguity.
\<close>

theorem isAmbiguousFor_iff:
  assumes "valid_log ops"
  shows "tix_isAmbiguousFor (tix_sortAllCandidates p (tix_insertAll ops tix_init)) t n \<longleftrightarrow>
    resolve_select (tix_sortAllCandidates p (tix_insertAll ops tix_init)) p t n
      = Inl (ResolutionError AmbiguousCandidates)"
proof -
  define s where "s = tix_sortAllCandidates p (tix_insertAll ops tix_init)"
  have wf: "tix_wf (tix_insertAll ops tix_init)"
    using insertAll_wf_cands [OF init_wf assms(1)] by blast
  have ready: "tix_ready p s" unfolding s_def by (rule sortAll_ready [OF wf])
  show ?thesis
  proof (cases "tix_entryFor s t n")
    case None
    then have "tix_cands s t n = []" using tix_ready_cands [OF ready] by simp
    then show ?thesis using None sortAll_isAmbiguous [OF wf, of p t n]
      by (simp add: s_def [symmetric] resolve_select_refines [OF ready] select_spec_def)
  next
    case (Some e)
    have cs: "tix_cands s t n = ne_candidates e" using tix_ready_cands [OF ready] Some by simp
    have truth: "ne_truthful p e" and ne: "ne_candidates e \<noteq> []"
      using ready Some by (auto simp: tix_ready_def tix_wf_def tix_entryFor_tbl split: option.splits)
    have "kInvalidDescriptorId \<notin> set (ne_candidates e)" using ready cs by (metis tix_ready_def tix_wf_def)
    moreover have "ne_head e \<in> set (ne_candidates e)"
      using Some ne ne_finish_head by (auto simp: s_def sortAll_entry split: option.splits)
    ultimately have "ne_ambiguous e = (2 \<le> length (ne_candidates e)
        \<and> p (ne_candidates e ! 0) = p (ne_candidates e ! 1))"
      using truth unfolding ne_truthful_def by metis
    then show ?thesis
      using Some sortAll_isAmbiguous [OF wf, of p t n] select_spec_sorted [OF ne, of p] truth
      by (simp add: s_def [symmetric] resolve_select_refines [OF ready] cs ne_truthful_def)
  qed
qed

theorem isAmbiguousFor_iff_witness:
  "valid_log [(0, 0, 5), (0, 0, 7)] \<and>
   tix_isAmbiguousFor (tix_sortAllCandidates (\<lambda>_. 1) (tix_insertAll [(0, 0, 5), (0, 0, 7)] tix_init)) 0 0"
proof -
  have v: "valid_log [(0, 0, 5), (0, 0, 7)]" by (simp add: valid_log_def sentinel_defs)
  have "resolve_select (tix_sortAllCandidates (\<lambda>_. 1) (tix_insertAll [(0, 0, 5), (0, 0, 7)] tix_init)) (\<lambda>_. 1) 0 0
      = Inl (ResolutionError AmbiguousCandidates)"
    unfolding published_select [OF pub_start [OF v]] by (simp add: select_spec_def)
  then show ?thesis
    using v isAmbiguousFor_iff [OF v, of "\<lambda>_. 1" 0 0] by simp
qed

end
