(* ===== verification/Instance_Stores.thy ===== *)
theory Instance_Stores
  imports Ctr_Prelude
begin

text \<open>
  The instance stores: \<^verbatim>\<open>SingletonStore.hpp\<close> and \<^verbatim>\<open>SessionStore.hpp\<close>. Both publish an array
  of instance pointers that is replaced, never moved, when it grows; replaced arrays stay in
  a graveyard. The model keeps the graveyard as a list of arrays and the published bases as
  positions in it, so that the aliasing between the current array and the snapshot frozen at
  \<open>start()\<close> is explicit. The interface \<open>instance_store\<close> says what the registry relies on;
  its lemmas give the order and completeness of the teardown sweep for both stores.

  An operation returns \<open>None\<close> where the code has an assertion that fails or a write outside
  of the array.
\<close>

subsection \<open>The store interface\<close>

locale instance_store =
  fixes find_inst :: "'s \<Rightarrow> DescriptorId \<Rightarrow> ptr option"
    and put :: "'s \<Rightarrow> DescriptorId \<Rightarrow> ptr \<Rightarrow> 's option"
    and order :: "'s \<Rightarrow> DescriptorId list"
    and invar :: "'s \<Rightarrow> bool"
    and ids :: "DescriptorId set"
  assumes put_ok: "invar s \<Longrightarrow> d \<in> ids \<Longrightarrow> find_inst s d = None \<Longrightarrow> \<exists>s'. put s d m = Some s' \<and> invar s'"
    and find_put: "invar s \<Longrightarrow> d \<in> ids \<Longrightarrow> d' \<in> ids \<Longrightarrow> put s d m = Some s' \<Longrightarrow>
           find_inst s' d' = (if d' = d then Some m else find_inst s d')"
    and order_put: "invar s \<Longrightarrow> put s d m = Some s' \<Longrightarrow> order s' = order s @ [d]"
    and order_find: "invar s \<Longrightarrow> d \<in> ids \<Longrightarrow> d \<in> set (order s) \<longleftrightarrow> find_inst s d \<noteq> None"
    and order_ids: "invar s \<Longrightarrow> set (order s) \<subseteq> ids"
    and order_distinct: "invar s \<Longrightarrow> distinct (order s)"
begin

abbreviation put_all :: "'s \<Rightarrow> (DescriptorId \<times> ptr) list \<Rightarrow> 's option" where
  "put_all \<equiv> fold_opt (\<lambda>s (d, m). put s d m)"

lemma put_all_ok:
  assumes "invar s" "distinct (map fst xs)" "fst ` set xs \<subseteq> ids" "\<forall>d \<in> fst ` set xs. find_inst s d = None"
  shows "\<exists>s'. put_all s xs = Some s' \<and> invar s' \<and> order s' = order s @ map fst xs
    \<and> (\<forall>d \<in> ids. find_inst s' d = (case map_of xs d of Some m \<Rightarrow> Some m | None \<Rightarrow> find_inst s d))"
  using assms
proof (induction xs arbitrary: s)
  case Nil
  then show ?case by simp
next
  case (Cons a xs)
  obtain d m where a: "a = (d, m)" by (cases a)
  from Cons.prems a obtain s1 where s1: "put s d m = Some s1" "invar s1"
    using put_ok [of s d m] by auto
  have f1: "d' \<in> ids \<Longrightarrow> find_inst s1 d' = (if d' = d then Some m else find_inst s d')" for d'
    using find_put [OF _ _ _ s1(1)] Cons.prems a by auto
  have "\<forall>d' \<in> fst ` set xs. find_inst s1 d' = None"
    using Cons.prems a f1 by (auto simp: subset_iff image_iff)
  with Cons.IH [OF s1(2)] Cons.prems a obtain s' where s': "put_all s1 xs = Some s'" "invar s'"
    "order s' = order s1 @ map fst xs"
    "\<forall>d \<in> ids. find_inst s' d = (case map_of xs d of Some m \<Rightarrow> Some m | None \<Rightarrow> find_inst s1 d)"
    by auto
  have "d \<notin> set (map fst xs)" using Cons.prems a by simp
  then have "map_of xs d = None" by (simp add: map_of_eq_None_iff)
  with s' s1 f1 order_put [OF Cons.prems(1) s1(1)] show ?case
    by (auto simp: a split: option.splits)
qed

lemma teardown_set: "invar s \<Longrightarrow> set (teardown (find_inst s) (order s)) = {(d, m). d \<in> ids \<and> find_inst s d = Some m}"
  using order_find order_ids by (fastforce simp: teardown_def)

lemma teardown_distinct: "invar s \<Longrightarrow> distinct (map fst (teardown (find_inst s) (order s)))"
  using order_distinct by (simp add: teardown_def comp_def)

lemma teardown_put_all:
  assumes "invar s" "order s = []" "distinct (map fst xs)" "fst ` set xs \<subseteq> ids" "put_all s xs = Some s'"
  shows "teardown (find_inst s') (order s') = rev xs"
proof -
  have none: "\<forall>d \<in> fst ` set xs. find_inst s d = None"
    using order_find [OF assms(1)] assms(2,4) by (auto simp: subset_iff)
  have "order s' = map fst xs" and f: "\<forall>d \<in> ids. find_inst s' d = (case map_of xs d of Some m \<Rightarrow> Some m | None \<Rightarrow> find_inst s d)"
    using put_all_ok [OF assms(1,3,4) none] assms(2,5) by auto
  moreover have "map (\<lambda>d. (d, the (find_inst s' d))) (map fst xs) = xs"
  proof -
    have "(d, the (find_inst s' d)) = (d, m)" if "(d, m) \<in> set xs" for d m
      using f assms(3,4) that by (force simp: map_of_is_SomeI)
    then show ?thesis by (auto intro!: map_idI)
  qed
  ultimately show ?thesis by (metis rev_map teardown_def)
qed

end

subsection \<open>\<^verbatim>\<open>SingletonStore\<close>\<close>

record singleton_store =
  ss_instancesBase :: "nat option"
  ss_instancesSize :: nat
  ss_frozenBase :: "nat option"
  ss_frozenSize :: nat
  ss_graveyard :: "ptr option list list"
  ss_insertionOrder :: "DescriptorId list"

definition ss_init :: singleton_store where
  "ss_init = \<lparr>ss_instancesBase = None, ss_instancesSize = 0, ss_frozenBase = None, ss_frozenSize = 0,
     ss_graveyard = [], ss_insertionOrder = []\<rparr>"

definition arr_write :: "ptr option list list \<Rightarrow> nat \<Rightarrow> nat \<Rightarrow> ptr option \<Rightarrow> ptr option list list" where
  "arr_write gy b i v = gy[b := (gy ! b)[i := v]]"

definition ss_store :: "singleton_store \<Rightarrow> DescriptorId \<Rightarrow> ptr \<Rightarrow> singleton_store option" where
  "ss_store s descId mem =
     (case ss_instancesBase s of
        None \<Rightarrow> None
      | Some base \<Rightarrow>
          if length (ss_graveyard s ! base) \<le> descId then None
          else if ss_graveyard s ! base ! descId \<noteq> None then None
          else
            (let s1 = s\<lparr>ss_insertionOrder := ss_insertionOrder s @ [descId],
                        ss_graveyard := arr_write (ss_graveyard s) base descId (Some mem)\<rparr>
             in case ss_frozenBase s of
                  Some fz \<Rightarrow>
                    if descId < ss_frozenSize s \<and> fz \<noteq> base then
                      (if ss_graveyard s1 ! fz ! descId \<noteq> None then None
                       else Some (s1\<lparr>ss_graveyard := arr_write (ss_graveyard s1) fz descId (Some mem)\<rparr>))
                    else Some s1
                | None \<Rightarrow> Some s1))"

definition ss_grow :: "singleton_store \<Rightarrow> nat \<Rightarrow> singleton_store" where
  "ss_grow s newSize =
     (if ss_instancesSize s < newSize then
        (let old = (case ss_instancesBase s of None \<Rightarrow> [] | Some b \<Rightarrow> take (ss_instancesSize s) (ss_graveyard s ! b))
         in s\<lparr>ss_graveyard := ss_graveyard s @ [grow_to newSize None old],
              ss_instancesBase := Some (length (ss_graveyard s)),
              ss_instancesSize := newSize\<rparr>)
      else s)"

definition ss_growAndStore :: "singleton_store \<Rightarrow> DescriptorId \<Rightarrow> ptr \<Rightarrow> singleton_store option" where
  "ss_growAndStore s descId mem = ss_store (ss_grow s (descId + 1)) descId mem"

definition ss_resize :: "singleton_store \<Rightarrow> nat \<Rightarrow> singleton_store" where
  "ss_resize s descriptorCount =
     s\<lparr>ss_graveyard := ss_graveyard s @ [replicate descriptorCount None],
       ss_frozenBase := Some (length (ss_graveyard s)),
       ss_frozenSize := descriptorCount,
       ss_instancesBase := Some (length (ss_graveyard s)),
       ss_instancesSize := descriptorCount\<rparr>"

definition ss_find :: "singleton_store \<Rightarrow> DescriptorId \<Rightarrow> ptr option" where
  "ss_find s descId =
     (if descId < ss_frozenSize s then
        (case ss_frozenBase s of None \<Rightarrow> None | Some fz \<Rightarrow> ss_graveyard s ! fz ! descId)
      else if ss_instancesSize s \<le> descId then None
      else (case ss_instancesBase s of None \<Rightarrow> None | Some b \<Rightarrow> ss_graveyard s ! b ! descId))"

definition ss_releaseAll :: "singleton_store \<Rightarrow> singleton_store" where
  "ss_releaseAll s =
     s\<lparr>ss_graveyard := [], ss_frozenBase := None, ss_frozenSize := 0,
       ss_instancesBase := None, ss_instancesSize := 0, ss_insertionOrder := []\<rparr>"

definition ss_count :: "singleton_store \<Rightarrow> nat" where
  "ss_count s = length (ss_insertionOrder s)"

text \<open>
  The current array covers the published size; the frozen snapshot is a prefix of it, entry
  by entry; the insertion order lists the filled slots once each.
\<close>

definition ss_inv :: "singleton_store \<Rightarrow> bool" where
  "ss_inv s \<longleftrightarrow>
     (case ss_instancesBase s of
        None \<Rightarrow> ss_instancesSize s = 0
      | Some b \<Rightarrow> b < length (ss_graveyard s) \<and> length (ss_graveyard s ! b) = ss_instancesSize s)
     \<and> (case ss_frozenBase s of
        None \<Rightarrow> ss_frozenSize s = 0
      | Some f \<Rightarrow> f < length (ss_graveyard s) \<and> length (ss_graveyard s ! f) = ss_frozenSize s
          \<and> ss_frozenSize s \<le> ss_instancesSize s
          \<and> (\<exists>b. ss_instancesBase s = Some b
               \<and> (\<forall>i < ss_frozenSize s. ss_graveyard s ! f ! i = ss_graveyard s ! b ! i)))
     \<and> distinct (ss_insertionOrder s)
     \<and> (\<forall>d. d \<in> set (ss_insertionOrder s) \<longleftrightarrow> ss_find s d \<noteq> None)"

definition ss_slot :: "singleton_store \<Rightarrow> nat \<Rightarrow> ptr option" where
  "ss_slot s i = (case ss_instancesBase s of None \<Rightarrow> None
     | Some b \<Rightarrow> if i < ss_instancesSize s then ss_graveyard s ! b ! i else None)"

lemma ss_find_slot: "ss_inv s \<Longrightarrow> ss_find s d = ss_slot s d"
  by (auto simp: ss_inv_def ss_find_def ss_slot_def split: option.splits)

lemma ss_init_inv: "ss_inv ss_init"
  by (simp add: ss_inv_def ss_init_def ss_find_def)

lemma ss_resize_inv:
  assumes "ss_insertionOrder s = []"
  shows "ss_inv (ss_resize s n)"
  using assms by (auto simp: ss_inv_def ss_resize_def ss_find_def nth_append)

lemma ss_releaseAll_inv: "ss_inv (ss_releaseAll s)"
  by (simp add: ss_inv_def ss_releaseAll_def ss_find_def)

lemma ss_find_releaseAll [simp]: "ss_find (ss_releaseAll s) d = None"
  by (simp add: ss_releaseAll_def ss_find_def)

lemma ss_find_resize [simp]: "ss_find (ss_resize s n) d = None"
  by (auto simp: ss_resize_def ss_find_def nth_append)

lemma ss_grow_find:
  assumes inv: "ss_inv s"
  shows "ss_find (ss_grow s n) d = ss_find s d"
proof (cases "ss_instancesSize s < n")
  case False
  then show ?thesis by (simp add: ss_grow_def)
next
  case True
  then show ?thesis using inv
    by (cases "ss_instancesBase s"; cases "ss_frozenBase s")
       (auto simp: ss_grow_def ss_find_def ss_inv_def Let_def nth_append grow_to_nth)
qed

lemma ss_grow_inv:
  assumes inv: "ss_inv s"
  shows "ss_inv (ss_grow s n)"
proof (cases "ss_instancesSize s < n")
  case False
  then show ?thesis using inv by (simp add: ss_grow_def)
next
  case True
  have find: "ss_find (ss_grow s n) d = ss_find s d" for d by (rule ss_grow_find [OF inv])
  have ord: "ss_insertionOrder (ss_grow s n) = ss_insertionOrder s" by (simp add: ss_grow_def Let_def)
  have "distinct (ss_insertionOrder s)" "\<forall>d. d \<in> set (ss_insertionOrder s) \<longleftrightarrow> ss_find s d \<noteq> None"
    using inv by (auto simp: ss_inv_def)
  then show ?thesis unfolding ss_inv_def [of "ss_grow s n"] find ord using inv True
    by (cases "ss_instancesBase s"; cases "ss_frozenBase s")
       (auto simp: ss_grow_def ss_inv_def Let_def nth_append grow_to_nth)
qed

lemma ss_grow_simps [simp]:
  "ss_insertionOrder (ss_grow s n) = ss_insertionOrder s"
  "ss_instancesSize (ss_grow s n) = max n (ss_instancesSize s)"
  by (auto simp: ss_grow_def Let_def)

lemma arr_write_nth:
  "b < length gy \<Longrightarrow> arr_write gy b i v ! c = (if c = b then (gy ! b)[i := v] else gy ! c)"
  by (auto simp: arr_write_def)

lemma arr_write_length [simp]: "length (arr_write gy b i v) = length gy"
  by (simp add: arr_write_def)

lemma ss_store_Some:
  assumes inv: "ss_inv s" and room: "d < ss_instancesSize s" and free: "ss_find s d = None"
  obtains s' where "ss_store s d m = Some s'" "ss_inv s'"
    "ss_insertionOrder s' = ss_insertionOrder s @ [d]"
    "\<And>d'. ss_find s' d' = (if d' = d then Some m else ss_find s d')"
proof -
  obtain b where b: "ss_instancesBase s = Some b" "b < length (ss_graveyard s)"
      "length (ss_graveyard s ! b) = ss_instancesSize s"
    using inv room by (auto simp: ss_inv_def split: option.splits)
  have slot: "ss_graveyard s ! b ! d = None"
    using free room b ss_find_slot [OF inv, of d] by (simp add: ss_slot_def)
  let ?s1 = "s\<lparr>ss_insertionOrder := ss_insertionOrder s @ [d],
              ss_graveyard := arr_write (ss_graveyard s) b d (Some m)\<rparr>"
  define s' where "s' = (case ss_frozenBase s of
        Some f \<Rightarrow> if d < ss_frozenSize s \<and> f \<noteq> b
                   then ?s1\<lparr>ss_graveyard := arr_write (ss_graveyard ?s1) f d (Some m)\<rparr> else ?s1
      | None \<Rightarrow> ?s1)"
  have frozen_free: "ss_graveyard ?s1 ! f ! d = None" if "ss_frozenBase s = Some f" "d < ss_frozenSize s" "f \<noteq> b" for f
    using inv that b slot by (auto simp: ss_inv_def arr_write_nth)
  have eq: "ss_store s d m = Some s'"
    using b room slot frozen_free
    by (auto simp: ss_store_def s'_def Let_def split: option.splits)
  have find: "ss_find s' d' = (if d' = d then Some m else ss_find s d')" for d'
    using inv b room
    by (auto simp: s'_def ss_find_def ss_inv_def arr_write_nth nth_list_update split: option.splits)
  have ord: "ss_insertionOrder s' = ss_insertionOrder s @ [d]"
    by (simp add: s'_def split: option.split)
  have mem: "distinct (ss_insertionOrder s)" "\<forall>d. d \<in> set (ss_insertionOrder s) \<longleftrightarrow> ss_find s d \<noteq> None"
    using inv by (auto simp: ss_inv_def)
  have fields: "ss_instancesBase s' = ss_instancesBase s" "ss_instancesSize s' = ss_instancesSize s"
    "ss_frozenBase s' = ss_frozenBase s" "ss_frozenSize s' = ss_frozenSize s"
    by (simp_all add: s'_def split: option.split)
  have "ss_inv s'"
    unfolding ss_inv_def find ord fields using inv b mem free
    by (auto simp: ss_inv_def s'_def arr_write_nth nth_list_update split: option.splits)
  then show ?thesis using that eq find ord by blast
qed

lemma ss_growAndStore_Some:
  assumes inv: "ss_inv s" and free: "ss_find s d = None"
  obtains s' where "ss_growAndStore s d m = Some s'" "ss_inv s'"
    "ss_insertionOrder s' = ss_insertionOrder s @ [d]"
    "\<And>d'. ss_find s' d' = (if d' = d then Some m else ss_find s d')"
proof -
  have "ss_find (ss_grow s (d + 1)) d = None" using free by (simp add: ss_grow_find [OF inv])
  then obtain s' where s': "ss_store (ss_grow s (d + 1)) d m = Some s'" "ss_inv s'"
    "ss_insertionOrder s' = ss_insertionOrder (ss_grow s (d + 1)) @ [d]"
    "\<And>d'. ss_find s' d' = (if d' = d then Some m else ss_find (ss_grow s (d + 1)) d')"
    using ss_store_Some [OF ss_grow_inv [OF inv, of "d + 1"], of d m]
    by (metis add.commute less_add_one less_max_iff_disj ss_grow_simps(2))
  show ?thesis
  proof (rule that)
    show "ss_growAndStore s d m = Some s'" using s'(1) by (simp add: ss_growAndStore_def)
    show "ss_inv s'" by (rule s'(2))
    show "ss_insertionOrder s' = ss_insertionOrder s @ [d]" using s'(3) by simp
    show "ss_find s' d' = (if d' = d then Some m else ss_find s d')" for d'
      using s'(4) by (simp add: ss_grow_find [OF inv])
  qed
qed

lemma ss_growAndStore_free: "ss_inv s \<Longrightarrow> ss_growAndStore s d m = Some s' \<Longrightarrow> ss_find s d = None"
proof -
  assume inv: "ss_inv s" and st: "ss_growAndStore s d m = Some s'"
  have inv': "ss_inv (ss_grow s (d + 1))" by (rule ss_grow_inv [OF inv])
  have "ss_slot (ss_grow s (d + 1)) d = None"
    using st inv' by (auto simp: ss_growAndStore_def ss_store_def ss_slot_def Let_def
        split: option.splits if_splits)
  then show "ss_find s d = None"
    using ss_find_slot [OF inv'] by (simp add: ss_grow_find [OF inv])
qed

interpretation sst: instance_store ss_find ss_growAndStore ss_insertionOrder ss_inv UNIV
proof (unfold_locales, goal_cases)
  case (1 s d m)
  then show ?case by (metis ss_growAndStore_Some)
next
  case (2 s d d' m s')
  then show ?case by (metis ss_growAndStore_Some ss_growAndStore_free option.inject)
next
  case (3 s d m s')
  then show ?case by (metis ss_growAndStore_Some ss_growAndStore_free option.inject)
next
  case (4 s d)
  then show ?case by (simp add: ss_inv_def)
next
  case (5 s)
  then show ?case by simp
next
  case (6 s)
  then show ?case by (simp add: ss_inv_def)
qed

text \<open>
  C34. A started singleton store behaves as a map with an insertion log: for any sequence of
  stores of distinct descriptors, with ids below or beyond the snapshot frozen at \<open>start()\<close>,
  every store succeeds, the lock-free \<open>find\<close> returns exactly the stored pointers, whether it
  reads the frozen snapshot or the grown array, and the teardown order is the reverse of the
  order of the stores, each instance once.
\<close>

theorem singleton_store_refines_map:
  assumes "distinct (map fst xs)"
  shows "\<exists>s. fold_opt (\<lambda>s (d, m). ss_growAndStore s d m) (ss_resize ss_init n) xs = Some s
    \<and> (\<forall>d. ss_find s d = map_of xs d)
    \<and> teardown (ss_find s) (ss_insertionOrder s) = rev xs"
proof -
  let ?s0 = "ss_resize ss_init n"
  have inv: "ss_inv ?s0" by (rule ss_resize_inv) (simp add: ss_init_def)
  have ord: "ss_insertionOrder ?s0 = []" by (simp add: ss_resize_def ss_init_def)
  obtain s where s: "fold_opt (\<lambda>s (d, m). ss_growAndStore s d m) ?s0 xs = Some s"
    "\<forall>d. ss_find s d = (case map_of xs d of Some m \<Rightarrow> Some m | None \<Rightarrow> ss_find ?s0 d)"
    using sst.put_all_ok [OF inv assms] by auto
  moreover have "teardown (ss_find s) (ss_insertionOrder s) = rev xs"
    by (rule sst.teardown_put_all [OF inv ord assms _ s(1)]) simp
  ultimately show ?thesis by (auto split: option.splits)
qed

theorem singleton_store_refines_map_witness:
  "distinct (map fst [(1 :: nat, 10 :: nat), (4, 20)]) \<and>
   (\<exists>s. fold_opt (\<lambda>s (d, m). ss_growAndStore s d m) (ss_resize ss_init 3) [(1, 10), (4, 20)] = Some s
    \<and> ss_find s 4 = Some 20 \<and> teardown (ss_find s) (ss_insertionOrder s) = [(4, 20), (1, 10)])"
  using singleton_store_refines_map [of "[(1, 10), (4, 20)]" 3] by force

subsection \<open>\<^verbatim>\<open>SessionStore\<close>\<close>

record retired_block =
  rb_descId :: DescriptorId
  rb_memory :: ptr
  rb_dealloc :: "nat option"
  rb_size :: nat
  rb_align :: nat

datatype free_event = CallDealloc nat ptr | OperatorDelete ptr nat nat

text \<open>\<open>ses_freed\<close> is the trace of the deallocations the store has performed.\<close>

record session_store =
  ses_instancesBase :: "nat option"
  ses_instancesSize :: nat
  ses_graveyard :: "ptr option list list"
  ses_insertionOrder :: "DescriptorId list"
  ses_retiredBlocks :: "retired_block list"
  ses_freed :: "free_event list"

definition ses_init :: session_store where
  "ses_init = \<lparr>ses_instancesBase = None, ses_instancesSize = 0, ses_graveyard = [],
     ses_insertionOrder = [], ses_retiredBlocks = [], ses_freed = []\<rparr>"

definition ses_releaseRetiredBlock :: "retired_block \<Rightarrow> free_event list" where
  "ses_releaseRetiredBlock block =
     (case rb_dealloc block of
        Some f \<Rightarrow> [CallDealloc f (rb_memory block)]
      | None \<Rightarrow> if rb_size block \<noteq> 0
                then [OperatorDelete (rb_memory block) (rb_size block) (rb_align block)] else [])"

text \<open>The swap-with-last removal loop of \<open>releaseRetired\<close>.\<close>

function ses_releaseRetired_loop ::
  "DescriptorId \<Rightarrow> nat \<Rightarrow> retired_block list \<Rightarrow> free_event list \<Rightarrow> retired_block list \<times> free_event list" where
  "ses_releaseRetired_loop descId i blocks freed =
     (if i < length blocks then
        (if rb_descId (blocks ! i) = descId then
           ses_releaseRetired_loop descId i (butlast (blocks[i := last blocks]))
             (freed @ ses_releaseRetiredBlock (blocks ! i))
         else ses_releaseRetired_loop descId (Suc i) blocks freed)
      else (blocks, freed))"
  by pat_completeness auto
termination
  by (relation "measure (\<lambda>(d, i, blocks, f). length blocks - i)") auto

declare ses_releaseRetired_loop.simps [simp del]

definition ses_releaseRetired :: "session_store \<Rightarrow> DescriptorId \<Rightarrow> session_store" where
  "ses_releaseRetired s descId =
     (let r = ses_releaseRetired_loop descId 0 (ses_retiredBlocks s) (ses_freed s)
      in s\<lparr>ses_retiredBlocks := fst r, ses_freed := snd r\<rparr>)"

definition ses_releaseRetiredBlocks :: "session_store \<Rightarrow> session_store" where
  "ses_releaseRetiredBlocks s =
     s\<lparr>ses_freed := ses_freed s @ concat (map ses_releaseRetiredBlock (ses_retiredBlocks s)),
       ses_retiredBlocks := []\<rparr>"

definition ses_resize :: "session_store \<Rightarrow> nat \<Rightarrow> session_store" where
  "ses_resize s sessionSlotCount =
     s\<lparr>ses_graveyard := ses_graveyard s @ [replicate sessionSlotCount None],
       ses_instancesBase := Some (length (ses_graveyard s)),
       ses_instancesSize := sessionSlotCount\<rparr>"

definition ses_store :: "session_store \<Rightarrow> SessionSlot \<Rightarrow> DescriptorId \<Rightarrow> ptr \<Rightarrow> session_store option" where
  "ses_store s slot descId mem =
     (case ses_instancesBase s of
        None \<Rightarrow> None
      | Some base \<Rightarrow>
          if length (ses_graveyard s ! base) \<le> slot then None
          else Some (ses_releaseRetired
                 (s\<lparr>ses_insertionOrder := ses_insertionOrder s @ [descId],
                    ses_graveyard := arr_write (ses_graveyard s) base slot (Some mem)\<rparr>) descId))"

definition ses_grow :: "session_store \<Rightarrow> nat \<Rightarrow> session_store" where
  "ses_grow s newSize =
     (if ses_instancesSize s < newSize then
        (let old = (case ses_instancesBase s of None \<Rightarrow> []
                    | Some b \<Rightarrow> take (ses_instancesSize s) (ses_graveyard s ! b))
         in s\<lparr>ses_graveyard := ses_graveyard s @ [grow_to newSize None old],
              ses_instancesBase := Some (length (ses_graveyard s)),
              ses_instancesSize := newSize\<rparr>)
      else s)"

definition ses_growAndStore :: "session_store \<Rightarrow> SessionSlot \<Rightarrow> DescriptorId \<Rightarrow> ptr \<Rightarrow> session_store option" where
  "ses_growAndStore s slot descId mem = ses_store (ses_grow s (slot + 1)) slot descId mem"

definition ses_find :: "session_store \<Rightarrow> SessionSlot \<Rightarrow> ptr option" where
  "ses_find s slot =
     (if ses_instancesSize s \<le> slot then None
      else (case ses_instancesBase s of None \<Rightarrow> None | Some b \<Rightarrow> ses_graveyard s ! b ! slot))"

definition ses_nullSlot :: "session_store \<Rightarrow> SessionSlot \<Rightarrow> session_store option" where
  "ses_nullSlot s slot =
     (case ses_instancesBase s of
        None \<Rightarrow> None
      | Some base \<Rightarrow>
          if length (ses_graveyard s ! base) \<le> slot then None
          else Some (s\<lparr>ses_graveyard := arr_write (ses_graveyard s) base slot None\<rparr>))"

definition ses_releaseAll :: "session_store \<Rightarrow> bool \<Rightarrow> session_store" where
  "ses_releaseAll s releaseBlocks =
     (let s1 = (if releaseBlocks then ses_releaseRetiredBlocks s else s)
      in s1\<lparr>ses_graveyard := [], ses_instancesBase := None, ses_instancesSize := 0,
            ses_insertionOrder := []\<rparr>)"

text \<open>\<open>pushThrows\<close>: whether \<open>push_back\<close> raises \<open>std::bad_alloc\<close>.\<close>

definition ses_retireDeallocation :: "session_store \<Rightarrow> bool \<Rightarrow> retired_block \<Rightarrow> session_store" where
  "ses_retireDeallocation s pushThrows block =
     (if pushThrows then s\<lparr>ses_freed := ses_freed s @ ses_releaseRetiredBlock block\<rparr>
      else s\<lparr>ses_retiredBlocks := ses_retiredBlocks s @ [block]\<rparr>)"

definition ses_initialized :: "session_store \<Rightarrow> bool" where
  "ses_initialized s = (0 < ses_instancesSize s)"

lemma ses_releaseRetired_fields [simp]:
  "ses_instancesBase (ses_releaseRetired s d) = ses_instancesBase s"
  "ses_instancesSize (ses_releaseRetired s d) = ses_instancesSize s"
  "ses_graveyard (ses_releaseRetired s d) = ses_graveyard s"
  "ses_insertionOrder (ses_releaseRetired s d) = ses_insertionOrder s"
  by (simp_all add: ses_releaseRetired_def Let_def)

subsubsection \<open>Retired memory is freed once\<close>

lemma mset_swap_remove:
  assumes "i < length xs"
  shows "mset (butlast (xs[i := last xs])) = mset xs - {#xs ! i#}"
proof -
  have ne: "xs[i := last xs] \<noteq> []" using assms by auto
  have last: "last (xs[i := last xs]) = last xs"
    using assms by (cases xs rule: rev_cases) (auto simp: list_update_append last_list_update)
  have "mset (xs[i := last xs]) = mset (butlast (xs[i := last xs]) @ [last xs])"
    using append_butlast_last_id [OF ne] last by simp
  then have "mset (xs[i := last xs]) = add_mset (last xs) (mset (butlast (xs[i := last xs])))"
    by simp
  moreover have "mset (xs[i := last xs]) = add_mset (last xs) (mset xs - {#xs ! i#})"
    using assms by (simp add: mset_update)
  ultimately show ?thesis by simp
qed

lemma take_swap_remove: "i < length xs \<Longrightarrow> take i (butlast (xs[i := last xs])) = take i xs"
  by (simp add: butlast_conv_take take_update_cancel min_def) arith

definition frees :: "retired_block multiset \<Rightarrow> free_event multiset" where
  "frees B = (\<Sum>b \<in># B. mset (ses_releaseRetiredBlock b))"

lemma frees_simps [simp]:
  "frees {#} = {#}"
  "frees (add_mset b B) = mset (ses_releaseRetiredBlock b) + frees B"
  "frees (B + C) = frees B + frees C"
  by (simp_all add: frees_def)

lemma frees_concat: "mset (concat (map ses_releaseRetiredBlock bs)) = frees (mset bs)"
  by (induction bs) simp_all

lemma releaseRetired_loop_mset:
  assumes "\<forall>b \<in> set (take i blocks). rb_descId b \<noteq> d"
  shows "mset (fst (ses_releaseRetired_loop d i blocks freed)) = {#b \<in># mset blocks. rb_descId b \<noteq> d#}
    \<and> mset (snd (ses_releaseRetired_loop d i blocks freed)) =
        mset freed + frees {#b \<in># mset blocks. rb_descId b = d#}"
  using assms
proof (induction d i blocks freed rule: ses_releaseRetired_loop.induct)
  case (1 d i blocks freed)
  note loop = ses_releaseRetired_loop.simps [of d i blocks freed]
  show ?case
  proof (cases "i < length blocks")
    case False
    then have "\<forall>b \<in> set blocks. rb_descId b \<noteq> d" using "1.prems" by simp
    then have "{#b \<in># mset blocks. rb_descId b \<noteq> d#} = mset blocks" "{#b \<in># mset blocks. rb_descId b = d#} = {#}"
      by (auto simp: filter_mset_eq_conv)
    with False show ?thesis by (simp only: loop) simp
  next
    case True
    show ?thesis
    proof (cases "rb_descId (blocks ! i) = d")
      case match: True
      let ?bs = "butlast (blocks[i := last blocks])"
      have m: "mset blocks = add_mset (blocks ! i) (mset ?bs)"
        using True by (simp add: mset_swap_remove)
      have "\<forall>b \<in> set (take i ?bs). rb_descId b \<noteq> d"
        using "1.prems" True by (simp add: take_swap_remove)
      from "1.IH"(1) [OF True match this] show ?thesis
        using True match by (simp add: loop m)
    next
      case False
      have "\<forall>b \<in> set (take (Suc i) blocks). rb_descId b \<noteq> d"
        using "1.prems" True False by (auto simp: take_Suc_conv_app_nth)
      from "1.IH"(2) [OF True False this] show ?thesis
        using True False by (simp add: loop)
    qed
  qed
qed

lemma frees_partition:
  "frees {#b \<in># B. P b#} + frees {#b \<in># B. \<not> P b#} = frees B"
  by (metis frees_simps(3) multiset_partition)

text \<open>What was freed already plus what is still due.\<close>

definition ses_accounted :: "session_store \<Rightarrow> free_event multiset" where
  "ses_accounted s = mset (ses_freed s) + frees (mset (ses_retiredBlocks s))"

lemma accounted_releaseRetired: "ses_accounted (ses_releaseRetired s d) = ses_accounted s"
  using releaseRetired_loop_mset [of 0 "ses_retiredBlocks s" d "ses_freed s"]
    frees_partition [of "\<lambda>b. rb_descId b = d" "mset (ses_retiredBlocks s)"]
  by (simp add: ses_accounted_def ses_releaseRetired_def Let_def add.assoc)

datatype ses_op =
    SesResize nat
  | SesStore SessionSlot DescriptorId ptr
  | SesGrowAndStore SessionSlot DescriptorId ptr
  | SesNullSlot SessionSlot
  | SesReleaseAll bool
  | SesRetire bool retired_block

fun ses_exec :: "ses_op \<Rightarrow> session_store \<Rightarrow> session_store option" where
  "ses_exec (SesResize n) s = Some (ses_resize s n)"
| "ses_exec (SesStore k d m) s = ses_store s k d m"
| "ses_exec (SesGrowAndStore k d m) s = ses_growAndStore s k d m"
| "ses_exec (SesNullSlot k) s = ses_nullSlot s k"
| "ses_exec (SesReleaseAll r) s = Some (ses_releaseAll s r)"
| "ses_exec (SesRetire t b) s = Some (ses_retireDeallocation s t b)"

fun ses_run :: "ses_op list \<Rightarrow> session_store \<Rightarrow> session_store option" where
  "ses_run [] s = Some s"
| "ses_run (op # ops) s = (case ses_exec op s of None \<Rightarrow> None | Some s' \<Rightarrow> ses_run ops s')"

fun ses_retired_by :: "ses_op list \<Rightarrow> retired_block list" where
  "ses_retired_by [] = []"
| "ses_retired_by (SesRetire t b # ops) = b # ses_retired_by ops"
| "ses_retired_by (op # ops) = ses_retired_by ops"

lemma accounted_exec:
  "ses_exec op s = Some s' \<Longrightarrow> ses_accounted s' = ses_accounted s + frees (mset (ses_retired_by [op]))"
proof (cases op)
  case (SesStore k d m)
  then show "ses_exec op s = Some s' \<Longrightarrow> ?thesis"
    using accounted_releaseRetired
    by (auto simp: ses_store_def ses_accounted_def split: option.splits if_splits)
next
  case (SesGrowAndStore k d m)
  then show "ses_exec op s = Some s' \<Longrightarrow> ?thesis"
    using accounted_releaseRetired
    by (auto simp: ses_growAndStore_def ses_store_def ses_grow_def Let_def ses_accounted_def
        split: option.splits if_splits)
qed (auto simp: ses_accounted_def ses_resize_def ses_nullSlot_def ses_releaseAll_def
      ses_releaseRetiredBlocks_def ses_retireDeallocation_def frees_concat Let_def split: option.splits if_splits)

lemma accounted_run:
  "ses_run ops s = Some s' \<Longrightarrow> ses_accounted s' = ses_accounted s + frees (mset (ses_retired_by ops))"
proof (induction ops arbitrary: s)
  case Nil
  then show ?case by simp
next
  case (Cons op ops)
  then obtain s1 where s1: "ses_exec op s = Some s1" "ses_run ops s1 = Some s'"
    by (auto split: option.splits)
  have "ses_retired_by (op # ops) = ses_retired_by [op] @ ses_retired_by ops" by (cases op) simp_all
  with Cons.IH [OF s1(2)] accounted_exec [OF s1(1)] show ?case by (simp add: add.assoc)
qed

text \<open>
  Whatever a scope does with its session store, once the store is released every block
  of memory retired by an early destruction has been deallocated exactly once, with its own
  deallocator: none is leaked and none is freed twice, although the retired blocks are
  removed by swapping with the last one and also when queueing a block runs out of memory.
\<close>

theorem session_retired_freed_once:
  assumes "ses_run ops ses_init = Some s"
  shows "mset (ses_freed (ses_releaseAll s True)) = frees (mset (ses_retired_by ops))
    \<and> ses_retiredBlocks (ses_releaseAll s True) = []"
  using accounted_run [OF assms]
  by (simp add: ses_accounted_def ses_init_def ses_releaseAll_def ses_releaseRetiredBlocks_def
      frees_concat Let_def)

theorem session_retired_freed_once_witness:
  "\<exists>s. ses_run [SesResize 2, SesRetire False \<lparr>rb_descId = 0, rb_memory = 40, rb_dealloc = None, rb_size = 8, rb_align = 8\<rparr>,
       SesRetire False \<lparr>rb_descId = 1, rb_memory = 50, rb_dealloc = Some 3, rb_size = 8, rb_align = 8\<rparr>,
       SesStore 0 0 60] ses_init = Some s
     \<and> ses_freed s = [OperatorDelete 40 8 8]
     \<and> mset (ses_freed (ses_releaseAll s True)) = {#OperatorDelete 40 8 8, CallDealloc 3 50#}"
proof -
  let ?ops = "[SesResize 2, SesRetire False \<lparr>rb_descId = 0, rb_memory = 40, rb_dealloc = None, rb_size = 8, rb_align = 8\<rparr>,
       SesRetire False \<lparr>rb_descId = 1, rb_memory = 50, rb_dealloc = Some 3, rb_size = 8, rb_align = 8\<rparr>,
       SesStore 0 0 60]"
  obtain s where s: "ses_run ?ops ses_init = Some s" "ses_freed s = [OperatorDelete 40 8 8]"
    by (simp add: ses_init_def ses_resize_def ses_retireDeallocation_def ses_store_def arr_write_def
        ses_releaseRetired_def ses_releaseRetired_loop.simps Let_def ses_releaseRetiredBlock_def)
  show ?thesis
    using s session_retired_freed_once [OF s(1)] by (intro exI [of _ s]) (simp add: ses_releaseRetiredBlock_def)
qed

subsubsection \<open>The session store as an instance store\<close>

text \<open>
  \<open>slot_of\<close> is the dense session slot of a descriptor (\<open>Descriptor::sessionSlot\<close>); it is
  injective on the session descriptors \<open>D\<close>.
\<close>

definition ses_inv :: "(DescriptorId \<Rightarrow> SessionSlot) \<Rightarrow> DescriptorId set \<Rightarrow> session_store \<Rightarrow> bool" where
  "ses_inv slot_of D s \<longleftrightarrow>
     (case ses_instancesBase s of
        None \<Rightarrow> ses_instancesSize s = 0
      | Some b \<Rightarrow> b < length (ses_graveyard s) \<and> length (ses_graveyard s ! b) = ses_instancesSize s)
     \<and> distinct (ses_insertionOrder s) \<and> set (ses_insertionOrder s) \<subseteq> D
     \<and> (\<forall>d \<in> D. d \<in> set (ses_insertionOrder s) \<longleftrightarrow> ses_find s (slot_of d) \<noteq> None)"

text \<open>
  The registry stores an instance only after it has found the slot empty; \<open>ses_put\<close> is
  \<open>growAndStore\<close> behind that check.
\<close>

definition ses_put :: "(DescriptorId \<Rightarrow> SessionSlot) \<Rightarrow> session_store \<Rightarrow> DescriptorId \<Rightarrow> ptr \<Rightarrow> session_store option" where
  "ses_put slot_of s d m =
     (if ses_find s (slot_of d) \<noteq> None then None else ses_growAndStore s (slot_of d) d m)"

lemma ses_find_grow:
  "ses_inv slot_of D s \<Longrightarrow> ses_find (ses_grow s n) k = ses_find s k"
  by (cases "ses_instancesBase s")
     (auto simp: ses_grow_def ses_find_def ses_inv_def Let_def nth_append grow_to_nth)

lemma ses_growAndStore_Some:
  assumes inv: "ses_inv slot_of D s"
  shows "\<exists>s'. ses_growAndStore s k d m = Some s'
    \<and> (\<forall>k'. ses_find s' k' = (if k' = k then Some m else ses_find s k'))
    \<and> ses_insertionOrder s' = ses_insertionOrder s @ [d]
    \<and> (\<exists>b. ses_instancesBase s' = Some b \<and> b < length (ses_graveyard s')
         \<and> length (ses_graveyard s' ! b) = ses_instancesSize s')"
proof -
  let ?g = "ses_grow s (k + 1)"
  have "\<exists>b. ses_instancesBase ?g = Some b \<and> b < length (ses_graveyard ?g)
      \<and> length (ses_graveyard ?g ! b) = ses_instancesSize ?g \<and> k < ses_instancesSize ?g"
    using inv by (cases "ses_instancesBase s"; cases "ses_instancesSize s < k + 1")
      (auto simp: ses_grow_def ses_inv_def Let_def)
  then obtain b where b: "ses_instancesBase ?g = Some b" "b < length (ses_graveyard ?g)"
      "length (ses_graveyard ?g ! b) = ses_instancesSize ?g" "k < ses_instancesSize ?g"
    by blast
  have ord: "ses_insertionOrder ?g = ses_insertionOrder s" by (simp add: ses_grow_def Let_def)
  have find: "ses_find ?g k' = ses_find s k'" for k' by (rule ses_find_grow [OF inv])
  obtain s' where s': "ses_growAndStore s k d m = Some s'"
    "s' = ses_releaseRetired (?g\<lparr>ses_insertionOrder := ses_insertionOrder ?g @ [d],
            ses_graveyard := arr_write (ses_graveyard ?g) b k (Some m)\<rparr>) d"
    using b by (simp add: ses_growAndStore_def ses_store_def)
  moreover have "ses_find s' k' = (if k' = k then Some m else ses_find ?g k')" for k'
    using b by (auto simp: s'(2) ses_find_def arr_write_nth nth_list_update)
  ultimately show ?thesis using b ord find by (auto simp: arr_write_nth)
qed

lemma ses_put_Some:
  assumes inv: "ses_inv slot_of D s" and inj: "inj_on slot_of D" and d: "d \<in> D"
    and free: "ses_find s (slot_of d) = None"
  shows "\<exists>s'. ses_put slot_of s d m = Some s' \<and> ses_inv slot_of D s'
    \<and> (\<forall>d' \<in> D. ses_find s' (slot_of d') = (if d' = d then Some m else ses_find s (slot_of d')))
    \<and> ses_insertionOrder s' = ses_insertionOrder s @ [d]"
proof -
  obtain s' where s': "ses_growAndStore s (slot_of d) d m = Some s'"
    "\<forall>k'. ses_find s' k' = (if k' = slot_of d then Some m else ses_find s k')"
    "ses_insertionOrder s' = ses_insertionOrder s @ [d]"
    "\<exists>b. ses_instancesBase s' = Some b \<and> b < length (ses_graveyard s')
         \<and> length (ses_graveyard s' ! b) = ses_instancesSize s'"
    using ses_growAndStore_Some [OF inv, of "slot_of d" d m] by blast
  have slots: "slot_of d' = slot_of d \<longleftrightarrow> d' = d" if "d' \<in> D" for d'
    using inj d that by (auto dest: inj_onD)
  have "d \<notin> set (ses_insertionOrder s)" using inv d free by (auto simp: ses_inv_def)
  then have "ses_inv slot_of D s'"
    using inv s' d slots by (auto simp: ses_inv_def split: option.splits)
  with s' free slots show ?thesis by (auto simp: ses_put_def)
qed

lemma ses_put_free: "ses_put slot_of s d m = Some s' \<Longrightarrow> ses_find s (slot_of d) = None"
  by (auto simp: ses_put_def split: if_splits)

interpretation sest: instance_store "\<lambda>s d. ses_find s (slot_of d)" "\<lambda>s d m. if d \<in> D then ses_put slot_of s d m else None"
    ses_insertionOrder "\<lambda>s. inj_on slot_of D \<and> ses_inv slot_of D s" D for slot_of D
proof (unfold_locales, goal_cases)
  case (1 s d m)
  then show ?case using ses_put_Some [of slot_of D s d m] by auto
next
  case (2 s d d' m s')
  then show ?case using ses_put_Some [of slot_of D s d m] ses_put_free [of slot_of s d m s'] by auto
next
  case (3 s d m s')
  then show ?case using ses_put_Some [of slot_of D s d m] ses_put_free [of slot_of s d m s']
    by (auto split: if_splits)
next
  case (4 s d)
  then show ?case by (simp add: ses_inv_def)
next
  case (5 s)
  then show ?case by (simp add: ses_inv_def)
next
  case (6 s)
  then show ?case by (simp add: ses_inv_def)
qed

lemma ses_resize_inv:
  assumes "ses_insertionOrder s = []"
  shows "ses_inv slot_of D (ses_resize s n)"
  using assms by (auto simp: ses_inv_def ses_resize_def ses_find_def)

lemma ses_find_resize [simp]: "ses_find (ses_resize s n) k = None"
  by (auto simp: ses_resize_def ses_find_def nth_append)

end
