(* ===== verification/Descriptor_Table.thy ===== *)
theory Descriptor_Table
  imports Type_Index Instance_Stores
begin

text \<open>
  Bean descriptors: what a discovery contributes (\<^verbatim>\<open>ContributedDescriptor.hpp\<close>), the runtime
  descriptor split in a hot and a cold part (\<^verbatim>\<open>Descriptor.hpp\<close>), and the append-only table
  (\<^verbatim>\<open>DescriptorTable.hpp\<close>). A thunk (constructor, destructor, hook, allocator) is the id of a
  piece of user code; a pointer adjustment is the function itself; a \<open>type_info\<close> getter is
  the \<open>type_index\<close> it returns.
\<close>

type_synonym thunk = nat
type_synonym adjust = "ptr \<Rightarrow> ptr"

record param_desc =
  pd_injectedTypeName :: string
  pd_injectedTypeInfo :: type_index
  pd_hasScopedAnnotation :: bool
  pd_hasNamedAnnotation :: bool
  pd_targetName :: "string option"
  pd_scopeName :: "string option"

record contributed =
  cd_identity :: Identity
  cd_exposedTypeName :: string
  cd_concreteTypeName :: string
  cd_exposedTypeInfo :: type_index
  cd_concreteTypeInfo :: type_index
  cd_beanName :: string
  cd_priority :: int
  cd_lazy :: bool
  cd_lifetime :: Lifetime
  cd_origin :: Origin
  cd_construct :: thunk
  cd_destroy :: thunk
  cd_postConstruct :: "thunk option"
  cd_preDestroy :: "thunk option"
  cd_size :: nat
  cd_align :: nat
  cd_factoryMethodIdentity :: Identity
  cd_factoryMethodName :: "string option"
  cd_allocAndConstruct :: "thunk option"
  cd_dealloc :: "thunk option"
  cd_params :: "param_desc list"
  cd_reflectiveData :: "nat option"
  cd_isExposedAlias :: bool
  cd_aliasOfPrimaryIdentity :: Identity
  cd_adjustToExposed :: "adjust option"
  cd_adjustToConcrete :: "adjust option"

record descriptor =
  d_priority :: int
  d_primaryDescriptor :: DescriptorId
  d_sessionSlot :: SessionSlot
  d_lifetime :: Lifetime
  d_adjustToExposed :: "adjust option"

record descriptor_cold =
  c_exposedType :: TypeId
  c_concreteType :: TypeId
  c_name :: NameId
  c_size :: nat
  c_align :: nat
  c_factoryMethodDescriptor :: DescriptorId
  c_factoryMethodName :: "string option"
  c_origin :: Origin
  c_lazy :: bool
  c_construct :: "thunk option"
  c_destroy :: "thunk option"
  c_postConstruct :: "thunk option"
  c_preDestroy :: "thunk option"
  c_allocAndConstruct :: "thunk option"
  c_dealloc :: "thunk option"
  c_observedTypeGetter :: "type_index option"
  c_exactTypeGetter :: "type_index option"
  c_nameStr :: "string option"
  c_reflectiveData :: "nat option"
  c_adjustToConcrete :: "adjust option"

record desc_table =
  dtb_entries :: "descriptor list"
  dtb_coldEntries :: "descriptor_cold list"
  dtb_lifetimes :: "Lifetime list"

definition dtb_init :: desc_table where
  "dtb_init = \<lparr>dtb_entries = [], dtb_coldEntries = [], dtb_lifetimes = []\<rparr>"

definition dtb_append :: "desc_table \<Rightarrow> descriptor \<Rightarrow> descriptor_cold \<Rightarrow> DescriptorId \<times> desc_table" where
  "dtb_append t d cold =
     (u32 (length (dtb_entries t)),
      t\<lparr>dtb_lifetimes := dtb_lifetimes t @ [d_lifetime d],
        dtb_entries := dtb_entries t @ [d],
        dtb_coldEntries := dtb_coldEntries t @ [cold]\<rparr>)"

text \<open>The accessors; the code asserts that the id is in range.\<close>

definition dtb_lifetimeOf :: "desc_table \<Rightarrow> DescriptorId \<Rightarrow> Lifetime" where
  "dtb_lifetimeOf t i = dtb_lifetimes t ! i"

definition dtb_at :: "desc_table \<Rightarrow> DescriptorId \<Rightarrow> descriptor" where
  "dtb_at t i = dtb_entries t ! i"

definition dtb_coldAt :: "desc_table \<Rightarrow> DescriptorId \<Rightarrow> descriptor_cold" where
  "dtb_coldAt t i = dtb_coldEntries t ! i"

definition dtb_atMutable :: "desc_table \<Rightarrow> DescriptorId \<Rightarrow> (descriptor \<Rightarrow> descriptor) \<Rightarrow> desc_table" where
  "dtb_atMutable t i f = t\<lparr>dtb_entries := (dtb_entries t)[i := f (dtb_entries t ! i)]\<rparr>"

definition dtb_coldAtMutable :: "desc_table \<Rightarrow> DescriptorId \<Rightarrow> (descriptor_cold \<Rightarrow> descriptor_cold) \<Rightarrow> desc_table" where
  "dtb_coldAtMutable t i f = t\<lparr>dtb_coldEntries := (dtb_coldEntries t)[i := f (dtb_coldEntries t ! i)]\<rparr>"

definition dtb_size :: "desc_table \<Rightarrow> nat" where
  "dtb_size t = length (dtb_entries t)"

text \<open>The three vectors grow together, and the dense lifetime vector mirrors the entries.\<close>

definition dtb_inv :: "desc_table \<Rightarrow> bool" where
  "dtb_inv t \<longleftrightarrow> length (dtb_coldEntries t) = dtb_size t
     \<and> dtb_lifetimes t = map d_lifetime (dtb_entries t)"

lemma dtb_init_inv [ctr_inv]: "dtb_inv dtb_init"
  by (simp add: dtb_inv_def dtb_init_def dtb_size_def)

lemma dtb_append_inv [ctr_inv]: "dtb_inv t \<Longrightarrow> dtb_inv (snd (dtb_append t d c))"
  by (simp add: dtb_inv_def dtb_append_def dtb_size_def)

lemma dtb_atMutable_inv [ctr_inv]:
  assumes "dtb_inv t" "\<And>d. d_lifetime (f d) = d_lifetime d"
  shows "dtb_inv (dtb_atMutable t i f)"
proof -
  have "map d_lifetime ((dtb_entries t)[i := f (dtb_entries t ! i)]) = map d_lifetime (dtb_entries t)"
    by (cases "i < length (dtb_entries t)") (auto simp: map_update assms(2) list_update_same_conv not_less list_update_beyond)
  then show ?thesis using assms(1) by (simp add: dtb_inv_def dtb_atMutable_def dtb_size_def)
qed

lemma dtb_coldAtMutable_inv [ctr_inv]: "dtb_inv t \<Longrightarrow> dtb_inv (dtb_coldAtMutable t i f)"
  by (simp add: dtb_inv_def dtb_coldAtMutable_def dtb_size_def)

lemma dtb_size_simps [simp]:
  "dtb_size (snd (dtb_append t d c)) = Suc (dtb_size t)"
  "dtb_size (dtb_atMutable t i f) = dtb_size t"
  "dtb_size (dtb_coldAtMutable t i g) = dtb_size t"
  "dtb_size dtb_init = 0"
  by (simp_all add: dtb_size_def dtb_append_def dtb_atMutable_def dtb_coldAtMutable_def dtb_init_def)

lemma dtb_append_at:
  "dtb_inv t \<Longrightarrow> i \<le> dtb_size t \<Longrightarrow>
   dtb_at (snd (dtb_append t d c)) i = (if i = dtb_size t then d else dtb_at t i)"
  "dtb_inv t \<Longrightarrow> i \<le> dtb_size t \<Longrightarrow>
   dtb_coldAt (snd (dtb_append t d c)) i = (if i = dtb_size t then c else dtb_coldAt t i)"
  by (auto simp: dtb_append_def dtb_at_def dtb_coldAt_def dtb_size_def dtb_inv_def nth_append)

lemma dtb_lifetimeOf_at: "dtb_inv t \<Longrightarrow> i < dtb_size t \<Longrightarrow> dtb_lifetimeOf t i = d_lifetime (dtb_at t i)"
  by (simp add: dtb_inv_def dtb_lifetimeOf_def dtb_at_def dtb_size_def)

lemma dtb_mutable_at:
  "i < dtb_size t \<Longrightarrow> dtb_at (dtb_atMutable t i f) j = (if j = i then f (dtb_at t i) else dtb_at t j)"
  "dtb_coldAt (dtb_atMutable t i f) j = dtb_coldAt t j"
  "dtb_inv t \<Longrightarrow> i < dtb_size t \<Longrightarrow> dtb_coldAt (dtb_coldAtMutable t i g) j = (if j = i then g (dtb_coldAt t i) else dtb_coldAt t j)"
  "dtb_at (dtb_coldAtMutable t i g) j = dtb_at t j"
  by (auto simp: dtb_atMutable_def dtb_coldAtMutable_def dtb_at_def dtb_coldAt_def dtb_size_def dtb_inv_def nth_list_update)

end
