(* ===== verification/Registry_Start.thy ===== *)
theory Registry_Start
  imports Descriptor_Table
begin

text \<open>
  The registry's own state and \<^verbatim>\<open>Registry::start\<close> (\<^verbatim>\<open>Registry.hpp\<close>), phase by phase: merging of
  the contributions by identity, pre-start bindings, factory and alias links, sorting, graph
  validation, registration of the context bean and session slots. A phase that throws
  returns the error together with the registry as it is at that point, since the code undoes
  nothing. Runtime singleton bindings (\<^verbatim>\<open>BindReflectiveImpl.hpp\<close>) are here as well.
\<close>

subsection \<open>State\<close>

record pending_singleton =
  pb_instance :: ptr
  pb_typeName :: string
  pb_typeInfo :: type_index
  pb_nameId :: NameId
  pb_priority :: int
  pb_destroy :: thunk
  pb_preDestroy :: "thunk option"
  pb_dealloc :: "thunk option"
  pb_size :: nat
  pb_align :: nat

text \<open>A materialization in progress: the key (a null scope is \<open>None\<close>) and the token of its thread.\<close>

record mat_key =
  mk_descId :: DescriptorId
  mk_scope :: "ptr option"

record mat_entry =
  me_key :: mat_key
  me_threadToken :: nat

record registry =
  r_started :: bool
  r_root :: "ptr option"
  r_beanContextDescId :: DescriptorId
  r_sessionSlotCount :: nat
  r_beanContextStartLifecyclePending :: bool
  r_descriptors :: desc_table
  r_types :: type_interning
  r_names :: name_interning
  r_index :: tindex
  r_defaults :: defaults_table
  r_hasAnyDefault :: bool
  r_singletons :: singleton_store
  r_pending :: "contributed list list"
  r_startLifecyclePending :: "(DescriptorId \<times> ptr \<times> TypeId) list"
  r_pendingRuntimeSingletons :: "pending_singleton list"
  r_materializing :: "mat_entry list"

definition registry_init :: registry where
  "registry_init = \<lparr>r_started = False, r_root = None, r_beanContextDescId = kInvalidDescriptorId,
     r_sessionSlotCount = 0, r_beanContextStartLifecyclePending = False, r_descriptors = dtb_init,
     r_types = ti_init, r_names = ni_init, r_index = tix_init, r_defaults = [], r_hasAnyDefault = False,
     r_singletons = ss_init, r_pending = [], r_startLifecyclePending = [], r_pendingRuntimeSingletons = [],
     r_materializing = []\<rparr>"

definition submitContribution :: "registry \<Rightarrow> contributed list \<Rightarrow> ctr_error + registry" where
  "submitContribution r contribution =
     (if r_started r then Inl (ContextStateError AlreadyStarted)
      else Inr (r\<lparr>r_pending := r_pending r @ [contribution]\<rparr>))"

definition prio :: "registry \<Rightarrow> DescriptorId \<Rightarrow> int" where
  "prio r i = d_priority (dtb_at (r_descriptors r) i)"

definition candidateKeyExists :: "registry \<Rightarrow> TypeId \<Rightarrow> NameId \<Rightarrow> int \<Rightarrow> bool" where
  "candidateKeyExists r typeId nameId priority =
     list_ex (\<lambda>i. c_exposedType (dtb_coldAt (r_descriptors r) i) = typeId
                  \<and> c_name (dtb_coldAt (r_descriptors r) i) = nameId
                  \<and> prio r i = priority) [0..<dtb_size (r_descriptors r)]"

subsection \<open>Phase 1: merging the contributions\<close>

record merge_state =
  ms_reg :: registry
  ms_identityMap :: "Identity \<rightharpoonup> DescriptorId"
  ms_factoryLinks :: "(DescriptorId \<times> Identity) list"
  ms_aliasLinks :: "(DescriptorId \<times> Identity) list"

definition merge_init :: "registry \<Rightarrow> merge_state" where
  "merge_init r = \<lparr>ms_reg = r, ms_identityMap = Map.empty, ms_factoryLinks = [], ms_aliasLinks = []\<rparr>"

definition hot_of :: "contributed \<Rightarrow> descriptor" where
  "hot_of cd = \<lparr>d_priority = cd_priority cd, d_primaryDescriptor = kInvalidDescriptorId,
     d_sessionSlot = kInvalidSessionSlot, d_lifetime = cd_lifetime cd,
     d_adjustToExposed = cd_adjustToExposed cd\<rparr>"

definition cold_of :: "contributed \<Rightarrow> TypeId \<Rightarrow> TypeId \<Rightarrow> NameId \<Rightarrow> descriptor_cold" where
  "cold_of cd exposedType concreteType name = \<lparr>c_exposedType = exposedType, c_concreteType = concreteType,
     c_name = name, c_size = cd_size cd, c_align = cd_align cd,
     c_factoryMethodDescriptor = kInvalidDescriptorId, c_factoryMethodName = cd_factoryMethodName cd,
     c_origin = cd_origin cd, c_lazy = cd_lazy cd, c_construct = Some (cd_construct cd),
     c_destroy = Some (cd_destroy cd), c_postConstruct = cd_postConstruct cd, c_preDestroy = cd_preDestroy cd,
     c_allocAndConstruct = cd_allocAndConstruct cd, c_dealloc = cd_dealloc cd,
     c_observedTypeGetter = Some (cd_exposedTypeInfo cd), c_exactTypeGetter = Some (cd_concreteTypeInfo cd),
     c_nameStr = Some (cd_beanName cd), c_reflectiveData = cd_reflectiveData cd,
     c_adjustToConcrete = cd_adjustToConcrete cd\<rparr>"

definition merge_new :: "merge_state \<Rightarrow> contributed \<Rightarrow> merge_state" where
  "merge_new ms cd =
     (let r = ms_reg ms;
          (exposedType, ty1) = ti_internByName (r_types r) (cd_exposedTypeName cd) (cd_exposedTypeInfo cd);
          (concreteType, ty2) = ti_internByName ty1 (cd_concreteTypeName cd) (cd_concreteTypeInfo cd);
          (name, nm) = ni_intern (r_names r) (cd_beanName cd);
          (i, dt) = dtb_append (r_descriptors r) (hot_of cd) (cold_of cd exposedType concreteType name);
          dt' = (if \<not> cd_isExposedAlias cd then dtb_atMutable dt i (\<lambda>d. d\<lparr>d_primaryDescriptor := i\<rparr>) else dt);
          ix = tix_insertCandidate (r_index r) exposedType name i
      in \<lparr>ms_reg = r\<lparr>r_types := ty2, r_names := nm, r_descriptors := dt', r_index := ix\<rparr>,
          ms_identityMap = (ms_identityMap ms)(cd_identity cd \<mapsto> i),
          ms_factoryLinks = ms_factoryLinks ms @
             (if cd_factoryMethodIdentity cd \<noteq> kNoFactoryMethod then [(i, cd_factoryMethodIdentity cd)] else []),
          ms_aliasLinks = ms_aliasLinks ms @
             (if cd_isExposedAlias cd \<and> cd_aliasOfPrimaryIdentity cd \<noteq> kNoFactoryMethod
              then [(i, cd_aliasOfPrimaryIdentity cd)] else [])\<rparr>)"

definition merge_agrees :: "registry \<Rightarrow> DescriptorId \<Rightarrow> contributed \<Rightarrow> bool" where
  "merge_agrees r i cd \<longleftrightarrow>
     ti_nameOf (r_types r) (c_exposedType (dtb_coldAt (r_descriptors r) i)) = Some (cd_exposedTypeName cd)
     \<and> ni_nameOf (r_names r) (c_name (dtb_coldAt (r_descriptors r) i)) = Some (cd_beanName cd)
     \<and> d_lifetime (dtb_at (r_descriptors r) i) = cd_lifetime cd"

fun merge_loop :: "merge_state \<Rightarrow> contributed list \<Rightarrow> ctr_error option \<times> merge_state" where
  "merge_loop ms [] = (None, ms)"
| "merge_loop ms (cd # cds) =
     (case ms_identityMap ms (cd_identity cd) of
        None \<Rightarrow> merge_loop (merge_new ms cd) cds
      | Some i \<Rightarrow>
          if merge_agrees (ms_reg ms) i cd then merge_loop ms cds
          else (Some (ConfigurationError IdentityCollision), ms))"

subsection \<open>Phase 1.5: runtime singletons bound before start\<close>

definition runtime_hot :: "Lifetime \<Rightarrow> int \<Rightarrow> SessionSlot \<Rightarrow> descriptor" where
  "runtime_hot lt priority slot = \<lparr>d_priority = priority, d_primaryDescriptor = kInvalidDescriptorId,
     d_sessionSlot = slot, d_lifetime = lt, d_adjustToExposed = None\<rparr>"

text \<open>
  The cold part of a runtime binding. \<open>lazy\<close> keeps its default; \<open>None\<close> as \<open>construct\<close> or \<open>destroy\<close>
  stands for the empty lambda the code stores there.
\<close>

definition runtime_cold :: "TypeId \<Rightarrow> NameId \<Rightarrow> thunk option \<Rightarrow> thunk option \<Rightarrow> thunk option \<Rightarrow> nat \<Rightarrow> nat
    \<Rightarrow> type_index \<Rightarrow> string \<Rightarrow> descriptor_cold" where
  "runtime_cold typeId nameId destroy preDestroy dealloc sz al tinfo typeName =
     \<lparr>c_exposedType = typeId, c_concreteType = typeId, c_name = nameId, c_size = sz, c_align = al,
      c_factoryMethodDescriptor = kInvalidDescriptorId, c_factoryMethodName = None,
      c_origin = RuntimeBinding, c_lazy = True, c_construct = None, c_destroy = destroy,
      c_postConstruct = None, c_preDestroy = preDestroy, c_allocAndConstruct = None, c_dealloc = dealloc,
      c_observedTypeGetter = Some tinfo, c_exactTypeGetter = Some tinfo, c_nameStr = Some typeName,
      c_reflectiveData = None, c_adjustToConcrete = None\<rparr>"

definition append_runtime :: "registry \<Rightarrow> descriptor \<Rightarrow> descriptor_cold \<Rightarrow> DescriptorId \<times> registry" where
  "append_runtime r d cold =
     (let (i, dt) = dtb_append (r_descriptors r) d cold
      in (i, r\<lparr>r_descriptors := dtb_atMutable dt i (\<lambda>d. d\<lparr>d_primaryDescriptor := i\<rparr>),
               r_index := tix_insertCandidate (r_index r) (c_exposedType cold) (c_name cold) i\<rparr>))"

fun bind_pending :: "registry \<Rightarrow> (DescriptorId \<times> ptr \<times> TypeId) list \<Rightarrow> pending_singleton list
    \<Rightarrow> ctr_error option \<times> registry \<times> (DescriptorId \<times> ptr \<times> TypeId) list" where
  "bind_pending r bound [] = (None, r, bound)"
| "bind_pending r bound (pb # pbs) =
     (let (typeId, ty) = ti_internByName (r_types r) (pb_typeName pb) (pb_typeInfo pb);
          r1 = r\<lparr>r_types := ty\<rparr>
      in if candidateKeyExists r1 typeId (pb_nameId pb) (pb_priority pb)
         then (Some (ConfigurationError BindingCollision), r1, bound)
         else (let (i, r2) = append_runtime r1 (runtime_hot Singleton (pb_priority pb) kInvalidSessionSlot)
                 (runtime_cold typeId (pb_nameId pb) (Some (pb_destroy pb)) (pb_preDestroy pb) (pb_dealloc pb)
                    (pb_size pb) (pb_align pb) (pb_typeInfo pb) (pb_typeName pb))
               in bind_pending r2 (bound @ [(i, pb_instance pb, typeId)]) pbs))"

subsection \<open>Phases 2 and 2.5: links\<close>

fun link_factories :: "(Identity \<rightharpoonup> DescriptorId) \<Rightarrow> registry \<Rightarrow> (DescriptorId \<times> Identity) list \<Rightarrow> ctr_error option \<times> registry" where
  "link_factories im r [] = (None, r)"
| "link_factories im r ((beanId, fid) # ls) =
     (case im fid of
        None \<Rightarrow> (Some (ConfigurationError FactoryNotFound), r)
      | Some f \<Rightarrow> link_factories im
          (r\<lparr>r_descriptors := dtb_coldAtMutable (r_descriptors r) beanId (\<lambda>c. c\<lparr>c_factoryMethodDescriptor := f\<rparr>)\<rparr>) ls)"

fun link_aliases :: "(Identity \<rightharpoonup> DescriptorId) \<Rightarrow> registry \<Rightarrow> (DescriptorId \<times> Identity) list \<Rightarrow> ctr_error option \<times> registry" where
  "link_aliases im r [] = (None, r)"
| "link_aliases im r ((aliasId, pid) # ls) =
     (case im pid of
        None \<Rightarrow> (Some (ConfigurationError PrimaryNotFound), r)
      | Some p \<Rightarrow> link_aliases im
          (r\<lparr>r_descriptors := dtb_atMutable (r_descriptors r) aliasId (\<lambda>d. d\<lparr>d_primaryDescriptor := p\<rparr>)\<rparr>) ls)"

subsection \<open>Phases 3.5 and 3.75: validation\<close>

fun adjacent_find :: "nat list \<Rightarrow> bool" where
  "adjacent_find (a # b # xs) = (a = b \<or> adjacent_find (b # xs))"
| "adjacent_find _ = False"

definition factory_ids :: "registry \<Rightarrow> DescriptorId list \<Rightarrow> DescriptorId list" where
  "factory_ids r cs =
     map (\<lambda>i. c_factoryMethodDescriptor (dtb_coldAt (r_descriptors r) i))
       (filter (\<lambda>i. c_origin (dtb_coldAt (r_descriptors r) i) = FactoryProduct
            \<and> c_factoryMethodDescriptor (dtb_coldAt (r_descriptors r) i) \<noteq> kInvalidDescriptorId) cs)"

definition duplicate_producer :: "registry \<Rightarrow> bool" where
  "duplicate_producer r =
     list_ex (\<lambda>t. case tix_tableFor (r_index r) t of
         None \<Rightarrow> False
       | Some tbl \<Rightarrow> list_ex (\<lambda>(n, e). adjacent_find (sort (factory_ids r (ne_candidates e)))) tbl)
       [0..<ti_size (r_types r)]"

definition param_error :: "registry \<Rightarrow> Lifetime \<Rightarrow> param_desc \<Rightarrow> ctr_error option" where
  "param_error r consumer p =
     (let injTypeId = ti_lookupByTypeIndex (r_types r) (pd_injectedTypeInfo p)
      in if injTypeId = kInvalidTypeId then None
         else
           (let candidateName = (if pd_hasNamedAnnotation p
                  then ni_lookup (r_names r) (case pd_targetName p of None \<Rightarrow> [] | Some n \<Rightarrow> n) else kUnnamed)
            in if candidateName = kInvalidNameId then None
               else case tix_candidatesFor (r_index r) injTypeId candidateName of
                 None \<Rightarrow> None
               | Some [] \<Rightarrow> None
               | Some (c # cs) \<Rightarrow>
                   (let injLt = d_lifetime (dtb_at (r_descriptors r) c)
                    in if pd_hasScopedAnnotation p \<and> injLt \<noteq> Session
                       then Some (ConfigurationError ScopedOnNonSession)
                       else if \<not> pd_hasScopedAnnotation p \<and> injLt = Session \<and> consumer \<noteq> Session
                       then Some (ConfigurationError UnscopedSession)
                       else None)))"

fun first_error :: "ctr_error option list \<Rightarrow> ctr_error option" where
  "first_error [] = None"
| "first_error (None # es) = first_error es"
| "first_error (Some e # es) = Some e"

definition graph_error :: "registry \<Rightarrow> ctr_error option" where
  "graph_error r =
     first_error (concat (map (\<lambda>cd. map (param_error r (cd_lifetime cd)) (cd_params cd)) (concat (r_pending r))))"

subsection \<open>Phase 4 and the whole of \<open>start\<close>\<close>

text \<open>\<open>bc\<close> holds the \<open>type_index\<close> and the alignment of \<^verbatim>\<open>ctr::BeanContext\<close>.\<close>

definition beanContextName :: string where
  "beanContextName = ''ctr::BeanContext''"

definition registerContextBean :: "type_index \<times> nat \<Rightarrow> registry \<Rightarrow> ptr \<Rightarrow> registry option" where
  "registerContextBean bc r ctx =
     (let (typeId, ty) = ti_internByName (r_types r) beanContextName (fst bc);
          (i, dt) = dtb_append (r_descriptors r) (runtime_hot Singleton 0 kInvalidSessionSlot)
             (runtime_cold typeId kUnnamed None None None 0 (snd bc) (fst bc) beanContextName);
          ix = tix_updateSingleUnnamed (tix_insertCandidate (r_index r) typeId kUnnamed i) typeId
      in case ss_store (ss_resize (r_singletons r) (dtb_size dt)) i ctx of
           None \<Rightarrow> None
         | Some ss \<Rightarrow> Some (r\<lparr>r_types := ty, r_descriptors := dt, r_beanContextDescId := i, r_index := ix,
                              r_singletons := ss, r_root := Some ctx\<rparr>))"

fun assign_slots :: "nat \<Rightarrow> descriptor list \<Rightarrow> descriptor list \<times> nat" where
  "assign_slots n [] = ([], n)"
| "assign_slots n (d # ds) =
     (if d_lifetime d = Session
      then (d\<lparr>d_sessionSlot := u32 n\<rparr> # fst (assign_slots (n + 1) ds), snd (assign_slots (n + 1) ds))
      else (d\<lparr>d_sessionSlot := kInvalidSessionSlot\<rparr> # fst (assign_slots n ds), snd (assign_slots n ds)))"

definition assign_session_slots :: "registry \<Rightarrow> registry" where
  "assign_session_slots r =
     (let (ds, n) = assign_slots 0 (dtb_entries (r_descriptors r))
      in r\<lparr>r_descriptors := (r_descriptors r)\<lparr>dtb_entries := ds\<rparr>, r_sessionSlotCount := n\<rparr>)"

fun store_bound :: "registry \<Rightarrow> (DescriptorId \<times> ptr \<times> TypeId) list \<Rightarrow> registry option" where
  "store_bound r [] = Some r"
| "store_bound r ((i, p, t) # bs) =
     (case ss_store (r_singletons r) i p of
        None \<Rightarrow> None
      | Some ss \<Rightarrow> store_bound (r\<lparr>r_singletons := ss,
            r_startLifecyclePending := r_startLifecyclePending r @ [(i, p, t)]\<rparr>) bs)"

definition start_finish :: "type_index \<times> nat \<Rightarrow> registry \<Rightarrow> ptr \<Rightarrow> (DescriptorId \<times> ptr \<times> TypeId) list \<Rightarrow> registry option" where
  "start_finish bc r ctx bound =
     (case registerContextBean bc r ctx of
        None \<Rightarrow> None
      | Some r1 \<Rightarrow>
          (case store_bound (assign_session_slots r1) bound of
             None \<Rightarrow> None
           | Some r2 \<Rightarrow>
               (let ty = ti_freeze (r_types r2)
                in Some (r2\<lparr>r_types := ty, r_defaults := dt_resize (ti_size ty), r_started := True,
                            r_beanContextStartLifecyclePending := True\<rparr>))))"

text \<open>Phases 1 to 2.5: the first error thrown, the registry, and the runtime singletons bound.\<close>

definition start_link :: "registry \<Rightarrow> ctr_error option \<times> registry \<times> (DescriptorId \<times> ptr \<times> TypeId) list" where
  "start_link r =
     (case merge_loop (merge_init r) (concat (r_pending r)) of
        (Some e, ms) \<Rightarrow> (Some e, ms_reg ms, [])
      | (None, ms) \<Rightarrow>
          (case bind_pending (ms_reg ms) [] (r_pendingRuntimeSingletons r) of
             (Some e, r1, bound) \<Rightarrow> (Some e, r1, bound)
           | (None, r1, bound) \<Rightarrow>
               (case link_factories (ms_identityMap ms) (r1\<lparr>r_pendingRuntimeSingletons := []\<rparr>) (ms_factoryLinks ms) of
                  (Some e, r2) \<Rightarrow> (Some e, r2, bound)
                | (None, r2) \<Rightarrow>
                    (case link_aliases (ms_identityMap ms) r2 (ms_aliasLinks ms) of (e, r3) \<Rightarrow> (e, r3, bound)))))"

text \<open>\<open>None\<close>: an assertion of the singleton store fails. \<open>Some (e, r)\<close>: \<open>e\<close> is thrown, or none.\<close>

definition registry_start :: "type_index \<times> nat \<Rightarrow> registry \<Rightarrow> ptr \<Rightarrow> (ctr_error option \<times> registry) option" where
  "registry_start bc r ctx =
     (if r_started r then Some (None, r)
      else if r_beanContextDescId r \<noteq> kInvalidDescriptorId then
        map_option (\<lambda>ss. (None, r\<lparr>r_root := Some ctx, r_singletons := ss, r_started := True,
              r_beanContextStartLifecyclePending := True\<rparr>))
          (ss_store (ss_resize (r_singletons r) (dtb_size (r_descriptors r))) (r_beanContextDescId r) ctx)
      else
        (case start_link r of
           (Some e, r3, bound) \<Rightarrow> Some (Some e, r3)
         | (None, r3, bound) \<Rightarrow>
             (let r4 = r3\<lparr>r_index := tix_sortAllCandidates (prio r3) (r_index r3)\<rparr>
              in if duplicate_producer r4
                 then Some (Some (ConfigurationError DuplicateProducer), r4)
                 else case graph_error r4 of
                   Some e \<Rightarrow> Some (Some e, r4)
                 | None \<Rightarrow> map_option (\<lambda>r5. (None, r5)) (start_finish bc r4 ctx bound))))"

subsection \<open>The index follows the descriptor table\<close>

definition keyed :: "registry \<Rightarrow> TypeId \<Rightarrow> NameId \<Rightarrow> DescriptorId list" where
  "keyed r t n = filter (\<lambda>i. c_exposedType (dtb_coldAt (r_descriptors r) i) = t
      \<and> c_name (dtb_coldAt (r_descriptors r) i) = n) [0..<dtb_size (r_descriptors r)]"

text \<open>\<open>P\<close> restricts the names of the exposed types.\<close>

definition reg_ok :: "(string \<Rightarrow> type_index) \<Rightarrow> (string \<Rightarrow> bool) \<Rightarrow> registry \<Rightarrow> bool" where
  "reg_ok tinfo P r \<longleftrightarrow>
     inj tinfo \<and> ti_inv tinfo (r_types r) \<and> ni_inv (r_names r) \<and> dtb_inv (r_descriptors r)
     \<and> tix_wf (r_index r)
     \<and> (\<forall>t n. mset (tix_cands (r_index r) t n) = mset (keyed r t n))
     \<and> (\<forall>i < dtb_size (r_descriptors r). \<exists>nm. P nm \<and> ti_known (r_types r) nm = Some (c_exposedType (dtb_coldAt (r_descriptors r) i)))"

text \<open>Room for \<open>k\<close> more descriptors before any of the 32-bit id spaces is exhausted.\<close>

definition reg_room :: "registry \<Rightarrow> nat \<Rightarrow> bool" where
  "reg_room r k \<longleftrightarrow>
     dtb_size (r_descriptors r) + k \<le> kInvalidDescriptorId
     \<and> length (ti_names (r_types r)) + 2 * k \<le> kInvalidTypeId
     \<and> length (ni_idToName (r_names r)) + k \<le> kInvalidNameId - 2"

lemma reg_init_ok: "inj tinfo \<Longrightarrow> reg_ok tinfo P registry_init"
  by (simp add: reg_ok_def registry_init_def ti_inv_init ni_inv_init dtb_init_inv init_wf keyed_def)

lemma ti_intern_names_length: "length (ti_names (snd (ti_internByName s n t))) \<le> length (ti_names s) + 1"
  by (auto simp: ti_internByName_def Let_def split: option.splits)

lemma ni_intern_names_length: "length (ni_idToName (snd (ni_intern s n))) \<le> length (ni_idToName s) + 1"
  by (auto simp: ni_intern_def Let_def split: option.splits)

lemma reg_ok_types:
  assumes ok: "reg_ok tinfo P r" and inv: "ti_inv tinfo ty"
    and stable: "\<And>k i. ti_known (r_types r) k = Some i \<Longrightarrow> ti_known ty k = Some i"
  shows "reg_ok tinfo P (r\<lparr>r_types := ty\<rparr>)"
proof -
  have "\<exists>nm. P nm \<and> ti_known ty nm = Some (c_exposedType (dtb_coldAt (r_descriptors r) i))"
    if i: "i < dtb_size (r_descriptors r)" for i
  proof -
    from ok i obtain nm where "P nm" "ti_known (r_types r) nm = Some (c_exposedType (dtb_coldAt (r_descriptors r) i))"
      unfolding reg_ok_def by blast
    with stable show ?thesis by blast
  qed
  with ok inv show ?thesis by (simp add: reg_ok_def keyed_def)
qed

lemma reg_intern_type:
  assumes ok: "reg_ok tinfo P r" and room: "length (ti_names (r_types r)) < kInvalidTypeId"
  shows "reg_ok tinfo P (r\<lparr>r_types := snd (ti_internByName (r_types r) nm (tinfo nm))\<rparr>)"
    "ti_known (snd (ti_internByName (r_types r) nm (tinfo nm))) nm = Some (fst (ti_internByName (r_types r) nm (tinfo nm)))"
proof -
  have pre: "inj tinfo \<and> ti_inv tinfo (r_types r)" "0 < ti_room (r_types r)"
    using ok room by (auto simp: reg_ok_def ti_room_def)
  have inv: "ti_inv tinfo (snd (ti_internByName (r_types r) nm (tinfo nm)))"
    using tin.invar_intern [OF pre] by blast
  have stable: "ti_known (snd (ti_internByName (r_types r) nm (tinfo nm))) k = Some i" if "ti_known (r_types r) k = Some i" for k i
    using tin.known_stable [OF pre(1) that] .
  show "reg_ok tinfo P (r\<lparr>r_types := snd (ti_internByName (r_types r) nm (tinfo nm))\<rparr>)"
    using ok inv stable by (rule reg_ok_types)
  show "ti_known (snd (ti_internByName (r_types r) nm (tinfo nm))) nm = Some (fst (ti_internByName (r_types r) nm (tinfo nm)))"
    by (rule tin.known_intern [OF pre(1)])
qed

lemma reg_intern_name:
  assumes ok: "reg_ok tinfo P r" and room: "length (ni_idToName (r_names r)) < kInvalidNameId - 2"
  shows "reg_ok tinfo P (r\<lparr>r_names := snd (ni_intern (r_names r) nm)\<rparr>)"
  using ok nin.invar_intern [of "r_names r" nm] room
  by (simp add: reg_ok_def keyed_def ni_room_def)

text \<open>Appending a descriptor, linking it to itself or not, and inserting its candidate.\<close>

lemma reg_append:
  fixes d :: descriptor and cold :: descriptor_cold and f :: "descriptor \<Rightarrow> descriptor" and r :: registry
  assumes ok: "reg_ok tinfo P r" and room: "dtb_size (r_descriptors r) < kInvalidDescriptorId"
    and known: "ti_known (r_types r) nm = Some (c_exposedType cold)" "P nm"
    and f: "\<And>d. d_lifetime (f d) = d_lifetime d"
  defines "i \<equiv> dtb_size (r_descriptors r)"
  defines "dt \<equiv> dtb_atMutable (snd (dtb_append (r_descriptors r) d cold)) i f"
  shows "fst (dtb_append (r_descriptors r) d cold) = i"
    "reg_ok tinfo P (r\<lparr>r_descriptors := dt, r_index := tix_insertCandidate (r_index r) (c_exposedType cold) (c_name cold) i\<rparr>)"
    "\<And>j. j < i \<Longrightarrow> dtb_at dt j = dtb_at (r_descriptors r) j"
    "\<And>j. j < i \<Longrightarrow> dtb_coldAt dt j = dtb_coldAt (r_descriptors r) j"
    "dtb_at dt i = f d" "dtb_coldAt dt i = cold" "dtb_size dt = Suc i"
proof -
  have inv: "dtb_inv (r_descriptors r)" and wf: "tix_wf (r_index r)" using ok by (auto simp: reg_ok_def)
  note inv' = dtb_append_inv [OF inv, of d cold]
  show "fst (dtb_append (r_descriptors r) d cold) = i"
    using room by (simp add: dtb_append_def i_def dtb_size_def sentinel_defs)
  have size: "dtb_size dt = Suc i" by (simp add: dt_def i_def)
  have at: "dtb_at dt j = (if j = i then f d else dtb_at (r_descriptors r) j)" if "j \<le> i" for j
    using that dtb_append_at [OF inv] by (simp add: dt_def dtb_mutable_at i_def)
  have cold: "dtb_coldAt dt j = (if j = i then cold else dtb_coldAt (r_descriptors r) j)" if "j \<le> i" for j
    using that dtb_append_at [OF inv] by (simp add: dt_def dtb_mutable_at i_def)
  show "\<And>j. j < i \<Longrightarrow> dtb_at dt j = dtb_at (r_descriptors r) j"
    "\<And>j. j < i \<Longrightarrow> dtb_coldAt dt j = dtb_coldAt (r_descriptors r) j"
    "dtb_at dt i = f d" "dtb_coldAt dt i = cold" "dtb_size dt = Suc i"
    using at cold size by auto
  let ?r = "r\<lparr>r_descriptors := dt, r_index := tix_insertCandidate (r_index r) (c_exposedType cold) (c_name cold) i\<rparr>"
  have keyed: "keyed ?r t n = keyed r t n @ (if t = c_exposedType cold \<and> n = c_name cold then [i] else [])" for t n
  proof -
    have "filter (\<lambda>j. c_exposedType (dtb_coldAt dt j) = t \<and> c_name (dtb_coldAt dt j) = n) [0..<i]
        = filter (\<lambda>j. c_exposedType (dtb_coldAt (r_descriptors r) j) = t \<and> c_name (dtb_coldAt (r_descriptors r) j) = n) [0..<i]"
      using cold by (intro filter_cong) auto
    then show ?thesis using cold [of i] size by (auto simp: keyed_def i_def)
  qed
  have "tix_wf (tix_insertCandidate (r_index r) (c_exposedType cold) (c_name cold) i)"
    using wf room by (intro insert_wf) (auto simp: i_def)
  moreover have "dtb_inv dt" unfolding dt_def by (rule dtb_atMutable_inv [OF inv' f])
  moreover have "\<exists>nm. P nm \<and> ti_known (r_types r) nm = Some (c_exposedType (dtb_coldAt dt j))" if "j < Suc i" for j
    using that ok known cold [of j] by (auto simp: reg_ok_def i_def less_Suc_eq)
  ultimately show "reg_ok tinfo P ?r"
    using ok size by (auto simp: reg_ok_def keyed insert_cands [OF wf])
qed

lemma dtb_atMutable_id: "dtb_atMutable t i (\<lambda>d. d) = t"
  by (simp add: dtb_atMutable_def)


subsection \<open>The merge loop refines deduplication by identity\<close>

text \<open>
  The specification of phase 1 on the contributions alone: keep the first contribution of
  every identity, and fail on a later one of the same identity that differs in exposed type,
  bean name or lifetime.
\<close>

definition same_bean :: "contributed \<Rightarrow> contributed \<Rightarrow> bool" where
  "same_bean a b \<longleftrightarrow> cd_exposedTypeName a = cd_exposedTypeName b \<and> cd_beanName a = cd_beanName b
     \<and> cd_lifetime a = cd_lifetime b"

fun merge_spec :: "contributed list \<Rightarrow> contributed list \<Rightarrow> contributed list option" where
  "merge_spec kept [] = Some kept"
| "merge_spec kept (cd # cds) =
     (case find (\<lambda>k. cd_identity k = cd_identity cd) kept of
        None \<Rightarrow> merge_spec (kept @ [cd]) cds
      | Some k \<Rightarrow> if same_bean k cd then merge_spec kept cds else None)"

text \<open>A well-formed contribution carries the \<open>type_info\<close> of the types it names.\<close>

definition cd_wf :: "(string \<Rightarrow> type_index) \<Rightarrow> (string \<Rightarrow> bool) \<Rightarrow> contributed \<Rightarrow> bool" where
  "cd_wf tinfo P cd \<longleftrightarrow> cd_exposedTypeInfo cd = tinfo (cd_exposedTypeName cd)
     \<and> cd_concreteTypeInfo cd = tinfo (cd_concreteTypeName cd) \<and> P (cd_exposedTypeName cd)"

definition linked_hot :: "contributed \<Rightarrow> DescriptorId \<Rightarrow> descriptor" where
  "linked_hot cd i = (if cd_isExposedAlias cd then hot_of cd else (hot_of cd)\<lparr>d_primaryDescriptor := i\<rparr>)"

definition cold_matches :: "registry \<Rightarrow> contributed \<Rightarrow> descriptor_cold \<Rightarrow> bool" where
  "cold_matches r cd c \<longleftrightarrow> (\<exists>e k n. c = cold_of cd e k n \<and> ti_known (r_types r) (cd_exposedTypeName cd) = Some e
      \<and> ti_known (r_types r) (cd_concreteTypeName cd) = Some k \<and> ni_known (r_names r) (cd_beanName cd) = Some n)"

definition factory_link :: "DescriptorId \<Rightarrow> contributed \<Rightarrow> (DescriptorId \<times> Identity) list" where
  "factory_link i cd = (if cd_factoryMethodIdentity cd \<noteq> kNoFactoryMethod then [(i, cd_factoryMethodIdentity cd)] else [])"

definition alias_link :: "DescriptorId \<Rightarrow> contributed \<Rightarrow> (DescriptorId \<times> Identity) list" where
  "alias_link i cd = (if cd_isExposedAlias cd \<and> cd_aliasOfPrimaryIdentity cd \<noteq> kNoFactoryMethod
     then [(i, cd_aliasOfPrimaryIdentity cd)] else [])"

definition merge_rel :: "(string \<Rightarrow> type_index) \<Rightarrow> (string \<Rightarrow> bool) \<Rightarrow> merge_state \<Rightarrow> contributed list \<Rightarrow> bool" where
  "merge_rel tinfo P ms kept \<longleftrightarrow>
     reg_ok tinfo P (ms_reg ms) \<and> dtb_size (r_descriptors (ms_reg ms)) = length kept
     \<and> (\<forall>i < length kept. dtb_at (r_descriptors (ms_reg ms)) i = linked_hot (kept ! i) i
            \<and> cold_matches (ms_reg ms) (kept ! i) (dtb_coldAt (r_descriptors (ms_reg ms)) i))
     \<and> (\<forall>k i. ms_identityMap ms k = Some i \<longleftrightarrow> i < length kept \<and> cd_identity (kept ! i) = k)
     \<and> ms_factoryLinks ms = concat (map (\<lambda>i. factory_link i (kept ! i)) [0..<length kept])
     \<and> ms_aliasLinks ms = concat (map (\<lambda>i. alias_link i (kept ! i)) [0..<length kept])"

lemma concat_upt_snoc:
  "concat (map (\<lambda>i. h i ((xs @ [x]) ! i)) [0..<length (xs @ [x])])
     = concat (map (\<lambda>i. h i (xs ! i)) [0..<length xs]) @ h (length xs) x"
proof -
  have "map (\<lambda>i. h i ((xs @ [x]) ! i)) [0..<length xs] = map (\<lambda>i. h i (xs ! i)) [0..<length xs]"
    by (rule map_cong) (auto simp: nth_append)
  from arg_cong [OF this, of concat] show ?thesis by simp
qed

lemma merge_new_fields:
  fixes ms cd
  defines "r \<equiv> ms_reg ms"
  defines "ex \<equiv> ti_internByName (r_types r) (cd_exposedTypeName cd) (cd_exposedTypeInfo cd)"
  defines "co \<equiv> ti_internByName (snd ex) (cd_concreteTypeName cd) (cd_concreteTypeInfo cd)"
  defines "bn \<equiv> ni_intern (r_names r) (cd_beanName cd)"
  defines "cold \<equiv> cold_of cd (fst ex) (fst co) (fst bn)"
  defines "f \<equiv> (\<lambda>d. if cd_isExposedAlias cd then d else d\<lparr>d_primaryDescriptor := dtb_size (r_descriptors r)\<rparr>)"
  assumes "dtb_size (r_descriptors r) < kInvalidDescriptorId"
  shows "ms_reg (merge_new ms cd) = r\<lparr>r_types := snd co, r_names := snd bn,
      r_descriptors := dtb_atMutable (snd (dtb_append (r_descriptors r) (hot_of cd) cold)) (dtb_size (r_descriptors r)) f,
      r_index := tix_insertCandidate (r_index r) (c_exposedType cold) (c_name cold) (dtb_size (r_descriptors r))\<rparr>"
    "ms_identityMap (merge_new ms cd) = (ms_identityMap ms)(cd_identity cd \<mapsto> dtb_size (r_descriptors r))"
proof -
  have i: "u32 (length (dtb_entries (r_descriptors (ms_reg ms)))) = length (dtb_entries (r_descriptors (ms_reg ms)))"
    using assms by (simp add: dtb_size_def sentinel_defs)
  show "ms_reg (merge_new ms cd) = r\<lparr>r_types := snd co, r_names := snd bn,
      r_descriptors := dtb_atMutable (snd (dtb_append (r_descriptors r) (hot_of cd) cold)) (dtb_size (r_descriptors r)) f,
      r_index := tix_insertCandidate (r_index r) (c_exposedType cold) (c_name cold) (dtb_size (r_descriptors r))\<rparr>"
    by (simp add: merge_new_def Let_def split_beta assms dtb_append_def i dtb_size_def dtb_atMutable_id cold_of_def)
  show "ms_identityMap (merge_new ms cd) = (ms_identityMap ms)(cd_identity cd \<mapsto> dtb_size (r_descriptors r))"
    by (simp add: merge_new_def Let_def split_beta assms dtb_append_def i dtb_size_def)
qed

lemma cold_matches_mono:
  assumes "cold_matches r cd c"
    "\<And>k i. ti_known (r_types r) k = Some i \<Longrightarrow> ti_known (r_types r') k = Some i"
    "\<And>k i. ni_known (r_names r) k = Some i \<Longrightarrow> ni_known (r_names r') k = Some i"
  shows "cold_matches r' cd c"
  using assms unfolding cold_matches_def by blast

text \<open>The interning part of one merge step.\<close>

lemma merge_intern:
  fixes r cd
  assumes ok: "reg_ok tinfo P r" and room: "reg_room r (Suc k)" and wf: "cd_wf tinfo P cd"
  defines "ex \<equiv> ti_internByName (r_types r) (cd_exposedTypeName cd) (cd_exposedTypeInfo cd)"
  defines "co \<equiv> ti_internByName (snd ex) (cd_concreteTypeName cd) (cd_concreteTypeInfo cd)"
  defines "bn \<equiv> ni_intern (r_names r) (cd_beanName cd)"
  defines "r' \<equiv> r\<lparr>r_types := snd co, r_names := snd bn\<rparr>"
  shows "reg_ok tinfo P r'"
    "\<And>nm i. ti_known (r_types r) nm = Some i \<Longrightarrow> ti_known (snd co) nm = Some i"
    "\<And>nm i. ni_known (r_names r) nm = Some i \<Longrightarrow> ni_known (snd bn) nm = Some i"
    "ti_known (snd co) (cd_exposedTypeName cd) = Some (fst ex)"
    "ti_known (snd co) (cd_concreteTypeName cd) = Some (fst co)"
    "ni_known (snd bn) (cd_beanName cd) = Some (fst bn)"
    "length (ti_names (snd co)) \<le> length (ti_names (r_types r)) + 2"
    "length (ni_idToName (snd bn)) \<le> length (ni_idToName (r_names r)) + 1"
proof -
  let ?r1 = "r\<lparr>r_types := snd ex\<rparr>" and ?r2 = "r\<lparr>r_types := snd co\<rparr>"
  have ex: "ex = ti_internByName (r_types r) (cd_exposedTypeName cd) (tinfo (cd_exposedTypeName cd))"
    and co: "co = ti_internByName (snd ex) (cd_concreteTypeName cd) (tinfo (cd_concreteTypeName cd))"
    using wf by (simp_all add: ex_def co_def cd_wf_def)
  have l1: "length (ti_names (snd ex)) \<le> length (ti_names (r_types r)) + 1"
    unfolding ex by (rule ti_intern_names_length)
  have l2: "length (ti_names (snd co)) \<le> length (ti_names (snd ex)) + 1"
    unfolding co by (rule ti_intern_names_length)
  show "length (ti_names (snd co)) \<le> length (ti_names (r_types r)) + 2" using l1 l2 by simp
  show "length (ni_idToName (snd bn)) \<le> length (ni_idToName (r_names r)) + 1"
    unfolding bn_def by (rule ni_intern_names_length)
  have pre0: "length (ti_names (r_types r)) < kInvalidTypeId" "length (ti_names (snd ex)) < kInvalidTypeId"
    "length (ni_idToName (r_names r)) < kInvalidNameId - 2"
    using room l1 by (auto simp: reg_room_def)
  have ok1: "reg_ok tinfo P ?r1" and k1: "ti_known (snd ex) (cd_exposedTypeName cd) = Some (fst ex)"
    using reg_intern_type [OF ok pre0(1)] unfolding ex by blast+
  have ok2: "reg_ok tinfo P ?r2" and k2: "ti_known (snd co) (cd_concreteTypeName cd) = Some (fst co)"
    using reg_intern_type [OF ok1, of "cd_concreteTypeName cd"] pre0(2) unfolding co by simp_all
  show "reg_ok tinfo P r'"
    using reg_intern_name [OF ok2, of "cd_beanName cd"] pre0(3) by (simp add: r'_def bn_def)
  have inv0: "inj tinfo \<and> ti_inv tinfo (r_types r)" and inv1: "inj tinfo \<and> ti_inv tinfo (snd ex)"
    and invn: "ni_inv (r_names r)"
    using ok ok1 by (auto simp: reg_ok_def)
  show "ti_known (snd co) nm = Some i" if "ti_known (r_types r) nm = Some i" for nm i
    unfolding co using that by (intro tin.known_stable [OF inv1]) (simp add: ex tin.known_stable [OF inv0])
  show "ti_known (snd co) (cd_exposedTypeName cd) = Some (fst ex)"
    unfolding co by (rule tin.known_stable [OF inv1 k1])
  show "ti_known (snd co) (cd_concreteTypeName cd) = Some (fst co)" by (rule k2)
  show "ni_known (snd bn) nm = Some i" if "ni_known (r_names r) nm = Some i" for nm i
    unfolding bn_def using nin.known_stable invn that by blast
  show "ni_known (snd bn) (cd_beanName cd) = Some (fst bn)"
    unfolding bn_def using nin.known_intern invn by blast
qed

lemma merge_new_links:
  assumes "dtb_size (r_descriptors (ms_reg ms)) < kInvalidDescriptorId"
  shows "ms_factoryLinks (merge_new ms cd) = ms_factoryLinks ms @ factory_link (dtb_size (r_descriptors (ms_reg ms))) cd"
    "ms_aliasLinks (merge_new ms cd) = ms_aliasLinks ms @ alias_link (dtb_size (r_descriptors (ms_reg ms))) cd"
  using assms by (simp_all add: merge_new_def Let_def split_beta dtb_append_def dtb_size_def sentinel_defs
      factory_link_def alias_link_def)

text \<open>What one new contribution does to the registry.\<close>

lemma merge_new_reg:
  fixes ms cd
  assumes ok: "reg_ok tinfo P (ms_reg ms)" and room: "reg_room (ms_reg ms) (Suc k)" and wf: "cd_wf tinfo P cd"
  defines "r \<equiv> ms_reg ms" and "r' \<equiv> ms_reg (merge_new ms cd)" and "i \<equiv> dtb_size (r_descriptors (ms_reg ms))"
  shows "reg_ok tinfo P r'" "reg_room r' k" "dtb_size (r_descriptors r') = Suc i"
    "\<And>j. j < i \<Longrightarrow> dtb_at (r_descriptors r') j = dtb_at (r_descriptors r) j"
    "\<And>j. j < i \<Longrightarrow> dtb_coldAt (r_descriptors r') j = dtb_coldAt (r_descriptors r) j"
    "dtb_at (r_descriptors r') i = linked_hot cd i"
    "cold_matches r' cd (dtb_coldAt (r_descriptors r') i)"
    "\<And>cd' c. cold_matches r cd' c \<Longrightarrow> cold_matches r' cd' c"
proof -
  define ex where "ex = ti_internByName (r_types r) (cd_exposedTypeName cd) (cd_exposedTypeInfo cd)"
  define co where "co = ti_internByName (snd ex) (cd_concreteTypeName cd) (cd_concreteTypeInfo cd)"
  define bn where "bn = ni_intern (r_names r) (cd_beanName cd)"
  define cold where "cold = cold_of cd (fst ex) (fst co) (fst bn)"
  define f :: "descriptor \<Rightarrow> descriptor" where "f = (\<lambda>d. if cd_isExposedAlias cd then d else d\<lparr>d_primaryDescriptor := i\<rparr>)"
  let ?r = "r\<lparr>r_types := snd co, r_names := snd bn\<rparr>"
  have sz: "dtb_size (r_descriptors r) < kInvalidDescriptorId" using room by (simp add: reg_room_def r_def)
  note int = merge_intern [OF ok room wf, folded r_def, folded ex_def bn_def, folded co_def]
  have r': "r' = ?r\<lparr>r_descriptors := dtb_atMutable (snd (dtb_append (r_descriptors ?r) (hot_of cd) cold)) (dtb_size (r_descriptors ?r)) f,
      r_index := tix_insertCandidate (r_index ?r) (c_exposedType cold) (c_name cold) (dtb_size (r_descriptors ?r))\<rparr>"
    unfolding r'_def f_def i_def using sz
    by (subst merge_new_fields(1)) (simp_all add: r_def cold_def ex_def co_def bn_def)
  note app = reg_append [OF int(1), where nm = "cd_exposedTypeName cd" and cold = cold and f = f and d = "hot_of cd"]
  have known: "ti_known (r_types ?r) (cd_exposedTypeName cd) = Some (c_exposedType cold)" "P (cd_exposedTypeName cd)"
    using int(4) wf by (simp_all add: cold_def cold_of_def cd_wf_def)
  have side: "\<And>d. d_lifetime (f d) = d_lifetime d" "dtb_size (r_descriptors ?r) < kInvalidDescriptorId"
    using sz by (simp_all add: f_def)
  note app = app [OF side(2) known side(1)]
  show "reg_ok tinfo P r'" using app(2) unfolding r' by simp
  show size: "dtb_size (r_descriptors r') = Suc i" using app(7) by (simp add: r' i_def r_def)
  show "reg_room r' k" using room int(7,8) size by (simp add: reg_room_def r' r_def i_def)
  show "dtb_at (r_descriptors r') j = dtb_at (r_descriptors r) j"
    "dtb_coldAt (r_descriptors r') j = dtb_coldAt (r_descriptors r) j" if "j < i" for j
    using app(3,4) [of j] that by (simp_all add: r' i_def r_def)
  show "dtb_at (r_descriptors r') i = linked_hot cd i"
    using app(5) by (simp add: r' i_def r_def f_def linked_hot_def)
  have "dtb_coldAt (r_descriptors r') i = cold" using app(6) by (simp add: r' i_def r_def)
  then show "cold_matches r' cd (dtb_coldAt (r_descriptors r') i)"
    using int(4,5,6) by (simp add: cold_matches_def r' cold_def)
  show "cold_matches r' cd' c" if "cold_matches r cd' c" for cd' c
    using that by (rule cold_matches_mono) (use int(2,3) in \<open>simp_all add: r'\<close>)
qed

lemma merge_new_rel:
  assumes rel: "merge_rel tinfo P ms kept" and room: "reg_room (ms_reg ms) (Suc k)" and wf: "cd_wf tinfo P cd"
    and new: "ms_identityMap ms (cd_identity cd) = None"
  shows "merge_rel tinfo P (merge_new ms cd) (kept @ [cd])" "reg_room (ms_reg (merge_new ms cd)) k"
proof -
  let ?ms = "merge_new ms cd"
  have ok: "reg_ok tinfo P (ms_reg ms)" and size: "dtb_size (r_descriptors (ms_reg ms)) = length kept"
    using rel by (auto simp: merge_rel_def)
  note new_reg = merge_new_reg [OF ok room wf]
  show "reg_room (ms_reg ?ms) k" by (rule new_reg(2))
  have sz: "dtb_size (r_descriptors (ms_reg ms)) < kInvalidDescriptorId" using room by (simp add: reg_room_def)
  note fields = merge_new_fields(2) [OF sz, of cd] merge_new_links [OF sz, of cd]
  have body: "dtb_at (r_descriptors (ms_reg ?ms)) i = linked_hot ((kept @ [cd]) ! i) i
      \<and> cold_matches (ms_reg ?ms) ((kept @ [cd]) ! i) (dtb_coldAt (r_descriptors (ms_reg ?ms)) i)"
    if i: "i < length (kept @ [cd])" for i
    using i rel new_reg(4-8) size by (cases "i = length kept") (auto simp: merge_rel_def nth_append)
  have old: "ms_identityMap ms k = Some j \<longleftrightarrow> j < length kept \<and> cd_identity (kept ! j) = k" for j k
    using rel by (simp add: merge_rel_def)
  then have no: "\<not> (j < length kept \<and> cd_identity (kept ! j) = cd_identity cd)" for j
    using new by (metis option.distinct(1))
  have ids: "ms_identityMap ?ms k = Some i \<longleftrightarrow> i < length (kept @ [cd]) \<and> cd_identity ((kept @ [cd]) ! i) = k" for k i
    using old [of k i] no size by (auto simp: fields nth_append less_Suc_eq)
  show "merge_rel tinfo P ?ms (kept @ [cd])"
    unfolding merge_rel_def
  proof (intro conjI)
    show "reg_ok tinfo P (ms_reg ?ms)" by (rule new_reg(1))
    show "dtb_size (r_descriptors (ms_reg ?ms)) = length (kept @ [cd])" using new_reg(3) size by simp
    show "\<forall>k i. ms_identityMap ?ms k = Some i \<longleftrightarrow> i < length (kept @ [cd]) \<and> cd_identity ((kept @ [cd]) ! i) = k"
      using ids by blast
    show "\<forall>i < length (kept @ [cd]). dtb_at (r_descriptors (ms_reg ?ms)) i = linked_hot ((kept @ [cd]) ! i) i
      \<and> cold_matches (ms_reg ?ms) ((kept @ [cd]) ! i) (dtb_coldAt (r_descriptors (ms_reg ?ms)) i)"
      using body by blast
  qed (use rel size in \<open>simp_all only: merge_rel_def fields(2,3) concat_upt_snoc\<close>)
qed

lemma merge_agrees_iff:
  assumes rel: "merge_rel tinfo P ms kept" and i: "i < length kept"
  shows "merge_agrees (ms_reg ms) i cd \<longleftrightarrow> same_bean (kept ! i) cd"
proof -
  have inv: "inj tinfo \<and> ti_inv tinfo (r_types (ms_reg ms))" "ni_inv (r_names (ms_reg ms))"
    using rel by (auto simp: merge_rel_def reg_ok_def)
  have "cold_matches (ms_reg ms) (kept ! i) (dtb_coldAt (r_descriptors (ms_reg ms)) i)"
    using rel i by (simp add: merge_rel_def)
  then obtain e k n where c: "dtb_coldAt (r_descriptors (ms_reg ms)) i = cold_of (kept ! i) e k n"
    "ti_known (r_types (ms_reg ms)) (cd_exposedTypeName (kept ! i)) = Some e"
    "ni_known (r_names (ms_reg ms)) (cd_beanName (kept ! i)) = Some n"
    unfolding cold_matches_def by blast
  have "ti_nameOf (r_types (ms_reg ms)) e = Some (cd_exposedTypeName (kept ! i))"
    using tin.known_name_of [OF inv(1) c(2)] .
  moreover have "ni_nameOf (r_names (ms_reg ms)) n = Some (cd_beanName (kept ! i))"
    using nin.known_name_of [OF inv(2) c(3)] .
  moreover have "d_lifetime (dtb_at (r_descriptors (ms_reg ms)) i) = cd_lifetime (kept ! i)"
    using rel i by (simp add: merge_rel_def linked_hot_def hot_of_def)
  ultimately show ?thesis by (simp add: merge_agrees_def same_bean_def c cold_of_def)
qed

lemma merge_identity_find:
  assumes rel: "merge_rel tinfo P ms kept"
  shows "find (\<lambda>k. cd_identity k = x) kept = map_option ((!) kept) (ms_identityMap ms x)"
proof -
  have im: "ms_identityMap ms x = Some i \<longleftrightarrow> i < length kept \<and> cd_identity (kept ! i) = x" for i
    using rel by (simp add: merge_rel_def)
  show ?thesis
  proof (cases "ms_identityMap ms x")
    case None
    then have "\<forall>k \<in> set kept. cd_identity k \<noteq> x" using im by (metis in_set_conv_nth option.distinct(1))
    then show ?thesis using None by (simp add: find_None_iff)
  next
    case (Some i)
    moreover have "j < i \<Longrightarrow> cd_identity (kept ! j) \<noteq> x" for j
      using im [of i] im [of j] Some by (metis less_trans nat_neq_iff option.inject)
    ultimately show ?thesis using im [of i] by (auto simp: find_Some_iff)
  qed
qed

lemma merge_loop_refines:
  assumes "merge_rel tinfo P ms kept" "reg_room (ms_reg ms) (length cds + m)" "\<forall>cd \<in> set cds. cd_wf tinfo P cd"
  shows "case merge_spec kept cds of
      None \<Rightarrow> fst (merge_loop ms cds) = Some (ConfigurationError IdentityCollision)
    | Some kept' \<Rightarrow> fst (merge_loop ms cds) = None \<and> merge_rel tinfo P (snd (merge_loop ms cds)) kept'
        \<and> reg_room (ms_reg (snd (merge_loop ms cds))) m"
  using assms
proof (induction ms cds arbitrary: kept rule: merge_loop.induct)
  case (1 ms)
  then show ?case by simp
next
  case (2 ms cd cds)
  note find = merge_identity_find [OF "2.prems"(1), of "cd_identity cd"]
  show ?case
  proof (cases "ms_identityMap ms (cd_identity cd)")
    case None
    have "merge_rel tinfo P (merge_new ms cd) (kept @ [cd])" "reg_room (ms_reg (merge_new ms cd)) (length cds + m)"
      using merge_new_rel [OF "2.prems"(1) _ _ None, of "length cds + m"] "2.prems"(2,3) by auto
    then have "case merge_spec (kept @ [cd]) cds of
        None \<Rightarrow> fst (merge_loop (merge_new ms cd) cds) = Some (ConfigurationError IdentityCollision)
      | Some kept' \<Rightarrow> fst (merge_loop (merge_new ms cd) cds) = None
          \<and> merge_rel tinfo P (snd (merge_loop (merge_new ms cd) cds)) kept'
          \<and> reg_room (ms_reg (snd (merge_loop (merge_new ms cd) cds))) m"
      using "2.prems"(3) by (intro "2.IH"(1) [OF None]) auto
    then show ?thesis using None find by (simp split: option.splits)
  next
    case (Some i)
    have i: "i < length kept" using "2.prems"(1) Some by (simp add: merge_rel_def)
    have room: "reg_room (ms_reg ms) (length cds + m)" using "2.prems"(2) by (auto simp: reg_room_def)
    show ?thesis
      using "2.IH"(2) [OF Some _ "2.prems"(1) room] "2.prems"(3) Some find merge_agrees_iff [OF "2.prems"(1) i]
      by (cases "same_bean (kept ! i) cd") (auto split: option.splits)
  qed
qed

text \<open>What the specification keeps.\<close>

lemma merge_spec_Some:
  assumes "merge_spec kept cds = Some kept'" "distinct (map cd_identity kept)"
  shows "distinct (map cd_identity kept') \<and> set kept \<subseteq> set kept' \<and> set kept' \<subseteq> set kept \<union> set cds
    \<and> (\<forall>cd \<in> set cds. \<exists>k \<in> set kept'. cd_identity k = cd_identity cd \<and> same_bean k cd)"
  using assms
proof (induction kept cds rule: merge_spec.induct)
  case (2 kept cd cds)
  show ?case
  proof (cases "find (\<lambda>k. cd_identity k = cd_identity cd) kept")
    case None
    then have "distinct (map cd_identity (kept @ [cd]))" using "2.prems"(2) by (auto simp: find_None_iff)
    then show ?thesis using "2.IH"(1) [OF None] "2.prems"(1) None by (auto simp: same_bean_def)
  next
    case (Some k)
    then have "same_bean k cd" "merge_spec kept cds = Some kept'" using "2.prems"(1) by (auto split: if_splits)
    then show ?thesis using "2.IH"(2) [OF Some] "2.prems"(2) find_Some_mem [OF Some] by fastforce
  qed
qed simp

lemma merge_spec_None:
  "merge_spec kept cds = None \<Longrightarrow>
    \<exists>a \<in> set kept \<union> set cds. \<exists>b \<in> set kept \<union> set cds. cd_identity a = cd_identity b \<and> \<not> same_bean a b"
  by (induction kept cds rule: merge_spec.induct) (fastforce dest: find_Some_mem split: option.splits if_splits)+

lemma merge_init_reg [simp]: "ms_reg (merge_init r) = r"
  by (simp add: merge_init_def)

lemma merge_init_rel: "reg_ok tinfo P r \<Longrightarrow> dtb_size (r_descriptors r) = 0 \<Longrightarrow> merge_rel tinfo P (merge_init r) []"
  by (simp add: merge_rel_def merge_init_def)

lemma merge_spec_None_iff:
  "merge_spec [] cds = None \<longleftrightarrow>
    (\<exists>a \<in> set cds. \<exists>b \<in> set cds. cd_identity a = cd_identity b \<and> \<not> same_bean a b)"
proof
  assume r: "\<exists>a \<in> set cds. \<exists>b \<in> set cds. cd_identity a = cd_identity b \<and> \<not> same_bean a b"
  show "merge_spec [] cds = None"
  proof (rule ccontr)
    assume "merge_spec [] cds \<noteq> None"
    then obtain kept where k: "merge_spec [] cds = Some kept" by blast
    note sp = merge_spec_Some [OF k, simplified]
    from r obtain a b where ab: "a \<in> set cds" "b \<in> set cds" "cd_identity a = cd_identity b" "\<not> same_bean a b" by blast
    obtain ka where ka: "ka \<in> set kept" "cd_identity ka = cd_identity a" "same_bean ka a" using sp ab(1) by blast
    obtain kb where kb: "kb \<in> set kept" "cd_identity kb = cd_identity b" "same_bean kb b" using sp ab(2) by blast
    have "inj_on cd_identity (set kept)" using sp by (simp add: distinct_map)
    then have "ka = kb" using ka kb ab(3) by (metis inj_onD)
    then show False using ka kb ab(4) by (auto simp: same_bean_def)
  qed
qed (use merge_spec_None [of "[]"] in auto)

text \<open>
  C21. Phase 1 of \<open>start()\<close> on an empty table refines deduplication by identity: it throws the
  identity collision exactly when two contributions of one identity disagree on exposed type,
  bean name or lifetime; otherwise the descriptor table holds the first contribution of every
  identity and nothing else, descriptor by descriptor with the contributed data, every
  primary descriptor linked to itself, and the identity map names their positions.
\<close>

theorem merge_loop_dedups:
  assumes "reg_ok tinfo P r" "dtb_size (r_descriptors r) = 0" "reg_room r (length cds)"
    and "\<forall>cd \<in> set cds. cd_wf tinfo P cd"
  shows "(fst (merge_loop (merge_init r) cds) = Some (ConfigurationError IdentityCollision) \<longleftrightarrow>
        (\<exists>a \<in> set cds. \<exists>b \<in> set cds. cd_identity a = cd_identity b \<and> \<not> same_bean a b))
    \<and> (fst (merge_loop (merge_init r) cds) \<noteq> None \<longrightarrow>
        fst (merge_loop (merge_init r) cds) = Some (ConfigurationError IdentityCollision))
    \<and> (fst (merge_loop (merge_init r) cds) = None \<longrightarrow>
        (\<exists>kept. merge_spec [] cds = Some kept \<and> distinct (map cd_identity kept) \<and> set kept \<subseteq> set cds
           \<and> cd_identity ` set kept = cd_identity ` set cds
           \<and> merge_rel tinfo P (snd (merge_loop (merge_init r) cds)) kept))"
proof (cases "merge_spec [] cds")
  case None
  then show ?thesis
    using merge_loop_refines [OF merge_init_rel [OF assms(1,2)], of cds 0] assms(3,4) merge_spec_None_iff [of cds]
    by (simp add: merge_init_def)
next
  case (Some kept)
  then have "fst (merge_loop (merge_init r) cds) = None" "merge_rel tinfo P (snd (merge_loop (merge_init r) cds)) kept"
    using merge_loop_refines [OF merge_init_rel [OF assms(1,2)], of cds 0] assms(3,4)
    by (simp_all add: merge_init_def)
  moreover have "cd_identity ` set kept = cd_identity ` set cds"
    using merge_spec_Some [OF Some] by (auto simp: image_iff) (metis (no_types) Un_empty_left list.set(1) subsetD)
  ultimately show ?thesis using Some merge_spec_Some [OF Some] merge_spec_None_iff [of cds] by simp
qed

text \<open>A contribution of a default-constructed bean, for concrete instances.\<close>

definition sample_cd :: "Identity \<Rightarrow> string \<Rightarrow> string \<Rightarrow> int \<Rightarrow> Lifetime \<Rightarrow> contributed" where
  "sample_cd idt ty nm pri lt = \<lparr>cd_identity = idt, cd_exposedTypeName = ty, cd_concreteTypeName = ty,
     cd_exposedTypeInfo = name_code ty, cd_concreteTypeInfo = name_code ty, cd_beanName = nm,
     cd_priority = pri, cd_lazy = True, cd_lifetime = lt, cd_origin = AnnotatedType, cd_construct = 1,
     cd_destroy = 2, cd_postConstruct = None, cd_preDestroy = None, cd_size = 8, cd_align = 8,
     cd_factoryMethodIdentity = kNoFactoryMethod, cd_factoryMethodName = None, cd_allocAndConstruct = None,
     cd_dealloc = None, cd_params = [], cd_reflectiveData = None, cd_isExposedAlias = False,
     cd_aliasOfPrimaryIdentity = kNoFactoryMethod, cd_adjustToExposed = None, cd_adjustToConcrete = None\<rparr>"

lemma registry_init_room: "n \<le> 1000 \<Longrightarrow> reg_room registry_init n"
  by (simp add: reg_room_def registry_init_def ti_init_def ni_init_def sentinel_defs)

theorem merge_loop_dedups_witness:
  "reg_ok name_code (\<lambda>_. True) registry_init \<and> dtb_size (r_descriptors registry_init) = 0
   \<and> fst (merge_loop (merge_init registry_init)
        [sample_cd 7 ''A'' [] 0 Singleton, sample_cd 8 ''B'' [] 0 Singleton, sample_cd 7 ''A'' [] 0 Session])
     = Some (ConfigurationError IdentityCollision)"
proof -
  let ?cds = "[sample_cd 7 ''A'' [] 0 Singleton, sample_cd 8 ''B'' [] 0 Singleton, sample_cd 7 ''A'' [] 0 Session]"
  have ok: "reg_ok name_code (\<lambda>_. True) registry_init" by (rule reg_init_ok [OF name_code_inj])
  have size: "dtb_size (r_descriptors registry_init) = 0" by (simp add: registry_init_def)
  have wf: "\<forall>cd \<in> set ?cds. cd_wf name_code (\<lambda>_. True) cd" by (simp add: cd_wf_def sample_cd_def)
  have room: "reg_room registry_init (length ?cds)" by (rule registry_init_room) simp
  show ?thesis using merge_loop_dedups [OF ok size room wf] ok size
    by (simp add: same_bean_def sample_cd_def)
qed

subsection \<open>The remaining phases keep the index in step with the table\<close>

lemma append_runtime_ok:
  fixes r :: registry and d :: descriptor
  assumes ok: "reg_ok tinfo P r" and room: "dtb_size (r_descriptors r) < kInvalidDescriptorId"
    and known: "ti_known (r_types r) nm = Some (c_exposedType cold)" "P nm"
  defines "r' \<equiv> snd (append_runtime r d cold)"
  shows "fst (append_runtime r d cold) = dtb_size (r_descriptors r)" "reg_ok tinfo P r'"
    "dtb_size (r_descriptors r') = Suc (dtb_size (r_descriptors r))"
    "r_types r' = r_types r" "r_names r' = r_names r"
proof -
  have i: "fst (dtb_append (r_descriptors r) d cold) = dtb_size (r_descriptors r)"
    using room by (simp add: dtb_append_def dtb_size_def sentinel_defs)
  let ?f = "\<lambda>d :: descriptor. d\<lparr>d_primaryDescriptor := dtb_size (r_descriptors r)\<rparr>"
  have eq: "r' = r\<lparr>r_descriptors := dtb_atMutable (snd (dtb_append (r_descriptors r) d cold)) (dtb_size (r_descriptors r)) ?f,
       r_index := tix_insertCandidate (r_index r) (c_exposedType cold) (c_name cold) (dtb_size (r_descriptors r))\<rparr>"
    by (simp add: r'_def append_runtime_def split_beta i)
  note app = reg_append [OF ok room known, where f = ?f and d = d]
  show "fst (append_runtime r d cold) = dtb_size (r_descriptors r)" by (simp add: append_runtime_def split_beta i)
  show "reg_ok tinfo P r'" using app(2) unfolding eq by simp
  show "dtb_size (r_descriptors r') = Suc (dtb_size (r_descriptors r))" "r_types r' = r_types r" "r_names r' = r_names r"
    by (simp_all add: eq)
qed

definition pb_wf :: "(string \<Rightarrow> type_index) \<Rightarrow> (string \<Rightarrow> bool) \<Rightarrow> pending_singleton \<Rightarrow> bool" where
  "pb_wf tinfo P pb \<longleftrightarrow> pb_typeInfo pb = tinfo (pb_typeName pb) \<and> P (pb_typeName pb)"

lemma bind_pending_ok:
  assumes "reg_ok tinfo P r" "reg_room r (length pbs + m)" "\<forall>pb \<in> set pbs. pb_wf tinfo P pb"
  shows "reg_ok tinfo P (fst (snd (bind_pending r bound pbs)))
    \<and> (fst (bind_pending r bound pbs) = None \<longrightarrow> reg_room (fst (snd (bind_pending r bound pbs))) m
         \<and> map fst (snd (snd (bind_pending r bound pbs)))
             = map fst bound @ [dtb_size (r_descriptors r)..<dtb_size (r_descriptors r) + length pbs]
         \<and> dtb_size (r_descriptors (fst (snd (bind_pending r bound pbs)))) = dtb_size (r_descriptors r) + length pbs)"
  using assms
proof (induction r bound pbs rule: bind_pending.induct)
  case (1 r bound)
  then show ?case by simp
next
  case (2 r bound pb pbs)
  let ?in = "ti_internByName (r_types r) (pb_typeName pb) (pb_typeInfo pb)"
  let ?r1 = "r\<lparr>r_types := snd ?in\<rparr>"
  let ?d = "runtime_hot Singleton (pb_priority pb) kInvalidSessionSlot"
  let ?c = "runtime_cold (fst ?in) (pb_nameId pb) (Some (pb_destroy pb)) (pb_preDestroy pb) (pb_dealloc pb)
       (pb_size pb) (pb_align pb) (pb_typeInfo pb) (pb_typeName pb)"
  let ?app = "append_runtime ?r1 ?d ?c"
  have info: "pb_typeInfo pb = tinfo (pb_typeName pb)" "P (pb_typeName pb)" using "2.prems"(3) by (auto simp: pb_wf_def)
  have len: "length (ti_names (snd ?in)) \<le> length (ti_names (r_types r)) + 1" by (rule ti_intern_names_length)
  have "length (ti_names (r_types r)) < kInvalidTypeId" using "2.prems"(2) by (simp add: reg_room_def)
  from reg_intern_type [OF "2.prems"(1) this, of "pb_typeName pb", folded info(1)]
  have ok1: "reg_ok tinfo P ?r1" and known: "ti_known (r_types ?r1) (pb_typeName pb) = Some (c_exposedType ?c)"
    by (simp_all add: runtime_cold_def)
  show ?case
  proof (cases "candidateKeyExists ?r1 (fst ?in) (pb_nameId pb) (pb_priority pb)")
    case True
    then show ?thesis using ok1 by (simp add: split_beta Let_def)
  next
    case False
    have "dtb_size (r_descriptors ?r1) < kInvalidDescriptorId" using "2.prems"(2) by (simp add: reg_room_def)
    note app = append_runtime_ok [OF ok1 this known info(2), of ?d]
    have step: "bind_pending r bound (pb # pbs)
        = bind_pending (snd ?app) (bound @ [(fst ?app, pb_instance pb, fst ?in)]) pbs"
      using False by (simp add: split_beta Let_def)
    have room: "reg_room (snd ?app) (length pbs + m)"
      using "2.prems"(2) len app(3) by (simp add: reg_room_def app(4,5))
    have "\<forall>pb \<in> set pbs. pb_wf tinfo P pb" using "2.prems"(3) by simp
    from "2.IH" [OF refl prod.collapse refl False refl prod.collapse app(2) room this]
    show ?thesis unfolding step by (simp add: app(1,3) upt_rec)
  qed
qed

text \<open>Changing links, slots and other fields that no key depends on.\<close>

lemma reg_ok_relink:
  assumes ok: "reg_ok tinfo P r" and inv: "dtb_inv dt" and size: "dtb_size dt = dtb_size (r_descriptors r)"
    and key: "\<And>i. c_exposedType (dtb_coldAt dt i) = c_exposedType (dtb_coldAt (r_descriptors r) i)
        \<and> c_name (dtb_coldAt dt i) = c_name (dtb_coldAt (r_descriptors r) i)"
  shows "reg_ok tinfo P (r\<lparr>r_descriptors := dt\<rparr>)"
  using ok inv by (simp add: reg_ok_def keyed_def key size)

lemma link_factories_ok:
  assumes "reg_ok tinfo P r" "\<forall>(i, x) \<in> set ls. i < dtb_size (r_descriptors r)"
  shows "reg_ok tinfo P (snd (link_factories im r ls)) \<and> r_types (snd (link_factories im r ls)) = r_types r
    \<and> r_names (snd (link_factories im r ls)) = r_names r
    \<and> dtb_size (r_descriptors (snd (link_factories im r ls))) = dtb_size (r_descriptors r)"
  using assms
proof (induction im r ls rule: link_factories.induct)
  case (2 im r i fid ls)
  have inv: "dtb_inv (r_descriptors r)" and i: "i < dtb_size (r_descriptors r)" using "2.prems" by (auto simp: reg_ok_def)
  have "reg_ok tinfo P (r\<lparr>r_descriptors := dtb_coldAtMutable (r_descriptors r) i (\<lambda>c. c\<lparr>c_factoryMethodDescriptor := f\<rparr>)\<rparr>)" for f
    using "2.prems"(1) by (rule reg_ok_relink) (simp_all add: dtb_coldAtMutable_inv inv dtb_mutable_at i)
  then show ?case using "2.IH" "2.prems" by (auto split: option.splits)
qed simp

lemma link_aliases_ok:
  assumes "reg_ok tinfo P r"
  shows "reg_ok tinfo P (snd (link_aliases im r ls)) \<and> r_types (snd (link_aliases im r ls)) = r_types r
    \<and> r_names (snd (link_aliases im r ls)) = r_names r
    \<and> dtb_size (r_descriptors (snd (link_aliases im r ls))) = dtb_size (r_descriptors r)"
  using assms
proof (induction im r ls rule: link_aliases.induct)
  case (2 im r i pid ls)
  have inv: "dtb_inv (r_descriptors r)" using "2.prems" by (auto simp: reg_ok_def)
  have "reg_ok tinfo P (r\<lparr>r_descriptors := dtb_atMutable (r_descriptors r) i (\<lambda>d. d\<lparr>d_primaryDescriptor := p\<rparr>)\<rparr>)" for p
    using "2.prems"(1) by (rule reg_ok_relink) (simp_all add: dtb_atMutable_inv inv dtb_mutable_at)
  then show ?case using "2.IH" "2.prems" by (auto split: option.splits)
qed simp

lemma sorted_ok:
  assumes "reg_ok tinfo P r"
  shows "reg_ok tinfo P (r\<lparr>r_index := tix_sortAllCandidates p (r_index r)\<rparr>)"
    "tix_ready p (tix_sortAllCandidates p (r_index r))"
proof -
  have wf: "tix_wf (r_index r)" using assms by (simp add: reg_ok_def)
  show "tix_ready p (tix_sortAllCandidates p (r_index r))" by (rule sortAll_ready [OF wf])
  show "reg_ok tinfo P (r\<lparr>r_index := tix_sortAllCandidates p (r_index r)\<rparr>)"
    using assms sortAll_wf [OF wf] by (simp add: reg_ok_def keyed_def sortAll_cands [OF wf])
qed

lemma tix_ready_cong:
  assumes ready: "tix_ready p s" and agree: "\<And>t n d. d \<in> set (tix_cands s t n) \<Longrightarrow> p d = q d"
  shows "tix_ready q s"
proof -
  have "ne_truthful q e" if e: "tix_entryFor s t n = Some e" for t n e
  proof -
    have cs: "tix_cands s t n = ne_candidates e" using tix_ready_cands [OF ready] e by simp
    have eq: "p d = q d" if "d \<in> set (ne_candidates e)" for d using agree [of d t n] that cs by simp
    have t: "ne_truthful p e" using ready e by (auto simp: tix_ready_def)
    have "desc_by q (ne_candidates e)"
      using t eq sorted_wrt_mono_rel [of "ne_candidates e" "\<lambda>a b. p b \<le> p a" "\<lambda>a b. q b \<le> q a"]
      by (simp add: ne_truthful_def desc_by_def)
    moreover have "p (ne_candidates e ! 0) = q (ne_candidates e ! 0) \<and> p (ne_candidates e ! 1) = q (ne_candidates e ! 1)"
      if "2 \<le> length (ne_candidates e)"
      using that by (intro conjI; intro eq nth_mem) auto
    ultimately show ?thesis using t by (auto simp: ne_truthful_def)
  qed
  with ready show ?thesis by (auto simp: tix_ready_def)
qed

lemma reg_ok_cands_bound:
  assumes "reg_ok tinfo P r" "d \<in> set (tix_cands (r_index r) t n)"
  shows "d < dtb_size (r_descriptors r)"
proof -
  have "mset (tix_cands (r_index r) t n) = mset (keyed r t n)" using assms by (simp add: reg_ok_def)
  then have "set (tix_cands (r_index r) t n) = set (keyed r t n)" by (metis set_mset_mset)
  then show ?thesis using assms(2) by (simp add: keyed_def)
qed

subsection \<open>Phase 4\<close>

lemma assign_slots_length [simp]: "length (fst (assign_slots n ds)) = length ds"
  by (induction n ds rule: assign_slots.induct) auto

lemma assign_slots_count: "snd (assign_slots n ds) = n + length (filter (\<lambda>d. d_lifetime d = Session) ds)"
  by (induction n ds rule: assign_slots.induct) auto

lemma assign_slots_nth:
  "i < length ds \<Longrightarrow> fst (assign_slots n ds) ! i = (ds ! i)\<lparr>d_sessionSlot :=
     (if d_lifetime (ds ! i) = Session
      then u32 (n + length (filter (\<lambda>d. d_lifetime d = Session) (take i ds))) else kInvalidSessionSlot)\<rparr>"
proof (induction ds arbitrary: n i)
  case (Cons d ds)
  show ?case
  proof (cases i)
    case (Suc j)
    then show ?thesis using Cons.IH [of j n] Cons.IH [of j "n + 1"] Cons.prems by (auto simp: add.assoc)
  qed simp
qed simp

lemma assign_session_slots_at:
  assumes "i < dtb_size (r_descriptors r)"
  shows "dtb_at (r_descriptors (assign_session_slots r)) i = (dtb_at (r_descriptors r) i)\<lparr>d_sessionSlot :=
     (if d_lifetime (dtb_at (r_descriptors r) i) = Session
      then u32 (length (filter (\<lambda>d. d_lifetime d = Session) (take i (dtb_entries (r_descriptors r)))))
      else kInvalidSessionSlot)\<rparr>"
  using assms by (simp add: assign_session_slots_def split_beta Let_def dtb_at_def dtb_size_def assign_slots_nth)

lemma assign_session_slots_dtb:
  "dtb_size (r_descriptors (assign_session_slots r)) = dtb_size (r_descriptors r)"
  "dtb_coldAt (r_descriptors (assign_session_slots r)) = dtb_coldAt (r_descriptors r)"
  "dtb_inv (r_descriptors r) \<Longrightarrow> dtb_inv (r_descriptors (assign_session_slots r))"
proof -
  show "dtb_size (r_descriptors (assign_session_slots r)) = dtb_size (r_descriptors r)"
    "dtb_coldAt (r_descriptors (assign_session_slots r)) = dtb_coldAt (r_descriptors r)"
    by (simp_all add: assign_session_slots_def split_beta Let_def dtb_size_def dtb_coldAt_def fun_eq_iff)
  have "map d_lifetime (fst (assign_slots n ds)) = map d_lifetime ds" for n ds
    by (induction n ds rule: assign_slots.induct) auto
  then show "dtb_inv (r_descriptors r) \<Longrightarrow> dtb_inv (r_descriptors (assign_session_slots r))"
    by (simp add: assign_session_slots_def split_beta Let_def dtb_inv_def dtb_size_def)
qed

lemma assign_session_slots_same [simp]:
  "r_types (assign_session_slots r) = r_types r" "r_names (assign_session_slots r) = r_names r"
  "r_index (assign_session_slots r) = r_index r" "r_singletons (assign_session_slots r) = r_singletons r"
  "r_beanContextDescId (assign_session_slots r) = r_beanContextDescId r"
  "r_root (assign_session_slots r) = r_root r"
  by (simp_all add: assign_session_slots_def split_beta Let_def)

text \<open>The \<open>k\<close>-th descriptor with a property is found \<open>k\<close> steps into the filtered list.\<close>

lemma filter_position_bij:
  "bij_betw (\<lambda>i. length (filter Q (take i xs))) {i. i < length xs \<and> Q (xs ! i)} {0..<length (filter Q xs)}"
proof (induction xs rule: rev_induct)
  case (snoc x xs)
  let ?f = "\<lambda>xs i. length (filter Q (take i xs))"
  have same: "?f (xs @ [x]) i = ?f xs i" if "i \<le> length xs" for i using that by simp
  have dom: "{i. i < length (xs @ [x]) \<and> Q ((xs @ [x]) ! i)}
      = {i. i < length xs \<and> Q (xs ! i)} \<union> (if Q x then {length xs} else {})"
    by (auto simp: nth_append less_Suc_eq)
  have "bij_betw (?f (xs @ [x])) {i. i < length xs \<and> Q (xs ! i)} {0..<length (filter Q xs)}"
    by (rule bij_betw_cong [THEN iffD1, OF _ snoc.IH]) simp
  moreover have "{0..<Suc (length (filter Q xs))} = {0..<length (filter Q xs)} \<union> {?f (xs @ [x]) (length xs)}"
    by auto
  ultimately show ?case
    unfolding dom using notIn_Un_bij_betw3 [of "length xs" "{i. i < length xs \<and> Q (xs ! i)}" "?f (xs @ [x])" "{0..<length (filter Q xs)}"]
    by auto
qed (simp add: bij_betw_def)

lemma ss_store_size: "ss_store s d m = Some s' \<Longrightarrow> ss_instancesSize s' = ss_instancesSize s"
  by (auto simp: ss_store_def Let_def split: option.splits if_splits)

lemma store_bound_ok:
  assumes "ss_inv (r_singletons r)" "distinct (map fst bs)"
    and "\<forall>d \<in> fst ` set bs. d < ss_instancesSize (r_singletons r) \<and> ss_find (r_singletons r) d = None"
  shows "\<exists>ss. store_bound r bs = Some (r\<lparr>r_singletons := ss, r_startLifecyclePending := r_startLifecyclePending r @ bs\<rparr>)
    \<and> ss_inv ss \<and> (\<forall>d. ss_find ss d = (case map_of bs d of Some (p, t) \<Rightarrow> Some p | None \<Rightarrow> ss_find (r_singletons r) d))"
  using assms
proof (induction bs arbitrary: r)
  case (Cons a bs)
  obtain i p t where a: "a = (i, p, t)" by (cases a) auto
  obtain s where s: "ss_store (r_singletons r) i p = Some s" "ss_inv s"
    "\<And>d. ss_find s d = (if d = i then Some p else ss_find (r_singletons r) d)"
    by (rule ss_store_Some [OF Cons.prems(1), of i p]) (use Cons.prems(3) in \<open>auto simp: a\<close>)
  let ?r = "r\<lparr>r_singletons := s, r_startLifecyclePending := r_startLifecyclePending r @ [(i, p, t)]\<rparr>"
  have i: "i \<notin> fst ` set bs" using Cons.prems(2) by (simp add: a)
  then have none: "map_of bs i = None" by (simp add: map_of_eq_None_iff)
  have "\<exists>ss. store_bound ?r bs = Some (?r\<lparr>r_singletons := ss, r_startLifecyclePending := r_startLifecyclePending ?r @ bs\<rparr>)
    \<and> ss_inv ss \<and> (\<forall>d. ss_find ss d = (case map_of bs d of Some (p, t) \<Rightarrow> Some p | None \<Rightarrow> ss_find (r_singletons ?r) d))"
    using Cons.prems i s ss_store_size [OF s(1)] by (intro Cons.IH) (auto simp: a)
  then obtain ss where ss: "store_bound ?r bs = Some (?r\<lparr>r_singletons := ss, r_startLifecyclePending := r_startLifecyclePending ?r @ bs\<rparr>)"
    "ss_inv ss" "\<forall>d. ss_find ss d = (case map_of bs d of Some (p, t) \<Rightarrow> Some p | None \<Rightarrow> ss_find (r_singletons ?r) d)"
    by blast
  show ?case using ss s none by (intro exI [of _ ss]) (auto simp: a split: option.splits)
next
  case Nil
  then show ?case by (intro exI [of _ "r_singletons r"]) simp
qed

lemma reg_ok_fresh_type:
  assumes ok: "reg_ok tinfo (\<lambda>nm. nm \<noteq> x) r" and known: "ti_known (r_types r) x = Some t"
  shows "tix_cands (r_index r) t n = []"
proof (rule ccontr)
  assume "tix_cands (r_index r) t n \<noteq> []"
  then obtain d where d: "d \<in> set (tix_cands (r_index r) t n)" by (meson last_in_set)
  have "mset (tix_cands (r_index r) t n) = mset (keyed r t n)" using ok by (simp add: reg_ok_def)
  then have "d \<in> set (keyed r t n)" using d by (metis set_mset_mset)
  then have dk: "d < dtb_size (r_descriptors r)" "c_exposedType (dtb_coldAt (r_descriptors r) d) = t"
    by (auto simp: keyed_def)
  then obtain nm where nm: "nm \<noteq> x" "ti_known (r_types r) nm = Some t"
    using ok unfolding reg_ok_def by metis
  have "inj tinfo \<and> ti_inv tinfo (r_types r)" using ok by (simp add: reg_ok_def)
  from tin.known_inj [OF this nm(2) known] nm(1) show False by simp
qed

lemma reg_ok_weaken: "reg_ok tinfo P r \<Longrightarrow> reg_ok tinfo (\<lambda>_. True) r"
  unfolding reg_ok_def by blast

text \<open>Registration of the context bean on a sorted index that has no candidate for it.\<close>

lemma registerContextBean_ok:
  assumes ok: "reg_ok tinfo (\<lambda>nm. nm \<noteq> beanContextName) r" and ready: "tix_ready (prio r) (r_index r)"
    and room: "reg_room r 1" and info: "fst bc = tinfo beanContextName"
    and ss: "ss_insertionOrder (r_singletons r) = []"
  defines "i \<equiv> dtb_size (r_descriptors r)"
  shows "\<exists>r'. registerContextBean bc r ctx = Some r' \<and> reg_ok tinfo (\<lambda>_. True) r' \<and> tix_ready (prio r') (r_index r')
     \<and> ss_inv (r_singletons r') \<and> ss_instancesSize (r_singletons r') = Suc i
     \<and> (\<forall>d. ss_find (r_singletons r') d = (if d = i then Some ctx else None))
     \<and> r_beanContextDescId r' = i \<and> r_root r' = Some ctx \<and> dtb_size (r_descriptors r') = Suc i
     \<and> (\<forall>j < i. dtb_at (r_descriptors r') j = dtb_at (r_descriptors r) j
          \<and> dtb_coldAt (r_descriptors r') j = dtb_coldAt (r_descriptors r) j)
     \<and> (\<exists>t. ti_known (r_types r') beanContextName = Some t \<and> tix_cands (r_index r') t kUnnamed = [i])
     \<and> r_startLifecyclePending r' = r_startLifecyclePending r"
proof -
  define int where "int = ti_internByName (r_types r) beanContextName (fst bc)"
  define cold where "cold = runtime_cold (fst int) kUnnamed None None None 0 (snd bc) (fst bc) beanContextName"
  let ?d = "runtime_hot Singleton 0 kInvalidSessionSlot"
  let ?r1 = "r\<lparr>r_types := snd int\<rparr>"
  define dt where "dt = snd (dtb_append (r_descriptors r) ?d cold)"
  have len: "length (ti_names (r_types r)) < kInvalidTypeId" and sz: "dtb_size (r_descriptors ?r1) < kInvalidDescriptorId"
    using room by (auto simp: reg_room_def)
  note it = reg_intern_type [OF ok len, of beanContextName, folded info, folded int_def]
  have known: "ti_known (r_types ?r1) beanContextName = Some (c_exposedType cold)"
    using it(2) by (simp add: cold_def runtime_cold_def)
  have fresh: "tix_cands (r_index r) (fst int) kUnnamed = []"
    using reg_ok_fresh_type [OF it(1), of "fst int" kUnnamed] it(2) by simp
  note app = reg_append [OF reg_ok_weaken [OF it(1)] sz known, where f = "\<lambda>d. d" and d = ?d, unfolded dtb_atMutable_id]
  have keys: "c_exposedType cold = fst int" "c_name cold = kUnnamed" by (simp_all add: cold_def runtime_cold_def)
  let ?ix = "tix_insertCandidate (r_index r) (fst int) kUnnamed i"
  obtain s where s: "ss_store (ss_resize (r_singletons r) (dtb_size dt)) i ctx = Some s" "ss_inv s"
    "\<And>d. ss_find s d = (if d = i then Some ctx else ss_find (ss_resize (r_singletons r) (dtb_size dt)) d)"
  proof (rule ss_store_Some [OF ss_resize_inv [OF ss], of i "dtb_size dt" ctx])
    show "i < ss_instancesSize (ss_resize (r_singletons r) (dtb_size dt))"
      by (simp add: ss_resize_def dt_def i_def)
  qed simp_all
  define r' where "r' = r\<lparr>r_types := snd int, r_descriptors := dt, r_beanContextDescId := i,
      r_index := tix_updateSingleUnnamed ?ix (fst int), r_singletons := s, r_root := Some ctx\<rparr>"
  have eq: "registerContextBean bc r ctx = Some r'"
    using s(1) app(1) by (simp add: registerContextBean_def split_beta Let_def int_def [symmetric] cold_def [symmetric]
        dt_def r'_def i_def)
  have ok': "reg_ok tinfo (\<lambda>_. True) r'"
    using app(2) by (simp add: reg_ok_def r'_def keyed_def dt_def i_def keys update_wf)
  have agree: "prio r d = prio r' d" if "d \<in> set (tix_cands (r_index r) t n)" for d t n
    using reg_ok_cands_bound [OF ok that] app(3) [of d] by (simp add: prio_def r'_def dt_def i_def)
  have "tix_ready (prio r') (r_index r)" using ready agree by (rule tix_ready_cong)
  from insert_fresh_ready [OF this _ fresh, of i] sz have "tix_ready (prio r') (r_index r')"
    by (simp add: r'_def i_def)
  moreover have "ti_known (r_types r') beanContextName = Some (fst int) \<and> tix_cands (r_index r') (fst int) kUnnamed = [i]"
    using it(2) fresh insert_cands [of "r_index r"] ok by (simp add: r'_def reg_ok_def)
  moreover have "ss_instancesSize s = Suc i"
    using ss_store_size [OF s(1)] by (simp add: ss_resize_def dt_def i_def)
  ultimately show ?thesis
    using eq ok' s(2,3) app(3,4,6,7)
    by (intro exI [of _ r']) (auto simp: r'_def dt_def i_def keys)
qed

text \<open>What \<open>start()\<close> establishes.\<close>

definition slots_ok :: "registry \<Rightarrow> bool" where
  "slots_ok r \<longleftrightarrow>
     bij_betw (\<lambda>i. d_sessionSlot (dtb_at (r_descriptors r) i))
       {i. i < dtb_size (r_descriptors r) \<and> d_lifetime (dtb_at (r_descriptors r) i) = Session} {0..<r_sessionSlotCount r}
     \<and> (\<forall>i < dtb_size (r_descriptors r). d_lifetime (dtb_at (r_descriptors r) i) \<noteq> Session
          \<longrightarrow> d_sessionSlot (dtb_at (r_descriptors r) i) = kInvalidSessionSlot)"

definition started_ok :: "(string \<Rightarrow> type_index) \<Rightarrow> ptr \<Rightarrow> registry \<Rightarrow> bool" where
  "started_ok tinfo ctx r \<longleftrightarrow>
     r_started r \<and> reg_ok tinfo (\<lambda>_. True) r \<and> tix_ready (prio r) (r_index r) \<and> ss_inv (r_singletons r) \<and> slots_ok r
     \<and> r_root r = Some ctx \<and> ss_find (r_singletons r) (r_beanContextDescId r) = Some ctx
     \<and> r_beanContextDescId r < dtb_size (r_descriptors r)
     \<and> (\<exists>t. ti_known (r_types r) beanContextName = Some t \<and> tix_cands (r_index r) t kUnnamed = [r_beanContextDescId r])
     \<and> ti_frozen (r_types r)"

lemma assign_session_slots_ok:
  assumes ok: "reg_ok tinfo P r" and small: "dtb_size (r_descriptors r) \<le> kInvalidDescriptorId"
  shows "slots_ok (assign_session_slots r)" "reg_ok tinfo P (assign_session_slots r)"
    "\<And>i. i < dtb_size (r_descriptors r) \<Longrightarrow> prio (assign_session_slots r) i = prio r i"
proof -
  let ?r = "assign_session_slots r" and ?S = "\<lambda>d :: descriptor. d_lifetime d = Session"
  let ?f = "\<lambda>i. length (filter ?S (take i (dtb_entries (r_descriptors r))))"
  have lt: "d_lifetime (dtb_at (r_descriptors ?r) i) = d_lifetime (dtb_at (r_descriptors r) i)"
    if "i < dtb_size (r_descriptors r)" for i using that by (simp add: assign_session_slots_at)
  have dom: "{i. i < dtb_size (r_descriptors ?r) \<and> d_lifetime (dtb_at (r_descriptors ?r) i) = Session}
      = {i. i < length (dtb_entries (r_descriptors r)) \<and> ?S (dtb_entries (r_descriptors r) ! i)}" (is "?A = ?B")
    using lt by (auto simp: assign_session_slots_dtb(1)) (auto simp: dtb_size_def dtb_at_def)
  have cnt: "r_sessionSlotCount ?r = length (filter ?S (dtb_entries (r_descriptors r)))"
    by (simp add: assign_session_slots_def split_beta Let_def assign_slots_count)
  have eq: "?f i = d_sessionSlot (dtb_at (r_descriptors ?r) i)" if i: "i \<in> ?B" for i
  proof -
    have "?f i \<le> length (take i (dtb_entries (r_descriptors r)))" by (rule length_filter_le)
    also have "\<dots> \<le> dtb_size (r_descriptors r)" by (simp add: dtb_size_def)
    finally have "u32 (?f i) = ?f i" using small by (simp add: sentinel_defs)
    then show ?thesis using i assign_session_slots_at [of i r] by (simp add: dtb_size_def dtb_at_def)
  qed
  have "bij_betw (\<lambda>i. d_sessionSlot (dtb_at (r_descriptors ?r) i)) ?B {0..<r_sessionSlotCount ?r}"
    unfolding cnt by (rule bij_betw_cong [THEN iffD1, OF eq filter_position_bij])
  then show "slots_ok ?r"
    using lt unfolding slots_ok_def dom by (simp add: assign_session_slots_dtb(1) assign_session_slots_at)
  show "reg_ok tinfo P ?r"
    using ok by (simp add: reg_ok_def keyed_def assign_session_slots_dtb)
  show "prio ?r i = prio r i" if "i < dtb_size (r_descriptors r)" for i
    using that by (simp add: prio_def assign_session_slots_at)
qed

lemma ti_freeze_known:
  assumes "ti_inv tinfo s" "ti_known s k = Some i"
  shows "ti_known (ti_freeze s) k = Some i"
  using assms by (auto simp: ti_known_def ti_freeze_def split: option.splits if_splits)

lemma start_finish_ok:
  assumes ok: "reg_ok tinfo (\<lambda>nm. nm \<noteq> beanContextName) r" and ready: "tix_ready (prio r) (r_index r)"
    and room: "reg_room r 1" and info: "fst bc = tinfo beanContextName"
    and ss: "ss_insertionOrder (r_singletons r) = []"
    and bound: "distinct (map fst bound)" "\<forall>d \<in> fst ` set bound. d < dtb_size (r_descriptors r)"
  shows "\<exists>r'. start_finish bc r ctx bound = Some r' \<and> started_ok tinfo ctx r'
    \<and> (\<forall>(i, p, t) \<in> set bound. ss_find (r_singletons r') i = Some p)
    \<and> dtb_size (r_descriptors r') = Suc (dtb_size (r_descriptors r))"
proof -
  let ?i = "dtb_size (r_descriptors r)"
  obtain r1 where r1: "registerContextBean bc r ctx = Some r1" "reg_ok tinfo (\<lambda>_. True) r1" "tix_ready (prio r1) (r_index r1)"
     "ss_inv (r_singletons r1)" "ss_instancesSize (r_singletons r1) = Suc ?i"
     "\<forall>d. ss_find (r_singletons r1) d = (if d = ?i then Some ctx else None)"
     "r_beanContextDescId r1 = ?i" "r_root r1 = Some ctx" "dtb_size (r_descriptors r1) = Suc ?i"
     and key: "\<exists>t. ti_known (r_types r1) beanContextName = Some t \<and> tix_cands (r_index r1) t kUnnamed = [?i]"
    using registerContextBean_ok [OF ok ready room info ss] by blast
  let ?r2 = "assign_session_slots r1"
  have small: "dtb_size (r_descriptors r1) \<le> kInvalidDescriptorId" using room r1(9) by (simp add: reg_room_def)
  note sl = assign_session_slots_ok [OF r1(2) small]
  have pre: "\<forall>d \<in> fst ` set bound. d < ss_instancesSize (r_singletons ?r2) \<and> ss_find (r_singletons ?r2) d = None"
    using bound(2) r1(5,6) by auto
  have "ss_inv (r_singletons ?r2)" using r1(4) by simp
  from store_bound_ok [OF this bound(1) pre] obtain s where
    s: "store_bound ?r2 bound = Some (?r2\<lparr>r_singletons := s, r_startLifecyclePending := r_startLifecyclePending ?r2 @ bound\<rparr>)"
      "ss_inv s" "\<forall>d. ss_find s d = (case map_of bound d of Some (p, t) \<Rightarrow> Some p | None \<Rightarrow> ss_find (r_singletons ?r2) d)"
    by blast
  define r' where "r' = ?r2\<lparr>r_singletons := s, r_startLifecyclePending := r_startLifecyclePending ?r2 @ bound,
     r_types := ti_freeze (r_types ?r2), r_defaults := dt_resize (ti_size (ti_freeze (r_types ?r2))), r_started := True,
     r_beanContextStartLifecyclePending := True\<rparr>"
  have eq: "start_finish bc r ctx bound = Some r'" using r1(1) s(1) by (simp add: start_finish_def r'_def Let_def)
  have tinv: "ti_inv tinfo (r_types r1)" using r1(2) by (simp add: reg_ok_def)
  have "reg_ok tinfo (\<lambda>_. True) (?r2\<lparr>r_types := ti_freeze (r_types ?r2)\<rparr>)"
    using sl(2) by (rule reg_ok_types) (simp_all add: ti_inv_freeze tinv ti_freeze_known [OF tinv])
  then have ok': "reg_ok tinfo (\<lambda>_. True) r'" by (simp add: reg_ok_def keyed_def r'_def)
  have ready': "tix_ready (prio r') (r_index r')"
  proof -
    have "prio r1 d = prio r' d" if "d \<in> set (tix_cands (r_index r1) t n)" for d t n
      using sl(3) [OF reg_ok_cands_bound [OF r1(2) that]] by (simp add: prio_def r'_def)
    with r1(3) have "tix_ready (prio r') (r_index r1)" by (rule tix_ready_cong)
    then show ?thesis by (simp add: r'_def)
  qed
  have "map_of bound ?i = None" using bound(2) by (force simp: map_of_eq_None_iff)
  then have "ss_find s ?i = Some ctx" using s(3) r1(6) by simp
  moreover have "slots_ok r'" using sl(1) by (simp add: slots_ok_def r'_def)
  moreover have "\<exists>t. ti_known (r_types r') beanContextName = Some t \<and> tix_cands (r_index r') t kUnnamed = [?i]"
    using key ti_freeze_known [OF tinv] by (auto simp: r'_def)
  ultimately have st: "started_ok tinfo ctx r'"
    using ok' ready' s(2) r1(7,8,9)
    by (simp add: started_ok_def r'_def ti_freeze_def assign_session_slots_dtb)
  have "\<forall>(i, p, t) \<in> set bound. ss_find s i = Some p"
    using s(3) bound(1) by (auto simp: map_of_is_SomeI)
  with eq st r1(9) show ?thesis by (intro exI [of _ r']) (simp add: r'_def assign_session_slots_dtb)
qed

subsection \<open>The whole of \<open>start\<close>\<close>

text \<open>A registry that has not been started and holds only contributions and pending bindings.\<close>

definition startable :: "(string \<Rightarrow> type_index) \<Rightarrow> type_index \<times> nat \<Rightarrow> registry \<Rightarrow> bool" where
  "startable tinfo bc r \<longleftrightarrow>
     \<not> r_started r \<and> r_beanContextDescId r = kInvalidDescriptorId
     \<and> reg_ok tinfo (\<lambda>nm. nm \<noteq> beanContextName) r \<and> dtb_size (r_descriptors r) = 0
     \<and> reg_room r (length (concat (r_pending r)) + (length (r_pendingRuntimeSingletons r) + 1))
     \<and> (\<forall>cd \<in> set (concat (r_pending r)). cd_wf tinfo (\<lambda>nm. nm \<noteq> beanContextName) cd)
     \<and> (\<forall>pb \<in> set (r_pendingRuntimeSingletons r). pb_wf tinfo (\<lambda>nm. nm \<noteq> beanContextName) pb)
     \<and> ss_insertionOrder (r_singletons r) = [] \<and> fst bc = tinfo beanContextName"

lemma merge_loop_same:
  "r_singletons (ms_reg (snd (merge_loop ms cds))) = r_singletons (ms_reg ms)"
  "r_pending (ms_reg (snd (merge_loop ms cds))) = r_pending (ms_reg ms)"
proof -
  have new: "r_singletons (ms_reg (merge_new ms cd)) = r_singletons (ms_reg ms) \<and> r_pending (ms_reg (merge_new ms cd)) = r_pending (ms_reg ms)"
    for ms cd by (simp add: merge_new_def Let_def split_beta)
  have "r_singletons (ms_reg (snd (merge_loop ms cds))) = r_singletons (ms_reg ms)
      \<and> r_pending (ms_reg (snd (merge_loop ms cds))) = r_pending (ms_reg ms)"
    by (induction ms cds rule: merge_loop.induct) (auto simp: new split: option.splits)
  then show "r_singletons (ms_reg (snd (merge_loop ms cds))) = r_singletons (ms_reg ms)"
    "r_pending (ms_reg (snd (merge_loop ms cds))) = r_pending (ms_reg ms)" by auto
qed

lemma bind_pending_same: "r_singletons (fst (snd (bind_pending r bound pbs))) = r_singletons r"
  by (induction r bound pbs rule: bind_pending.induct) (auto simp: append_runtime_def Let_def split_beta)

lemma link_factories_same: "r_singletons (snd (link_factories im r ls)) = r_singletons r"
  by (induction im r ls rule: link_factories.induct) (auto split: option.splits)

lemma link_aliases_same: "r_singletons (snd (link_aliases im r ls)) = r_singletons r"
  by (induction im r ls rule: link_aliases.induct) (auto split: option.splits)

lemma merge_rel_links:
  assumes "merge_rel tinfo P ms kept"
  shows "\<forall>(i, x) \<in> set (ms_factoryLinks ms). i < dtb_size (r_descriptors (ms_reg ms))"
  using assms by (auto simp: merge_rel_def factory_link_def)

lemma start_link_ok:
  assumes ok: "reg_ok tinfo P r" and size: "dtb_size (r_descriptors r) = 0"
    and room: "reg_room r (length (concat (r_pending r)) + (length (r_pendingRuntimeSingletons r) + m))"
    and cds: "\<forall>cd \<in> set (concat (r_pending r)). cd_wf tinfo P cd"
    and pbs: "\<forall>pb \<in> set (r_pendingRuntimeSingletons r). pb_wf tinfo P pb"
    and run: "start_link r = (None, r3, bound)"
  shows "\<exists>kept. merge_spec [] (concat (r_pending r)) = Some kept \<and> reg_ok tinfo P r3 \<and> reg_room r3 m
    \<and> dtb_size (r_descriptors r3) = length kept + length (r_pendingRuntimeSingletons r)
    \<and> map fst bound = [length kept..<length kept + length (r_pendingRuntimeSingletons r)]
    \<and> r_singletons r3 = r_singletons r"
proof -
  let ?cds = "concat (r_pending r)" and ?pbs = "r_pendingRuntimeSingletons r"
  obtain ms r1 r2 where ml: "merge_loop (merge_init r) ?cds = (None, ms)"
    and bp: "bind_pending (ms_reg ms) [] ?pbs = (None, r1, bound)"
    and lf: "link_factories (ms_identityMap ms) (r1\<lparr>r_pendingRuntimeSingletons := []\<rparr>) (ms_factoryLinks ms) = (None, r2)"
    and la: "link_aliases (ms_identityMap ms) r2 (ms_aliasLinks ms) = (None, r3)"
    using run by (auto simp: start_link_def split: prod.splits option.splits)
  obtain kept where kept: "merge_spec [] ?cds = Some kept" "merge_rel tinfo P ms kept" "reg_room (ms_reg ms) (length ?pbs + m)"
    using merge_loop_refines [OF merge_init_rel [OF ok size], of ?cds "length ?pbs + m"] ml room cds
    by (auto simp: merge_init_def split: option.splits)
  have ok0: "reg_ok tinfo P (ms_reg ms)" and size0: "dtb_size (r_descriptors (ms_reg ms)) = length kept"
    using kept(2) by (auto simp: merge_rel_def)
  let ?r1 = "r1\<lparr>r_pendingRuntimeSingletons := []\<rparr>"
  have ok1: "reg_ok tinfo P ?r1" and size1: "dtb_size (r_descriptors ?r1) = length kept + length ?pbs"
    and room1: "reg_room ?r1 m" and ids: "map fst bound = [length kept..<length kept + length ?pbs]"
    using bind_pending_ok [OF ok0 kept(3) pbs, of "[]"] bp size0 by (auto simp: reg_ok_def keyed_def reg_room_def)
  have "\<forall>(i, x) \<in> set (ms_factoryLinks ms). i < dtb_size (r_descriptors ?r1)"
    using merge_rel_links [OF kept(2)] size0 size1 by auto
  note ok2 = link_factories_ok [OF ok1 this, of "ms_identityMap ms", unfolded lf snd_conv]
  note ok3 = link_aliases_ok [of tinfo P r2 "ms_identityMap ms" "ms_aliasLinks ms", unfolded la snd_conv]
  have "r_singletons r3 = r_singletons r"
    using link_aliases_same [of "ms_identityMap ms" r2 "ms_aliasLinks ms"]
      link_factories_same [of "ms_identityMap ms" ?r1 "ms_factoryLinks ms"]
      bind_pending_same [of "ms_reg ms" "[]" ?pbs] merge_loop_same(1) [of "merge_init r" ?cds]
    by (simp add: la lf bp ml)
  then show ?thesis using kept(1) ok2 ok3 size1 room1 ids by (intro exI [of _ kept]) (auto simp: reg_room_def)
qed

lemma registry_start_ok:
  assumes st: "startable tinfo bc r"
  shows "\<exists>e r'. registry_start bc r ctx = Some (e, r') \<and> (e = None \<longrightarrow> started_ok tinfo ctx r'
    \<and> (\<exists>kept. merge_spec [] (concat (r_pending r)) = Some kept
         \<and> dtb_size (r_descriptors r') = length kept + length (r_pendingRuntimeSingletons r) + 1))"
proof -
  let ?P = "\<lambda>nm. nm \<noteq> beanContextName"
  obtain e r3 bound where sl: "start_link r = (e, r3, bound)" by (cases "start_link r") auto
  define r4 where "r4 = r3\<lparr>r_index := tix_sortAllCandidates (prio r3) (r_index r3)\<rparr>"
  have run: "registry_start bc r ctx = (case e of Some e \<Rightarrow> Some (Some e, r3) | None \<Rightarrow>
      if duplicate_producer r4 then Some (Some (ConfigurationError DuplicateProducer), r4)
      else case graph_error r4 of Some e \<Rightarrow> Some (Some e, r4)
        | None \<Rightarrow> map_option (\<lambda>r5. (None, r5)) (start_finish bc r4 ctx bound))"
    using st by (simp add: registry_start_def startable_def sl r4_def Let_def split: option.splits)
  show ?thesis
  proof (cases "e = None \<and> \<not> duplicate_producer r4 \<and> graph_error r4 = None")
    case False
    then show ?thesis unfolding run by (auto split: option.splits)
  next
    case True
    from st obtain kept where k: "merge_spec [] (concat (r_pending r)) = Some kept" "reg_ok tinfo ?P r3" "reg_room r3 1"
      "dtb_size (r_descriptors r3) = length kept + length (r_pendingRuntimeSingletons r)"
      "map fst bound = [length kept..<length kept + length (r_pendingRuntimeSingletons r)]"
      "r_singletons r3 = r_singletons r"
      using start_link_ok [of tinfo ?P r 1 r3 bound] sl True by (auto simp: startable_def)
    have ready: "tix_ready (prio r4) (r_index r4)"
      using sorted_ok(2) [OF k(2), of "prio r3"] by (simp add: r4_def prio_def [abs_def])
    have ok4: "reg_ok tinfo ?P r4" unfolding r4_def by (rule sorted_ok(1) [OF k(2)])
    have room4: "reg_room r4 1" using k(3) by (simp add: r4_def reg_room_def)
    have ss4: "ss_insertionOrder (r_singletons r4) = []" and info: "fst bc = tinfo beanContextName"
      using st k(6) by (simp_all add: r4_def startable_def)
    have "fst ` set bound = {length kept..<length kept + length (r_pendingRuntimeSingletons r)}"
      using arg_cong [OF k(5), of set] by simp
    then have d: "distinct (map fst bound)" "\<forall>d \<in> fst ` set bound. d < dtb_size (r_descriptors r4)"
      using k(4,5) by (simp_all add: r4_def)
    from start_finish_ok [OF ok4 ready room4 info ss4 d]
    show ?thesis unfolding run using True k(1,4) by (auto simp: r4_def)
  qed
qed

lemma started_select:
  assumes "reg_ok tinfo P r" "tix_ready (prio r) (r_index r)"
  shows "resolve_select (r_index r) (prio r) t n = select_spec (prio r) (keyed r t n)"
proof -
  have "mset (tix_cands (r_index r) t n) = mset (keyed r t n)" using assms(1) by (simp add: reg_ok_def)
  then show ?thesis using resolve_select_refines [OF assms(2)] select_spec_perm by metis
qed

text \<open>
  C2. \<open>start()\<close> of a registry with arbitrary contributions and pending singleton bindings never
  trips an assertion of the singleton store; it either throws or publishes a registry in which
  the descriptor choice of \<open>resolve\<close>, for every type and name, is the unique highest-priority
  descriptor of the table that exposes this type under this name, with the table holding one
  descriptor per distinct contributed identity, one per pending binding, and the context bean.
\<close>

theorem registry_start_resolves:
  assumes "startable tinfo bc r"
  shows "\<exists>e r'. registry_start bc r ctx = Some (e, r') \<and> (e = None \<longrightarrow>
    r_started r'
    \<and> (\<forall>t n. resolve_select (r_index r') (prio r') t n = select_spec (prio r') (keyed r' t n))
    \<and> (\<exists>kept. merge_spec [] (concat (r_pending r)) = Some kept
         \<and> dtb_size (r_descriptors r') = length kept + length (r_pendingRuntimeSingletons r) + 1))"
  using registry_start_ok [OF assms, of ctx] started_select unfolding started_ok_def by metis

text \<open>
  C35. After a successful \<open>start()\<close> the session slots are dense: the session beans of the table
  are numbered bijectively by \<open>0 .. sessionSlotCount - 1\<close>, and every other descriptor carries
  the invalid slot. So two session beans never share a slot of a session store.
\<close>

theorem start_session_slots_dense:
  assumes "startable tinfo bc r" "registry_start bc r ctx = Some (None, r')"
  shows "bij_betw (\<lambda>i. d_sessionSlot (dtb_at (r_descriptors r') i))
       {i. i < dtb_size (r_descriptors r') \<and> d_lifetime (dtb_at (r_descriptors r') i) = Session} {0..<r_sessionSlotCount r'}
     \<and> (\<forall>i < dtb_size (r_descriptors r'). d_lifetime (dtb_at (r_descriptors r') i) \<noteq> Session
          \<longrightarrow> d_sessionSlot (dtb_at (r_descriptors r') i) = kInvalidSessionSlot)"
  using registry_start_ok [OF assms(1), of ctx] assms(2) by (simp add: started_ok_def slots_ok_def)

text \<open>
  After a successful \<open>start()\<close> the root context is injectable: \<open>ctr::BeanContext\<close> has a type
  id, resolving it without a name selects the registered context descriptor, and the singleton
  store returns the context object for that descriptor.
\<close>

theorem start_registers_context:
  assumes "startable tinfo bc r" "registry_start bc r ctx = Some (None, r')"
  shows "\<exists>t. ti_lookupByTypeIndex (r_types r') (fst bc) = t
    \<and> resolve_select (r_index r') (prio r') t kUnnamed = Inr (r_beanContextDescId r')
    \<and> ss_find (r_singletons r') (r_beanContextDescId r') = Some ctx"
proof -
  have st: "started_ok tinfo ctx r'" using registry_start_ok [OF assms(1), of ctx] assms(2) by simp
  then obtain t where t: "ti_known (r_types r') beanContextName = Some t" "tix_cands (r_index r') t kUnnamed = [r_beanContextDescId r']"
    by (auto simp: started_ok_def)
  have "ti_inv tinfo (r_types r')" "fst bc = tinfo beanContextName"
    using st assms(1) by (simp_all add: started_ok_def reg_ok_def startable_def)
  then have "ti_lookupByTypeIndex (r_types r') (fst bc) = t" using t(1) by (simp add: ti_lookup_known)
  moreover have "resolve_select (r_index r') (prio r') t kUnnamed = Inr (r_beanContextDescId r')"
    using st by (simp add: started_ok_def resolve_select_refines t(2) select_spec_def)
  ultimately show ?thesis using st by (simp add: started_ok_def)
qed

subsection \<open>Validation\<close>

lemma adjacent_find_sorted: "sorted xs \<Longrightarrow> adjacent_find xs \<longleftrightarrow> \<not> distinct xs"
  by (induction xs rule: adjacent_find.induct) (auto simp: order_antisym)

lemma factory_ids_Nil: "factory_ids r [] = []"
  by (simp add: factory_ids_def)

text \<open>Two products of one factory method.\<close>

definition co_produced :: "registry \<Rightarrow> DescriptorId \<Rightarrow> DescriptorId \<Rightarrow> bool" where
  "co_produced r i j \<longleftrightarrow> i \<noteq> j
    \<and> c_origin (dtb_coldAt (r_descriptors r) i) = FactoryProduct \<and> c_origin (dtb_coldAt (r_descriptors r) j) = FactoryProduct
    \<and> c_factoryMethodDescriptor (dtb_coldAt (r_descriptors r) i) \<noteq> kInvalidDescriptorId
    \<and> c_factoryMethodDescriptor (dtb_coldAt (r_descriptors r) i) = c_factoryMethodDescriptor (dtb_coldAt (r_descriptors r) j)"

lemma factory_ids_dup:
  assumes "distinct cs"
  shows "\<not> distinct (factory_ids r cs) \<longleftrightarrow> (\<exists>i j. i \<in> set cs \<and> j \<in> set cs \<and> co_produced r i j)"
  using assms unfolding factory_ids_def distinct_map inj_on_def co_produced_def by simp metis

text \<open>
  Phase 3.5 rejects exactly the tables in which two different descriptors with the same
  exposed type and bean name are products of the same factory method.
\<close>

theorem duplicate_producer_iff:
  assumes ok: "reg_ok tinfo P r" and fin: "tix_finalized (r_index r)"
  shows "duplicate_producer r \<longleftrightarrow>
    (\<exists>i j. i < dtb_size (r_descriptors r) \<and> j < dtb_size (r_descriptors r)
      \<and> c_exposedType (dtb_coldAt (r_descriptors r) i) = c_exposedType (dtb_coldAt (r_descriptors r) j)
      \<and> c_name (dtb_coldAt (r_descriptors r) i) = c_name (dtb_coldAt (r_descriptors r) j)
      \<and> co_produced r i j)"
    (is "_ \<longleftrightarrow> ?rhs")
proof -
  have wf: "tix_wf (r_index r)" and tinv: "ti_inv tinfo (r_types r)" using ok by (auto simp: reg_ok_def)
  have cands: "tix_cands (r_index r) t n = cands_in (tbl_at (tix_tables (r_index r)) t) n" for t n
    using wf fin by (simp add: tix_cands_def tix_wf_def pend_at_def)
  have m: "mset (tix_cands (r_index r) t n) = mset (keyed r t n)" for t n using ok by (simp add: reg_ok_def)
  have dist: "distinct (tix_cands (r_index r) t n)" and mem: "set (tix_cands (r_index r) t n) = set (keyed r t n)" for t n
    using mset_eq_setD [OF m] mset_eq_imp_distinct_iff [OF m] by (simp_all add: keyed_def)
  have bound: "c_exposedType (dtb_coldAt (r_descriptors r) i) < ti_size (r_types r)" if "i < dtb_size (r_descriptors r)" for i
    using ok that ti_known_iff [OF tinv] by (fastforce simp: reg_ok_def ti_size_def)
  have "duplicate_producer r \<longleftrightarrow> (\<exists>t n. t < ti_size (r_types r) \<and> \<not> distinct (factory_ids r (tix_cands (r_index r) t n)))"
    (is "_ \<longleftrightarrow> ?mid")
  proof -
    have one: "(case tix_tableFor (r_index r) t of None \<Rightarrow> False
        | Some tbl \<Rightarrow> list_ex (\<lambda>(n, e). adjacent_find (sort (factory_ids r (ne_candidates e)))) tbl)
      \<longleftrightarrow> (\<exists>n. \<not> distinct (factory_ids r (tix_cands (r_index r) t n)))" for t
    proof (cases "tbl_at (tix_tables (r_index r)) t")
      case None
      then show ?thesis unfolding cands by (auto simp: tix_tableFor_def tbl_at_def cands_in_def factory_ids_def split: if_splits)
    next
      case (Some tbl)
      then have "fm_sorted tbl" using wf by (simp add: tix_wf_def)
      then have d: "distinct (map fst tbl)" by (simp add: fm_sorted_def strict_sorted_iff)
      have "\<not> distinct (factory_ids r (cands_in (Some tbl) n)) \<longleftrightarrow>
          (\<exists>e. (n, e) \<in> set tbl \<and> \<not> distinct (factory_ids r (ne_candidates e)))" for n
        using map_of_eq_Some_iff [OF d, of n] by (cases "map_of tbl n") (simp_all add: cands_in_def factory_ids_Nil, metis)
      then have "(\<exists>(n, e) \<in> set tbl. \<not> distinct (factory_ids r (ne_candidates e)))
          \<longleftrightarrow> (\<exists>n. \<not> distinct (factory_ids r (cands_in (Some tbl) n)))"
        by auto
      moreover have "tix_tableFor (r_index r) t = Some tbl" using Some by (auto simp: tix_tableFor_def tbl_at_def split: if_splits)
      ultimately show ?thesis unfolding cands Some by (simp add: list_ex_iff adjacent_find_sorted)
    qed
    show ?thesis unfolding duplicate_producer_def list_ex_iff one by auto
  qed
  also have "?mid \<longleftrightarrow> ?rhs"
    using bound unfolding factory_ids_dup [OF dist] mem by (auto simp: keyed_def) metis+
  finally show ?thesis .
qed


subsection \<open>Concrete instances\<close>

definition sample_registry :: registry where
  "sample_registry = registry_init\<lparr>r_pending := [[sample_cd 7 ''A'' [] 1 Singleton, sample_cd 8 ''A'' [] 2 Session]]\<rparr>"

lemma sample_startable: "startable name_code (name_code beanContextName, 8) sample_registry"
proof -
  have "reg_ok name_code P (registry_init\<lparr>r_pending := x\<rparr>)" for P x
    using reg_init_ok [OF name_code_inj, of P] by (simp add: reg_ok_def keyed_def)
  moreover have "reg_room (registry_init\<lparr>r_pending := x\<rparr>) (Suc (Suc (Suc 0)))" for x
    using registry_init_room [of "Suc (Suc (Suc 0))"] by (simp add: reg_room_def)
  ultimately show ?thesis
    by (simp add: startable_def sample_registry_def cd_wf_def sample_cd_def)
       (simp add: registry_init_def ss_init_def sample_cd_def beanContextName_def)
qed


lemmas start_eval =
  registry_start_def start_link_def merge_init_def merge_new_def hot_of_def cold_of_def
  ti_internByName_def emplace_def ni_intern_def dtb_append_def dtb_atMutable_def tix_insertCandidate_def Let_def
  grow_to_def tix_sortAllCandidates_def tix_flushOne_def tix_ensureTable_def ne_push_def ne_default_def ne_finish_def
  std_sort_desc_def prio_def dtb_at_def dtb_coldAt_def tix_singleOf_def tix_ambiguousNames_def duplicate_producer_def
  tix_tableFor_def factory_ids_def graph_error_def start_finish_def registerContextBean_def runtime_hot_def
  runtime_cold_def tix_updateSingleUnnamed_def tix_candidatesFor_def tix_entryFor_def ss_store_def ss_resize_def
  assign_session_slots_def ti_freeze_def dt_resize_def ti_size_def arr_write_def dtb_size_def registry_init_def
  dtb_init_def ti_init_def ni_init_def tix_init_def ss_init_def sample_cd_def sentinel_defs

lemma sample_start:
  "\<exists>r'. registry_start (name_code beanContextName, 8) sample_registry 5 = Some (None, r') \<and> r_sessionSlotCount r' = 1"
  by (simp add: start_eval sample_registry_def)

theorem registry_start_resolves_witness:
  "startable name_code (name_code beanContextName, 8) sample_registry
   \<and> (\<exists>r'. registry_start (name_code beanContextName, 8) sample_registry 5 = Some (None, r')
        \<and> (\<forall>t n. resolve_select (r_index r') (prio r') t n = select_spec (prio r') (keyed r' t n)))"
  using registry_start_resolves [OF sample_startable, of 5] sample_startable sample_start by auto

theorem start_session_slots_dense_witness:
  "\<exists>r'. registry_start (name_code beanContextName, 8) sample_registry 5 = Some (None, r')
     \<and> bij_betw (\<lambda>i. d_sessionSlot (dtb_at (r_descriptors r') i))
         {i. i < dtb_size (r_descriptors r') \<and> d_lifetime (dtb_at (r_descriptors r') i) = Session} {0..<1}"
proof -
  obtain r' where r': "registry_start (name_code beanContextName, 8) sample_registry 5 = Some (None, r')" "r_sessionSlotCount r' = 1"
    using sample_start by blast
  from start_session_slots_dense [OF sample_startable r'(1)] r' show ?thesis by simp
qed

theorem start_registers_context_witness:
  "\<exists>r'. registry_start (name_code beanContextName, 8) sample_registry 5 = Some (None, r')
     \<and> ss_find (r_singletons r') (r_beanContextDescId r') = Some 5"
proof -
  obtain r' where r': "registry_start (name_code beanContextName, 8) sample_registry 5 = Some (None, r')"
    using sample_start by blast
  from start_registers_context [OF sample_startable r'] r' show ?thesis by auto
qed

theorem duplicate_producer_iff_witness:
  "reg_ok name_code (\<lambda>_. True) (registry_init\<lparr>r_index := tix_init\<lparr>tix_finalized := True\<rparr>\<rparr>)
   \<and> \<not> duplicate_producer (registry_init\<lparr>r_index := tix_init\<lparr>tix_finalized := True\<rparr>\<rparr>)"
proof -
  let ?r = "registry_init\<lparr>r_index := tix_init\<lparr>tix_finalized := True\<rparr>\<rparr>"
  have "tix_wf (tix_init\<lparr>tix_finalized := True\<rparr>)" "\<And>t n. tix_cands (tix_init\<lparr>tix_finalized := True\<rparr>) t n = []"
    by (auto simp: tix_wf_def tix_init_def tix_cands_def tbl_at_def pend_at_def cands_in_def)
  then have ok: "reg_ok name_code (\<lambda>_. True) ?r"
    using reg_init_ok [OF name_code_inj, of "\<lambda>_. True"] by (simp add: reg_ok_def keyed_def) (simp add: registry_init_def)
  show ?thesis using duplicate_producer_iff [OF ok] ok by (simp add: registry_init_def)
qed

end
