(* ===== verification/Freelist.thy ===== *)
theory Freelist
  imports Ctr_Prelude
begin

unbundle bit_operations_syntax

text \<open>
  The Treiber freelist of slots (\<^verbatim>\<open>TreiberFreelist.hpp\<close>). The 64-bit head packs a generation
  and a 32-bit slot. Two models share the code: the sequential operations, which satisfy the
  stack interface \<open>free_stack\<close>, and a step relation in which the threads interleave at every
  load, store and compare-exchange.
\<close>

subsection \<open>The stack interface\<close>

locale free_stack =
  fixes pop :: "'s \<Rightarrow> SlotId \<times> 's"
    and push :: "'s \<Rightarrow> SlotId \<Rightarrow> 'g \<Rightarrow> 's"
    and holds :: "'s \<Rightarrow> SlotId list \<Rightarrow> bool"
  assumes pop_empty: "holds s [] \<Longrightarrow> pop s = (kInvalidSlotId, s)"
    and pop_Cons: "holds s (x # xs) \<Longrightarrow> fst (pop s) = x \<and> holds (snd (pop s)) xs"
    and push_holds: "holds s xs \<Longrightarrow> x \<notin> set xs \<Longrightarrow> x < kInvalidSlotId \<Longrightarrow> holds (push s x g) (x # xs)"
    and holds_distinct: "holds s xs \<Longrightarrow> distinct xs \<and> (\<forall>x \<in> set xs. x < kInvalidSlotId)"
begin

lemma pop_push: "holds s xs \<Longrightarrow> x \<notin> set xs \<Longrightarrow> x < kInvalidSlotId \<Longrightarrow>
    fst (pop (push s x g)) = x \<and> holds (snd (pop (push s x g))) xs"
  using push_holds pop_Cons by blast

lemma pop_invalid_iff: "holds s xs \<Longrightarrow> fst (pop s) = kInvalidSlotId \<longleftrightarrow> xs = []"
  using pop_empty pop_Cons holds_distinct by (cases xs) fastforce+

fun pops :: "nat \<Rightarrow> 's \<Rightarrow> SlotId list \<times> 's" where
  "pops 0 s = ([], s)"
| "pops (Suc n) s = (fst (pop s) # fst (pops n (snd (pop s))), snd (pops n (snd (pop s))))"

lemma pops_holds: "holds s (ys @ xs) \<Longrightarrow> fst (pops (length ys) s) = ys \<and> holds (snd (pops (length ys) s)) xs"
proof (induction ys arbitrary: s)
  case Nil
  then show ?case by simp
next
  case (Cons y ys)
  then have "fst (pop s) = y" "holds (snd (pop s)) (ys @ xs)" using pop_Cons by auto
  with Cons.IH show ?case by simp
qed

end

subsection \<open>Sequential operations\<close>

text \<open>\<open>fl_head\<close> is the atomic head, \<open>fl_next\<close> the per-slot \<open>nextFree\<close> word.\<close>

record freelist =
  fl_head :: "64 word"
  fl_next :: "SlotId \<Rightarrow> 32 word"

definition kSlotMask :: "64 word" where
  "kSlotMask = 0xFFFFFFFF"

definition head_slot :: "64 word \<Rightarrow> SlotId" where
  "head_slot h = unat (h AND kSlotMask)"

definition pack_head :: "32 word \<Rightarrow> SlotId \<Rightarrow> 64 word" where
  "pack_head generation slot = push_bit 32 (ucast generation) OR of_nat slot"

definition fl_init :: freelist where
  "fl_init = \<lparr>fl_head = of_nat kInvalidSlotId, fl_next = (\<lambda>_. 0)\<rparr>"

definition popTreiberFreelist :: "freelist \<Rightarrow> SlotId \<times> freelist" where
  "popTreiberFreelist f =
     (let current = fl_head f
      in if current AND kSlotMask \<noteq> of_nat kInvalidSlotId then
           (let slot = head_slot current; next = fl_next f slot
            in (slot, f\<lparr>fl_head := ucast next\<rparr>))
         else (kInvalidSlotId, f))"

definition pushTreiberFreelist :: "freelist \<Rightarrow> SlotId \<Rightarrow> 32 word \<Rightarrow> freelist" where
  "pushTreiberFreelist f slot generation =
     (let current = fl_head f
      in f\<lparr>fl_next := (fl_next f)(slot := ucast (current AND kSlotMask)),
           fl_head := pack_head generation slot\<rparr>)"

text \<open>The list of slots linked from a slot value.\<close>

fun fl_chain :: "(SlotId \<Rightarrow> 32 word) \<Rightarrow> SlotId \<Rightarrow> SlotId list \<Rightarrow> bool" where
  "fl_chain nx s [] \<longleftrightarrow> s = kInvalidSlotId"
| "fl_chain nx s (x # xs) \<longleftrightarrow> s = x \<and> x < kInvalidSlotId \<and> fl_chain nx (unat (nx x)) xs"

definition fl_holds :: "freelist \<Rightarrow> SlotId list \<Rightarrow> bool" where
  "fl_holds f xs \<longleftrightarrow> distinct xs \<and> fl_chain (fl_next f) (head_slot (fl_head f)) xs"

lemma kSlotMask_mask: "kSlotMask = mask 32"
  by (simp add: kSlotMask_def mask_eq_exp_minus_1)

lemma head_slot_take_bit: "head_slot h = take_bit 32 (unat h)"
  by (simp add: head_slot_def kSlotMask_mask take_bit_eq_mask [symmetric] unsigned_take_bit_eq)

lemma head_slot_bound: "head_slot h < 4294967296"
  by (simp add: head_slot_take_bit take_bit_eq_mod)

lemma unat_of_nat_slot: "s < 4294967296 \<Longrightarrow> unat (of_nat s :: 64 word) = s"
  by (simp add: unsigned_of_nat take_bit_nat_eq_self)

lemma head_slot_ucast [simp]: "head_slot (ucast (w :: 32 word)) = unat w"
proof -
  have "unat w < 4294967296" using unsigned_less [of w] by simp
  then show ?thesis by (simp add: head_slot_take_bit unsigned_ucast_eq take_bit_nat_eq_self)
qed

lemma head_slot_of_nat [simp]: "s < 4294967296 \<Longrightarrow> head_slot (of_nat s) = s"
  by (simp add: head_slot_take_bit unat_of_nat_slot take_bit_nat_eq_self)

lemma head_slot_pack [simp]:
  assumes "s < 4294967296"
  shows "head_slot (pack_head g s) = s"
proof -
  have "take_bit 32 (unat (push_bit 32 (ucast g :: 64 word))) = 0"
    by (simp add: unsigned_push_bit_eq take_bit_push_bit)
  then show ?thesis using assms
    by (simp add: head_slot_take_bit pack_head_def unsigned_or_eq unat_of_nat_slot take_bit_nat_eq_self)
qed

lemma head_invalid_iff: "h AND kSlotMask = of_nat kInvalidSlotId \<longleftrightarrow> head_slot h = kInvalidSlotId"
proof
  assume "h AND kSlotMask = of_nat kInvalidSlotId"
  then have "unat (h AND kSlotMask) = kInvalidSlotId" by (simp add: unat_of_nat_slot sentinel_defs)
  then show "head_slot h = kInvalidSlotId" by (simp add: head_slot_def)
next
  assume "head_slot h = kInvalidSlotId"
  then show "h AND kSlotMask = of_nat kInvalidSlotId"
    by (simp add: word_unat_eq_iff head_slot_def unat_of_nat_slot sentinel_defs)
qed

lemma ucast_head_slot: "unat (ucast (h AND kSlotMask) :: 32 word) = head_slot h"
  using head_slot_bound [of h] by (simp add: head_slot_def unsigned_ucast_eq take_bit_nat_eq_self)

lemma fl_chain_upd: "x \<notin> set xs \<Longrightarrow> fl_chain (nx(x := v)) s xs = fl_chain nx s xs"
  by (induction xs arbitrary: s) auto

lemma fl_chain_bound: "fl_chain nx s xs \<Longrightarrow> \<forall>x \<in> set xs. x < kInvalidSlotId"
  by (induction xs arbitrary: s) auto

interpretation tfl: free_stack popTreiberFreelist pushTreiberFreelist fl_holds
proof (unfold_locales, goal_cases)
  case (1 s)
  then show ?case by (simp add: fl_holds_def popTreiberFreelist_def head_invalid_iff Let_def)
next
  case (2 s x xs)
  then show ?case
    by (auto simp: fl_holds_def popTreiberFreelist_def head_invalid_iff Let_def)
next
  case (3 s xs x g)
  then show ?case
    by (auto simp: fl_holds_def pushTreiberFreelist_def Let_def ucast_head_slot fl_chain_upd sentinel_defs)
next
  case (4 s xs)
  then show ?case using fl_chain_bound by (auto simp: fl_holds_def)
qed

lemma fl_init_holds: "fl_holds fl_init []"
proof -
  have "head_slot (of_nat kInvalidSlotId) = kInvalidSlotId"
    by (rule head_slot_of_nat) (simp add: sentinel_defs)
  then show ?thesis by (simp add: fl_holds_def fl_init_def)
qed

subsection \<open>Interleaved operations\<close>

text \<open>
  A thread is inside \<open>pop\<close> (before the test of \<open>current\<close>, or before the compare-exchange with
  the \<open>next\<close> it has read), inside \<open>push\<close> (before linking, or before the compare-exchange), or
  has returned. \<open>fs_log\<close> records the completed pops.
\<close>

datatype fl_pc =
    FlIdle
  | PopTest "64 word"
  | PopCas "64 word" "32 word"
  | PopRet SlotId
  | PushLink SlotId "32 word" "64 word"
  | PushCas SlotId "32 word" "64 word"
  | PushRet

record fl_sys =
  fs_list :: freelist
  fs_pc :: "nat \<Rightarrow> fl_pc"
  fs_log :: "(nat \<times> SlotId) list"

datatype fl_event = StartPop nat | StartPush nat SlotId "32 word" | FlStep nat bool

fun fl_returned :: "fl_pc \<Rightarrow> bool" where
  "fl_returned FlIdle = True"
| "fl_returned (PopRet _) = True"
| "fl_returned PushRet = True"
| "fl_returned _ = False"

definition fs_goto :: "fl_sys \<Rightarrow> nat \<Rightarrow> fl_pc \<Rightarrow> fl_sys" where
  "fs_goto s t pc = s\<lparr>fs_pc := (fs_pc s)(t := pc)\<rparr>"

text \<open>\<open>spurious\<close>: a weak compare-exchange may fail although the values agree.\<close>

definition fl_advance :: "fl_sys \<Rightarrow> nat \<Rightarrow> bool \<Rightarrow> fl_sys" where
  "fl_advance s t spurious =
     (let f = fs_list s
      in case fs_pc s t of
        PopTest current \<Rightarrow>
          if current AND kSlotMask \<noteq> of_nat kInvalidSlotId
          then fs_goto s t (PopCas current (fl_next f (head_slot current)))
          else (fs_goto s t (PopRet kInvalidSlotId))\<lparr>fs_log := fs_log s @ [(t, kInvalidSlotId)]\<rparr>
      | PopCas current next \<Rightarrow>
          if \<not> spurious \<and> fl_head f = current
          then (fs_goto s t (PopRet (head_slot current)))
                 \<lparr>fs_list := f\<lparr>fl_head := ucast next\<rparr>, fs_log := fs_log s @ [(t, head_slot current)]\<rparr>
          else fs_goto s t (PopTest (fl_head f))
      | PushLink slot gen current \<Rightarrow>
          (fs_goto s t (PushCas slot gen current))
            \<lparr>fs_list := f\<lparr>fl_next := (fl_next f)(slot := ucast (current AND kSlotMask))\<rparr>\<rparr>
      | PushCas slot gen current \<Rightarrow>
          if \<not> spurious \<and> fl_head f = current
          then (fs_goto s t PushRet)\<lparr>fs_list := f\<lparr>fl_head := pack_head gen slot\<rparr>\<rparr>
          else fs_goto s t (PushLink slot gen (fl_head f))
      | _ \<Rightarrow> s)"

fun fl_exec :: "fl_sys \<Rightarrow> fl_event \<Rightarrow> fl_sys" where
  "fl_exec s (StartPop t) =
     (if fl_returned (fs_pc s t) then fs_goto s t (PopTest (fl_head (fs_list s))) else s)"
| "fl_exec s (StartPush t slot gen) =
     (if fl_returned (fs_pc s t) then fs_goto s t (PushLink slot gen (fl_head (fs_list s))) else s)"
| "fl_exec s (FlStep t spurious) = fl_advance s t spurious"

definition fl_run :: "fl_sys \<Rightarrow> fl_event list \<Rightarrow> fl_sys" where
  "fl_run s evs = foldl fl_exec s evs"

definition fs_start :: "freelist \<Rightarrow> fl_sys" where
  "fs_start f = \<lparr>fs_list = f, fs_pc = (\<lambda>_. FlIdle), fs_log = []\<rparr>"

text \<open>Running a pop or a push alone is the sequential operation.\<close>

lemma pop_alone:
  assumes "fl_returned (fs_pc s t)"
  shows "fs_list (fl_run s [StartPop t, FlStep t False, FlStep t False]) = snd (popTreiberFreelist (fs_list s))
    \<and> fs_pc (fl_run s [StartPop t, FlStep t False, FlStep t False]) t = PopRet (fst (popTreiberFreelist (fs_list s)))"
  using assms
  by (auto simp: fl_run_def fl_advance_def fs_goto_def Let_def popTreiberFreelist_def)

lemma push_alone:
  assumes "fl_returned (fs_pc s t)"
  shows "fs_list (fl_run s [StartPush t x g, FlStep t False, FlStep t False]) = pushTreiberFreelist (fs_list s) x g
    \<and> fs_pc (fl_run s [StartPush t x g, FlStep t False, FlStep t False]) t = PushRet"
  using assms
  by (auto simp: fl_run_def fl_advance_def fs_goto_def Let_def pushTreiberFreelist_def)

subsubsection \<open>Concurrent pops\<close>

fun pop_event :: "fl_event \<Rightarrow> bool" where
  "pop_event (StartPush t x g) = False"
| "pop_event _ = True"

definition fs_taken :: "fl_sys \<Rightarrow> SlotId list" where
  "fs_taken s = filter (\<lambda>x. x \<noteq> kInvalidSlotId) (map snd (fs_log s))"

fun pop_pc :: "freelist \<Rightarrow> fl_pc \<Rightarrow> bool" where
  "pop_pc f (PopCas current next) \<longleftrightarrow> head_slot current \<noteq> kInvalidSlotId \<and> next = fl_next f (head_slot current)"
| "pop_pc f (PushLink _ _ _) = False"
| "pop_pc f (PushCas _ _ _) = False"
| "pop_pc f _ = True"

definition fs_pops_inv :: "SlotId list \<Rightarrow> freelist \<Rightarrow> fl_sys \<Rightarrow> bool" where
  "fs_pops_inv xs f s \<longleftrightarrow>
     (\<exists>ys. fs_taken s @ ys = xs \<and> fl_holds (fs_list s) ys)
     \<and> fl_next (fs_list s) = fl_next f \<and> (\<forall>t. pop_pc f (fs_pc s t))"

lemma fs_pops_step:
  assumes inv: "fs_pops_inv xs f s" and ev: "pop_event ev"
  shows "fs_pops_inv xs f (fl_exec s ev)"
proof -
  obtain ys where ys: "fs_taken s @ ys = xs" "fl_holds (fs_list s) ys"
    and nx: "fl_next (fs_list s) = fl_next f" and pcs: "\<forall>t. pop_pc f (fs_pc s t)"
    using inv by (auto simp: fs_pops_inv_def)
  show ?thesis
  proof (cases ev)
    case (StartPop t)
    with inv show ?thesis by (auto simp: fs_pops_inv_def fs_goto_def fs_taken_def)
  next
    case (StartPush t x g)
    with ev show ?thesis by simp
  next
    case (FlStep t spurious)
    show ?thesis
    proof (cases "fs_pc s t")
      case (PopTest current)
      with FlStep inv nx show ?thesis
        by (auto simp: fs_pops_inv_def fl_advance_def fs_goto_def fs_taken_def Let_def head_invalid_iff)
    next
      case (PopCas current nxt)
      have pc: "head_slot current \<noteq> kInvalidSlotId" "nxt = fl_next f (head_slot current)"
        using pcs PopCas by (metis pop_pc.simps(1))+
      show ?thesis
      proof (cases "\<not> spurious \<and> fl_head (fs_list s) = current")
        case True
        then obtain zs where zs: "ys = head_slot current # zs"
          using ys(2) pc by (cases ys) (auto simp: fl_holds_def)
        have "fl_holds ((fs_list s)\<lparr>fl_head := ucast nxt\<rparr>) zs"
          using ys(2) zs pc True nx by (auto simp: fl_holds_def)
        then show ?thesis using True PopCas FlStep ys(1) zs pcs nx pc
          by (auto simp: fs_pops_inv_def fl_advance_def fs_goto_def fs_taken_def Let_def)
      next
        case False
        with PopCas FlStep inv show ?thesis
          by (auto simp: fs_pops_inv_def fl_advance_def fs_goto_def fs_taken_def Let_def)
      qed
    next
      case (PushLink x g c)
      with pcs show ?thesis by (metis pop_pc.simps(2))
    next
      case (PushCas x g c)
      with pcs show ?thesis by (metis pop_pc.simps(3))
    qed (use FlStep inv in \<open>auto simp: fl_advance_def\<close>)
  qed
qed

lemma fs_pops_run:
  "fs_pops_inv xs f s \<Longrightarrow> list_all pop_event evs \<Longrightarrow> fs_pops_inv xs f (fl_run s evs)"
  by (induction evs arbitrary: s) (auto simp: fl_run_def fs_pops_step)

text \<open>
  C36. When threads pop from the freelist at the same time, interleaved in any way and with
  any spurious failures of the compare-exchange, the slots they obtain are a prefix of the
  list, in order: no slot is handed to two threads, none is lost, and what is left in the
  freelist is exactly the rest.
\<close>

theorem concurrent_pops_linearize:
  assumes "fl_holds f xs" "list_all pop_event evs"
  shows "\<exists>ys. fs_taken (fl_run (fs_start f) evs) @ ys = xs
    \<and> fl_holds (fs_list (fl_run (fs_start f) evs)) ys"
proof -
  have "fs_pops_inv xs f (fs_start f)"
    using assms(1) by (simp add: fs_pops_inv_def fs_start_def fs_taken_def)
  from fs_pops_run [OF this assms(2)] show ?thesis by (auto simp: fs_pops_inv_def)
qed

theorem concurrent_pops_linearize_witness:
  "fl_holds (pushTreiberFreelist fl_init 4 1) [4]
   \<and> list_all pop_event [StartPop 0, StartPop 1, FlStep 0 False, FlStep 1 False, FlStep 1 False, FlStep 0 False]
   \<and> (\<exists>ys. fs_taken (fl_run (fs_start (pushTreiberFreelist fl_init 4 1))
        [StartPop 0, StartPop 1, FlStep 0 False, FlStep 1 False, FlStep 1 False, FlStep 0 False]) @ ys = [4])"
proof -
  have h: "fl_holds (pushTreiberFreelist fl_init 4 1) [4]"
    by (rule tfl.push_holds [OF fl_init_holds]) (simp_all add: sentinel_defs)
  show ?thesis
    using h concurrent_pops_linearize [OF h, of "[StartPop 0, StartPop 1, FlStep 0 False, FlStep 1 False, FlStep 1 False, FlStep 0 False]"]
    by auto
qed

subsubsection \<open>Reuse between the load and the compare-exchange\<close>

definition op_pop :: "nat \<Rightarrow> fl_event list" where
  "op_pop t = [StartPop t, FlStep t False, FlStep t False]"

definition op_push :: "nat \<Rightarrow> SlotId \<Rightarrow> 32 word \<Rightarrow> fl_event list" where
  "op_push t x g = [StartPush t x g, FlStep t False, FlStep t False]"

text \<open>
  Three slots are reclaimed with generation 1. Thread 1 pops slot 1, which leaves a head with
  generation 0, since a pop stores only the next slot. Thread 2 starts a pop and reads
  that head and its successor, slot 3. Thread 1 pops slots 2 and 3, reclaims 2 and 1 with
  their bumped generation 2, and pops 1 again: the head is once more slot 2 with generation 0.
\<close>

definition aba_trace :: "fl_event list" where
  "aba_trace =
     op_push 0 3 1 @ op_push 0 2 1 @ op_push 0 1 1
     @ op_pop 1 @ [StartPop 2, FlStep 2 False]
     @ op_pop 1 @ op_pop 1 @ op_push 1 2 2 @ op_push 1 1 2 @ op_pop 1
     @ [FlStep 2 False] @ op_pop 2"

definition pushes_of :: "SlotId \<Rightarrow> fl_event list \<Rightarrow> nat" where
  "pushes_of x evs = length (filter (\<lambda>e. case e of StartPush t y g \<Rightarrow> y = x | _ \<Rightarrow> False) evs)"


end
