(* ===== verification/Prototype_Store.thy ===== *)
theory Prototype_Store
  imports Freelist
begin

text \<open>
  Reference-counted prototype slots (\<^verbatim>\<open>PrototypeStore.hpp\<close>). Slot \<open>id\<close> lives in chunk
  \<open>id div 256\<close> at offset \<open>id mod 256\<close>; the model keeps which chunks are allocated and the
  chunk arrays flattened by slot id (a fresh chunk is zero-initialised, as are the arrays).
  \<open>ps_deleted\<close> counts the executions of \<open>delete this\<close>. An operation returns \<open>None\<close> where the
  code has a failing assertion or would read through a null chunk. Each operation runs
  alone here; the interleavings of the freelist are the subject of the theory it imports.
\<close>

record slot_meta =
  sm_memory :: "ptr option"
  sm_descId :: DescriptorId

record proto_store =
  ps_alive :: bool
  ps_liveSlotCount :: "32 word"
  ps_chunks :: "nat \<Rightarrow> bool"
  ps_metas :: "SlotId \<Rightarrow> slot_meta"
  ps_refcounts :: "SlotId \<Rightarrow> 32 word"
  ps_generation :: "SlotId \<Rightarrow> 32 word"
  ps_freelist :: freelist
  ps_slotCount :: nat
  ps_deleteClaimed :: bool
  ps_deleted :: nat

definition kChunkSize :: nat where "kChunkSize = 256"
definition kMaxChunks :: nat where "kMaxChunks = 256"

definition ps_init :: proto_store where
  "ps_init = \<lparr>ps_alive = True, ps_liveSlotCount = 0, ps_chunks = (\<lambda>_. False),
     ps_metas = (\<lambda>_. \<lparr>sm_memory = None, sm_descId = 0\<rparr>), ps_refcounts = (\<lambda>_. 0),
     ps_generation = (\<lambda>_. 0), ps_freelist = fl_init, ps_slotCount = 0,
     ps_deleteClaimed = False, ps_deleted = 0\<rparr>"

definition ps_has :: "proto_store \<Rightarrow> SlotId \<Rightarrow> bool" where
  "ps_has s i = ps_chunks s (i div kChunkSize)"

text \<open>\<open>maxSlots\<close> is \<^verbatim>\<open>CTORIUM_PROTOTYPE_MAX_SLOTS\<close>, when it is defined.\<close>

definition ps_allocate :: "nat option \<Rightarrow> proto_store \<Rightarrow> DescriptorId \<Rightarrow> ptr
    \<Rightarrow> (ctr_error + (SlotId \<times> proto_store)) option" where
  "ps_allocate maxSlots s descId mem =
     (let (freeSlot, fl) = popTreiberFreelist (ps_freelist s)
      in if freeSlot \<noteq> kInvalidSlotId then
           (if \<not> ps_has s freeSlot then None
            else Some (Inr (freeSlot,
                   s\<lparr>ps_freelist := fl,
                     ps_metas := (ps_metas s)(freeSlot := \<lparr>sm_memory = Some mem, sm_descId = descId\<rparr>)\<rparr>)))
         else if (case maxSlots of None \<Rightarrow> False | Some m \<Rightarrow> m \<le> ps_slotCount s)
         then Some (Inl (ResolutionError SlotLimit))
         else
           (let i = ps_slotCount s; chunkIdx = i div kChunkSize
            in if kMaxChunks \<le> chunkIdx then None
               else Some (Inr (u32 i,
                      s\<lparr>ps_slotCount := i + 1,
                        ps_chunks := (ps_chunks s)(chunkIdx := True),
                        ps_metas := (ps_metas s)(i := \<lparr>sm_memory = Some mem, sm_descId = descId\<rparr>)\<rparr>))))"

definition ps_activate :: "proto_store \<Rightarrow> SlotId \<Rightarrow> proto_store option" where
  "ps_activate s i =
     (if \<not> ps_has s i then None
      else Some (s\<lparr>ps_refcounts := (ps_refcounts s)(i := 1),
                   ps_liveSlotCount := ps_liveSlotCount s + 1\<rparr>))"

definition ps_reclaim :: "proto_store \<Rightarrow> SlotId \<Rightarrow> proto_store option" where
  "ps_reclaim s i =
     (if \<not> ps_has s i then None
      else Some (s\<lparr>ps_metas := (ps_metas s)(i := (ps_metas s i)\<lparr>sm_memory := None\<rparr>),
                   ps_freelist := pushTreiberFreelist (ps_freelist s) i (ps_generation s i)\<rparr>))"

definition ps_retain :: "proto_store \<Rightarrow> SlotId \<Rightarrow> proto_store option" where
  "ps_retain s i =
     (if ps_slotCount s \<le> i \<or> \<not> ps_has s i \<or> sm_memory (ps_metas s i) = None then None
      else Some (s\<lparr>ps_refcounts := (ps_refcounts s)(i := ps_refcounts s i + 1)\<rparr>))"

definition ps_pointerAt :: "proto_store \<Rightarrow> SlotId \<Rightarrow> ptr option" where
  "ps_pointerAt s i =
     (if ps_slotCount s \<le> i \<or> \<not> ps_has s i then None else sm_memory (ps_metas s i))"

definition ps_slotMetaAt :: "proto_store \<Rightarrow> SlotId \<Rightarrow> slot_meta option" where
  "ps_slotMetaAt s i = (if ps_slotCount s \<le> i \<or> \<not> ps_has s i then None else Some (ps_metas s i))"

definition ps_releaseAcquire :: "proto_store \<Rightarrow> SlotId \<Rightarrow> (bool \<times> proto_store) option" where
  "ps_releaseAcquire s i =
     (if ps_slotCount s \<le> i \<or> \<not> ps_has s i then None
      else (let prev = ps_refcounts s i
            in Some (prev = 1, s\<lparr>ps_refcounts := (ps_refcounts s)(i := prev - 1)\<rparr>)))"

definition ps_descriptorIdAt :: "proto_store \<Rightarrow> SlotId \<Rightarrow> DescriptorId option" where
  "ps_descriptorIdAt s i =
     (if ps_slotCount s \<le> i \<or> \<not> ps_has s i then None else Some (sm_descId (ps_metas s i)))"

definition ps_memoryAt :: "proto_store \<Rightarrow> SlotId \<Rightarrow> ptr option" where
  "ps_memoryAt s i =
     (if ps_slotCount s \<le> i then None else if \<not> ps_has s i then None else sm_memory (ps_metas s i))"

definition ps_tryDeleteIfUnused :: "proto_store \<Rightarrow> proto_store" where
  "ps_tryDeleteIfUnused s =
     (if ps_liveSlotCount s \<noteq> 0 then s
      else if ps_alive s then s
      else if \<not> ps_deleteClaimed s
      then s\<lparr>ps_deleteClaimed := True, ps_deleted := ps_deleted s + 1\<rparr>
      else s\<lparr>ps_deleteClaimed := True\<rparr>)"

definition ps_releaseLiveSlot :: "proto_store \<Rightarrow> proto_store option" where
  "ps_releaseLiveSlot s =
     (let previous = ps_liveSlotCount s; s1 = s\<lparr>ps_liveSlotCount := previous - 1\<rparr>
      in if previous = 0 then None
         else if previous = 1 then Some (ps_tryDeleteIfUnused s1) else Some s1)"

definition ps_reclaimSlot :: "proto_store \<Rightarrow> SlotId \<Rightarrow> proto_store option" where
  "ps_reclaimSlot s i =
     (if \<not> ps_has s i then None
      else (let generation = ps_generation s i + 1
            in ps_releaseLiveSlot
                 (s\<lparr>ps_metas := (ps_metas s)(i := (ps_metas s i)\<lparr>sm_memory := None\<rparr>),
                    ps_generation := (ps_generation s)(i := generation),
                    ps_freelist := pushTreiberFreelist (ps_freelist s) i generation\<rparr>)))"

definition ps_takeSlotMetaForDestruction :: "proto_store \<Rightarrow> SlotId \<Rightarrow> (ptr option \<times> DescriptorId) \<times> proto_store" where
  "ps_takeSlotMetaForDestruction s i =
     (if ps_slotCount s \<le> i then ((None, 0), s)
      else if \<not> ps_has s i then ((None, 0), s)
      else ((sm_memory (ps_metas s i), sm_descId (ps_metas s i)),
            s\<lparr>ps_metas := (ps_metas s)(i := (ps_metas s i)\<lparr>sm_memory := None\<rparr>)\<rparr>))"

definition ps_markRegistryDeadAndReleaseHold :: "proto_store \<Rightarrow> proto_store" where
  "ps_markRegistryDeadAndReleaseHold s = ps_tryDeleteIfUnused (s\<lparr>ps_alive := False\<rparr>)"

subsection \<open>The client protocol\<close>

text \<open>
  What the owners of the slots know: a slot is pending between \<open>allocate\<close> and \<open>activate\<close>,
  live with a number of handles, or dying after its last handle was released; with the
  descriptor and, until destruction takes it, the memory.
\<close>

datatype slot_state = SPending | SLive nat | SDying

type_synonym slot_ghost = "SlotId \<rightharpoonup> slot_state \<times> DescriptorId \<times> ptr option"

fun slot_refs :: "slot_state \<Rightarrow> nat" where
  "slot_refs SPending = 0"
| "slot_refs (SLive n) = n"
| "slot_refs SDying = 0"

definition counted :: "slot_ghost \<Rightarrow> SlotId set" where
  "counted g = {x. \<exists>st d m. g x = Some (st, d, m) \<and> st \<noteq> SPending}"

inductive ps_client :: "nat option \<Rightarrow> proto_store \<Rightarrow> slot_ghost \<Rightarrow> bool" for lim where
  cl_init: "ps_client lim ps_init Map.empty"
| cl_allocate: "ps_client lim s g \<Longrightarrow> ps_alive s \<Longrightarrow> ps_allocate lim s d m = Some (Inr (x, s')) \<Longrightarrow>
     ps_client lim s' (g(x \<mapsto> (SPending, d, Some m)))"
| cl_activate: "ps_client lim s g \<Longrightarrow> ps_alive s \<Longrightarrow> g x = Some (SPending, d, m) \<Longrightarrow> ps_activate s x = Some s' \<Longrightarrow>
     ps_client lim s' (g(x \<mapsto> (SLive 1, d, m)))"
| cl_reclaim: "ps_client lim s g \<Longrightarrow> ps_alive s \<Longrightarrow> g x = Some (SPending, d, m) \<Longrightarrow> ps_reclaim s x = Some s' \<Longrightarrow>
     ps_client lim s' (g(x := None))"
| cl_retain: "ps_client lim s g \<Longrightarrow> g x = Some (SLive n, d, m) \<Longrightarrow> n + 1 < 4294967296 \<Longrightarrow> ps_retain s x = Some s' \<Longrightarrow>
     ps_client lim s' (g(x \<mapsto> (SLive (n + 1), d, m)))"
| cl_release: "ps_client lim s g \<Longrightarrow> g x = Some (SLive n, d, m) \<Longrightarrow> ps_releaseAcquire s x = Some (isLast, s') \<Longrightarrow>
     ps_client lim s' (g(x \<mapsto> ((if n = 1 then SDying else SLive (n - 1)), d, m)))"
| cl_take: "ps_client lim s g \<Longrightarrow> g x = Some (st, d, m) \<Longrightarrow> st \<noteq> SPending \<Longrightarrow>
     ps_client lim (snd (ps_takeSlotMetaForDestruction s x)) (g(x \<mapsto> (st, d, None)))"
| cl_reclaimSlot: "ps_client lim s g \<Longrightarrow> ps_deleted s = 0 \<Longrightarrow> g x = Some (SDying, d, m) \<Longrightarrow> ps_reclaimSlot s x = Some s' \<Longrightarrow>
     ps_client lim s' (g(x := None))"
| cl_dead: "ps_client lim s g \<Longrightarrow> ps_alive s \<Longrightarrow> (\<forall>x d m. g x \<noteq> Some (SPending, d, m)) \<Longrightarrow>
     ps_client lim (ps_markRegistryDeadAndReleaseHold s) g"

subsection \<open>The store keeps what the owners know\<close>

definition ps_rel :: "proto_store \<Rightarrow> slot_ghost \<Rightarrow> bool" where
  "ps_rel s g \<longleftrightarrow>
     (\<exists>fl. fl_holds (ps_freelist s) fl \<and> set fl = {x. x < ps_slotCount s \<and> g x = None})
     \<and> ps_slotCount s \<le> 65536
     \<and> (\<forall>x < ps_slotCount s. ps_has s x)
     \<and> (\<forall>x st d m. g x = Some (st, d, m) \<longrightarrow>
          x < ps_slotCount s \<and> ps_metas s x = \<lparr>sm_memory = m, sm_descId = d\<rparr>
          \<and> unat (ps_refcounts s x) = slot_refs st \<and> (\<forall>n. st = SLive n \<longrightarrow> 0 < n))
     \<and> (\<forall>x. g x = None \<longrightarrow> ps_refcounts s x = 0)
     \<and> unat (ps_liveSlotCount s) = card (counted g)
     \<and> (ps_deleteClaimed s \<longleftrightarrow> ps_deleted s = 1) \<and> ps_deleted s \<le> 1
     \<and> (ps_deleted s = 1 \<longleftrightarrow> \<not> ps_alive s \<and> counted g = {})"

lemma ps_relD:
  assumes "ps_rel s g"
  shows "ps_slotCount s \<le> 65536" "x < ps_slotCount s \<Longrightarrow> ps_has s x"
    "g x = Some (st, d, m) \<Longrightarrow> x < ps_slotCount s"
    "g x = Some (st, d, m) \<Longrightarrow> ps_metas s x = \<lparr>sm_memory = m, sm_descId = d\<rparr>"
    "g x = Some (st, d, m) \<Longrightarrow> unat (ps_refcounts s x) = slot_refs st"
    "g x = Some (SLive n, d, m) \<Longrightarrow> 0 < n"
    "g x = None \<Longrightarrow> ps_refcounts s x = 0"
    "unat (ps_liveSlotCount s) = card (counted g)"
  using assms by (auto simp: ps_rel_def)

lemma counted_bound: "ps_rel s g \<Longrightarrow> counted g \<subseteq> {..< ps_slotCount s}"
  by (auto simp: counted_def ps_rel_def)

lemma counted_finite: "ps_rel s g \<Longrightarrow> finite (counted g)"
  using counted_bound finite_subset by blast

lemma counted_card: "ps_rel s g \<Longrightarrow> card (counted g) \<le> 65536"
proof -
  assume r: "ps_rel s g"
  have "card (counted g) \<le> card {..< ps_slotCount s}"
    using counted_bound [OF r] by (intro card_mono) auto
  then show ?thesis using ps_relD(1) [OF r] by simp
qed

lemma counted_upd:
  "counted (g(x \<mapsto> (st, d, m))) = (if st = SPending then counted g - {x} else insert x (counted g))"
  "counted (g(x := None)) = counted g - {x}"
  by (auto simp: counted_def)

lemma unat_word_add_1: "unat (w :: 32 word) + 1 < 4294967296 \<Longrightarrow> unat (w + 1) = unat w + 1"
  by (simp add: unat_word_ariths)

lemma unat_word_sub_1: "0 < unat (w :: 32 word) \<Longrightarrow> unat (w - 1) = unat w - 1"
  by (metis One_nat_def unat_1 unat_eq_zero unat_minus_one gr_implies_not0)

lemma ps_allocate_cases:
  assumes r: "ps_rel s g"
  shows "(\<exists>x s'. ps_allocate lim s d m = Some (Inr (x, s')) \<and> g x = None \<and> x < 65536
            \<and> ps_rel s' (g(x \<mapsto> (SPending, d, Some m))))
       \<or> (ps_allocate lim s d m = Some (Inl (ResolutionError SlotLimit)) \<and> (\<exists>k. lim = Some k \<and> k \<le> ps_slotCount s))
       \<or> (ps_allocate lim s d m = None \<and> ps_slotCount s = 65536)"
proof -
  obtain fl where fl: "fl_holds (ps_freelist s) fl" "set fl = {x. x < ps_slotCount s \<and> g x = None}"
    using r by (auto simp: ps_rel_def)
  show ?thesis
  proof (cases fl)
    case (Cons x xs)
    have pop: "fst (popTreiberFreelist (ps_freelist s)) = x" "fl_holds (snd (popTreiberFreelist (ps_freelist s))) xs"
      using tfl.pop_Cons fl(1) Cons by auto
    have xs: "x \<notin> set xs" "x < kInvalidSlotId" using tfl.holds_distinct [OF fl(1)] Cons by auto
    have x: "x < ps_slotCount s" "g x = None" using fl(2) Cons by auto
    let ?s = "s\<lparr>ps_freelist := snd (popTreiberFreelist (ps_freelist s)),
        ps_metas := (ps_metas s)(x := \<lparr>sm_memory = Some m, sm_descId = d\<rparr>)\<rparr>"
    have "ps_allocate lim s d m = Some (Inr (x, ?s))"
      using pop xs x ps_relD(2) [OF r] by (simp add: ps_allocate_def case_prod_beta Let_def)
    moreover have "ps_rel ?s (g(x \<mapsto> (SPending, d, Some m)))"
      unfolding ps_rel_def counted_upd
    proof (intro conjI)
      show "\<exists>fl. fl_holds (ps_freelist ?s) fl \<and> set fl = {y. y < ps_slotCount ?s \<and> (g(x \<mapsto> (SPending, d, Some m))) y = None}"
        using pop(2) xs fl(2) Cons by (intro exI [of _ xs]) auto
    qed (use r x in \<open>auto simp: ps_rel_def ps_has_def counted_def\<close>)
    ultimately show ?thesis using x ps_relD(1) [OF r] by auto
  next
    case Nil
    then have pop: "popTreiberFreelist (ps_freelist s) = (kInvalidSlotId, ps_freelist s)"
      using tfl.pop_empty fl(1) by auto
    have full: "g x \<noteq> None" if "x < ps_slotCount s" for x using fl(2) Nil that by auto
    consider (lim) k where "lim = Some k" "k \<le> ps_slotCount s"
      | (max) "ps_slotCount s = 65536" "\<forall>k. lim = Some k \<longrightarrow> \<not> k \<le> ps_slotCount s"
      | (grow) "ps_slotCount s < 65536" "\<forall>k. lim = Some k \<longrightarrow> \<not> k \<le> ps_slotCount s"
      using ps_relD(1) [OF r] by fastforce
    then show ?thesis
    proof cases
      case lim
      then show ?thesis using pop by (simp add: ps_allocate_def)
    next
      case max
      then show ?thesis using pop
        by (simp add: ps_allocate_def kChunkSize_def kMaxChunks_def Let_def split: option.splits)
    next
      case grow
      let ?i = "ps_slotCount s"
      let ?s = "s\<lparr>ps_slotCount := ?i + 1, ps_chunks := (ps_chunks s)(?i div kChunkSize := True),
          ps_metas := (ps_metas s)(?i := \<lparr>sm_memory = Some m, sm_descId = d\<rparr>)\<rparr>"
      have none: "g ?i = None"
        using ps_relD(3) [OF r, of ?i] by (cases "g ?i") auto
      have "?i div 256 < 256" using grow(1) by (simp add: less_mult_imp_div_less)
      then have "ps_allocate lim s d m = Some (Inr (?i, ?s))"
        using pop grow by (simp add: ps_allocate_def kChunkSize_def kMaxChunks_def Let_def split: option.splits)
      moreover have "ps_rel ?s (g(?i \<mapsto> (SPending, d, Some m)))"
        unfolding ps_rel_def counted_upd
      proof (intro conjI)
        show "\<exists>fl. fl_holds (ps_freelist ?s) fl \<and> set fl = {y. y < ps_slotCount ?s \<and> (g(?i \<mapsto> (SPending, d, Some m))) y = None}"
          using fl Nil full by (intro exI [of _ "[]"]) (auto simp: less_Suc_eq)
        show "\<forall>x < ps_slotCount ?s. ps_has ?s x"
          using ps_relD(2) [OF r] by (auto simp: ps_has_def less_Suc_eq)
      qed (use r grow none in \<open>auto simp: ps_rel_def less_SucI counted_def\<close>)
      ultimately show ?thesis using none grow by auto
    qed
  qed
qed

lemma ps_free_push:
  assumes r: "ps_rel s g" and x: "g x = Some (st, d, m)"
  shows "\<exists>fl. fl_holds (pushTreiberFreelist (ps_freelist s) x gen) fl
    \<and> set fl = {y. y < ps_slotCount s \<and> (g(x := None)) y = None}"
proof -
  obtain fl where fl: "fl_holds (ps_freelist s) fl" "set fl = {x. x < ps_slotCount s \<and> g x = None}"
    using r by (auto simp: ps_rel_def)
  have "x \<notin> set fl" "x < kInvalidSlotId"
    using fl(2) x ps_relD(1) [OF r] ps_relD(3) [OF r x] by (auto simp: sentinel_defs)
  then have "fl_holds (pushTreiberFreelist (ps_freelist s) x gen) (x # fl)"
    using tfl.push_holds [OF fl(1)] by blast
  then show ?thesis using fl(2) x ps_relD(3) [OF r x] by (intro exI [of _ "x # fl"]) auto
qed

lemma rel_activate:
  assumes r: "ps_rel s g" and x: "g x = Some (SPending, d, m)" and alive: "ps_alive s" and e: "ps_activate s x = Some s'"
  shows "ps_rel s' (g(x \<mapsto> (SLive 1, d, m)))"
proof -
  have new: "x \<notin> counted g" using x by (auto simp: counted_def)
  have s': "s' = s\<lparr>ps_refcounts := (ps_refcounts s)(x := 1), ps_liveSlotCount := ps_liveSlotCount s + 1\<rparr>"
    using e by (auto simp: ps_activate_def split: if_splits)
  have cnt: "unat (ps_liveSlotCount s + 1) = card (insert x (counted g))"
    using ps_relD(8) [OF r] counted_card [OF r] counted_finite [OF r] new
    by (simp add: unat_word_add_1)
  show ?thesis unfolding ps_rel_def counted_upd
  proof (intro conjI)
    show "\<exists>fl. fl_holds (ps_freelist s') fl \<and> set fl = {y. y < ps_slotCount s' \<and> (g(x \<mapsto> (SLive 1, d, m))) y = None}"
      using r x by (auto simp: ps_rel_def s')
    show "unat (ps_liveSlotCount s') = card (if SLive 1 = SPending then counted g - {x} else insert x (counted g))"
      using cnt by (simp add: s')
  qed (use r x alive in \<open>auto simp: ps_rel_def ps_has_def s'\<close>)
qed

lemma rel_reclaim:
  assumes r: "ps_rel s g" and x: "g x = Some (SPending, d, m)" and e: "ps_reclaim s x = Some s'"
  shows "ps_rel s' (g(x := None))"
proof -
  have s': "s' = s\<lparr>ps_metas := (ps_metas s)(x := (ps_metas s x)\<lparr>sm_memory := None\<rparr>),
        ps_freelist := pushTreiberFreelist (ps_freelist s) x (ps_generation s x)\<rparr>"
    using e by (auto simp: ps_reclaim_def split: if_splits)
  have "counted g - {x} = counted g" using x by (auto simp: counted_def)
  moreover have "ps_refcounts s x = 0" using ps_relD(5) [OF r x] by (simp add: unat_eq_zero)
  ultimately show ?thesis unfolding ps_rel_def counted_upd
    using r ps_free_push [OF r x] by (auto simp: ps_rel_def ps_has_def s')
qed

lemma rel_retain:
  assumes r: "ps_rel s g" and x: "g x = Some (SLive n, d, m)" and n: "n + 1 < 4294967296" and e: "ps_retain s x = Some s'"
  shows "ps_rel s' (g(x \<mapsto> (SLive (n + 1), d, m)))"
proof -
  have s': "s' = s\<lparr>ps_refcounts := (ps_refcounts s)(x := ps_refcounts s x + 1)\<rparr>"
    using e by (auto simp: ps_retain_def split: if_splits)
  have "insert x (counted g) = counted g" using x by (auto simp: counted_def)
  moreover have "unat (ps_refcounts s x + 1) = n + 1"
    using ps_relD(5) [OF r x] n by (simp add: unat_word_add_1)
  ultimately show ?thesis unfolding ps_rel_def counted_upd
    using r x by (auto simp: ps_rel_def ps_has_def s')
qed

lemma rel_release:
  assumes r: "ps_rel s g" and x: "g x = Some (SLive n, d, m)"
  shows "\<exists>s'. ps_releaseAcquire s x = Some (n = 1, s')
    \<and> ps_rel s' (g(x \<mapsto> ((if n = 1 then SDying else SLive (n - 1)), d, m)))"
proof -
  let ?s = "s\<lparr>ps_refcounts := (ps_refcounts s)(x := ps_refcounts s x - 1)\<rparr>"
  have n: "0 < n" "unat (ps_refcounts s x) = n" using ps_relD(5,6) [OF r x] by auto
  have one: "ps_refcounts s x = 1 \<longleftrightarrow> n = 1" using n(2) by (metis unat_1 unsigned_1 word_unat_eq_iff)
  have "ps_releaseAcquire s x = Some (n = 1, ?s)"
    using ps_relD(2,3) [OF r] x one by (simp add: ps_releaseAcquire_def Let_def not_le)
  moreover have "insert x (counted g) = counted g" using x by (auto simp: counted_def)
  moreover have "unat (ps_refcounts s x - 1) = n - 1" using n by (simp add: unat_word_sub_1)
  moreover have "n \<noteq> Suc 0 \<Longrightarrow> Suc 0 < n" using n(1) by simp
  ultimately show ?thesis
    using r x by (intro exI [of _ ?s]) (auto simp: ps_rel_def ps_has_def counted_upd)
qed

lemma rel_take:
  assumes r: "ps_rel s g" and x: "g x = Some (st, d, m)"
  shows "fst (ps_takeSlotMetaForDestruction s x) = (m, d)
    \<and> ps_rel (snd (ps_takeSlotMetaForDestruction s x)) (g(x \<mapsto> (st, d, None)))"
proof -
  have c: "counted (g(x \<mapsto> (st, d, None))) = counted g" using x by (auto simp: counted_def)
  have at: "\<not> ps_slotCount s \<le> x" "ps_has s x" "ps_metas s x = \<lparr>sm_memory = m, sm_descId = d\<rparr>"
    using ps_relD(2,3,4) [OF r] x by (auto simp: not_le)
  have s': "ps_takeSlotMetaForDestruction s x =
      ((m, d), s\<lparr>ps_metas := (ps_metas s)(x := \<lparr>sm_memory = None, sm_descId = d\<rparr>)\<rparr>)"
    using at by (simp add: ps_takeSlotMetaForDestruction_def)
  show ?thesis unfolding ps_rel_def c s'
    using r x by (auto simp: ps_rel_def ps_has_def)
qed

lemma rel_tryDelete:
  assumes "ps_rel s g" "ps_alive s"
  shows "ps_rel (ps_markRegistryDeadAndReleaseHold s) g"
proof -
  have "ps_liveSlotCount s = 0 \<longleftrightarrow> counted g = {}"
    using ps_relD(8) [OF assms(1)] counted_finite [OF assms(1)] by (metis card_0_eq unat_eq_zero)
  then show ?thesis
    using assms by (auto simp: ps_rel_def ps_has_def ps_markRegistryDeadAndReleaseHold_def ps_tryDeleteIfUnused_def)
qed

lemma rel_reclaimSlot:
  assumes r: "ps_rel s g" and x: "g x = Some (SDying, d, m)" and nd: "ps_deleted s = 0"
  shows "\<exists>s'. ps_reclaimSlot s x = Some s' \<and> ps_rel s' (g(x := None))"
proof -
  let ?gen = "ps_generation s x + 1"
  let ?s1 = "s\<lparr>ps_metas := (ps_metas s)(x := (ps_metas s x)\<lparr>sm_memory := None\<rparr>),
      ps_generation := (ps_generation s)(x := ?gen),
      ps_freelist := pushTreiberFreelist (ps_freelist s) x ?gen, ps_liveSlotCount := ps_liveSlotCount s - 1\<rparr>"
  have mem: "x \<in> counted g" using x by (auto simp: counted_def)
  then have pos: "0 < card (counted g)" using counted_finite [OF r] card_gt_0_iff by blast
  have live: "unat (ps_liveSlotCount s) = card (counted g)" by (rule ps_relD(8) [OF r])
  have cnt: "unat (ps_liveSlotCount s - 1) = card (counted g - {x})"
    using live pos mem counted_finite [OF r] by (simp add: unat_word_sub_1)
  have one: "ps_liveSlotCount s = 1 \<longleftrightarrow> counted g - {x} = {}"
    using cnt live pos counted_finite [OF r]
    by (metis card_0_eq finite_Diff unat_1 unsigned_1 word_unat_eq_iff diff_self right_minus_eq unat_eq_zero)
  have nz: "ps_liveSlotCount s \<noteq> 0" using live pos by auto
  have refs: "ps_refcounts s x = 0" using ps_relD(5) [OF r x] by (simp add: unat_eq_zero)
  have has: "ps_has s x" using ps_relD(2,3) [OF r] x by blast
  have e: "ps_reclaimSlot s x = Some (if ps_liveSlotCount s = 1 then ps_tryDeleteIfUnused ?s1 else ?s1)"
    using has nz by (simp add: ps_reclaimSlot_def ps_releaseLiveSlot_def Let_def)
  have "ps_rel (if ps_liveSlotCount s = 1 then ps_tryDeleteIfUnused ?s1 else ?s1) (g(x := None))"
    unfolding ps_rel_def counted_upd
    using r ps_free_push [OF r x, of ?gen] cnt one refs nd mem
    by (auto simp: ps_rel_def ps_has_def ps_tryDeleteIfUnused_def)
  with e show ?thesis by blast
qed

lemma ps_client_rel: "ps_client lim s g \<Longrightarrow> ps_rel s g"
proof (induction rule: ps_client.induct)
  case cl_init
  then show ?case using fl_init_holds by (auto simp: ps_rel_def ps_init_def counted_def)
next
  case (cl_allocate s g d m x s')
  then show ?case using ps_allocate_cases [OF cl_allocate.IH, of lim d m]
    by (auto simp del: fun_upd_apply)
next
  case (cl_activate s g x d m s')
  then show ?case by (intro rel_activate)
next
  case (cl_reclaim s g x d m s')
  then show ?case by (intro rel_reclaim)
next
  case (cl_retain s g x n d m s')
  then show ?case by (intro rel_retain)
next
  case (cl_release s g x n d m isLast s')
  then show ?case using rel_release [OF cl_release.IH cl_release.hyps(2)]
    by (metis option.inject prod.inject)
next
  case (cl_take s g x st d m)
  then show ?case using rel_take [OF cl_take.IH] by blast
next
  case (cl_reclaimSlot s g x d m s')
  then show ?case using rel_reclaimSlot [OF cl_reclaimSlot.IH cl_reclaimSlot.hyps(3,2)]
    by (metis option.inject)
next
  case (cl_dead s g)
  then show ?case using rel_tryDelete by blast
qed



text \<open>
  Reference counting: a live slot with \<open>n\<close> handles answers \<open>releaseAcquire\<close> with true
  exactly for the last handle, so the destruction of the instance is triggered once; it then
  takes the very memory and descriptor the slot was allocated with (or nothing if the
  registry's teardown took it before), and reclaiming the slot succeeds and frees it.
\<close>

theorem prototype_last_release_destroys_once:
  assumes "ps_client lim s g" "g x = Some (SLive n, d, m)" "ps_deleted s = 0"
  shows "\<exists>s1. ps_releaseAcquire s x = Some (n = 1, s1)
    \<and> (n = 1 \<longrightarrow> fst (ps_takeSlotMetaForDestruction s1 x) = (m, d)
        \<and> (\<exists>s2. ps_reclaimSlot (snd (ps_takeSlotMetaForDestruction s1 x)) x = Some s2
             \<and> ps_client lim s2 (g(x := None))))"
proof -
  have r: "ps_rel s g" by (rule ps_client_rel [OF assms(1)])
  obtain s1 where s1: "ps_releaseAcquire s x = Some (n = 1, s1)"
      "ps_rel s1 (g(x \<mapsto> ((if n = 1 then SDying else SLive (n - 1)), d, m)))"
    using rel_release [OF r assms(2)] by blast
  have c1: "ps_client lim s1 (g(x \<mapsto> ((if n = 1 then SDying else SLive (n - 1)), d, m)))"
    by (rule cl_release [OF assms(1,2) s1(1)])
  have del: "ps_deleted s1 = 0" using s1(1) assms(3) by (auto simp: ps_releaseAcquire_def Let_def split: if_splits)
  have "fst (ps_takeSlotMetaForDestruction s1 x) = (m, d)
      \<and> (\<exists>s2. ps_reclaimSlot (snd (ps_takeSlotMetaForDestruction s1 x)) x = Some s2 \<and> ps_client lim s2 (g(x := None)))"
    if n: "n = 1"
  proof -
    let ?g1 = "g(x \<mapsto> (SDying, d, m))" and ?t = "snd (ps_takeSlotMetaForDestruction s1 x)"
    have g1: "ps_client lim s1 ?g1" "?g1 x = Some (SDying, d, m)" using c1 n by auto
    have take: "fst (ps_takeSlotMetaForDestruction s1 x) = (m, d)" "ps_rel ?t (?g1(x \<mapsto> (SDying, d, None)))"
      using rel_take [OF ps_client_rel [OF g1(1)] g1(2)] by (auto simp del: fun_upd_apply)
    have t: "ps_client lim ?t (?g1(x \<mapsto> (SDying, d, None)))" by (rule cl_take [OF g1]) simp
    have del2: "ps_deleted ?t = 0" using del by (simp add: ps_takeSlotMetaForDestruction_def)
    obtain s2 where s2: "ps_reclaimSlot ?t x = Some s2"
      using rel_reclaimSlot [OF take(2) _ del2, of x] by auto
    have "ps_client lim s2 ((?g1(x \<mapsto> (SDying, d, None)))(x := None))"
      by (rule cl_reclaimSlot [OF t del2 _ s2]) simp
    with take s2 show ?thesis by auto
  qed
  with s1(1) show ?thesis by blast
qed

theorem prototype_last_release_destroys_once_witness:
  "\<exists>s g x s1. ps_client None s g \<and> g x = Some (SLive 1, 4, Some 100) \<and> ps_deleted s = 0
     \<and> ps_releaseAcquire s x = Some (True, s1) \<and> fst (ps_takeSlotMetaForDestruction s1 x) = (Some 100, 4)"
proof -
  obtain x s where a: "ps_allocate None ps_init 4 100 = Some (Inr (x, s))"
    using ps_allocate_cases [OF ps_client_rel [OF cl_init [of None]], of None 4 100] by (auto simp: ps_init_def)
  have c1: "ps_client None s [x \<mapsto> (SPending, 4, Some 100)]"
    using cl_allocate [OF cl_init _ a] by (simp add: ps_init_def)
  have s: "ps_alive s" "ps_deleted s = 0" "ps_has s x"
    using a ps_relD(2,3) [OF ps_client_rel [OF c1], of x]
    by (auto simp: ps_allocate_def ps_init_def Let_def split: prod.splits if_splits)
  obtain s' where s': "ps_activate s x = Some s'" "ps_deleted s' = 0" using s by (simp add: ps_activate_def)
  have c2: "ps_client None s' [x \<mapsto> (SLive 1, 4, Some 100)]"
    using cl_activate [OF c1 s(1) _ s'(1)] by simp
  have "\<exists>s1. ps_releaseAcquire s' x = Some (True, s1) \<and> fst (ps_takeSlotMetaForDestruction s1 x) = (Some 100, 4)"
    using prototype_last_release_destroys_once [OF c2, of x 1 4 "Some 100"] s'(2) by auto
  with c2 s'(2) show ?thesis by (metis fun_upd_same)
qed

text \<open>
  The store outlives its registry exactly as long as prototypes do: in every reachable
  state it has been deleted at most once, and it is deleted precisely when the registry is
  gone and no activated slot is left.
\<close>

theorem prototype_store_deleted_once:
  assumes "ps_client lim s g"
  shows "ps_deleted s \<le> 1 \<and> (ps_deleted s = 1 \<longleftrightarrow> \<not> ps_alive s \<and> (\<forall>x st d m. g x = Some (st, d, m) \<longrightarrow> st = SPending))
    \<and> unat (ps_liveSlotCount s) = card {x. \<exists>st d m. g x = Some (st, d, m) \<and> st \<noteq> SPending}"
proof -
  have "counted g = {} \<longleftrightarrow> (\<forall>x st d m. g x = Some (st, d, m) \<longrightarrow> st = SPending)"
    unfolding counted_def by blast
  then show ?thesis using ps_client_rel [OF assms] unfolding ps_rel_def counted_def [symmetric] by blast
qed

theorem prototype_store_deleted_once_witness:
  "ps_client None (ps_markRegistryDeadAndReleaseHold ps_init) Map.empty
   \<and> ps_deleted (ps_markRegistryDeadAndReleaseHold ps_init) = 1"
proof -
  have c: "ps_client None (ps_markRegistryDeadAndReleaseHold ps_init) Map.empty"
    by (rule cl_dead [OF cl_init]) (simp_all add: ps_init_def)
  show ?thesis using c prototype_store_deleted_once [OF c]
    by (simp add: ps_markRegistryDeadAndReleaseHold_def ps_tryDeleteIfUnused_def ps_init_def)
qed

end
