(* ===== verification/Listener_Store.thy ===== *)
theory Listener_Store
  imports Prototype_Store
begin

text \<open>
  Lifecycle listeners (\<^verbatim>\<open>ListenerStore.hpp\<close>, and the part of \<^verbatim>\<open>ContextLifecycleImpl.hpp\<close> that
  registers them). The store keeps a master list per phase, sorted by descending priority,
  and publishes an immutable view of it, split into type-agnostic and typed listeners, which
  \<open>dispatch\<close> merges. A callback is an abstract id; a dispatch yields the list of callbacks it
  invokes, cut at the first one that throws.
\<close>

subsection \<open>State\<close>

record lentry =
  le_typeId :: TypeId
  le_listenerScope :: NameId
  le_callback :: nat
  le_priority :: int
  le_token :: nat
  le_phaseIndex :: nat

record ventry =
  ve_callback :: nat
  ve_listenerScope :: NameId
  ve_priority :: int
  ve_token :: nat

record phase_view =
  pv_global :: "ventry list"
  pv_typed :: "TypeId \<rightharpoonup> ventry list"

type_synonym lview = "nat \<Rightarrow> phase_view"

record listener_store =
  ls_phases :: "nat \<Rightarrow> lentry list"
  ls_phaseSizes :: "nat \<Rightarrow> nat"
  ls_nextToken :: nat
  ls_view :: "lview option"

definition kPhaseCount :: nat where "kPhaseCount = 4"
definition phaseInitialized :: nat where "phaseInitialized = 0"
definition phaseCreated :: nat where "phaseCreated = 1"
definition phasePreDestroy :: nat where "phasePreDestroy = 2"
definition phaseDestroyed :: nat where "phaseDestroyed = 3"

definition kAllScopes :: NameId where "kAllScopes = kInvalidNameId - 2"
definition kNoScope :: NameId where "kNoScope = kInvalidNameId"

definition ls_init :: listener_store where
  "ls_init = \<lparr>ls_phases = (\<lambda>_. []), ls_phaseSizes = (\<lambda>_. 0), ls_nextToken = 0, ls_view = None\<rparr>"

subsection \<open>Operations\<close>

text \<open>
  \<open>std::upper_bound\<close> with the comparator \<open>a->priority > b->priority\<close>: bisection of the
  \<open>len\<close> elements from position \<open>first\<close>.
\<close>

function std_upper_bound :: "int \<Rightarrow> lentry list \<Rightarrow> nat \<Rightarrow> nat \<Rightarrow> nat" where
  "std_upper_bound p vec first len =
     (if len = 0 then first
      else (let half = len div 2; mid = first + half
            in if p > le_priority (vec ! mid) then std_upper_bound p vec first half
               else std_upper_bound p vec (mid + 1) (len - half - 1)))"
  by pat_completeness auto
termination
  by (relation "measure (\<lambda>(p, v, f, len). len)") auto

declare std_upper_bound.simps [simp del]

text \<open>\<open>push_back\<close>, \<open>upper_bound\<close> over the old elements, and \<open>rotate\<close> of the new one into place.\<close>

definition ls_insert :: "lentry list \<Rightarrow> lentry \<Rightarrow> lentry list" where
  "ls_insert vec e =
     (let pos = std_upper_bound (le_priority e) vec 0 (length vec)
      in take pos vec @ [e] @ drop pos vec)"

definition to_ventry :: "lentry \<Rightarrow> ventry" where
  "to_ventry e = \<lparr>ve_callback = le_callback e, ve_listenerScope = le_listenerScope e,
     ve_priority = le_priority e, ve_token = le_token e\<rparr>"

definition pv_push :: "lentry \<Rightarrow> phase_view \<Rightarrow> phase_view" where
  "pv_push e pv =
     (if le_typeId e = kInvalidTypeId then pv\<lparr>pv_global := pv_global pv @ [to_ventry e]\<rparr>
      else pv\<lparr>pv_typed := (pv_typed pv)(le_typeId e \<mapsto>
             (case pv_typed pv (le_typeId e) of None \<Rightarrow> [] | Some v \<Rightarrow> v) @ [to_ventry e])\<rparr>)"

definition build_view :: "(nat \<Rightarrow> lentry list) \<Rightarrow> lview" where
  "build_view phases p = fold pv_push (phases p) \<lparr>pv_global = [], pv_typed = Map.empty\<rparr>"

definition ls_rebuildView :: "listener_store \<Rightarrow> listener_store" where
  "ls_rebuildView s = s\<lparr>ls_view := Some (build_view (ls_phases s))\<rparr>"

definition ls_reserveToken :: "listener_store \<Rightarrow> nat \<times> listener_store" where
  "ls_reserveToken s = (ls_nextToken s, s\<lparr>ls_nextToken := ls_nextToken s + 1\<rparr>)"

definition ls_putEntry :: "listener_store \<Rightarrow> lentry \<Rightarrow> listener_store" where
  "ls_putEntry s e =
     s\<lparr>ls_phases := (ls_phases s)(le_phaseIndex e := ls_insert (ls_phases s (le_phaseIndex e)) e),
       ls_phaseSizes := (ls_phaseSizes s)(le_phaseIndex e := ls_phaseSizes s (le_phaseIndex e) + 1)\<rparr>"

text \<open>\<open>None\<close>: the assertion on the phase index fails. The result is the token of the handle.\<close>

definition ls_addListener :: "listener_store \<Rightarrow> nat \<Rightarrow> TypeId \<Rightarrow> NameId \<Rightarrow> nat \<Rightarrow> int \<Rightarrow> (nat \<times> listener_store) option" where
  "ls_addListener s phaseIndex typeId listenerScope callback priority =
     (if kPhaseCount \<le> phaseIndex then None
      else (let e = \<lparr>le_typeId = typeId, le_listenerScope = listenerScope, le_callback = callback,
                     le_priority = priority, le_token = ls_nextToken s, le_phaseIndex = phaseIndex\<rparr>
            in Some (le_token e, ls_rebuildView (ls_putEntry (s\<lparr>ls_nextToken := ls_nextToken s + 1\<rparr>) e))))"

definition ls_addListenerDeferred :: "listener_store \<Rightarrow> nat \<Rightarrow> TypeId \<Rightarrow> NameId \<Rightarrow> nat \<Rightarrow> int \<Rightarrow> nat \<Rightarrow> (nat \<times> listener_store) option" where
  "ls_addListenerDeferred s phaseIndex typeId listenerScope callback priority token =
     (if kPhaseCount \<le> phaseIndex then None
      else (let e = \<lparr>le_typeId = typeId, le_listenerScope = listenerScope, le_callback = callback,
                     le_priority = priority, le_token = token, le_phaseIndex = phaseIndex\<rparr>
            in Some (token, ls_putEntry s e)))"

definition ls_finalizeListeners :: "listener_store \<Rightarrow> listener_store" where
  "ls_finalizeListeners s = ls_rebuildView s"

definition ls_hasListeners :: "listener_store \<Rightarrow> nat \<Rightarrow> bool" where
  "ls_hasListeners s phaseIndex = (ls_phaseSizes s phaseIndex \<noteq> 0)"

definition ls_clear :: "listener_store \<Rightarrow> listener_store" where
  "ls_clear s = s\<lparr>ls_phases := (\<lambda>p. if p < kPhaseCount then [] else ls_phases s p),
     ls_phaseSizes := (\<lambda>p. if p < kPhaseCount then 0 else ls_phaseSizes s p), ls_view := None\<rparr>"

fun remove_token :: "nat \<Rightarrow> lentry list \<Rightarrow> lentry list" where
  "remove_token token [] = []"
| "remove_token token (e # es) = (if le_token e = token then es else e # remove_token token es)"

fun ls_removeFrom :: "listener_store \<Rightarrow> nat \<Rightarrow> nat list \<Rightarrow> listener_store" where
  "ls_removeFrom s token [] = s"
| "ls_removeFrom s token (p # ps) =
     (case find (\<lambda>e. le_token e = token) (ls_phases s p) of
        Some e \<Rightarrow> ls_rebuildView
          (s\<lparr>ls_phases := (ls_phases s)(p := remove_token token (ls_phases s p)),
             ls_phaseSizes := (ls_phaseSizes s)(le_phaseIndex e := ls_phaseSizes s (le_phaseIndex e) - 1)\<rparr>)
      | None \<Rightarrow> ls_removeFrom s token ps)"

definition ls_removeByToken :: "listener_store \<Rightarrow> nat \<Rightarrow> listener_store" where
  "ls_removeByToken s token = ls_removeFrom s token [0..<kPhaseCount]"

definition scope_ok :: "NameId \<Rightarrow> ventry \<Rightarrow> nat list" where
  "scope_ok emitterScope v =
     (if ve_listenerScope v = kAllScopes \<or> ve_listenerScope v = emitterScope then [ve_callback v] else [])"

text \<open>The two-way merge of \<open>dispatchFromView_\<close>: the callbacks in the order of their invocation.\<close>

fun dispatch_merge :: "NameId \<Rightarrow> ventry list \<Rightarrow> ventry list \<Rightarrow> nat list" where
  "dispatch_merge sc (g # gs) (t # ts) =
     (if ve_priority g > ve_priority t \<or> (ve_priority g = ve_priority t \<and> ve_token g < ve_token t)
      then scope_ok sc g @ dispatch_merge sc gs (t # ts)
      else scope_ok sc t @ dispatch_merge sc (g # gs) ts)"
| "dispatch_merge sc gs [] = concat (map (scope_ok sc) gs)"
| "dispatch_merge sc [] ts = concat (map (scope_ok sc) ts)"

definition dispatchFromView :: "lview \<Rightarrow> nat \<Rightarrow> TypeId \<Rightarrow> NameId \<Rightarrow> nat list" where
  "dispatchFromView view phaseIndex beanTypeId emitterScope =
     (let pv = view phaseIndex
      in dispatch_merge emitterScope (pv_global pv)
           (case pv_typed pv beanTypeId of None \<Rightarrow> [] | Some v \<Rightarrow> v))"

text \<open>Callbacks run until one throws; \<open>throws\<close> says which do.\<close>

fun invoke_all :: "(nat \<Rightarrow> nat option) \<Rightarrow> nat list \<Rightarrow> nat list \<times> nat option" where
  "invoke_all throws [] = ([], None)"
| "invoke_all throws (c # cs) =
     (case throws c of
        Some e \<Rightarrow> ([c], Some e)
      | None \<Rightarrow> (c # fst (invoke_all throws cs), snd (invoke_all throws cs)))"

definition ls_dispatch :: "(nat \<Rightarrow> nat option) \<Rightarrow> listener_store \<Rightarrow> nat \<Rightarrow> TypeId \<Rightarrow> NameId \<Rightarrow> nat list \<times> nat option" where
  "ls_dispatch throws s phaseIndex beanTypeId emitterScope =
     (if ls_phaseSizes s phaseIndex = 0 then ([], None)
      else case ls_view s of
        None \<Rightarrow> ([], None)
      | Some view \<Rightarrow> invoke_all throws (dispatchFromView view phaseIndex beanTypeId emitterScope))"

subsection \<open>The sorted master list\<close>

lemma std_upper_bound_0 [simp]: "std_upper_bound p vec first 0 = first"
  by (simp add: std_upper_bound.simps)

lemma std_upper_bound_1: "std_upper_bound p [g] 0 (Suc 0) = (if p > le_priority g then 0 else 1)"
  by (subst std_upper_bound.simps) simp

lemma std_upper_bound_range:
  "first \<le> std_upper_bound p vec first len \<and> std_upper_bound p vec first len \<le> first + len"
proof (induction p vec first len rule: std_upper_bound.induct)
  case (1 p vec first len)
  note loop = std_upper_bound.simps [of p vec first len]
  show ?case
  proof (cases "len = 0")
    case True
    then show ?thesis by (simp add: loop)
  next
    case False
    show ?thesis
    proof (cases "p > le_priority (vec ! (first + len div 2))")
      case True
      then show ?thesis using "1.IH"(1) [OF False refl refl True] div_le_dividend [of len 2]
        by (simp add: loop Let_def del: div_le_dividend)
    next
      case lo: False
      then show ?thesis using "1.IH"(2) [OF False refl refl lo] False by (simp add: loop Let_def)
    qed
  qed
qed

lemma std_upper_bound_correct:
  assumes "desc_by le_priority vec" "first + len \<le> length vec"
    "\<forall>i < first. le_priority (vec ! i) \<ge> p" "\<forall>i. first + len \<le> i \<and> i < length vec \<longrightarrow> le_priority (vec ! i) < p"
  shows "(\<forall>i < std_upper_bound p vec first len. le_priority (vec ! i) \<ge> p)
    \<and> (\<forall>i. std_upper_bound p vec first len \<le> i \<and> i < length vec \<longrightarrow> le_priority (vec ! i) < p)"
  using assms
proof (induction p vec first len rule: std_upper_bound.induct)
  case (1 p vec first len)
  note loop = std_upper_bound.simps [of p vec first len]
  have mono: "le_priority (vec ! j) \<le> le_priority (vec ! i)" if "i \<le> j" "j < length vec" for i j
    using "1.prems"(1) that sorted_wrt_nth_less [of _ vec i j] by (cases "i = j") (auto simp: desc_by_def)
  show ?case
  proof (cases "len = 0")
    case True
    then show ?thesis using "1.prems" by (simp add: loop)
  next
    case False
    let ?half = "len div 2" and ?mid = "first + len div 2"
    have mid: "?mid < length vec" using False "1.prems"(2) by linarith
    show ?thesis
    proof (cases "p > le_priority (vec ! ?mid)")
      case True
      have "le_priority (vec ! i) < p" if "first + ?half \<le> i" "i < length vec" for i
        using mono [of ?mid i] True that by simp
      then have up: "\<forall>i. first + ?half \<le> i \<and> i < length vec \<longrightarrow> le_priority (vec ! i) < p" by blast
      have step: "std_upper_bound p vec first len = std_upper_bound p vec first ?half"
        using True False by (simp add: loop Let_def)
      have "first + ?half \<le> length vec" using mid by simp
      from "1.IH"(1) [OF False refl refl True "1.prems"(1) this "1.prems"(3) up] show ?thesis
        unfolding step .
    next
      case lo: False
      have "le_priority (vec ! i) \<ge> p" if "i < ?mid + 1" for i
        using mono [of i ?mid] lo mid that by simp
      then have low: "\<forall>i < ?mid + 1. le_priority (vec ! i) \<ge> p" by blast
      have eq: "?mid + 1 + (len - ?half - 1) = first + len" using False by linarith
      have step: "std_upper_bound p vec first len = std_upper_bound p vec (?mid + 1) (len - ?half - 1)"
        using lo False by (simp add: loop Let_def)
      from "1.IH"(2) [OF False refl refl lo "1.prems"(1) _ low, unfolded eq, OF "1.prems"(2,4)]
      show ?thesis unfolding step .
    qed
  qed
qed

lemma ls_insert_sort:
  assumes "vec = std_sort_desc le_priority xs"
  shows "ls_insert vec e = std_sort_desc le_priority (xs @ [e])"
proof -
  define pos where "pos = std_upper_bound (le_priority e) vec 0 (length vec)"
  have desc: "desc_by le_priority vec" using assms std_sort_desc_desc by simp
  have pos: "pos \<le> length vec"
    using std_upper_bound_range [of 0 "le_priority e" vec "length vec"] by (simp add: pos_def)
  have hi: "\<forall>i < pos. le_priority (vec ! i) \<ge> le_priority e"
    and lo: "\<forall>i. pos \<le> i \<and> i < length vec \<longrightarrow> le_priority (vec ! i) < le_priority e"
    using std_upper_bound_correct [OF desc, of 0 "length vec" "le_priority e"] by (auto simp: pos_def)
  have hi': "\<forall>a \<in> set (take pos vec). le_priority a \<ge> le_priority e"
    using hi pos by (auto simp: in_set_conv_nth)
  have lo': "\<forall>a \<in> set (drop pos vec). le_priority a < le_priority e"
    using lo by (auto simp: in_set_conv_nth)
  let ?ys = "take pos vec @ [e] @ drop pos vec"
  have "sort_key (\<lambda>x. - le_priority x) (xs @ [e]) = ?ys"
  proof (rule properties_for_sort_key)
    have m: "mset vec = mset xs" using assms by simp
    have "mset (take pos vec) + mset (drop pos vec) = mset xs"
      using m by (metis append_take_drop_id mset_append)
    then show "mset ?ys = mset (xs @ [e])" by simp
    have "desc_by le_priority (take pos vec @ drop pos vec)" using desc by simp
    then have "desc_by le_priority ?ys"
      using hi' lo' by (auto simp: desc_by_def sorted_wrt_append simp del: append_take_drop_id)
    then show "sorted (map (\<lambda>x. - le_priority x) ?ys)"
      unfolding desc_by_def sorted_wrt_map by simp
    fix k
    have vec_stable: "filter (\<lambda>x. - le_priority k = - le_priority x) vec = filter (\<lambda>x. - le_priority k = - le_priority x) xs"
      unfolding assms std_sort_desc_def using sort_key_stable [of "\<lambda>x. - le_priority x" "- le_priority k" xs]
      by (simp add: eq_commute)
    have "filter (\<lambda>x. - le_priority k = - le_priority x) ?ys
        = filter (\<lambda>x. - le_priority k = - le_priority x) (vec @ [e])"
    proof (cases "le_priority e = le_priority k")
      case True
      then have "filter (\<lambda>x. - le_priority k = - le_priority x) (drop pos vec) = []"
        using lo' by (auto simp: filter_empty_conv)
      then show ?thesis using True
        by (subst (3) append_take_drop_id [of pos vec, symmetric]) (simp del: append_take_drop_id)
    next
      case False
      then show ?thesis
        by (subst (3) append_take_drop_id [of pos vec, symmetric]) (simp del: append_take_drop_id)
    qed
    then show "filter (\<lambda>x. - le_priority k = - le_priority x) ?ys
        = filter (\<lambda>x. - le_priority k = - le_priority x) (xs @ [e])"
      using vec_stable by simp
  qed
  then show ?thesis by (simp add: ls_insert_def pos_def [symmetric] Let_def std_sort_desc_def)
qed

lemma remove_token_filter:
  "distinct (map le_token es) \<Longrightarrow> remove_token token es = filter (\<lambda>e. le_token e \<noteq> token) es"
proof (induction es)
  case Nil
  then show ?case by simp
next
  case (Cons a es)
  then have "le_token a = token \<Longrightarrow> filter (\<lambda>e. le_token e \<noteq> token) es = es"
    by (intro filter_True) (auto simp: image_iff)
  with Cons show ?case by simp
qed

lemma remove_token_length:
  "\<exists>e \<in> set es. le_token e = token \<Longrightarrow> Suc (length (remove_token token es)) = length es"
  by (induction es) auto

lemma filter_std_sort_desc: "filter P (std_sort_desc f xs) = std_sort_desc f (filter P xs)"
  by (simp add: std_sort_desc_def filter_sort)

subsection \<open>The merge\<close>

lemma fold_pv_push:
  "pv_global (fold pv_push es pv) = pv_global pv @ map to_ventry (filter (\<lambda>e. le_typeId e = kInvalidTypeId) es)"
  "t \<noteq> kInvalidTypeId \<Longrightarrow>
   (case pv_typed (fold pv_push es pv) t of None \<Rightarrow> [] | Some v \<Rightarrow> v) =
     (case pv_typed pv t of None \<Rightarrow> [] | Some v \<Rightarrow> v) @ map to_ventry (filter (\<lambda>e. le_typeId e = t) es)"
  "pv_typed (fold pv_push es pv) kInvalidTypeId = pv_typed pv kInvalidTypeId"
  by (induction es arbitrary: pv) (auto simp: pv_push_def)

lemma to_ventry_simps [simp]:
  "ve_priority (to_ventry e) = le_priority e" "ve_token (to_ventry e) = le_token e"
  "ve_callback (to_ventry e) = le_callback e" "ve_listenerScope (to_ventry e) = le_listenerScope e"
  by (simp_all add: to_ventry_def)

text \<open>Descending priority, and increasing token among equal priorities.\<close>

definition prio_token :: "lentry list \<Rightarrow> bool" where
  "prio_token es \<longleftrightarrow> sorted_wrt (\<lambda>a b. le_priority a > le_priority b
      \<or> (le_priority a = le_priority b \<and> le_token a < le_token b)) es"

lemma merge_one_sided:
  "(\<And>t. t \<in> set ts \<Longrightarrow> ve_priority g > ve_priority t \<or> (ve_priority g = ve_priority t \<and> ve_token g < ve_token t)) \<Longrightarrow>
   dispatch_merge sc (g # gs) ts = scope_ok sc g @ dispatch_merge sc gs ts"
  "(\<And>g. g \<in> set gs \<Longrightarrow> \<not> (ve_priority g > ve_priority t \<or> (ve_priority g = ve_priority t \<and> ve_token g < ve_token t))) \<Longrightarrow>
   dispatch_merge sc gs (t # ts) = scope_ok sc t @ dispatch_merge sc gs ts"
proof -
  show "(\<And>t. t \<in> set ts \<Longrightarrow> ve_priority g > ve_priority t \<or> (ve_priority g = ve_priority t \<and> ve_token g < ve_token t)) \<Longrightarrow>
   dispatch_merge sc (g # gs) ts = scope_ok sc g @ dispatch_merge sc gs ts"
    by (cases ts; cases gs) auto
  show "(\<And>g. g \<in> set gs \<Longrightarrow> \<not> (ve_priority g > ve_priority t \<or> (ve_priority g = ve_priority t \<and> ve_token g < ve_token t))) \<Longrightarrow>
   dispatch_merge sc gs (t # ts) = scope_ok sc t @ dispatch_merge sc gs ts"
    by (cases gs; cases ts) auto
qed

lemma merge_filter:
  assumes "prio_token es" "t \<noteq> kInvalidTypeId"
  shows "dispatch_merge sc (map to_ventry (filter (\<lambda>e. le_typeId e = kInvalidTypeId) es))
      (map to_ventry (filter (\<lambda>e. le_typeId e = t) es))
    = concat (map (scope_ok sc \<circ> to_ventry) (filter (\<lambda>e. le_typeId e = kInvalidTypeId \<or> le_typeId e = t) es))"
  using assms
proof (induction es)
  case Nil
  then show ?case by simp
next
  case (Cons e es)
  have rest: "prio_token es" and first: "\<forall>b \<in> set es. le_priority e > le_priority b
      \<or> (le_priority e = le_priority b \<and> le_token e < le_token b)"
    using Cons.prems(1) by (auto simp: prio_token_def)
  note IH = Cons.IH [OF rest Cons.prems(2)]
  consider "le_typeId e = kInvalidTypeId" | "le_typeId e = t" | "le_typeId e \<noteq> kInvalidTypeId" "le_typeId e \<noteq> t" by blast
  then show ?case
  proof cases
    case 1
    have "dispatch_merge sc (to_ventry e # map to_ventry (filter (\<lambda>e. le_typeId e = kInvalidTypeId) es))
        (map to_ventry (filter (\<lambda>e. le_typeId e = t) es))
      = scope_ok sc (to_ventry e) @ dispatch_merge sc (map to_ventry (filter (\<lambda>e. le_typeId e = kInvalidTypeId) es))
        (map to_ventry (filter (\<lambda>e. le_typeId e = t) es))"
      using first by (intro merge_one_sided(1)) auto
    then show ?thesis using 1 IH Cons.prems(2) by simp
  next
    case 2
    have "\<not> (le_priority b > le_priority e \<or> (le_priority b = le_priority e \<and> le_token b < le_token e))" if "b \<in> set es" for b
      using first that by fastforce
    then have "dispatch_merge sc (map to_ventry (filter (\<lambda>e. le_typeId e = kInvalidTypeId) es))
        (to_ventry e # map to_ventry (filter (\<lambda>e. le_typeId e = t) es))
      = scope_ok sc (to_ventry e) @ dispatch_merge sc (map to_ventry (filter (\<lambda>e. le_typeId e = kInvalidTypeId) es))
        (map to_ventry (filter (\<lambda>e. le_typeId e = t) es))"
      by (intro merge_one_sided(2)) auto
    then show ?thesis using 2 IH Cons.prems(2) by simp
  next
    case 3
    then show ?thesis using IH by simp
  qed
qed

subsection \<open>Specification: the registrations in order\<close>

datatype ls_op =
    LAdd nat TypeId NameId nat int
  | LReserve
  | LFlush "lentry list"
  | LRemove nat
  | LClear

fun ls_flushOne :: "listener_store \<Rightarrow> lentry \<Rightarrow> listener_store option" where
  "ls_flushOne s e = map_option snd (ls_addListenerDeferred s (le_phaseIndex e) (le_typeId e)
     (le_listenerScope e) (le_callback e) (le_priority e) (le_token e))"

fun ls_exec :: "listener_store \<Rightarrow> ls_op \<Rightarrow> listener_store option" where
  "ls_exec s (LAdd p t sc cb pr) = map_option snd (ls_addListener s p t sc cb pr)"
| "ls_exec s LReserve = Some (snd (ls_reserveToken s))"
| "ls_exec s (LFlush es) =
     (if es = [] then Some s else map_option ls_finalizeListeners (fold_opt ls_flushOne s es))"
| "ls_exec s (LRemove tok) = Some (ls_removeByToken s tok)"
| "ls_exec s LClear = Some (ls_clear s)"

text \<open>The next token and the live registrations, oldest first.\<close>

fun ls_spec :: "nat \<times> lentry list \<Rightarrow> ls_op \<Rightarrow> nat \<times> lentry list" where
  "ls_spec (n, live) (LAdd p t sc cb pr) =
     (n + 1, live @ [\<lparr>le_typeId = t, le_listenerScope = sc, le_callback = cb, le_priority = pr,
        le_token = n, le_phaseIndex = p\<rparr>])"
| "ls_spec (n, live) LReserve = (n + 1, live)"
| "ls_spec (n, live) (LFlush es) = (n, live @ es)"
| "ls_spec (n, live) (LRemove tok) = (n, filter (\<lambda>e. le_token e \<noteq> tok) live)"
| "ls_spec (n, live) LClear = (n, [])"

definition spec_calls :: "lentry list \<Rightarrow> nat \<Rightarrow> TypeId \<Rightarrow> NameId \<Rightarrow> nat list" where
  "spec_calls live phase t sc =
     map le_callback (filter (\<lambda>e. le_phaseIndex e = phase
        \<and> (le_typeId e = kInvalidTypeId \<or> le_typeId e = t)
        \<and> (le_listenerScope e = kAllScopes \<or> le_listenerScope e = sc)) (std_sort_desc le_priority live))"

definition ls_rel :: "listener_store \<Rightarrow> nat \<times> lentry list \<Rightarrow> bool" where
  "ls_rel s nl \<longleftrightarrow>
     ls_nextToken s = fst nl
     \<and> (\<forall>p. ls_phases s p = std_sort_desc le_priority (filter (\<lambda>e. le_phaseIndex e = p) (snd nl)))
     \<and> (\<forall>p. ls_phaseSizes s p = length (ls_phases s p))
     \<and> distinct (map le_token (snd nl))
     \<and> (\<forall>e \<in> set (snd nl). le_phaseIndex e < kPhaseCount)"

definition ls_fresh :: "listener_store \<Rightarrow> bool" where
  "ls_fresh s \<longleftrightarrow> (case ls_view s of None \<Rightarrow> (\<forall>p. ls_phases s p = []) | Some v \<Rightarrow> v = build_view (ls_phases s))"

lemma putEntry_rel:
  assumes r: "ls_rel s (n, live)" and e: "le_phaseIndex e < kPhaseCount" "le_token e \<notin> le_token ` set live"
  shows "ls_rel (ls_putEntry s e) (n, live @ [e])"
  using r e by (auto simp: ls_rel_def ls_putEntry_def ls_insert_sort [OF refl])

lemma rebuild_rel [simp]: "ls_rel (ls_rebuildView s) nl = ls_rel s nl"
  by (simp add: ls_rel_def ls_rebuildView_def)

lemma rebuild_fresh [simp]: "ls_fresh (ls_rebuildView s)"
  by (simp add: ls_fresh_def ls_rebuildView_def)

lemma flush_rel:
  "ls_rel s (n, live) \<Longrightarrow> distinct (map le_token (live @ es)) \<Longrightarrow> \<forall>e \<in> set es. le_phaseIndex e < kPhaseCount \<Longrightarrow>
   \<exists>s'. fold_opt ls_flushOne s es = Some s' \<and> ls_rel s' (n, live @ es)"
proof (induction es arbitrary: s live)
  case Nil
  then show ?case by simp
next
  case (Cons e es)
  have "ls_flushOne s e = Some (ls_putEntry s e)"
    using Cons.prems by (cases e) (simp add: ls_addListenerDeferred_def Let_def not_le)
  moreover have "ls_rel (ls_putEntry s e) (n, live @ [e])"
    using Cons.prems by (intro putEntry_rel) auto
  ultimately show ?case using Cons.IH [of "ls_putEntry s e" "live @ [e]"] Cons.prems by auto
qed

lemma removeFrom_rel:
  assumes r: "ls_rel s (n, live)" and "ls_fresh s"
    and out: "\<forall>e \<in> set live. le_token e = tok \<longrightarrow> le_phaseIndex e \<in> set ps"
  shows "ls_rel (ls_removeFrom s tok ps) (n, filter (\<lambda>e. le_token e \<noteq> tok) live) \<and> ls_fresh (ls_removeFrom s tok ps)"
  using out
proof (induction ps)
  case Nil
  then have "filter (\<lambda>e. le_token e \<noteq> tok) live = live" by (auto simp: filter_id_conv)
  then show ?case using assms by simp
next
  case (Cons p ps)
  have ph: "ls_phases s p = std_sort_desc le_priority (filter (\<lambda>e. le_phaseIndex e = p) live)" for p
    using r by (simp add: ls_rel_def)
  show ?case
  proof (cases "find (\<lambda>e. le_token e = tok) (ls_phases s p)")
    case None
    then have "\<forall>e \<in> set live. le_token e = tok \<longrightarrow> le_phaseIndex e \<in> set ps"
      using Cons.prems by (auto simp: find_None_iff ph)
    then show ?thesis using Cons.IH None by simp
  next
    case (Some e)
    then have e: "e \<in> set live" "le_phaseIndex e = p" "le_token e = tok"
      using find_Some_mem [OF Some] by (auto simp: ph)
    have dist: "distinct (map le_token live)" using r by (simp add: ls_rel_def)
    have uniq: "e' = e" if "e' \<in> set live" "le_token e' = tok" for e'
      using dist e that by (simp add: distinct_map inj_on_def)
    have same: "filter (\<lambda>e. le_token e \<noteq> tok \<and> le_phaseIndex e = q) live = filter (\<lambda>e. le_phaseIndex e = q) live"
      if "q \<noteq> p" for q
      using uniq e(2) that by (intro filter_cong) auto
    have dp: "distinct (map le_token (ls_phases s p))"
    proof -
      have "distinct (map le_token (filter (\<lambda>e. le_phaseIndex e = p) live))" using dist by (rule distinct_map_filter)
      then show ?thesis unfolding ph
        by (metis mset_eq_imp_distinct_iff mset_map std_sort_desc_mset)
    qed
    have rem: "remove_token tok (ls_phases s p) = std_sort_desc le_priority (filter (\<lambda>e. le_token e \<noteq> tok \<and> le_phaseIndex e = p) live)"
      unfolding remove_token_filter [OF dp] unfolding ph filter_std_sort_desc by (simp add: conj_commute)
    have "Suc (length (remove_token tok (ls_phases s p))) = length (ls_phases s p)"
      using e by (intro remove_token_length) (auto simp: ph)
    then have len: "length (remove_token tok (ls_phases s p)) = length (ls_phases s p) - 1" by simp
    let ?s = "s\<lparr>ls_phases := (ls_phases s)(p := remove_token tok (ls_phases s p)),
             ls_phaseSizes := (ls_phaseSizes s)(p := ls_phaseSizes s p - 1)\<rparr>"
    have "ls_removeFrom s tok (p # ps) = ls_rebuildView ?s" using Some e by simp
    moreover have "ls_rel ?s (n, filter (\<lambda>e. le_token e \<noteq> tok) live)"
      using r rem len same dist by (auto simp: ls_rel_def conj_commute distinct_map_filter)
    ultimately show ?thesis by simp
  qed
qed

text \<open>
  What the callers of the store guarantee: phases are in range, and a flushed listener brings
  a token that was reserved for it and is not in use.
\<close>

fun ls_op_ok :: "nat \<times> lentry list \<Rightarrow> ls_op \<Rightarrow> bool" where
  "ls_op_ok (n, live) (LAdd p t sc cb pr) = (p < kPhaseCount)"
| "ls_op_ok (n, live) (LFlush es) =
     (distinct (map le_token (live @ es)) \<and> list_all (\<lambda>e. le_phaseIndex e < kPhaseCount \<and> le_token e < n) es)"
| "ls_op_ok (n, live) _ = True"

fun ls_ops_ok :: "nat \<times> lentry list \<Rightarrow> ls_op list \<Rightarrow> bool" where
  "ls_ops_ok nl [] = True"
| "ls_ops_ok nl (op # ops) = (ls_op_ok nl op \<and> ls_ops_ok (ls_spec nl op) ops)"

definition ls_good :: "listener_store \<Rightarrow> nat \<times> lentry list \<Rightarrow> bool" where
  "ls_good s nl \<longleftrightarrow> ls_rel s nl \<and> ls_fresh s \<and> (\<forall>e \<in> set (snd nl). le_token e < fst nl)"

lemma ls_init_good: "ls_good ls_init (0, [])"
  by (simp add: ls_good_def ls_rel_def ls_fresh_def ls_init_def)

lemma ls_exec_good:
  assumes g: "ls_good s nl" and ok: "ls_op_ok nl op"
  shows "\<exists>s'. ls_exec s op = Some s' \<and> ls_good s' (ls_spec nl op)"
proof -
  obtain n live where nl: "nl = (n, live)" by (cases nl)
  have r: "ls_rel s (n, live)" and f: "ls_fresh s" and tok: "\<forall>e \<in> set live. le_token e < n"
    using g by (auto simp: ls_good_def nl)
  show ?thesis
  proof (cases op)
    case (LAdd p t sc cb pr)
    let ?e = "\<lparr>le_typeId = t, le_listenerScope = sc, le_callback = cb, le_priority = pr,
        le_token = n, le_phaseIndex = p\<rparr>"
    have next_tok: "ls_nextToken s = n" using r by (simp add: ls_rel_def)
    have "ls_rel (s\<lparr>ls_nextToken := n + 1\<rparr>) (n + 1, live)" using r by (simp add: ls_rel_def)
    then have "ls_rel (ls_putEntry (s\<lparr>ls_nextToken := n + 1\<rparr>) ?e) (n + 1, live @ [?e])"
      using ok tok LAdd nl by (intro putEntry_rel) auto
    then show ?thesis using LAdd ok nl tok next_tok
      by (auto simp: ls_addListener_def Let_def not_le ls_good_def)
  next
    case LReserve
    then show ?thesis using r f tok nl
      by (auto simp: ls_reserveToken_def ls_good_def ls_rel_def ls_fresh_def split: option.splits)
  next
    case (LFlush es)
    then have es: "distinct (map le_token (live @ es))" "\<forall>e \<in> set es. le_phaseIndex e < kPhaseCount"
        "\<forall>e \<in> set es. le_token e < n"
      using ok nl by (auto simp: list_all_iff)
    from flush_rel [OF r es(1,2)] obtain s' where "fold_opt ls_flushOne s es = Some s'" "ls_rel s' (n, live @ es)"
      by blast
    then show ?thesis using LFlush nl g tok es(3)
      by (cases "es = []") (auto simp: ls_good_def ls_finalizeListeners_def)
  next
    case (LRemove k)
    have "\<forall>e \<in> set live. le_token e = k \<longrightarrow> le_phaseIndex e \<in> set [0..<kPhaseCount]"
      using r by (auto simp: ls_rel_def)
    from removeFrom_rel [OF r f this] show ?thesis using LRemove nl tok
      by (auto simp: ls_removeByToken_def ls_good_def)
  next
    case LClear
    have "ls_phases s p = []" if "\<not> p < kPhaseCount" for p
      using r that by (auto simp: ls_rel_def filter_empty_conv)
    then show ?thesis using r LClear nl
      by (auto simp: ls_clear_def ls_good_def ls_rel_def ls_fresh_def)
  qed
qed

lemma ls_run_good:
  "ls_good s nl \<Longrightarrow> ls_ops_ok nl ops \<Longrightarrow>
   \<exists>s'. fold_opt ls_exec s ops = Some s' \<and> ls_good s' (foldl ls_spec nl ops)"
proof (induction ops arbitrary: s nl)
  case Nil
  then show ?case by simp
next
  case (Cons op ops)
  then obtain s1 where "ls_exec s op = Some s1" "ls_good s1 (ls_spec nl op)"
    using ls_exec_good [of s nl op] by auto
  with Cons show ?case by auto
qed

lemma ls_insert_split:
  assumes "desc_by le_priority vec"
  obtains as bs where "vec = as @ bs" "ls_insert vec e = as @ [e] @ bs"
    "\<forall>a \<in> set as. le_priority a \<ge> le_priority e" "\<forall>b \<in> set bs. le_priority b < le_priority e"
proof -
  define pos where "pos = std_upper_bound (le_priority e) vec 0 (length vec)"
  have c: "\<forall>i < pos. le_priority (vec ! i) \<ge> le_priority e"
    "\<forall>i. pos \<le> i \<and> i < length vec \<longrightarrow> le_priority (vec ! i) < le_priority e"
    using std_upper_bound_correct [OF assms, of 0 "length vec" "le_priority e"] by (auto simp: pos_def)
  show thesis
  proof (rule that [of "take pos vec" "drop pos vec"])
    show "ls_insert vec e = take pos vec @ [e] @ drop pos vec"
      by (simp add: ls_insert_def pos_def [symmetric] Let_def)
    show "\<forall>a \<in> set (take pos vec). le_priority a \<ge> le_priority e"
      using c(1) by (auto simp: in_set_conv_nth)
    show "\<forall>b \<in> set (drop pos vec). le_priority b < le_priority e"
      using c(2) by (auto simp: in_set_conv_nth)
  qed simp
qed

lemma prio_token_sort:
  "sorted_wrt (<) (map le_token xs) \<Longrightarrow> prio_token (std_sort_desc le_priority xs)"
proof (induction xs rule: rev_induct)
  case Nil
  then show ?case by (simp add: prio_token_def)
next
  case (snoc e xs)
  let ?vec = "std_sort_desc le_priority xs"
  have pt: "prio_token ?vec" and new: "\<forall>a \<in> set xs. le_token a < le_token e"
    using snoc by (auto simp: sorted_wrt_append)
  obtain as bs where ab: "?vec = as @ bs" "ls_insert ?vec e = as @ [e] @ bs"
    "\<forall>a \<in> set as. le_priority a \<ge> le_priority e" "\<forall>b \<in> set bs. le_priority b < le_priority e"
    using ls_insert_split [OF std_sort_desc_desc] by metis
  have "\<forall>a \<in> set as. le_token a < le_token e" using new ab(1) by (metis Un_iff set_append std_sort_desc_set)
  then have "prio_token (as @ [e] @ bs)"
    using pt ab by (fastforce simp: prio_token_def sorted_wrt_append)
  then show ?case using ab(2) ls_insert_sort [OF refl, of xs e] by simp
qed

lemma concat_scope_ok:
  "concat (map (scope_ok sc \<circ> to_ventry) es) =
   map le_callback (filter (\<lambda>e. le_listenerScope e = kAllScopes \<or> le_listenerScope e = sc) es)"
  by (induction es) (auto simp: scope_ok_def)

lemma dispatch_view:
  assumes r: "ls_rel s (n, live)" and t: "t \<noteq> kInvalidTypeId"
    and ord: "sorted_wrt (<) (map le_token live) \<or> (\<forall>e \<in> set live. le_typeId e = kInvalidTypeId)"
  shows "dispatchFromView (build_view (ls_phases s)) phase t sc = spec_calls live phase t sc"
proof -
  let ?es = "ls_phases s phase"
  have es: "?es = std_sort_desc le_priority (filter (\<lambda>e. le_phaseIndex e = phase) live)"
    using r by (simp add: ls_rel_def)
  let ?P = "\<lambda>e. le_typeId e = kInvalidTypeId \<or> le_typeId e = t"
  have "dispatch_merge sc (map to_ventry (filter (\<lambda>e. le_typeId e = kInvalidTypeId) ?es))
      (map to_ventry (filter (\<lambda>e. le_typeId e = t) ?es)) = concat (map (scope_ok sc \<circ> to_ventry) (filter ?P ?es))"
    using ord
  proof
    assume "sorted_wrt (<) (map le_token live)"
    then have "sorted_wrt (<) (map le_token (filter (\<lambda>e. le_phaseIndex e = phase) live))"
      by (simp add: sorted_wrt_map sorted_wrt_filter)
    then show ?thesis unfolding es by (intro merge_filter prio_token_sort t)
  next
    assume all: "\<forall>e \<in> set live. le_typeId e = kInvalidTypeId"
    then have "filter (\<lambda>e. le_typeId e = t) ?es = []" "filter ?P ?es = ?es" "filter (\<lambda>e. le_typeId e = kInvalidTypeId) ?es = ?es"
      using t by (auto simp: es filter_empty_conv filter_id_conv)
    then show ?thesis by (simp add: comp_def)
  qed
  then show ?thesis
    using fold_pv_push(1) [of ?es] fold_pv_push(2) [OF t, of ?es]
    by (simp add: dispatchFromView_def build_view_def Let_def concat_scope_ok spec_calls_def es
        filter_std_sort_desc conj_ac)
qed

fun not_flush :: "ls_op \<Rightarrow> bool" where
  "not_flush (LFlush es) = False"
| "not_flush _ = True"

lemma spec_tokens_increase:
  "list_all not_flush ops \<Longrightarrow> sorted_wrt (<) (map le_token (snd nl)) \<Longrightarrow> \<forall>e \<in> set (snd nl). le_token e < fst nl \<Longrightarrow>
   sorted_wrt (<) (map le_token (snd (foldl ls_spec nl ops)))"
proof (induction ops arbitrary: nl)
  case Nil
  then show ?case by simp
next
  case (Cons op ops)
  obtain n live where nl: "nl = (n, live)" by (cases nl)
  have "sorted_wrt (<) (map le_token (snd (ls_spec nl op))) \<and> (\<forall>e \<in> set (snd (ls_spec nl op)). le_token e < fst (ls_spec nl op))"
    using Cons.prems by (cases op) (auto simp: nl sorted_wrt_append sorted_wrt_map sorted_wrt_filter less_SucI)
  then show ?case using Cons by simp
qed

fun op_global :: "ls_op \<Rightarrow> bool" where
  "op_global (LAdd p t sc cb pr) = (t = kInvalidTypeId)"
| "op_global (LFlush es) = list_all (\<lambda>e. le_typeId e = kInvalidTypeId) es"
| "op_global _ = True"

lemma spec_global:
  "list_all op_global ops \<Longrightarrow> \<forall>e \<in> set (snd nl). le_typeId e = kInvalidTypeId \<Longrightarrow>
   \<forall>e \<in> set (snd (foldl ls_spec nl ops)). le_typeId e = kInvalidTypeId"
proof (induction ops arbitrary: nl)
  case Nil
  then show ?case by simp
next
  case (Cons op ops)
  obtain n live where nl: "nl = (n, live)" by (cases nl)
  have "\<forall>e \<in> set (snd (ls_spec nl op)). le_typeId e = kInvalidTypeId"
    using Cons.prems by (cases op) (auto simp: nl list_all_iff)
  then show ?case using Cons by simp
qed



subsection \<open>Registration before \<^verbatim>\<open>start()\<close>\<close>

text \<open>
  \<^verbatim>\<open>BeanContext::on\<close>: a typed listener registered before \<open>start()\<close> reserves its token and waits
  in the context; a type-agnostic one enters the store at once. \<open>start()\<close> flushes the
  waiting ones. A handle removes by its token.
\<close>

record lctx =
  lc_store :: listener_store
  lc_deferred :: "lentry list"
  lc_started :: bool

definition lc_init :: lctx where
  "lc_init = \<lparr>lc_store = ls_init, lc_deferred = [], lc_started = False\<rparr>"

definition lc_onTyped :: "lctx \<Rightarrow> nat \<Rightarrow> NameId \<Rightarrow> nat \<Rightarrow> int \<Rightarrow> (nat \<times> lctx) option" where
  "lc_onTyped c phaseIdx listenerScope wrapper priority =
     (if \<not> lc_started c then
        (let (token, st) = ls_reserveToken (lc_store c)
         in Some (token, c\<lparr>lc_store := st,
              lc_deferred := lc_deferred c @ [\<lparr>le_typeId = kInvalidTypeId, le_listenerScope = listenerScope,
                le_callback = wrapper, le_priority = priority, le_token = token, le_phaseIndex = phaseIdx\<rparr>]\<rparr>))
      else map_option (\<lambda>(token, st). (token, c\<lparr>lc_store := st\<rparr>))
             (ls_addListener (lc_store c) phaseIdx kInvalidTypeId listenerScope wrapper priority))"

definition lc_onGlobal :: "lctx \<Rightarrow> nat \<Rightarrow> NameId \<Rightarrow> nat \<Rightarrow> int \<Rightarrow> (nat \<times> lctx) option" where
  "lc_onGlobal c phaseIdx listenerScope wrapper priority =
     map_option (\<lambda>(token, st). (token, c\<lparr>lc_store := st\<rparr>))
       (ls_addListener (lc_store c) phaseIdx kInvalidTypeId listenerScope wrapper priority)"

definition lc_flushDeferredListeners :: "lctx \<Rightarrow> lctx option" where
  "lc_flushDeferredListeners c =
     (if lc_deferred c = [] then Some c
      else map_option (\<lambda>st. c\<lparr>lc_store := ls_finalizeListeners st, lc_deferred := []\<rparr>)
             (fold_opt ls_flushOne (lc_store c) (lc_deferred c)))"

definition lc_start :: "lctx \<Rightarrow> lctx option" where
  "lc_start c = lc_flushDeferredListeners (c\<lparr>lc_started := True\<rparr>)"

text \<open>\<open>ListenerHandle\<close>: the token while the handle is attached to its store.\<close>

definition lh_remove :: "nat option \<Rightarrow> lctx \<Rightarrow> nat option \<times> lctx" where
  "lh_remove h c =
     (case h of None \<Rightarrow> (None, c)
      | Some token \<Rightarrow> (None, c\<lparr>lc_store := ls_removeByToken (lc_store c) token\<rparr>))"

definition lc_thenGlobal :: "lctx \<Rightarrow> lctx option" where
  "lc_thenGlobal c = map_option snd (lc_onGlobal c phaseCreated kAllScopes 81 0)"


end
