(* ===== verification/Thread_Local_Store.thy ===== *)
theory Thread_Local_Store
  imports Ctr_Prelude
begin

text \<open>
  Thread-local beans: the per-thread store \<^verbatim>\<open>TLData\<close> with its one-entry registry cache
  (\<^verbatim>\<open>ThreadLocalStore.hpp\<close>), and the bookkeeping that lets \<^verbatim>\<open>Registry::stop\<close> and thread exit
  reach the instances (\<^verbatim>\<open>TLCleanup\<close>, \<^verbatim>\<open>tlThreadStores_\<close>). The cached pointer to a node of the
  registry map is modelled by the key of that node; dereferencing it after the node is gone
  is the error \<open>None\<close>. The specification is one association list per registry, in the order
  of first stores.
\<close>

subsection \<open>State and operations\<close>

record tl_entries =
  te_instances :: "ptr option list"
  te_order :: "DescriptorId list"

record tl_data =
  tl_registries :: "nat \<rightharpoonup> tl_entries"
  tl_cachedRegistryId :: nat
  tl_cachedRegistryEntries :: "nat option"

definition tl_init :: tl_data where
  "tl_init = \<lparr>tl_registries = Map.empty, tl_cachedRegistryId = 0, tl_cachedRegistryEntries = None\<rparr>"

definition te_empty :: tl_entries where
  "te_empty = \<lparr>te_instances = [], te_order = []\<rparr>"

definition te_at :: "tl_entries \<Rightarrow> DescriptorId \<Rightarrow> ptr option" where
  "te_at e descId = (if descId < length (te_instances e) then te_instances e ! descId else None)"

definition tl_findInstance :: "tl_data \<Rightarrow> nat \<Rightarrow> DescriptorId \<Rightarrow> (ptr option \<times> tl_data) option" where
  "tl_findInstance s registryId descId =
     (case (if tl_cachedRegistryId s = registryId then tl_cachedRegistryEntries s else None) of
        Some node \<Rightarrow>
          (case tl_registries s node of
             None \<Rightarrow> None
           | Some e \<Rightarrow> Some (te_at e descId, s))
      | None \<Rightarrow>
          (case tl_registries s registryId of
             None \<Rightarrow> Some (None, s)
           | Some e \<Rightarrow> Some (te_at e descId,
               s\<lparr>tl_cachedRegistryId := registryId, tl_cachedRegistryEntries := Some registryId\<rparr>)))"

definition tl_storeInstance :: "tl_data \<Rightarrow> nat \<Rightarrow> DescriptorId \<Rightarrow> ptr \<Rightarrow> bool \<times> tl_data" where
  "tl_storeInstance s registryId descId p =
     (let entry = (case tl_registries s registryId of None \<Rightarrow> te_empty | Some e \<Rightarrow> e);
          inst = grow_to (descId + 1) None (te_instances entry);
          firstStore = (inst ! descId = None);
          ord = (if firstStore then te_order entry @ [descId] else te_order entry)
      in (firstStore,
          s\<lparr>tl_registries := (tl_registries s)(registryId \<mapsto>
                \<lparr>te_instances = inst[descId := Some p], te_order = ord\<rparr>),
            tl_cachedRegistryId := registryId, tl_cachedRegistryEntries := Some registryId\<rparr>))"

text \<open>\<open>find\<close> followed by \<open>erase\<close> of the iterator it returns.\<close>

definition tl_erase :: "tl_data \<Rightarrow> nat \<Rightarrow> DescriptorId \<Rightarrow> tl_data" where
  "tl_erase s registryId descId =
     (case tl_registries s registryId of
        None \<Rightarrow> s
      | Some e \<Rightarrow>
          s\<lparr>tl_registries := (tl_registries s)(registryId \<mapsto>
                \<lparr>te_instances = (te_instances e)[descId := None],
                 te_order = filter (\<lambda>d. d \<noteq> descId) (te_order e)\<rparr>),
            tl_cachedRegistryId := registryId, tl_cachedRegistryEntries := Some registryId\<rparr>)"

definition tl_findErase :: "tl_data \<Rightarrow> nat \<Rightarrow> DescriptorId \<Rightarrow> tl_data option" where
  "tl_findErase s registryId descId =
     (case tl_findInstance s registryId descId of
        None \<Rightarrow> None
      | Some (None, s') \<Rightarrow> Some s'
      | Some (Some p, s') \<Rightarrow> Some (tl_erase s' registryId descId))"

definition tl_eraseRegistry :: "tl_data \<Rightarrow> nat \<Rightarrow> tl_data" where
  "tl_eraseRegistry s registryId =
     (let s1 = (if tl_cachedRegistryId s = registryId
                then s\<lparr>tl_cachedRegistryId := 0, tl_cachedRegistryEntries := None\<rparr> else s)
      in s1\<lparr>tl_registries := (tl_registries s1)(registryId := None)\<rparr>)"

definition tl_hasEntriesFor :: "tl_data \<Rightarrow> nat \<Rightarrow> bool" where
  "tl_hasEntriesFor s registryId =
     (case tl_registries s registryId of None \<Rightarrow> False | Some e \<Rightarrow> te_order e \<noteq> [])"

definition te_collect :: "tl_entries \<Rightarrow> (DescriptorId \<times> ptr) list" where
  "te_collect e =
     concat (map (\<lambda>d. case te_at e d of None \<Rightarrow> [] | Some p \<Rightarrow> [(d, p)]) (te_order e))"

definition tl_collectFor :: "tl_data \<Rightarrow> nat \<Rightarrow> (DescriptorId \<times> ptr) list \<times> tl_data" where
  "tl_collectFor s registryId =
     (case tl_registries s registryId of
        None \<Rightarrow> ([], s)
      | Some e \<Rightarrow> (te_collect e, tl_eraseRegistry s registryId))"

subsection \<open>Specification: an association list per registry\<close>

type_synonym tl_spec = "nat \<Rightarrow> (DescriptorId \<times> ptr) list"

datatype tl_op = TlFind nat DescriptorId | TlStore nat DescriptorId ptr | TlErase nat DescriptorId
  | TlHas nat | TlCollect nat

datatype tl_out = OPtr "ptr option" | OBool bool | OList "(DescriptorId \<times> ptr) list" | OUnit

fun tl_exec :: "tl_op \<Rightarrow> tl_data \<Rightarrow> (tl_out \<times> tl_data) option" where
  "tl_exec (TlFind r d) s = map_option (\<lambda>(p, s'). (OPtr p, s')) (tl_findInstance s r d)"
| "tl_exec (TlStore r d p) s = (let (b, s') = tl_storeInstance s r d p in Some (OBool b, s'))"
| "tl_exec (TlErase r d) s = map_option (\<lambda>s'. (OUnit, s')) (tl_findErase s r d)"
| "tl_exec (TlHas r) s = Some (OBool (tl_hasEntriesFor s r), s)"
| "tl_exec (TlCollect r) s = (let (xs, s') = tl_collectFor s r in Some (OList xs, s'))"

fun tl_run :: "tl_op list \<Rightarrow> tl_data \<Rightarrow> (tl_out list \<times> tl_data) option" where
  "tl_run [] s = Some ([], s)"
| "tl_run (op # ops) s =
     (case tl_exec op s of
        None \<Rightarrow> None
      | Some (out, s') \<Rightarrow> map_option (\<lambda>(outs, t). (out # outs, t)) (tl_run ops s'))"

fun al_put :: "DescriptorId \<Rightarrow> ptr \<Rightarrow> (DescriptorId \<times> ptr) list \<Rightarrow> (DescriptorId \<times> ptr) list" where
  "al_put d p [] = [(d, p)]"
| "al_put d p ((d', p') # xs) = (if d' = d then (d, p) # xs else (d', p') # al_put d p xs)"

fun tl_spec_exec :: "tl_op \<Rightarrow> tl_spec \<Rightarrow> tl_out \<times> tl_spec" where
  "tl_spec_exec (TlFind r d) a = (OPtr (map_of (a r) d), a)"
| "tl_spec_exec (TlStore r d p) a = (OBool (map_of (a r) d = None), a(r := al_put d p (a r)))"
| "tl_spec_exec (TlErase r d) a = (OUnit, a(r := filter (\<lambda>(d', p). d' \<noteq> d) (a r)))"
| "tl_spec_exec (TlHas r) a = (OBool (a r \<noteq> []), a)"
| "tl_spec_exec (TlCollect r) a = (OList (a r), a(r := []))"

fun tl_spec_run :: "tl_op list \<Rightarrow> tl_spec \<Rightarrow> tl_out list \<times> tl_spec" where
  "tl_spec_run [] a = ([], a)"
| "tl_spec_run (op # ops) a =
     (fst (tl_spec_exec op a) # fst (tl_spec_run ops (snd (tl_spec_exec op a))),
      snd (tl_spec_run ops (snd (tl_spec_exec op a))))"

subsection \<open>Refinement\<close>

definition te_inv :: "tl_entries \<Rightarrow> bool" where
  "te_inv e \<longleftrightarrow> distinct (te_order e) \<and> (\<forall>d. d \<in> set (te_order e) \<longleftrightarrow> te_at e d \<noteq> None)"

definition tl_inv :: "tl_data \<Rightarrow> bool" where
  "tl_inv s \<longleftrightarrow>
     (\<forall>r e. tl_registries s r = Some e \<longrightarrow> te_inv e)
     \<and> (\<forall>k. tl_cachedRegistryEntries s = Some k \<longrightarrow>
           tl_cachedRegistryId s = k \<and> tl_registries s k \<noteq> None)"

definition te_abs :: "tl_entries \<Rightarrow> (DescriptorId \<times> ptr) list" where
  "te_abs e = map (\<lambda>d. (d, the (te_at e d))) (te_order e)"

definition tl_abs :: "tl_data \<Rightarrow> tl_spec" where
  "tl_abs s r = (case tl_registries s r of None \<Rightarrow> [] | Some e \<Rightarrow> te_abs e)"

lemma te_empty_inv: "te_inv te_empty"
  by (simp add: te_inv_def te_empty_def te_at_def)

lemma map_of_te_abs: "te_inv e \<Longrightarrow> map_of (te_abs e) d = te_at e d"
  by (auto simp: te_abs_def te_inv_def map_of_map_restrict restrict_map_def)

lemma te_collect_abs: "te_inv e \<Longrightarrow> te_collect e = te_abs e"
proof -
  assume "te_inv e"
  then have "\<forall>d \<in> set (te_order e). (case te_at e d of None \<Rightarrow> [] | Some p \<Rightarrow> [(d, p)]) = [(d, the (te_at e d))]"
    by (auto simp: te_inv_def split: option.splits)
  then have eq: "map (\<lambda>d. case te_at e d of None \<Rightarrow> [] | Some p \<Rightarrow> [(d, p)]) (te_order e)
      = map (\<lambda>d. [(d, the (te_at e d))]) (te_order e)"
    by (intro map_cong) auto
  show ?thesis unfolding te_collect_def eq te_abs_def by (rule concat_map_singleton)
qed

lemma al_put_map:
  "distinct ds \<Longrightarrow> d \<in> set ds \<Longrightarrow> f d = p \<Longrightarrow> (\<forall>d' \<in> set ds. d' \<noteq> d \<longrightarrow> f d' = g d') \<Longrightarrow>
   al_put d p (map (\<lambda>d. (d, g d)) ds) = map (\<lambda>d. (d, f d)) ds"
  by (induction ds) auto

lemma al_put_fresh: "d \<notin> fst ` set xs \<Longrightarrow> al_put d p xs = xs @ [(d, p)]"
  by (induction xs) auto

lemma tl_init_inv: "tl_inv tl_init"
  by (simp add: tl_inv_def tl_init_def)

lemma tl_abs_init: "tl_abs tl_init = (\<lambda>_. [])"
  by (simp add: tl_abs_def tl_init_def fun_eq_iff)

lemma tl_findInstance_abs:
  assumes inv: "tl_inv s"
  shows "\<exists>s'. tl_findInstance s r d = Some (map_of (tl_abs s r) d, s') \<and> tl_inv s' \<and> tl_abs s' = tl_abs s
    \<and> tl_registries s' = tl_registries s"
proof (cases "tl_cachedRegistryId s = r \<and> tl_cachedRegistryEntries s \<noteq> None")
  case True
  then obtain e where "tl_cachedRegistryEntries s = Some r" "tl_registries s r = Some e"
    using inv by (fastforce simp: tl_inv_def)
  then show ?thesis using inv True
    by (auto simp: tl_findInstance_def tl_abs_def map_of_te_abs tl_inv_def)
next
  case False
  then have none: "(if tl_cachedRegistryId s = r then tl_cachedRegistryEntries s else None) = None" by auto
  show ?thesis
  proof (cases "tl_registries s r")
    case None
    with none inv show ?thesis by (simp add: tl_findInstance_def tl_abs_def)
  next
    case (Some e)
    with none inv show ?thesis
      by (auto simp: tl_findInstance_def tl_abs_def fun_eq_iff map_of_te_abs tl_inv_def)
  qed
qed

lemma te_store_inv_abs:
  fixes d p
  assumes inv: "te_inv e"
  defines "inst \<equiv> grow_to (d + 1) None (te_instances e)"
  shows "te_inv \<lparr>te_instances = inst[d := Some p], te_order = (if inst ! d = None then te_order e @ [d] else te_order e)\<rparr>
    \<and> te_abs \<lparr>te_instances = inst[d := Some p], te_order = (if inst ! d = None then te_order e @ [d] else te_order e)\<rparr>
        = al_put d p (te_abs e)
    \<and> inst ! d = te_at e d"
proof -
  let ?e' = "\<lparr>te_instances = inst[d := Some p], te_order = (if inst ! d = None then te_order e @ [d] else te_order e)\<rparr>"
  have at: "te_at ?e' d' = (if d' = d then Some p else te_at e d')" for d'
    by (auto simp: te_at_def inst_def grow_to_nth nth_list_update less_max_iff_disj)
  have old: "inst ! d = te_at e d" by (simp add: te_at_def inst_def grow_to_nth less_max_iff_disj)
  have mem: "d \<in> set (te_order e) \<longleftrightarrow> te_at e d \<noteq> None" using inv by (simp add: te_inv_def)
  have "te_inv ?e'" unfolding te_inv_def at using inv old by (auto simp: te_inv_def)
  moreover have "te_abs ?e' = al_put d p (te_abs e)"
  proof (cases "te_at e d")
    case None
    then have new: "d \<notin> set (te_order e)" using mem by simp
    then have "d \<notin> fst ` set (te_abs e)" by (auto simp: te_abs_def)
    then have "al_put d p (te_abs e) = te_abs e @ [(d, p)]" by (rule al_put_fresh)
    moreover have "map (\<lambda>d'. (d', the (te_at ?e' d'))) (te_order e) = te_abs e"
      using new by (auto simp: te_abs_def at)
    ultimately show ?thesis using None old at by (simp add: te_abs_def)
  next
    case (Some q)
    then have "al_put d p (te_abs e) = map (\<lambda>d'. (d', the (te_at ?e' d'))) (te_order e)"
      using inv mem unfolding te_abs_def by (intro al_put_map) (auto simp: te_inv_def at)
    then show ?thesis using Some old by (simp add: te_abs_def)
  qed
  ultimately show ?thesis using old by blast
qed

lemma tl_store_abs:
  assumes inv: "tl_inv s"
  shows "tl_inv (snd (tl_storeInstance s r d p))"
    "tl_abs (snd (tl_storeInstance s r d p)) = (tl_abs s)(r := al_put d p (tl_abs s r))"
    "fst (tl_storeInstance s r d p) = (map_of (tl_abs s r) d = None)"
proof -
  define e where "e = (case tl_registries s r of None \<Rightarrow> te_empty | Some e \<Rightarrow> e)"
  have e: "te_inv e" using inv te_empty_inv by (auto simp: e_def tl_inv_def split: option.splits)
  have abs: "tl_abs s r = te_abs e" by (simp add: tl_abs_def e_def te_abs_def te_empty_def split: option.splits)
  note st = te_store_inv_abs [OF e, of d p]
  show "tl_inv (snd (tl_storeInstance s r d p))"
    using inv st by (auto simp: tl_storeInstance_def Let_def e_def [symmetric] tl_inv_def)
  show "tl_abs (snd (tl_storeInstance s r d p)) = (tl_abs s)(r := al_put d p (tl_abs s r))"
    unfolding abs using st by (auto simp: tl_storeInstance_def Let_def e_def [symmetric] tl_abs_def fun_eq_iff)
  show "fst (tl_storeInstance s r d p) = (map_of (tl_abs s r) d = None)"
    unfolding abs using st by (simp add: tl_storeInstance_def Let_def e_def [symmetric] map_of_te_abs [OF e])
qed

lemma te_erase_inv_abs:
  assumes inv: "te_inv e"
  shows "te_inv \<lparr>te_instances = (te_instances e)[d := None], te_order = filter (\<lambda>d'. d' \<noteq> d) (te_order e)\<rparr>
    \<and> te_abs \<lparr>te_instances = (te_instances e)[d := None], te_order = filter (\<lambda>d'. d' \<noteq> d) (te_order e)\<rparr>
        = filter (\<lambda>(d', p). d' \<noteq> d) (te_abs e)"
proof -
  let ?e' = "\<lparr>te_instances = (te_instances e)[d := None], te_order = filter (\<lambda>d'. d' \<noteq> d) (te_order e)\<rparr>"
  have at: "te_at ?e' d' = (if d' = d then None else te_at e d')" for d'
    by (auto simp: te_at_def nth_list_update)
  have "te_inv ?e'" unfolding te_inv_def at using inv by (auto simp: te_inv_def)
  moreover have "te_abs ?e' = map (\<lambda>d'. (d', the (te_at e d'))) (filter (\<lambda>d'. d' \<noteq> d) (te_order e))"
    by (auto simp: te_abs_def at)
  ultimately show ?thesis by (simp add: te_abs_def filter_map comp_def)
qed

lemma tl_findErase_abs:
  assumes inv: "tl_inv s"
  shows "\<exists>s'. tl_findErase s r d = Some s' \<and> tl_inv s'
    \<and> tl_abs s' = (tl_abs s)(r := filter (\<lambda>(d', p). d' \<noteq> d) (tl_abs s r))"
proof -
  obtain s1 where s1: "tl_findInstance s r d = Some (map_of (tl_abs s r) d, s1)" "tl_inv s1" "tl_abs s1 = tl_abs s"
      "tl_registries s1 = tl_registries s"
    using tl_findInstance_abs [OF inv] by blast
  show ?thesis
  proof (cases "map_of (tl_abs s r) d")
    case None
    then have "filter (\<lambda>(d', p). d' \<noteq> d) (tl_abs s r) = tl_abs s r"
      by (force simp: map_of_eq_None_iff filter_id_conv)
    with None s1 show ?thesis by (simp add: tl_findErase_def)
  next
    case (Some q)
    then obtain e where e: "tl_registries s r = Some e"
      by (auto simp: tl_abs_def split: option.splits)
    then have "te_inv e" using inv by (simp add: tl_inv_def)
    from te_erase_inv_abs [OF this, of d] show ?thesis
      using Some s1 e by (auto simp: tl_findErase_def tl_erase_def tl_inv_def tl_abs_def fun_eq_iff)
  qed
qed

lemma tl_collect_abs:
  assumes inv: "tl_inv s"
  shows "fst (tl_collectFor s r) = tl_abs s r" "tl_inv (snd (tl_collectFor s r))"
    "tl_abs (snd (tl_collectFor s r)) = (tl_abs s)(r := [])"
  using inv
  by (auto simp: tl_collectFor_def tl_abs_def te_collect_abs tl_eraseRegistry_def Let_def tl_inv_def fun_eq_iff
      split: option.splits)

lemma tl_exec_refines:
  assumes inv: "tl_inv s"
  shows "\<exists>s'. tl_exec op s = Some (fst (tl_spec_exec op (tl_abs s)), s') \<and> tl_inv s'
    \<and> tl_abs s' = snd (tl_spec_exec op (tl_abs s))"
proof (cases op)
  case (TlFind r d)
  then show ?thesis using tl_findInstance_abs [OF inv, of r d] by auto
next
  case (TlStore r d p)
  then show ?thesis using tl_store_abs [OF inv, of r d p] by (auto simp: Let_def split: prod.splits)
next
  case (TlErase r d)
  then show ?thesis using tl_findErase_abs [OF inv, of r d] by auto
next
  case (TlHas r)
  then show ?thesis using inv
    by (auto simp: tl_hasEntriesFor_def tl_abs_def te_abs_def split: option.splits)
next
  case (TlCollect r)
  then show ?thesis using tl_collect_abs [OF inv, of r] by (auto simp: Let_def split: prod.splits)
qed

lemma tl_run_refines_from:
  "tl_inv s \<Longrightarrow> \<exists>s'. tl_run ops s = Some (fst (tl_spec_run ops (tl_abs s)), s') \<and> tl_inv s'
    \<and> tl_abs s' = snd (tl_spec_run ops (tl_abs s))"
proof (induction ops arbitrary: s)
  case Nil
  then show ?case by simp
next
  case (Cons op ops)
  obtain s1 where s1: "tl_exec op s = Some (fst (tl_spec_exec op (tl_abs s)), s1)" "tl_inv s1"
      "tl_abs s1 = snd (tl_spec_exec op (tl_abs s))"
    using tl_exec_refines [OF Cons.prems] by blast
  with Cons.IH [OF s1(2)] show ?case by auto
qed

text \<open>
  The thread-local store with its cached registry pointer implements one association list
  per registry: for every sequence of lookups, stores, erasures and collections, over any
  number of registries, the cached pointer never dangles, every operation returns what the
  specification returns (a store reports whether it was the first), and collection for a
  registry returns its instances in the order of their first store and leaves the others.
\<close>

theorem thread_local_store_refines:
  "\<exists>s. tl_run ops tl_init = Some (fst (tl_spec_run ops (\<lambda>_. [])), s)
     \<and> tl_abs s = snd (tl_spec_run ops (\<lambda>_. []))"
  using tl_run_refines_from [OF tl_init_inv, of ops] unfolding tl_abs_init by blast

subsection \<open>Which threads \<^verbatim>\<open>stop()\<close> reaches\<close>

text \<open>
  One registry (with id \<open>rid\<close>) and the threads that use it. \<open>tw_registered\<close> holds the keys of
  each thread's \<^verbatim>\<open>TLCleanup::registered\<close>, \<open>tw_stores\<close> is \<^verbatim>\<open>tlThreadStores_\<close>, a list of pointers to
  the threads' stores; such a pointer dangles once its thread is gone.
\<close>

type_synonym thread = nat

record tl_world =
  tw_data :: "thread \<Rightarrow> tl_data"
  tw_registered :: "thread \<Rightarrow> nat set"
  tw_stores :: "thread list"
  tw_dead :: "thread set"

definition tw_init :: tl_world where
  "tw_init = \<lparr>tw_data = (\<lambda>_. tl_init), tw_registered = (\<lambda>_. {}), tw_stores = [], tw_dead = {}\<rparr>"

text \<open>The registration at the head of \<open>claimMaterializationOrWait\<close>.\<close>

definition tw_claim :: "nat \<Rightarrow> tl_world \<Rightarrow> thread \<Rightarrow> tl_world" where
  "tw_claim rid w t =
     (if rid \<in> tw_registered w t then w
      else w\<lparr>tw_registered := (tw_registered w)(t := insert rid (tw_registered w t))\<rparr>)"

text \<open>
  \<open>materializeThreadLocalInstance\<close> for the primary descriptor \<open>d\<close>; \<open>built\<close> is the outcome of
  the construction, \<open>None\<close> when a constructor throws.
\<close>

definition tw_materialize :: "nat \<Rightarrow> tl_world \<Rightarrow> thread \<Rightarrow> DescriptorId \<Rightarrow> ptr option \<Rightarrow> (ptr option \<times> tl_world) option" where
  "tw_materialize rid w t d built =
     (case tl_findInstance (tw_data w t) rid d of
        None \<Rightarrow> None
      | Some (Some p, td) \<Rightarrow> Some (Some p, w\<lparr>tw_data := (tw_data w)(t := td)\<rparr>)
      | Some (None, td) \<Rightarrow>
          (let w1 = w\<lparr>tw_data := (tw_data w)(t := td)\<rparr>;
               w2 = (if rid \<in> tw_registered w1 t then w1
                     else w1\<lparr>tw_registered := (tw_registered w1)(t := insert rid (tw_registered w1 t)),
                            tw_stores := tw_stores w1 @ [t]\<rparr>)
           in case built of
                None \<Rightarrow> Some (None, w2)
              | Some p \<Rightarrow> Some (Some p,
                  w2\<lparr>tw_data := (tw_data w2)(t := snd (tl_storeInstance (tw_data w2 t) rid d p))\<rparr>)))"

text \<open>\<open>cleanupCurrentThread\<close>: the collected instances are destroyed in reverse order.\<close>

definition tw_cleanup :: "nat \<Rightarrow> tl_world \<Rightarrow> thread \<Rightarrow> (DescriptorId \<times> ptr) list \<times> tl_world" where
  "tw_cleanup rid w t =
     (rev (fst (tl_collectFor (tw_data w t) rid)),
      w\<lparr>tw_data := (tw_data w)(t := snd (tl_collectFor (tw_data w t) rid)),
        tw_stores := filter (\<lambda>u. u \<noteq> t) (tw_stores w)\<rparr>)"

text \<open>Thread exit: \<^verbatim>\<open>~TLCleanup\<close> for this registry, while the registry is alive.\<close>

definition tw_exit :: "nat \<Rightarrow> tl_world \<Rightarrow> thread \<Rightarrow> (DescriptorId \<times> ptr) list \<times> tl_world" where
  "tw_exit rid w t =
     (let r = (if rid \<in> tw_registered w t \<and> tl_hasEntriesFor (tw_data w t) rid
               then tw_cleanup rid w t else ([], w))
      in (fst r, (snd r)\<lparr>tw_dead := insert t (tw_dead (snd r))\<rparr>))"

text \<open>
  The thread-local part of \<^verbatim>\<open>Registry::stop\<close>: collect from every registered store, then
  destroy in reverse. \<open>None\<close>: a store of a dead thread was dereferenced.
\<close>

fun tw_collectAll :: "nat \<Rightarrow> tl_world \<Rightarrow> thread list \<Rightarrow> ((DescriptorId \<times> ptr) list \<times> tl_world) option" where
  "tw_collectAll rid w [] = Some ([], w)"
| "tw_collectAll rid w (t # ts) =
     (if t \<in> tw_dead w then None
      else (let (xs, td) = tl_collectFor (tw_data w t) rid
            in map_option (\<lambda>(ys, w'). (xs @ ys, w'))
                 (tw_collectAll rid (w\<lparr>tw_data := (tw_data w)(t := td)\<rparr>) ts)))"

definition tw_stop :: "nat \<Rightarrow> tl_world \<Rightarrow> ((DescriptorId \<times> ptr) list \<times> tl_world) option" where
  "tw_stop rid w =
     map_option (\<lambda>(xs, w'). (rev xs, w'\<lparr>tw_stores := []\<rparr>)) (tw_collectAll rid w (tw_stores w))"

datatype tw_op = TwClaim thread | TwMaterialize thread DescriptorId "ptr option" | TwExit thread

fun tw_exec :: "nat \<Rightarrow> tl_world \<Rightarrow> tw_op \<Rightarrow> tl_world option" where
  "tw_exec rid w (TwClaim t) = (if t \<in> tw_dead w then None else Some (tw_claim rid w t))"
| "tw_exec rid w (TwMaterialize t d b) =
     (if t \<in> tw_dead w then None else map_option snd (tw_materialize rid w t d b))"
| "tw_exec rid w (TwExit t) = (if t \<in> tw_dead w then None else Some (snd (tw_exit rid w t)))"

text \<open>Threads whose stores are reachable from the registry, one pointer each.\<close>

definition tw_inv :: "nat \<Rightarrow> tl_world \<Rightarrow> bool" where
  "tw_inv rid w \<longleftrightarrow>
     (\<forall>t. tl_inv (tw_data w t))
     \<and> distinct (tw_stores w)
     \<and> (\<forall>t. t \<in> set (tw_stores w) \<longrightarrow> tl_abs (tw_data w t) rid \<noteq> [] \<and> t \<notin> tw_dead w)
     \<and> (\<forall>t. t \<in> set (tw_stores w) \<or> t \<in> tw_dead w \<longleftrightarrow> rid \<in> tw_registered w t \<or> t \<in> tw_dead w)
     \<and> (\<forall>t. tl_abs (tw_data w t) rid \<noteq> [] \<longrightarrow> t \<in> set (tw_stores w))"

text \<open>
  A clean step: every construction succeeds, and a thread claims a singleton or session
  materialization only after it has its first thread-local bean.
\<close>

fun tw_clean :: "nat \<Rightarrow> tl_world \<Rightarrow> tw_op \<Rightarrow> bool" where
  "tw_clean rid w (TwClaim t) = (rid \<in> tw_registered w t)"
| "tw_clean rid w (TwMaterialize t d b) = (b \<noteq> None)"
| "tw_clean rid w (TwExit t) = True"

definition tw_cleanExec :: "nat \<Rightarrow> tl_world \<Rightarrow> tw_op \<Rightarrow> tl_world option" where
  "tw_cleanExec rid w op = (if tw_clean rid w op then tw_exec rid w op else None)"

lemma al_put_ne [simp]: "al_put d p xs \<noteq> []"
  by (cases xs) (auto split: if_splits)

lemma tl_has_abs: "tl_inv s \<Longrightarrow> tl_hasEntriesFor s r \<longleftrightarrow> tl_abs s r \<noteq> []"
  by (auto simp: tl_hasEntriesFor_def tl_abs_def te_abs_def split: option.splits)

lemma tw_init_inv: "tw_inv rid tw_init"
  by (simp add: tw_inv_def tw_init_def tl_init_inv tl_abs_init)

lemma tw_exec_inv:
  assumes inv: "tw_inv rid w" and clean: "tw_clean rid w op" and exec: "tw_exec rid w op = Some w'"
  shows "tw_inv rid w'"
proof (cases op)
  case (TwClaim t)
  with inv clean exec show ?thesis by (auto simp: tw_claim_def split: if_splits)
next
  case (TwExit t)
  have tli: "tl_inv (tw_data w t)" using inv by (simp add: tw_inv_def)
  have alive: "t \<notin> tw_dead w" and w': "w' = snd (tw_exit rid w t)"
    using TwExit exec by (auto split: if_splits)
  show ?thesis
  proof (cases "t \<in> set (tw_stores w)")
    case True
    then have "rid \<in> tw_registered w t" "tl_hasEntriesFor (tw_data w t) rid"
      using inv alive by (auto simp: tw_inv_def tl_has_abs)
    then show ?thesis using inv tl_collect_abs [OF tli, of rid]
      by (auto simp: w' tw_exit_def tw_cleanup_def tw_inv_def Let_def)
  next
    case False
    then have "rid \<notin> tw_registered w t" using inv alive by (auto simp: tw_inv_def)
    then show ?thesis using inv False by (auto simp: w' tw_exit_def tw_inv_def Let_def)
  qed
next
  case (TwMaterialize t d b)
  then obtain p where b: "b = Some p" and alive: "t \<notin> tw_dead w"
    and ex: "tw_materialize rid w t d (Some p) = Some (fst (the (tw_materialize rid w t d (Some p))), w')"
    using clean exec by (auto split: if_splits)
  have tli: "tl_inv (tw_data w t)" using inv by (simp add: tw_inv_def)
  obtain td where td: "tl_findInstance (tw_data w t) rid d = Some (map_of (tl_abs (tw_data w t) rid) d, td)"
      "tl_inv td" "tl_abs td = tl_abs (tw_data w t)"
    using tl_findInstance_abs [OF tli] by blast
  show ?thesis
  proof (cases "map_of (tl_abs (tw_data w t) rid) d")
    case (Some q)
    then have "w' = w\<lparr>tw_data := (tw_data w)(t := td)\<rparr>"
      using ex td by (simp add: tw_materialize_def)
    then show ?thesis using inv td by (auto simp: tw_inv_def)
  next
    case None
    note st = tl_store_abs [OF td(2), of rid d p]
    have "w' = (if rid \<in> tw_registered w t then w else w\<lparr>tw_registered := (tw_registered w)(t := insert rid (tw_registered w t)),
            tw_stores := tw_stores w @ [t]\<rparr>)\<lparr>tw_data := (tw_data w)(t := snd (tl_storeInstance td rid d p))\<rparr>"
      using ex td None by (simp add: tw_materialize_def Let_def split: if_splits)
    then show ?thesis using inv st td alive by (auto simp: tw_inv_def)
  qed
qed

lemma tw_collectAll_ok:
  assumes "\<forall>t. tl_inv (tw_data w t)" "distinct ts" "set ts \<inter> tw_dead w = {}"
  shows "\<exists>w'. tw_collectAll rid w ts = Some (concat (map (\<lambda>t. tl_abs (tw_data w t) rid) ts), w')
    \<and> (\<forall>t. tl_abs (tw_data w' t) rid = (if t \<in> set ts then [] else tl_abs (tw_data w t) rid))"
  using assms
proof (induction ts arbitrary: w)
  case Nil
  then show ?case by simp
next
  case (Cons t ts)
  let ?c = "tl_collectFor (tw_data w t) rid"
  let ?w = "w\<lparr>tw_data := (tw_data w)(t := snd ?c)\<rparr>"
  have c: "fst ?c = tl_abs (tw_data w t) rid" "tl_inv (snd ?c)" "tl_abs (snd ?c) = (tl_abs (tw_data w t))(rid := [])"
    using tl_collect_abs [of "tw_data w t" rid] Cons.prems by auto
  have pre: "\<forall>t. tl_inv (tw_data ?w t)" "distinct ts" "set ts \<inter> tw_dead ?w = {}"
    using Cons.prems c(2) by auto
  obtain w' where w': "tw_collectAll rid ?w ts = Some (concat (map (\<lambda>t. tl_abs (tw_data ?w t) rid) ts), w')"
      "\<forall>u. tl_abs (tw_data w' u) rid = (if u \<in> set ts then [] else tl_abs (tw_data ?w u) rid)"
    using Cons.IH [OF pre] by blast
  have same: "map (\<lambda>u. tl_abs (tw_data ?w u) rid) ts = map (\<lambda>u. tl_abs (tw_data w u) rid) ts"
    using Cons.prems by auto
  have "tw_collectAll rid w (t # ts) = Some (concat (map (\<lambda>t. tl_abs (tw_data w t) rid) (t # ts)), w')"
    using w'(1) [unfolded same] c(1) Cons.prems by (simp add: case_prod_beta)
  moreover have "\<forall>u. tl_abs (tw_data w' u) rid = (if u \<in> set (t # ts) then [] else tl_abs (tw_data w u) rid)"
    using w'(2) c(3) by simp
  ultimately show ?case by blast
qed

lemma tw_clean_run_inv:
  "fold_opt (tw_cleanExec rid) tw_init ops = Some w \<Longrightarrow> tw_inv rid w"
  by (rule fold_opt_invariant [of "tw_cleanExec rid" tw_init ops])
     (auto simp: tw_init_inv tw_cleanExec_def intro: tw_exec_inv split: if_splits)

text \<open>
  C37. When every thread-local construction succeeds and no thread enters a singleton or
  session materialization before it has its first thread-local bean, \<open>stop()\<close> dereferences
  no dead thread's store, reaches every thread that still owns instances of the registry, and
  destroys all of them once, in the reverse of the collected order; nothing is left behind.
\<close>

theorem thread_local_stop_complete:
  assumes "fold_opt (tw_cleanExec rid) tw_init ops = Some w"
  shows "\<exists>w'. tw_stop rid w = Some (rev (concat (map (\<lambda>t. tl_abs (tw_data w t) rid) (tw_stores w))), w')
    \<and> distinct (tw_stores w)
    \<and> {t. tl_abs (tw_data w t) rid \<noteq> []} = set (tw_stores w)
    \<and> (\<forall>t. tl_abs (tw_data w' t) rid = [])"
proof -
  have inv: "tw_inv rid w" by (rule tw_clean_run_inv [OF assms])
  then have pre: "\<forall>t. tl_inv (tw_data w t)" "distinct (tw_stores w)" "set (tw_stores w) \<inter> tw_dead w = {}"
    and own: "{t. tl_abs (tw_data w t) rid \<noteq> []} = set (tw_stores w)"
    by (auto simp: tw_inv_def)
  from tw_collectAll_ok [OF pre] obtain w' where
    "tw_collectAll rid w (tw_stores w) = Some (concat (map (\<lambda>t. tl_abs (tw_data w t) rid) (tw_stores w)), w')"
    "\<forall>t. tl_abs (tw_data w' t) rid = (if t \<in> set (tw_stores w) then [] else tl_abs (tw_data w t) rid)"
    by blast
  then show ?thesis using own pre(2) by (auto simp: tw_stop_def)
qed

theorem thread_local_stop_complete_witness:
  "\<exists>w w'. fold_opt (tw_cleanExec 1) tw_init [TwMaterialize 7 0 (Some 100), TwMaterialize 7 2 (Some 200)] = Some w
     \<and> tw_stop 1 w = Some ([(2, 200), (0, 100)], w')"
proof -
  let ?ops = "[TwMaterialize 7 0 (Some 100), TwMaterialize 7 2 (Some 200)]"
  obtain w where w: "fold_opt (tw_cleanExec 1) tw_init ?ops = Some w" "tw_stores w = [7]"
      "tl_abs (tw_data w 7) 1 = [(0, 100), (2, 200)]"
    by (simp add: tw_cleanExec_def tw_materialize_def tw_init_def tl_init_def tl_findInstance_def
        tl_storeInstance_def te_empty_def te_at_def grow_to_def tl_abs_def te_abs_def)
  from thread_local_stop_complete [OF w(1)] w show ?thesis by auto
qed

text \<open>
  Without that proviso the sweep misses instances. When a thread first claims a singleton
  materialization and then creates a thread-local bean, the claim has already entered the
  registry into the thread's clean-up table, so its store is never added to
  \<^verbatim>\<open>tlThreadStores_\<close> and \<open>stop()\<close> destroys nothing of it. And when a thread-local constructor
  throws and the thread exits, its store stays in \<^verbatim>\<open>tlThreadStores_\<close>, and \<open>stop()\<close>
  dereferences the store of a dead thread.
\<close>

theorem thread_local_stop_gaps:
  "(\<exists>w w'. fold_opt (tw_exec 1) tw_init [TwClaim 7, TwMaterialize 7 0 (Some 100)] = Some w
      \<and> tw_stop 1 w = Some ([], w') \<and> tl_abs (tw_data w' 7) 1 = [(0, 100)])
   \<and> (\<exists>w. fold_opt (tw_exec 1) tw_init [TwMaterialize 7 0 None, TwExit 7] = Some w \<and> tw_stop 1 w = None)"
proof
  show "\<exists>w w'. fold_opt (tw_exec 1) tw_init [TwClaim 7, TwMaterialize 7 0 (Some 100)] = Some w
      \<and> tw_stop 1 w = Some ([], w') \<and> tl_abs (tw_data w' 7) 1 = [(0, 100)]"
    by (simp add: tw_claim_def tw_materialize_def tw_init_def tl_init_def tl_findInstance_def
        tl_storeInstance_def te_empty_def te_at_def grow_to_def tl_abs_def te_abs_def tw_stop_def)
  show "\<exists>w. fold_opt (tw_exec 1) tw_init [TwMaterialize 7 0 None, TwExit 7] = Some w \<and> tw_stop 1 w = None"
    by (simp add: tw_exit_def tl_hasEntriesFor_def tw_materialize_def tw_init_def tl_init_def
        tl_findInstance_def tw_stop_def)
qed

end
