(* ===== verification/Materialization.thy ===== *)
theory Materialization
  imports Registry_Start Listener_Store Thread_Local_Store
begin

text \<open>
  Resolution and materialization as one thread executes them: \<^verbatim>\<open>Registry::resolve\<close>,
  \<^verbatim>\<open>materializeOneImpl\<close> (\<^verbatim>\<open>RegistryResolutionImpl.hpp\<close>), \<^verbatim>\<open>materializeSessionInstance\<close>
  (\<^verbatim>\<open>RegistryScopedRuntimeImpl.hpp\<close>) and \<^verbatim>\<open>materializeThreadLocalInstance\<close>
  (\<^verbatim>\<open>RegistryThreadLocalImpl.hpp\<close>).

  Constructors, \<open>postConstruct\<close> hooks and listener callbacks are user code that may resolve
  further beans or throw: a script of such actions per thunk and per callback, as
  a parameter \<open>u\<close>. Resolution calls user code and user code calls resolution, so
  the functions take the resolver as an argument and are tied together by fuel in \<open>run\<close>.
  A computation returns, throws, hits a failed assertion (\<open>Abort\<close>), has to wait for another
  thread (\<open>Blocked\<close>), or runs out of fuel.
\<close>

subsection \<open>State and computations\<close>

datatype ScopeState = Stopped | Running | Stopping

record scoped =
  sc_self :: ptr
  sc_scopeNameId :: NameId
  sc_sessionStore :: session_store
  sc_scopeState :: ScopeState
  sc_scopedDefaults :: defaults_table
  sc_hasAnyScopedDefault :: bool
  sc_pendingRuntimeSessions :: "(DescriptorId \<times> ptr) list"

datatype event =
    EvAlloc ptr DescriptorId
  | EvFree ptr "thunk option"
  | EvConstruct thunk "ptr option"
  | EvPostConstruct thunk ptr
  | EvCallback nat
  | EvPreDestroy thunk ptr
  | EvDestroy "thunk option" ptr

text \<open>The objects that a stretch of the log destroys, in order.\<close>

fun destroyed :: "event list \<Rightarrow> ptr list" where
  "destroyed [] = []"
| "destroyed (EvDestroy th p # evs) = p # destroyed evs"
| "destroyed (ev # evs) = destroyed evs"

record mstate =
  m_reg :: registry
  m_listeners :: listener_store
  m_proto :: proto_store
  m_tl :: tl_data
  m_registryId :: nat
  m_token :: nat
  m_scope :: "scoped option"
  m_stack :: "DescriptorId list"
  m_log :: "event list"
  m_next :: ptr

datatype action = Resolve TypeId NameId | Throw nat

datatype handle = Direct ptr SlotId DescriptorId | Proxy NameId DescriptorId | ThreadLocalForm DescriptorId

datatype request = ReqResolve TypeId NameId | ReqMaterialize DescriptorId

datatype 'a outcome = Ret 'a | Exc ctr_error | Abort | Blocked | Fuel

type_synonym ('s, 'a) stateful = "'s \<Rightarrow> 'a outcome \<times> 's"
type_synonym 'a comp = "(mstate, 'a) stateful"
type_synonym resolver = "request \<Rightarrow> handle comp"

definition retM :: "'a \<Rightarrow> ('s, 'a) stateful" where
  "retM a s = (Ret a, s)"

definition throwM :: "ctr_error \<Rightarrow> ('s, 'a) stateful" where
  "throwM e s = (Exc e, s)"

definition abortM :: "('s, 'a) stateful" where
  "abortM s = (Abort, s)"

definition bindM :: "('s, 'a) stateful \<Rightarrow> ('a \<Rightarrow> ('s, 'b) stateful) \<Rightarrow> ('s, 'b) stateful" where
  "bindM m k s = (case m s of (Ret a, s') \<Rightarrow> k a s' | (Exc e, s') \<Rightarrow> (Exc e, s')
     | (Abort, s') \<Rightarrow> (Abort, s') | (Blocked, s') \<Rightarrow> (Blocked, s') | (Fuel, s') \<Rightarrow> (Fuel, s'))"

text \<open>\<open>try { m } catch (...) { h; throw; }\<close>\<close>

definition catchM :: "('s, 'a) stateful \<Rightarrow> ('s, unit) stateful \<Rightarrow> ('s, 'a) stateful" where
  "catchM m h s = (case m s of
       (Exc e, s') \<Rightarrow> bindM h (\<lambda>_. throwM e) s'
     | (o1, s') \<Rightarrow> (o1, s'))"

text \<open>A read of the state, an update, and an update that can fail an assertion.\<close>

definition readM :: "('s \<Rightarrow> ('s, 'a) stateful) \<Rightarrow> ('s, 'a) stateful" where
  "readM f s = f s s"

definition updM :: "('s \<Rightarrow> 's) \<Rightarrow> ('s, unit) stateful" where
  "updM f s = (Ret (), f s)"

definition tryUpdM :: "('s \<Rightarrow> 's option) \<Rightarrow> ('s, unit) stateful" where
  "tryUpdM f s = (case f s of None \<Rightarrow> (Abort, s) | Some s' \<Rightarrow> (Ret (), s'))"

definition logM :: "event \<Rightarrow> unit comp" where
  "logM e = updM (\<lambda>s. s\<lparr>m_log := m_log s @ [e]\<rparr>)"

subsection \<open>User code\<close>

record user_code =
  u_script :: "thunk \<Rightarrow> action list"
  u_callback :: "nat \<Rightarrow> action list"
  u_maxSlots :: "nat option"

fun run_actions :: "resolver \<Rightarrow> action list \<Rightarrow> unit comp" where
  "run_actions res [] = retM ()"
| "run_actions res (Resolve t n # as) = bindM (res (ReqResolve t n)) (\<lambda>_. run_actions res as)"
| "run_actions res (Throw e # as) = throwM (UserException e)"

definition runThunk :: "user_code \<Rightarrow> resolver \<Rightarrow> event \<Rightarrow> thunk \<Rightarrow> unit comp" where
  "runThunk u res ev th = bindM (logM ev) (\<lambda>_. run_actions res (u_script u th))"

fun callAll :: "user_code \<Rightarrow> resolver \<Rightarrow> nat list \<Rightarrow> unit comp" where
  "callAll u res [] = retM ()"
| "callAll u res (c # cs) =
     bindM (logM (EvCallback c)) (\<lambda>_. bindM (run_actions res (u_callback u c)) (\<lambda>_. callAll u res cs))"

definition dispatchM :: "user_code \<Rightarrow> resolver \<Rightarrow> nat \<Rightarrow> TypeId \<Rightarrow> NameId \<Rightarrow> unit comp" where
  "dispatchM u res phaseIndex beanTypeId emitterScope = readM (\<lambda>s.
     if ls_phaseSizes (m_listeners s) phaseIndex = 0 then retM ()
     else case ls_view (m_listeners s) of
       None \<Rightarrow> retM ()
     | Some view \<Rightarrow> callAll u res (dispatchFromView view phaseIndex beanTypeId emitterScope))"

definition emitterScope :: "mstate \<Rightarrow> NameId" where
  "emitterScope s = (case m_scope s of None \<Rightarrow> kNoScope | Some sc \<Rightarrow> sc_scopeNameId sc)"

definition postConstructM :: "user_code \<Rightarrow> resolver \<Rightarrow> descriptor_cold \<Rightarrow> ptr \<Rightarrow> unit comp" where
  "postConstructM u res cold mem =
     (case c_postConstruct cold of None \<Rightarrow> retM () | Some th \<Rightarrow> runThunk u res (EvPostConstruct th mem) th)"

text \<open>Dispatch of \<open>onInitialized\<close>, the hook, dispatch of \<open>onCreated\<close>.\<close>

definition createdLifecycle :: "user_code \<Rightarrow> resolver \<Rightarrow> TypeId \<Rightarrow> descriptor_cold \<Rightarrow> ptr \<Rightarrow> NameId \<Rightarrow> unit comp" where
  "createdLifecycle u res ty cold mem scope =
     bindM (dispatchM u res phaseInitialized ty scope) (\<lambda>_.
     bindM (postConstructM u res cold mem) (\<lambda>_.
     dispatchM u res phaseCreated ty scope))"

subsection \<open>Memory and construction\<close>

definition allocM :: "DescriptorId \<Rightarrow> ptr comp" where
  "allocM d = readM (\<lambda>s. bindM (updM (\<lambda>s. s\<lparr>m_next := m_next s + 1, m_log := m_log s @ [EvAlloc (m_next s) d]\<rparr>))
     (\<lambda>_. retM (m_next s)))"

definition constructThunk :: "user_code \<Rightarrow> resolver \<Rightarrow> descriptor_cold \<Rightarrow> ptr \<Rightarrow> unit comp" where
  "constructThunk u res cold mem =
     (case c_construct cold of None \<Rightarrow> retM () | Some th \<Rightarrow> runThunk u res (EvConstruct th (Some mem)) th)"

text \<open>
  The \<open>try\<close> block of the three storing materializations. \<open>allocAndConstruct\<close> allocates after its
  dependencies are resolved, so nothing is left to free when it throws.
\<close>

definition constructM :: "user_code \<Rightarrow> resolver \<Rightarrow> descriptor_cold \<Rightarrow> DescriptorId \<Rightarrow> ptr comp" where
  "constructM u res cold d =
     (case c_allocAndConstruct cold of
        Some th \<Rightarrow> bindM (runThunk u res (EvConstruct th None) th) (\<lambda>_. allocM d)
      | None \<Rightarrow> bindM (allocM d) (\<lambda>mem.
          bindM (catchM (constructThunk u res cold mem) (logM (EvFree mem (c_dealloc cold)))) (\<lambda>_. retM mem)))"

subsection \<open>Cycle detection and claims\<close>

text \<open>The guard object \<^verbatim>\<open>CycleGuard\<close>: pushes on construction, pops on every exit.\<close>

definition cycleGuard :: "DescriptorId \<Rightarrow> 'a comp \<Rightarrow> 'a comp" where
  "cycleGuard d body s =
     (if d \<in> set (m_stack s) then (Exc (ResolutionError DependencyCycle), s)
      else (case body (s\<lparr>m_stack := d # m_stack s\<rparr>) of (o1, s') \<Rightarrow> (o1, s'\<lparr>m_stack := tl (m_stack s')\<rparr>)))"

definition claimed :: "DescriptorId \<Rightarrow> ptr option \<Rightarrow> mstate \<Rightarrow> mstate" where
  "claimed d scope s = s\<lparr>m_stack := d # m_stack s,
     m_reg := (m_reg s)\<lparr>r_materializing := r_materializing (m_reg s)
        @ [\<lparr>me_key = \<lparr>mk_descId = d, mk_scope = scope\<rparr>, me_threadToken = m_token s\<rparr>]\<rparr>\<rparr>"

text \<open>
  \<^verbatim>\<open>claimMaterializationOrWait\<close> as far as one thread runs: where the code waits on the condition
  variable for another thread, the computation is \<open>Blocked\<close>.
\<close>

definition claimMaterialization :: "DescriptorId \<Rightarrow> ptr option \<Rightarrow> ptr option \<Rightarrow> bool comp" where
  "claimMaterialization d scope existing s =
     (let key = \<lparr>mk_descId = d, mk_scope = scope\<rparr>
      in if d \<in> set (m_stack s) then (Exc (ResolutionError DependencyCycle), s)
         else if existing \<noteq> None then (Ret False, s)
         else case find (\<lambda>e. me_key e = key) (r_materializing (m_reg s)) of
           None \<Rightarrow> (Ret True, claimed d scope s)
         | Some e \<Rightarrow> if me_threadToken e = m_token s then (Exc (ResolutionError DependencyCycle), s)
                     else (Blocked, s))"

fun swap_remove_first :: "('a \<Rightarrow> bool) \<Rightarrow> 'a list \<Rightarrow> 'a list" where
  "swap_remove_first P [] = []"
| "swap_remove_first P (x # xs) =
     (if P x then (if xs = [] then [] else last xs # butlast xs) else x # swap_remove_first P xs)"

definition releaseClaim :: "DescriptorId \<Rightarrow> ptr option \<Rightarrow> mstate \<Rightarrow> mstate" where
  "releaseClaim d scope s = s\<lparr>m_stack := tl (m_stack s),
     m_reg := (m_reg s)\<lparr>r_materializing := swap_remove_first (\<lambda>e. me_key e = \<lparr>mk_descId = d, mk_scope = scope\<rparr>)
        (r_materializing (m_reg s))\<rparr>\<rparr>"

subsection \<open>The four lifetimes\<close>

text \<open>
  The claim, the construction and the publication, which the singleton and the session paths
  share: \<open>findExisting\<close> looks the instance up, \<open>publish\<close> stores it, and the lifecycle follows after
  the claim is released. \<open>mayConstruct\<close> is the assertion before the construction.
\<close>

definition claimAndMaterialize :: "user_code \<Rightarrow> resolver \<Rightarrow> DescriptorId \<Rightarrow> ptr option \<Rightarrow> descriptor_cold \<Rightarrow> bool
    \<Rightarrow> (mstate \<Rightarrow> ptr option) \<Rightarrow> (ptr \<Rightarrow> mstate \<Rightarrow> mstate option) \<Rightarrow> NameId \<Rightarrow> ptr comp" where
  "claimAndMaterialize u res d scope cold mayConstruct findExisting publish emitter = readM (\<lambda>s0.
     bindM (claimMaterialization d scope (findExisting s0)) (\<lambda>didMaterialize.
       if \<not> didMaterialize
       then readM (\<lambda>s. case findExisting s of None \<Rightarrow> abortM | Some inst \<Rightarrow> retM inst)
       else if \<not> mayConstruct then abortM
       else bindM (catchM (constructM u res cold d) (updM (releaseClaim d scope))) (\<lambda>mem.
            bindM (tryUpdM (\<lambda>s. map_option (releaseClaim d scope) (publish mem s))) (\<lambda>_.
            bindM (createdLifecycle u res (c_exposedType cold) cold mem emitter) (\<lambda>_.
            retM mem)))))"

definition singletonFind :: "DescriptorId \<Rightarrow> mstate \<Rightarrow> ptr option" where
  "singletonFind d s = ss_find (r_singletons (m_reg s)) d"

definition singletonStore :: "DescriptorId \<Rightarrow> ptr \<Rightarrow> mstate \<Rightarrow> mstate option" where
  "singletonStore d mem s = map_option (\<lambda>ss. s\<lparr>m_reg := (m_reg s)\<lparr>r_singletons := ss\<rparr>\<rparr>)
     (ss_store (r_singletons (m_reg s)) d mem)"

definition materializeSingleton :: "user_code \<Rightarrow> resolver \<Rightarrow> DescriptorId \<Rightarrow> handle comp" where
  "materializeSingleton u res d = readM (\<lambda>s0.
     let cold = dtb_coldAt (r_descriptors (m_reg s0)) d
     in bindM (claimAndMaterialize u res d None cold (c_origin cold \<noteq> RuntimeBinding)
            (singletonFind d) (singletonStore d) (emitterScope s0)) (\<lambda>inst.
        retM (Direct inst kInvalidSlotId d)))"

definition psAllocate :: "user_code \<Rightarrow> DescriptorId \<Rightarrow> ptr \<Rightarrow> SlotId comp" where
  "psAllocate u d mem s =
     (case ps_allocate (u_maxSlots u) (m_proto s) d mem of
        None \<Rightarrow> (Abort, s)
      | Some (Inl e) \<Rightarrow> (Exc e, s)
      | Some (Inr (slot, ps)) \<Rightarrow> (Ret slot, s\<lparr>m_proto := ps\<rparr>))"

definition onProto :: "(proto_store \<Rightarrow> proto_store option) \<Rightarrow> unit comp" where
  "onProto f = tryUpdM (\<lambda>s. map_option (\<lambda>ps. s\<lparr>m_proto := ps\<rparr>) (f (m_proto s)))"

text \<open>The reference that the local \<open>AnyBean\<close> holds around the dispatches; it is never the last one.\<close>

definition withRetained :: "SlotId \<Rightarrow> unit comp \<Rightarrow> unit comp" where
  "withRetained slot body =
     (let release = onProto (\<lambda>ps. case ps_releaseAcquire ps slot of
            Some (False, ps') \<Rightarrow> Some ps' | _ \<Rightarrow> None)
      in bindM (onProto (\<lambda>ps. ps_retain ps slot)) (\<lambda>_. bindM (catchM body release) (\<lambda>_. release)))"

text \<open>\<open>d\<close> is the requested descriptor, \<open>p\<close> the one whose class is constructed (\<open>d\<close> itself, or its primary).\<close>

definition prototypeConstruct :: "user_code \<Rightarrow> resolver \<Rightarrow> descriptor_cold \<Rightarrow> DescriptorId \<Rightarrow> (ptr \<times> SlotId) comp" where
  "prototypeConstruct u res cold p =
     (case c_allocAndConstruct cold of
        Some th \<Rightarrow> bindM (runThunk u res (EvConstruct th None) th) (\<lambda>_. bindM (allocM p) (\<lambda>mem.
            bindM (psAllocate u p mem) (\<lambda>slot. retM (mem, slot))))
      | None \<Rightarrow> bindM (allocM p) (\<lambda>mem. bindM (psAllocate u p mem) (\<lambda>slot.
            bindM (catchM (constructThunk u res cold mem)
              (bindM (logM (EvFree mem None)) (\<lambda>_. onProto (\<lambda>ps. ps_reclaim ps slot))))
            (\<lambda>_. retM (mem, slot)))))"

definition prototypeLifecycle :: "user_code \<Rightarrow> resolver \<Rightarrow> TypeId \<Rightarrow> descriptor_cold \<Rightarrow> ptr \<Rightarrow> SlotId \<Rightarrow> unit comp" where
  "prototypeLifecycle u res ty cold mem slot = readM (\<lambda>s.
     let dispatchInitialized = ls_hasListeners (m_listeners s) phaseInitialized;
         dispatchCreated = ls_hasListeners (m_listeners s) phaseCreated
     in if dispatchInitialized \<or> dispatchCreated
        then withRetained slot
          (bindM (if dispatchInitialized then dispatchM u res phaseInitialized ty (emitterScope s) else retM ()) (\<lambda>_.
           bindM (postConstructM u res cold mem) (\<lambda>_.
           if dispatchCreated then dispatchM u res phaseCreated ty (emitterScope s) else retM ())))
        else postConstructM u res cold mem)"

definition materializePrototype :: "user_code \<Rightarrow> resolver \<Rightarrow> DescriptorId \<Rightarrow> DescriptorId \<Rightarrow> adjust option \<Rightarrow> handle comp" where
  "materializePrototype u res d p adj = cycleGuard p (readM (\<lambda>s.
     let cold = dtb_coldAt (r_descriptors (m_reg s)) d;
         primaryCold = dtb_coldAt (r_descriptors (m_reg s)) p
     in bindM (prototypeConstruct u res primaryCold p) (\<lambda>(mem, slot).
        bindM (onProto (\<lambda>ps. ps_activate ps slot)) (\<lambda>_.
        bindM (prototypeLifecycle u res (c_exposedType cold) primaryCold mem slot) (\<lambda>_.
        retM (Direct (case adj of None \<Rightarrow> mem | Some f \<Rightarrow> f mem) slot d))))))"

text \<open>The primary of an alias, or the descriptor itself.\<close>

definition primaryOf :: "registry \<Rightarrow> DescriptorId \<Rightarrow> DescriptorId" where
  "primaryOf r d =
     (let p = d_primaryDescriptor (dtb_at (r_descriptors r) d)
      in if p \<noteq> d \<and> p \<noteq> kInvalidDescriptorId then p else d)"

definition sessionFind :: "mstate \<Rightarrow> SessionSlot \<Rightarrow> ptr option" where
  "sessionFind s slot = (case m_scope s of None \<Rightarrow> None | Some sc \<Rightarrow> ses_find (sc_sessionStore sc) slot)"

definition sessionStore :: "SessionSlot \<Rightarrow> DescriptorId \<Rightarrow> ptr \<Rightarrow> mstate \<Rightarrow> mstate option" where
  "sessionStore slot d mem s =
     (case m_scope s of None \<Rightarrow> None
      | Some sc \<Rightarrow> map_option (\<lambda>st. s\<lparr>m_scope := Some (sc\<lparr>sc_sessionStore := st\<rparr>)\<rparr>)
                      (ses_store (sc_sessionStore sc) slot d mem))"

definition materializeSessionInstance :: "user_code \<Rightarrow> resolver \<Rightarrow> DescriptorId \<Rightarrow> scoped \<Rightarrow> ptr comp" where
  "materializeSessionInstance u res d scope = readM (\<lambda>s0.
     let p = primaryOf (m_reg s0) d;
         cold = dtb_coldAt (r_descriptors (m_reg s0)) p;
         slot = d_sessionSlot (dtb_at (r_descriptors (m_reg s0)) p)
     in if dtb_size (r_descriptors (m_reg s0)) \<le> d \<or> dtb_size (r_descriptors (m_reg s0)) \<le> p then abortM
        else case sessionFind s0 slot of
          Some inst \<Rightarrow> retM inst
        | None \<Rightarrow>
            if sc_scopeState scope = Stopping then throwM (ContextStateError ScopeStopping)
            else if c_origin cold = RuntimeBinding then throwM (ContextStateError UnboundSession)
            else claimAndMaterialize u res p (Some (sc_self scope)) cold True
                   (\<lambda>s. sessionFind s slot) (sessionStore slot p) (sc_scopeNameId scope))"

definition tlFind :: "DescriptorId \<Rightarrow> ptr option comp" where
  "tlFind d s =
     (case tl_findInstance (m_tl s) (m_registryId s) d of
        None \<Rightarrow> (Abort, s)
      | Some (q, tl') \<Rightarrow> (Ret q, s\<lparr>m_tl := tl'\<rparr>))"

text \<open>The registration of the thread with the registry is the subject of \<open>tl_world\<close>.\<close>

definition materializeThreadLocalInstance :: "user_code \<Rightarrow> resolver \<Rightarrow> DescriptorId \<Rightarrow> ptr comp" where
  "materializeThreadLocalInstance u res d = readM (\<lambda>s0.
     let p = primaryOf (m_reg s0) d;
         cold = dtb_coldAt (r_descriptors (m_reg s0)) p
     in if dtb_size (r_descriptors (m_reg s0)) \<le> d \<or> dtb_size (r_descriptors (m_reg s0)) \<le> p then abortM
        else bindM (tlFind p) (\<lambda>q. case q of
          Some inst \<Rightarrow> retM inst
        | None \<Rightarrow> cycleGuard p
            (bindM (constructM u res cold p) (\<lambda>mem.
             bindM (updM (\<lambda>s. s\<lparr>m_tl := snd (tl_storeInstance (m_tl s) (m_registryId s) p mem)\<rparr>)) (\<lambda>_.
             bindM (createdLifecycle u res (c_exposedType cold) cold mem kNoScope) (\<lambda>_.
             retM mem))))))"

subsection \<open>\<open>materializeOneImpl\<close> and \<open>resolve\<close>\<close>

definition sessionCase :: "user_code \<Rightarrow> resolver \<Rightarrow> DescriptorId \<Rightarrow> DescriptorId \<Rightarrow> handle comp" where
  "sessionCase u res d p = readM (\<lambda>s.
     case m_scope s of
       None \<Rightarrow> throwM (ContextStateError NoActiveScope)
     | Some scope \<Rightarrow>
         if sc_scopeState scope = Stopped then throwM (ContextStateError ScopeStopped)
         else bindM (materializeSessionInstance u res p scope) (\<lambda>_. retM (Proxy (sc_scopeNameId scope) d)))"

definition threadLocalCase :: "user_code \<Rightarrow> resolver \<Rightarrow> DescriptorId \<Rightarrow> DescriptorId \<Rightarrow> handle comp" where
  "threadLocalCase u res d p =
     bindM (materializeThreadLocalInstance u res p) (\<lambda>_. retM (ThreadLocalForm d))"

text \<open>\<open>MaterializedBeanHandle::instance()\<close>: the value word read as a pointer.\<close>

fun handle_instance :: "handle \<Rightarrow> ptr" where
  "handle_instance (Direct p _ _) = p"
| "handle_instance (Proxy n _) = n"
| "handle_instance (ThreadLocalForm _) = 0"

definition adjusted :: "descriptor \<Rightarrow> ptr \<Rightarrow> ptr" where
  "adjusted desc p = (case d_adjustToExposed desc of None \<Rightarrow> p | Some f \<Rightarrow> f p)"

definition singletonAlias :: "resolver \<Rightarrow> DescriptorId \<Rightarrow> DescriptorId \<Rightarrow> handle comp" where
  "singletonAlias res d p = readM (\<lambda>s.
     let desc = dtb_at (r_descriptors (m_reg s)) d
     in case ss_find (r_singletons (m_reg s)) p of
          Some concretePtr \<Rightarrow> retM (Direct (adjusted desc concretePtr) kInvalidSlotId d)
        | None \<Rightarrow> bindM (res (ReqMaterialize p)) (\<lambda>h. retM (Direct (adjusted desc (handle_instance h)) kInvalidSlotId d)))"

definition materializeOneImpl :: "user_code \<Rightarrow> resolver \<Rightarrow> DescriptorId \<Rightarrow> handle comp" where
  "materializeOneImpl u res d = readM (\<lambda>s.
     let dt = r_descriptors (m_reg s); p = primaryOf (m_reg s) d
     in if dtb_size dt \<le> d then abortM
        else case dtb_lifetimeOf dt d of
          Singleton \<Rightarrow>
            (case ss_find (r_singletons (m_reg s)) d of
               Some inst \<Rightarrow> retM (Direct inst kInvalidSlotId d)
             | None \<Rightarrow> if p \<noteq> d then singletonAlias res d p else materializeSingleton u res d)
        | Prototype \<Rightarrow>
            (if dtb_size dt \<le> p then abortM
             else materializePrototype u res d p (if p \<noteq> d then d_adjustToExposed (dtb_at dt d) else None))
        | Session \<Rightarrow> sessionCase u res d p
        | ThreadLocal \<Rightarrow> threadLocalCase u res d p)"

definition effectiveName :: "mstate \<Rightarrow> TypeId \<Rightarrow> NameId \<Rightarrow> NameId" where
  "effectiveName s typeId nameId =
     (if nameId \<noteq> kUnnamed then nameId
      else (let n1 = (case m_scope s of None \<Rightarrow> kUnnamed
              | Some sc \<Rightarrow> if sc_hasAnyScopedDefault sc then dt_getDefault (sc_scopedDefaults sc) typeId else kUnnamed)
            in if n1 = kUnnamed \<and> r_hasAnyDefault (m_reg s) then dt_getDefault (r_defaults (m_reg s)) typeId else n1))"

definition registry_resolve :: "user_code \<Rightarrow> resolver \<Rightarrow> TypeId \<Rightarrow> NameId \<Rightarrow> handle comp" where
  "registry_resolve u res typeId nameId = readM (\<lambda>s.
     if \<not> r_started (m_reg s) then throwM (ContextStateError NotStarted)
     else if typeId = kInvalidTypeId then throwM (ResolutionError UnknownType)
     else case resolve_select (r_index (m_reg s)) (prio (m_reg s)) typeId (effectiveName s typeId nameId) of
       Inl e \<Rightarrow> throwM e
     | Inr d \<Rightarrow>
         (let dt = r_descriptors (m_reg s)
          in if dtb_size dt \<le> d then abortM
             else case dtb_lifetimeOf dt d of
               Singleton \<Rightarrow> (case ss_find (r_singletons (m_reg s)) d of
                   Some inst \<Rightarrow> retM (Direct inst kInvalidSlotId d)
                 | None \<Rightarrow> materializeOneImpl u res d)
             | Session \<Rightarrow> sessionCase u res d (primaryOf (m_reg s) d)
             | ThreadLocal \<Rightarrow> threadLocalCase u res d (primaryOf (m_reg s) d)
             | Prototype \<Rightarrow> materializeOneImpl u res d))"

fun run :: "user_code \<Rightarrow> nat \<Rightarrow> request \<Rightarrow> handle comp" where
  "run u 0 req = (\<lambda>s. (Fuel, s))"
| "run u (Suc f) (ReqResolve t n) = registry_resolve u (run u f) t n"
| "run u (Suc f) (ReqMaterialize d) = materializeOneImpl u (run u f) d"


subsection \<open>Session stores\<close>

text \<open>The published array of a session store has the published size.\<close>

definition ses_wf :: "session_store \<Rightarrow> bool" where
  "ses_wf s \<longleftrightarrow> (\<forall>b. ses_instancesBase s = Some b \<longrightarrow>
     b < length (ses_graveyard s) \<and> length (ses_graveyard s ! b) = ses_instancesSize s)"

lemma ses_store_wf:
  assumes "ses_store s slot d mem = Some s'" "ses_wf s"
  shows "ses_wf s'" "ses_find s' k = (if k = slot then Some mem else ses_find s k)"
  using assms by (auto simp: ses_store_def ses_wf_def ses_find_def arr_write_nth nth_list_update split: option.splits if_splits)

lemma ss_store_inv:
  assumes inv: "ss_inv s" and st: "ss_store s d m = Some s'"
  shows "ss_inv s'" "ss_find s d = None" "ss_insertionOrder s' = ss_insertionOrder s @ [d]"
    "ss_find s' d' = (if d' = d then Some m else ss_find s d')"
proof -
  have room: "d < ss_instancesSize s" and slot: "ss_slot s d = None"
    using st inv by (auto simp: ss_store_def ss_inv_def ss_slot_def Let_def split: option.splits if_splits)
  then show free: "ss_find s d = None" using ss_find_slot [OF inv] by simp
  obtain s1 where "ss_store s d m = Some s1" "ss_inv s1" "ss_insertionOrder s1 = ss_insertionOrder s @ [d]"
    "\<And>d'. ss_find s1 d' = (if d' = d then Some m else ss_find s d')"
    using ss_store_Some [OF inv room free, of m] by metis
  with st show "ss_inv s'" "ss_insertionOrder s' = ss_insertionOrder s @ [d]"
    "ss_find s' d' = (if d' = d then Some m else ss_find s d')" by auto
qed

lemma swap_remove_first_snoc: "find P xs = None \<Longrightarrow> P x \<Longrightarrow> swap_remove_first P (xs @ [x]) = xs"
  by (induction xs) (auto split: if_splits)

subsection \<open>Relations kept by every resolution\<close>

text \<open>
  A computation ends when it returns or throws; \<open>keeps R m\<close> says that the states before and after
  are related then.
\<close>

definition ends :: "('s, 'a) stateful \<Rightarrow> 's \<Rightarrow> 's \<Rightarrow> bool" where
  "ends m s s' \<longleftrightarrow> (\<exists>a. m s = (Ret a, s')) \<or> (\<exists>e. m s = (Exc e, s'))"

definition keeps :: "('s \<Rightarrow> 's \<Rightarrow> bool) \<Rightarrow> ('s, 'a) stateful \<Rightarrow> bool" where
  "keeps R m \<longleftrightarrow> (\<forall>s s'. ends m s s' \<longrightarrow> R s s')"

lemma ends_simps [simp]:
  "ends (retM a) s s' \<longleftrightarrow> s' = s" "ends (throwM e) s s' \<longleftrightarrow> s' = s" "\<not> ends abortM s s'"
  "ends (readM f) s s' \<longleftrightarrow> ends (f s) s s'" "ends (updM g) s s' \<longleftrightarrow> s' = g s"
  "ends (tryUpdM h) s s' \<longleftrightarrow> h s = Some s'"
  by (auto simp: ends_def retM_def throwM_def abortM_def readM_def updM_def tryUpdM_def split: option.splits)

lemma ends_bind: "ends (bindM m k) s s'' \<Longrightarrow>
    (\<exists>e. m s = (Exc e, s'')) \<or> (\<exists>a s'. m s = (Ret a, s') \<and> ends (k a) s' s'')"
  by (auto simp: ends_def bindM_def split: prod.splits outcome.splits)

lemma ends_catch: "ends (catchM m h) s s'' \<Longrightarrow>
    (\<exists>a. m s = (Ret a, s'')) \<or> (\<exists>e s'. m s = (Exc e, s') \<and> ends h s' s'')"
  by (fastforce simp: ends_def catchM_def bindM_def throwM_def split: prod.splits outcome.splits)

lemma catch_Ret: "catchM m h s = (Ret a, s') \<Longrightarrow> m s = (Ret a, s')"
  by (auto simp: catchM_def bindM_def throwM_def split: prod.splits outcome.splits)

lemma catch_Exc: "catchM m h s = (Exc e, s'') \<Longrightarrow> \<exists>e' s'. m s = (Exc e', s') \<and> (h s' = (Ret (), s'') \<or> h s' = (Exc e, s''))"
  by (auto simp: catchM_def bindM_def throwM_def split: prod.splits outcome.splits)

lemma bind_Ret: "m s = (Ret a, s') \<Longrightarrow> bindM m k s = k a s'"
  by (simp add: bindM_def)

lemma keepsD: "keeps R m \<Longrightarrow> ends m s s' \<Longrightarrow> R s s'"
  by (auto simp: keeps_def)

lemma keeps_Ret: "keeps R m \<Longrightarrow> m s = (Ret a, s') \<Longrightarrow> R s s'"
  by (auto simp: keeps_def ends_def)

lemma keeps_Exc: "keeps R m \<Longrightarrow> m s = (Exc e, s') \<Longrightarrow> R s s'"
  by (auto simp: keeps_def ends_def)

text \<open>A reflexive and transitive relation on states is kept by sequences, handlers and reads of computations that keep it.\<close>

locale state_frame =
  fixes R :: "'s \<Rightarrow> 's \<Rightarrow> bool"
  assumes R_refl: "R s s"
    and R_trans: "R s s' \<Longrightarrow> R s' s'' \<Longrightarrow> R s s''"
begin

lemma r_ret: "keeps R (retM a)"
  by (simp add: keeps_def R_refl)

lemma r_throw: "keeps R (throwM e)"
  by (simp add: keeps_def R_refl)

lemma r_abort: "keeps R abortM"
  by (simp add: keeps_def)

lemma r_bind: "keeps R m \<Longrightarrow> (\<And>a. keeps R (k a)) \<Longrightarrow> keeps R (bindM m k)"
  unfolding keeps_def [of R "bindM m k"] by (blast dest: ends_bind keeps_Ret keeps_Exc keepsD intro: R_trans)

lemma r_catch: "keeps R m \<Longrightarrow> keeps R h \<Longrightarrow> keeps R (catchM m h)"
  unfolding keeps_def [of R "catchM m h"] by (blast dest: ends_catch keeps_Ret keeps_Exc keepsD intro: R_trans)

lemma r_read: "(\<And>s. keeps R (f s)) \<Longrightarrow> keeps R (readM f)"
  by (auto simp: keeps_def)

lemma r_upd: "(\<And>s. R s (f s)) \<Longrightarrow> keeps R (updM f)"
  by (simp add: keeps_def)

lemma r_try: "(\<And>s s'. f s = Some s' \<Longrightarrow> R s s') \<Longrightarrow> keeps R (tryUpdM f)"
  by (simp add: keeps_def)

end

text \<open>
  What a relation has to satisfy so that every resolution keeps it: the steps that touch the
  log, the allocator, the prototype store and the thread-local store; the guard; and a claim
  that ends in a failure or in a store.
\<close>

locale resolution_frame = state_frame R
  for R :: "mstate \<Rightarrow> mstate \<Rightarrow> bool" +
  assumes R_local: "destroyed evs = [] \<Longrightarrow> R s (s\<lparr>m_next := x, m_log := m_log s @ evs, m_proto := ps, m_tl := tld\<rparr>)"
    and R_guard: "d \<notin> set (m_stack s) \<Longrightarrow> R (s\<lparr>m_stack := d # m_stack s\<rparr>) s' \<Longrightarrow> R s (s'\<lparr>m_stack := tl (m_stack s')\<rparr>)"
    and R_claim_fail: "find (\<lambda>e. me_key e = \<lparr>mk_descId = d, mk_scope = sc\<rparr>) (r_materializing (m_reg s)) = None \<Longrightarrow>
          R (claimed d sc s) s' \<Longrightarrow> R s (releaseClaim d sc s')"
    and R_claim_singleton: "find (\<lambda>e. me_key e = \<lparr>mk_descId = d, mk_scope = None\<rparr>) (r_materializing (m_reg s)) = None \<Longrightarrow>
          R (claimed d None s) s' \<Longrightarrow> singletonStore d mem s' = Some s'' \<Longrightarrow> R s (releaseClaim d None s'')"
    and R_claim_session: "find (\<lambda>e. me_key e = \<lparr>mk_descId = d, mk_scope = sc\<rparr>) (r_materializing (m_reg s)) = None \<Longrightarrow>
          R (claimed d sc s) s' \<Longrightarrow> sessionStore slot d mem s' = Some s'' \<Longrightarrow> d < dtb_size (r_descriptors (m_reg s)) \<Longrightarrow>
          d \<notin> set (m_stack s) \<Longrightarrow> slot = d_sessionSlot (dtb_at (r_descriptors (m_reg s)) d) \<Longrightarrow> sessionFind s slot = None \<Longrightarrow>
          R s (releaseClaim d sc s'')"
begin

lemma R_log: "destroyed evs = [] \<Longrightarrow> R s (s\<lparr>m_log := m_log s @ evs\<rparr>)"
  using R_local [where s = s and evs = evs and x = "m_next s" and ps = "m_proto s" and tld = "m_tl s"] by simp

lemma R_alloc: "destroyed evs = [] \<Longrightarrow> R s (s\<lparr>m_next := x, m_log := m_log s @ evs\<rparr>)"
  using R_local [where s = s and evs = evs and x = x and ps = "m_proto s" and tld = "m_tl s"] by simp

lemma R_proto: "R s (s\<lparr>m_proto := ps\<rparr>)"
  using R_local [where s = s and evs = "[]" and x = "m_next s" and ps = ps and tld = "m_tl s"] by simp

lemma R_tl: "R s (s\<lparr>m_tl := tld\<rparr>)"
  using R_local [where s = s and evs = "[]" and x = "m_next s" and ps = "m_proto s" and tld = tld] by simp

lemma r_log: "destroyed [e] = [] \<Longrightarrow> keeps R (logM e)"
  unfolding logM_def by (rule r_upd) (rule R_log)

lemma r_alloc: "keeps R (allocM d)"
  unfolding allocM_def by (intro r_read r_bind r_upd r_ret R_alloc) simp

lemma r_onProto: "keeps R (onProto f)"
  unfolding onProto_def by (rule r_try) (auto intro: R_proto)

lemma r_psAllocate: "keeps R (psAllocate u d mem)"
  by (auto simp: keeps_def ends_def psAllocate_def R_refl R_proto split: option.splits sum.splits prod.splits)

lemma r_tlFind: "keeps R (tlFind d)"
  by (auto simp: keeps_def ends_def tlFind_def R_tl split: option.splits prod.splits)

lemma r_cycleGuard: "keeps R m \<Longrightarrow> keeps R (cycleGuard d m)"
  by (auto simp: keeps_def ends_def cycleGuard_def R_refl split: if_splits prod.splits intro!: R_guard)

lemma r_actions: "(\<And>req. keeps R (res req)) \<Longrightarrow> keeps R (run_actions res as)"
  by (induction res as rule: run_actions.induct) (auto intro: r_ret r_throw r_bind)

lemma r_thunk: "(\<And>req. keeps R (res req)) \<Longrightarrow> destroyed [ev] = [] \<Longrightarrow> keeps R (runThunk u res ev th)"
  unfolding runThunk_def by (intro r_bind r_log r_actions)

lemma r_callAll: "(\<And>req. keeps R (res req)) \<Longrightarrow> keeps R (callAll u res cs)"
  by (induction cs) (auto intro!: r_ret r_bind r_log r_actions)

lemma r_dispatch: "(\<And>req. keeps R (res req)) \<Longrightarrow> keeps R (dispatchM u res ph ty sc)"
  unfolding dispatchM_def by (rule r_read) (auto intro: r_ret r_callAll split: option.splits)

lemma r_post: "(\<And>req. keeps R (res req)) \<Longrightarrow> keeps R (postConstructM u res cold mem)"
  unfolding postConstructM_def by (auto intro: r_ret r_thunk split: option.splits)

lemma r_created: "(\<And>req. keeps R (res req)) \<Longrightarrow> keeps R (createdLifecycle u res ty cold mem sc)"
  unfolding createdLifecycle_def by (intro r_bind r_dispatch r_post)

lemma r_constructThunk: "(\<And>req. keeps R (res req)) \<Longrightarrow> keeps R (constructThunk u res cold mem)"
  unfolding constructThunk_def by (auto intro: r_ret r_thunk split: option.splits)

lemma r_construct: "(\<And>req. keeps R (res req)) \<Longrightarrow> keeps R (constructM u res cold d)"
  unfolding constructM_def
  by (auto intro!: r_bind r_catch r_constructThunk r_thunk r_alloc r_log r_ret split: option.splits)

lemma r_prototypeConstruct: "(\<And>req. keeps R (res req)) \<Longrightarrow> keeps R (prototypeConstruct u res cold p)"
  unfolding prototypeConstruct_def
  by (auto intro!: r_bind r_catch r_constructThunk r_thunk r_alloc r_log r_ret r_psAllocate r_onProto split: option.splits)

lemma r_withRetained: "keeps R m \<Longrightarrow> keeps R (withRetained slot m)"
  unfolding withRetained_def Let_def by (intro r_bind r_catch r_onProto)

lemma r_prototypeLifecycle: "(\<And>req. keeps R (res req)) \<Longrightarrow> keeps R (prototypeLifecycle u res ty cold mem slot)"
  unfolding prototypeLifecycle_def Let_def
  by (rule r_read) (auto intro!: r_withRetained r_bind r_dispatch r_post r_ret)

lemma r_prototype: "(\<And>req. keeps R (res req)) \<Longrightarrow> keeps R (materializePrototype u res d p adj)"
  unfolding materializePrototype_def Let_def
  by (intro r_cycleGuard r_read r_bind) (auto intro!: r_prototypeConstruct r_bind r_onProto r_prototypeLifecycle r_ret)

lemma r_claim:
  assumes res: "\<And>req. keeps R (res req)"
    and pub: "\<And>s' s'' mem. find (\<lambda>e. me_key e = \<lparr>mk_descId = d, mk_scope = sc\<rparr>) (r_materializing (m_reg s)) = None \<Longrightarrow>
          d \<notin> set (m_stack s) \<Longrightarrow> look s = None \<Longrightarrow>
          R (claimed d sc s) s' \<Longrightarrow> publish mem s' = Some s'' \<Longrightarrow> R s (releaseClaim d sc s'')"
    and ends: "ends (claimAndMaterialize u res d sc cold ok look publish em) s s''"
  shows "R s s''"
proof -
  define rest where "rest mem = bindM (createdLifecycle u res (c_exposedType cold) cold mem em) (\<lambda>_. retM mem)" for mem
  define pubM where "pubM mem = bindM (tryUpdM (\<lambda>s. map_option (releaseClaim d sc) (publish mem s))) (\<lambda>_. rest mem)" for mem
  define con where "con = catchM (constructM u res cold d) (updM (releaseClaim d sc))"
  have rest: "keeps R (rest mem)" for mem unfolding rest_def by (intro r_bind r_created res r_ret)
  have construct: "keeps R (constructM u res cold d)" by (rule r_construct [OF res])
  have body: "R s s''"
    if none: "find (\<lambda>e. me_key e = \<lparr>mk_descId = d, mk_scope = sc\<rparr>) (r_materializing (m_reg s)) = None"
      and new: "d \<notin> set (m_stack s)" "look s = None" and run: "ends (bindM con pubM) (claimed d sc s) s''"
    using ends_bind [OF run]
  proof (elim disjE exE conjE)
    fix e assume "con (claimed d sc s) = (Exc e, s'')"
    then obtain e' s1 where "constructM u res cold d (claimed d sc s) = (Exc e', s1)" "s'' = releaseClaim d sc s1"
      unfolding con_def by (auto dest!: catch_Exc simp: updM_def)
    then show ?thesis using keeps_Exc [OF construct] R_claim_fail [OF none] by blast
  next
    fix mem s1 assume c: "con (claimed d sc s) = (Ret mem, s1)" and p: "ends (pubM mem) s1 s''"
    have R1: "R (claimed d sc s) s1" by (rule keeps_Ret [OF construct catch_Ret [OF c [unfolded con_def]]])
    from ends_bind [OF p [unfolded pubM_def]] obtain s2 where "publish mem s1 = Some s2" "ends (rest mem) (releaseClaim d sc s2) s''"
      by (auto simp: tryUpdM_def split: option.splits)
    then show ?thesis by (intro R_trans [OF pub [OF none new R1] keepsD [OF rest]])
  qed
  show ?thesis using ends body
    by (auto simp: claimAndMaterialize_def claimMaterialization_def Let_def pubM_def [symmetric] rest_def [symmetric]
          con_def [symmetric] R_refl split: if_splits option.splits dest!: ends_bind)
qed

lemma r_singleton:
  assumes "\<And>req. keeps R (res req)"
  shows "keeps R (materializeSingleton u res d)"
proof -
  have "keeps R (claimAndMaterialize u res d None cold ok (singletonFind d) (singletonStore d) em)" for cold ok em
    unfolding keeps_def
  proof (intro allI impI)
    fix s s' assume e: "ends (claimAndMaterialize u res d None cold ok (singletonFind d) (singletonStore d) em) s s'"
    show "R s s'" by (rule r_claim [OF assms _ e]) (rule R_claim_singleton)
  qed
  then show ?thesis unfolding materializeSingleton_def Let_def by (intro r_read r_bind r_ret)
qed

lemma r_session:
  assumes "\<And>req. keeps R (res req)"
  shows "keeps R (materializeSessionInstance u res d scope)"
  unfolding keeps_def
proof (intro allI impI)
  fix s s' assume e: "ends (materializeSessionInstance u res d scope) s s'"
  let ?p = "primaryOf (m_reg s) d"
  let ?slot = "d_sessionSlot (dtb_at (r_descriptors (m_reg s)) ?p)" and ?cold = "dtb_coldAt (r_descriptors (m_reg s)) ?p"
  have "R s s'" if p: "?p < dtb_size (r_descriptors (m_reg s))"
    and "ends (claimAndMaterialize u res ?p (Some (sc_self scope)) ?cold True (\<lambda>s. sessionFind s ?slot) (sessionStore ?slot ?p) (sc_scopeNameId scope)) s s'"
    by (rule r_claim [OF assms _ that(2)]) (auto intro: R_claim_session p)
  then show "R s s'" using e
    by (auto simp: materializeSessionInstance_def Let_def R_refl split: if_splits option.splits)
qed

lemma r_threadLocal: "(\<And>req. keeps R (res req)) \<Longrightarrow> keeps R (materializeThreadLocalInstance u res d)"
  unfolding materializeThreadLocalInstance_def Let_def
  by (rule r_read)
     (auto intro!: r_abort r_bind r_tlFind r_ret r_cycleGuard r_construct r_upd R_tl r_created split: option.splits)

lemma r_sessionCase: "(\<And>req. keeps R (res req)) \<Longrightarrow> keeps R (sessionCase u res d p)"
  unfolding sessionCase_def by (rule r_read) (auto intro!: r_throw r_bind r_session r_ret split: option.splits)

lemma r_threadLocalCase: "(\<And>req. keeps R (res req)) \<Longrightarrow> keeps R (threadLocalCase u res d p)"
  unfolding threadLocalCase_def by (intro r_bind r_threadLocal r_ret)

lemma r_singletonAlias: "(\<And>req. keeps R (res req)) \<Longrightarrow> keeps R (singletonAlias res d p)"
  unfolding singletonAlias_def Let_def by (rule r_read) (auto intro!: r_bind r_ret split: option.splits)

lemma r_materializeOneImpl: "(\<And>req. keeps R (res req)) \<Longrightarrow> keeps R (materializeOneImpl u res d)"
  unfolding materializeOneImpl_def Let_def
  by (rule r_read) (auto intro!: r_abort r_ret r_singletonAlias r_singleton r_prototype r_sessionCase r_threadLocalCase
      split: option.splits Lifetime.splits)

lemma r_resolve: "(\<And>req. keeps R (res req)) \<Longrightarrow> keeps R (registry_resolve u res t n)"
  unfolding registry_resolve_def Let_def
  by (rule r_read) (auto intro!: r_throw r_abort r_ret r_materializeOneImpl r_sessionCase r_threadLocalCase
      split: option.splits sum.splits Lifetime.splits)

theorem run_keeps: "keeps R (run u f req)"
proof (induction f arbitrary: req)
  case 0
  then show ?case by (simp add: keeps_def ends_def)
next
  case (Suc f)
  then show ?case by (cases req) (simp_all add: r_resolve r_materializeOneImpl)
qed

end

subsection \<open>The frame of a resolution\<close>

text \<open>
  What is the same after a resolution: everything in the registry but the singletons, the
  stack, the listeners, the identity of the scope. Instances that were stored stay stored,
  the singleton store keeps its invariant and its log only grows.
\<close>

definition scope_frame :: "scoped option \<Rightarrow> scoped option \<Rightarrow> bool" where
  "scope_frame a b \<longleftrightarrow> (case a of None \<Rightarrow> b = None | Some sc \<Rightarrow>
     \<exists>st. b = Some (sc\<lparr>sc_sessionStore := st\<rparr>)
       \<and> (ses_wf (sc_sessionStore sc) \<longrightarrow> ses_wf st
            \<and> (\<forall>k. ses_find (sc_sessionStore sc) k \<noteq> None \<longrightarrow> ses_find st k \<noteq> None)))"

definition singleton_frame :: "singleton_store \<Rightarrow> singleton_store \<Rightarrow> bool" where
  "singleton_frame a b \<longleftrightarrow> (ss_inv a \<longrightarrow> ss_inv b \<and> (\<forall>d p. ss_find a d = Some p \<longrightarrow> ss_find b d = Some p)
     \<and> (\<exists>xs. ss_insertionOrder b = ss_insertionOrder a @ xs))"

definition reg_frame :: "registry \<Rightarrow> registry \<Rightarrow> bool" where
  "reg_frame a b \<longleftrightarrow> (\<exists>ss. b = a\<lparr>r_singletons := ss\<rparr> \<and> singleton_frame (r_singletons a) ss)"

definition frame :: "mstate \<Rightarrow> mstate \<Rightarrow> bool" where
  "frame s s' \<longleftrightarrow>
     reg_frame (m_reg s) (m_reg s') \<and> m_stack s' = m_stack s \<and> m_listeners s' = m_listeners s \<and> m_token s' = m_token s
     \<and> m_registryId s' = m_registryId s
     \<and> scope_frame (m_scope s) (m_scope s')"

lemma singleton_frame_refl: "singleton_frame a a"
  by (simp add: singleton_frame_def)

lemma singleton_frame_trans: "singleton_frame a b \<Longrightarrow> singleton_frame b c \<Longrightarrow> singleton_frame a c"
  by (fastforce simp: singleton_frame_def)

lemma singleton_frame_store: "ss_store a d m = Some b \<Longrightarrow> singleton_frame a b"
  by (auto simp: singleton_frame_def ss_store_inv)

lemma scope_frame_refl: "scope_frame a a"
proof (cases a)
  case (Some sc)
  have "\<exists>st. sc = sc\<lparr>sc_sessionStore := st\<rparr> \<and> (ses_wf (sc_sessionStore sc) \<longrightarrow> ses_wf st
      \<and> (\<forall>k. ses_find (sc_sessionStore sc) k \<noteq> None \<longrightarrow> ses_find st k \<noteq> None))"
    by (rule exI [of _ "sc_sessionStore sc"]) simp
  then show ?thesis by (simp add: scope_frame_def Some)
qed (simp add: scope_frame_def)

lemma scope_frame_trans: "scope_frame a b \<Longrightarrow> scope_frame b c \<Longrightarrow> scope_frame a c"
  by (fastforce simp: scope_frame_def split: option.splits)

lemma scope_frame_store:
  assumes "sessionStore slot d mem s = Some s'"
  shows "scope_frame (m_scope s) (m_scope s')"
  using assms ses_store_wf by (fastforce simp: sessionStore_def scope_frame_def split: option.splits)

lemma reg_frame_refl: "reg_frame a a"
  unfolding reg_frame_def by (rule exI [of _ "r_singletons a"]) (simp add: singleton_frame_refl)

lemma reg_frame_trans: "reg_frame a b \<Longrightarrow> reg_frame b c \<Longrightarrow> reg_frame a c"
  unfolding reg_frame_def using singleton_frame_trans by fastforce

text \<open>A claim and its release cancel out, whatever was stored in between.\<close>

lemma reg_frame_release:
  assumes none: "find (\<lambda>e. me_key e = \<lparr>mk_descId = d, mk_scope = sc\<rparr>) (r_materializing (m_reg s)) = None"
    and fr: "reg_frame (m_reg (claimed d sc s)) (m_reg s')" and s'': "m_reg s'' = (m_reg s')\<lparr>r_singletons := ss\<rparr>"
      "singleton_frame (r_singletons (m_reg s')) ss"
  shows "reg_frame (m_reg s) (m_reg (releaseClaim d sc s''))"
proof -
  obtain ss0 where ss0: "m_reg s' = (m_reg (claimed d sc s))\<lparr>r_singletons := ss0\<rparr>"
    "singleton_frame (r_singletons (m_reg (claimed d sc s))) ss0"
    using fr by (auto simp: reg_frame_def)
  have "m_reg (releaseClaim d sc s'') = (m_reg s)\<lparr>r_singletons := ss\<rparr>"
    using swap_remove_first_snoc [OF none] by (simp add: releaseClaim_def s''(1) ss0(1) claimed_def)
  moreover have "singleton_frame (r_singletons (m_reg s)) ss"
    using singleton_frame_trans [OF ss0(2)] s''(2) ss0(1) by (simp add: claimed_def)
  ultimately show ?thesis by (auto simp: reg_frame_def)
qed

lemma frame_release:
  assumes none: "find (\<lambda>e. me_key e = \<lparr>mk_descId = d, mk_scope = sc\<rparr>) (r_materializing (m_reg s)) = None"
    and fr: "frame (claimed d sc s) s'" and s'': "m_reg s'' = (m_reg s')\<lparr>r_singletons := ss\<rparr>"
      "singleton_frame (r_singletons (m_reg s')) ss" "m_stack s'' = m_stack s'" "m_listeners s'' = m_listeners s'"
      "m_token s'' = m_token s'" "m_registryId s'' = m_registryId s'" "scope_frame (m_scope s') (m_scope s'')"
  shows "frame s (releaseClaim d sc s'')"
proof -
  have "reg_frame (m_reg s) (m_reg (releaseClaim d sc s''))"
    using reg_frame_release [OF none _ s''(1,2)] fr by (simp add: frame_def)
  moreover have "scope_frame (m_scope s) (m_scope s'')"
    using scope_frame_trans [OF _ s''(7)] fr by (simp add: frame_def claimed_def)
  ultimately show ?thesis using fr s''(3-6) by (simp add: frame_def releaseClaim_def claimed_def)
qed

lemma frame_claim_session:
  assumes none: "find (\<lambda>e. me_key e = \<lparr>mk_descId = d, mk_scope = sc\<rparr>) (r_materializing (m_reg s)) = None"
    and fr: "frame (claimed d sc s) s'" and st: "sessionStore slot d mem s' = Some s''"
  shows "frame s (releaseClaim d sc s'')"
proof -
  have "s'' = s'\<lparr>m_scope := m_scope s''\<rparr>" using st by (auto simp: sessionStore_def split: option.splits)
  then have "m_reg s'' = m_reg s'" "m_stack s'' = m_stack s'" "m_listeners s'' = m_listeners s'"
    "m_token s'' = m_token s'" "m_registryId s'' = m_registryId s'" by (metis mstate.select_convs mstate.surjective mstate.update_convs(7))+
  then show ?thesis
    by (intro frame_release [OF none fr, where ss = "r_singletons (m_reg s')"])
       (simp_all add: singleton_frame_refl scope_frame_store [OF st])
qed

interpretation fr: resolution_frame frame
proof (unfold_locales, goal_cases)
  case (1 s)
  show ?case by (simp add: frame_def reg_frame_refl scope_frame_refl)
next
  case (2 s s' s'')
  then show ?case using reg_frame_trans scope_frame_trans unfolding frame_def by metis
next
  case (3 evs s x ps tld)
  show ?case by (simp add: frame_def reg_frame_refl scope_frame_refl)
next
  case (4 d s s')
  then show ?case by (simp add: frame_def)
next
  case (5 d sc s s')
  show ?case by (rule frame_release [OF 5, where ss = "r_singletons (m_reg s')"])
      (simp_all add: singleton_frame_refl scope_frame_refl)
next
  case (6 d s s' mem s'')
  then obtain ss where "ss_store (r_singletons (m_reg s')) d mem = Some ss" "s'' = s'\<lparr>m_reg := (m_reg s')\<lparr>r_singletons := ss\<rparr>\<rparr>"
    by (auto simp: singletonStore_def)
  then show ?case
    by (intro frame_release [OF 6(1,2), where ss = ss]) (simp_all add: singleton_frame_store scope_frame_refl)
next
  case (7 d sc s s' slot mem s'')
  then show ?case by (intro frame_claim_session)
qed

subsection \<open>Termination\<close>

text \<open>
  A descriptor is in progress when it is on the stack or its instance is already stored. User
  code runs for a descriptor only when it was not in progress, and the descriptor is in progress
  while its user code runs; so the number of descriptors not in progress bounds the depth
  of nested resolutions.
\<close>

definition in_progress :: "mstate \<Rightarrow> DescriptorId \<Rightarrow> bool" where
  "in_progress s d \<longleftrightarrow> d \<in> set (m_stack s)
     \<or> (dtb_lifetimeOf (r_descriptors (m_reg s)) d = Singleton \<and> singletonFind d s \<noteq> None)
     \<or> (dtb_lifetimeOf (r_descriptors (m_reg s)) d = Session
          \<and> sessionFind s (d_sessionSlot (dtb_at (r_descriptors (m_reg s)) d)) \<noteq> None)"

definition idle :: "mstate \<Rightarrow> DescriptorId set" where
  "idle s = {d. d < dtb_size (r_descriptors (m_reg s)) \<and> \<not> in_progress s d}"

text \<open>The primary of an alias is no alias itself and has the same lifetime.\<close>

definition aliases_wf :: "registry \<Rightarrow> bool" where
  "aliases_wf r \<longleftrightarrow> (\<forall>d < dtb_size (r_descriptors r).
     primaryOf r (primaryOf r d) = primaryOf r d
     \<and> dtb_lifetimeOf (r_descriptors r) (primaryOf r d) = dtb_lifetimeOf (r_descriptors r) d)"

definition mstate_ok :: "mstate \<Rightarrow> bool" where
  "mstate_ok s \<longleftrightarrow> ss_inv (r_singletons (m_reg s)) \<and> aliases_wf (m_reg s)
     \<and> (\<forall>sc. m_scope s = Some sc \<longrightarrow> ses_wf (sc_sessionStore sc))"

lemma finite_idle [simp]: "finite (idle s)"
  by (simp add: idle_def)

lemma frame_reg:
  assumes "frame s s'"
  shows "r_descriptors (m_reg s') = r_descriptors (m_reg s)" "primaryOf (m_reg s') = primaryOf (m_reg s)"
    "aliases_wf (m_reg s') = aliases_wf (m_reg s)"
proof -
  obtain ss where "m_reg s' = (m_reg s)\<lparr>r_singletons := ss\<rparr>" using assms by (auto simp: frame_def reg_frame_def)
  then show "r_descriptors (m_reg s') = r_descriptors (m_reg s)" "primaryOf (m_reg s') = primaryOf (m_reg s)"
    "aliases_wf (m_reg s') = aliases_wf (m_reg s)"
    by (simp_all add: primaryOf_def aliases_wf_def fun_eq_iff)
qed

lemma frame_ok:
  assumes fr: "frame s s'" and ok: "mstate_ok s"
  shows "mstate_ok s'" "in_progress s d \<Longrightarrow> in_progress s' d" "idle s' \<subseteq> idle s"
proof -
  have sf: "singleton_frame (r_singletons (m_reg s)) (r_singletons (m_reg s'))"
    using fr by (auto simp: frame_def reg_frame_def)
  have inv: "ss_inv (r_singletons (m_reg s))" using ok by (simp add: mstate_ok_def)
  have scf: "scope_frame (m_scope s) (m_scope s')" and st: "m_stack s' = m_stack s" using fr by (auto simp: frame_def)
  have ses: "sessionFind s k \<noteq> None \<Longrightarrow> sessionFind s' k \<noteq> None" for k
    using scf ok by (auto simp: sessionFind_def scope_frame_def mstate_ok_def split: option.splits)
  show "mstate_ok s'"
    using ok sf scf frame_reg [OF fr] by (auto simp: mstate_ok_def singleton_frame_def scope_frame_def split: option.splits)
  have sing: "singletonFind e s \<noteq> None \<Longrightarrow> singletonFind e s' \<noteq> None" for e
    using sf inv by (auto simp: singletonFind_def singleton_frame_def)
  show ip: "in_progress s' d" if "in_progress s d" for d
    using that ses sing unfolding in_progress_def st frame_reg [OF fr] by blast
  show "idle s' \<subseteq> idle s" using ip by (auto simp: idle_def frame_reg [OF fr])
qed

lemma idle_less:
  assumes sub: "idle s' \<subseteq> idle s" and d: "d \<in> idle s" "d \<notin> idle s'" and k: "card (idle s) \<le> k"
  shows "0 < k" "card (idle s') \<le> k - 1"
proof -
  have "idle s' \<subset> idle s" using sub d by blast
  then have "card (idle s') < card (idle s)" by (rule psubset_card_mono [OF finite_idle])
  with k show "0 < k" "card (idle s') \<le> k - 1" by auto
qed

text \<open>Computations that do not run out of fuel from a state with at most \<open>k\<close> idle descriptors.\<close>

definition halts :: "nat \<Rightarrow> 'a comp \<Rightarrow> bool" where
  "halts k m \<longleftrightarrow> (\<forall>s. mstate_ok s \<longrightarrow> card (idle s) \<le> k \<longrightarrow> fst (m s) \<noteq> Fuel)"

definition good :: "nat \<Rightarrow> 'a comp \<Rightarrow> bool" where
  "good k m \<longleftrightarrow> keeps frame m \<and> halts k m"

lemma halts_pass:
  assumes "frame s s'" "mstate_ok s" "card (idle s) \<le> k" "halts k m"
  shows "fst (m s') \<noteq> Fuel"
proof -
  note fo = frame_ok [OF assms(1,2)]
  have "card (idle s') \<le> k" using card_mono [OF finite_idle fo(3)] assms(3) by simp
  then show ?thesis using assms(4) fo(1) by (simp add: halts_def)
qed

lemma bind_fuel:
  assumes "fst (m s) \<noteq> Fuel" "\<And>a s'. m s = (Ret a, s') \<Longrightarrow> fst (k a s') \<noteq> Fuel"
  shows "fst (bindM m k s) \<noteq> Fuel"
  using assms by (cases "m s"; cases "fst (m s)") (auto simp: bindM_def)

lemma catch_fuel:
  assumes "fst (m s) \<noteq> Fuel" "\<And>e s'. m s = (Exc e, s') \<Longrightarrow> fst (h s') \<noteq> Fuel"
  shows "fst (catchM m h s) \<noteq> Fuel"
  using assms by (cases "m s"; cases "fst (m s)") (auto simp: catchM_def bindM_def throwM_def split: prod.splits outcome.splits)

lemma goodI: "keeps frame m \<Longrightarrow> (\<And>s. mstate_ok s \<Longrightarrow> card (idle s) \<le> k \<Longrightarrow> fst (m s) \<noteq> Fuel) \<Longrightarrow> good k m"
  by (simp add: good_def halts_def)

lemma goodD: "good k m \<Longrightarrow> mstate_ok s \<Longrightarrow> card (idle s) \<le> k \<Longrightarrow> fst (m s) \<noteq> Fuel"
  by (simp add: good_def halts_def)

lemma good_keeps: "good k m \<Longrightarrow> keeps frame m"
  by (simp add: good_def)

lemma good_pass: "frame s s' \<Longrightarrow> mstate_ok s \<Longrightarrow> card (idle s) \<le> k \<Longrightarrow> good k m \<Longrightarrow> fst (m s') \<noteq> Fuel"
  unfolding good_def using halts_pass by blast

lemma g_bind:
  assumes m: "good k m" and K: "\<And>a. good k (K a)"
  shows "good k (bindM m K)"
proof (rule goodI)
  show "keeps frame (bindM m K)" by (rule fr.r_bind [OF good_keeps [OF m] good_keeps [OF K]])
  fix s assume s: "mstate_ok s" "card (idle s) \<le> k"
  show "fst (bindM m K s) \<noteq> Fuel"
  proof (rule bind_fuel)
    fix a s' assume "m s = (Ret a, s')"
    then have "frame s s'" by (rule keeps_Ret [OF good_keeps [OF m]])
    then show "fst (K a s') \<noteq> Fuel" using s K by (rule good_pass)
  qed (rule goodD [OF m s])
qed

lemma g_catch:
  assumes m: "good k m" and h: "good k h"
  shows "good k (catchM m h)"
proof (rule goodI)
  show "keeps frame (catchM m h)" by (rule fr.r_catch [OF good_keeps [OF m] good_keeps [OF h]])
  fix s assume s: "mstate_ok s" "card (idle s) \<le> k"
  show "fst (catchM m h s) \<noteq> Fuel"
  proof (rule catch_fuel)
    fix e s' assume "m s = (Exc e, s')"
    then have "frame s s'" by (rule keeps_Exc [OF good_keeps [OF m]])
    then show "fst (h s') \<noteq> Fuel" using s h by (rule good_pass)
  qed (rule goodD [OF m s])
qed

lemma g_read: "(\<And>s. good k (f s)) \<Longrightarrow> good k (readM f)"
  unfolding good_def using fr.r_read by (auto simp: halts_def readM_def)

lemma good_basic:
  shows g_ret: "good k (retM a)" and g_throw: "good k (throwM e)" and g_abort: "good k abortM" and g_log: "destroyed [ev] = [] \<Longrightarrow> good k (logM ev)"
    and g_alloc: "good k (allocM d)" and g_onProto: "good k (onProto f)" and g_psAllocate: "good k (psAllocate u d mem)"
    and g_tlFind: "good k (tlFind d)" and g_tl: "good k (updM (\<lambda>s. s\<lparr>m_tl := g s\<rparr>))"
proof -
  note unfold = retM_def throwM_def abortM_def logM_def updM_def allocM_def readM_def bindM_def onProto_def tryUpdM_def
    psAllocate_def tlFind_def
  note splits = option.splits sum.splits prod.splits
  show "good k (retM a)" by (rule goodI [OF fr.r_ret]) (simp add: unfold)
  show "good k (throwM e)" by (rule goodI [OF fr.r_throw]) (simp add: unfold)
  show "good k abortM" by (rule goodI [OF fr.r_abort]) (simp add: unfold)
  show "destroyed [ev] = [] \<Longrightarrow> good k (logM ev)" by (rule goodI, erule fr.r_log) (simp add: unfold)
  show "good k (allocM d)" by (rule goodI [OF fr.r_alloc]) (simp add: unfold)
  show "good k (onProto f)" by (rule goodI [OF fr.r_onProto]) (simp add: unfold split: splits)
  show "good k (psAllocate u d mem)" by (rule goodI [OF fr.r_psAllocate]) (simp add: unfold split: splits)
  show "good k (tlFind d)" by (rule goodI [OF fr.r_tlFind]) (simp add: unfold split: splits)
  show "good k (updM (\<lambda>s. s\<lparr>m_tl := g s\<rparr>))" by (rule goodI [OF fr.r_upd [OF fr.R_tl]]) (simp add: unfold)
qed

lemma g_actions: "(\<And>req. good k (res req)) \<Longrightarrow> good k (run_actions res as)"
  by (induction res as rule: run_actions.induct) (auto intro: good_basic g_bind)

lemma g_thunk: "(\<And>req. good k (res req)) \<Longrightarrow> destroyed [ev] = [] \<Longrightarrow> good k (runThunk u res ev th)"
  unfolding runThunk_def by (intro g_bind good_basic g_actions)

lemma g_callAll: "(\<And>req. good k (res req)) \<Longrightarrow> good k (callAll u res cs)"
  by (induction cs) (auto intro!: good_basic g_bind g_actions)

lemma g_dispatch: "(\<And>req. good k (res req)) \<Longrightarrow> good k (dispatchM u res ph ty sc)"
  unfolding dispatchM_def by (rule g_read) (auto intro: good_basic g_callAll split: option.splits)

lemma g_post: "(\<And>req. good k (res req)) \<Longrightarrow> good k (postConstructM u res cold mem)"
  unfolding postConstructM_def by (auto intro: good_basic g_thunk split: option.splits)

lemma g_created: "(\<And>req. good k (res req)) \<Longrightarrow> good k (createdLifecycle u res ty cold mem sc)"
  unfolding createdLifecycle_def by (intro g_bind g_dispatch g_post)

lemma g_constructThunk: "(\<And>req. good k (res req)) \<Longrightarrow> good k (constructThunk u res cold mem)"
  unfolding constructThunk_def by (auto intro: good_basic g_thunk split: option.splits)

lemma g_construct: "(\<And>req. good k (res req)) \<Longrightarrow> good k (constructM u res cold d)"
  unfolding constructM_def
  by (auto intro!: g_bind g_catch g_constructThunk g_thunk good_basic split: option.splits)

lemma g_prototypeConstruct: "(\<And>req. good k (res req)) \<Longrightarrow> good k (prototypeConstruct u res cold p)"
  unfolding prototypeConstruct_def
  by (auto intro!: g_bind g_catch g_constructThunk g_thunk good_basic split: option.splits)

lemma g_prototypeLifecycle: "(\<And>req. good k (res req)) \<Longrightarrow> good k (prototypeLifecycle u res ty cold mem slot)"
  unfolding prototypeLifecycle_def withRetained_def Let_def
  by (rule g_read) (auto intro!: g_catch g_bind g_dispatch g_post good_basic)

text \<open>The resolver that nested user code calls, with one idle descriptor less.\<close>

definition nested :: "nat \<Rightarrow> resolver \<Rightarrow> bool" where
  "nested k res \<longleftrightarrow> (\<forall>req. 0 < k \<longrightarrow> good (k - 1) (res req))"

lemma nestedD: "nested k res \<Longrightarrow> 0 < k \<Longrightarrow> good (k - 1) (res req)"
  by (simp add: nested_def)

lemma bind_ret_fuel [simp]: "fst (bindM m (\<lambda>a. retM (f a)) s) = Fuel \<longleftrightarrow> fst (m s) = Fuel"
  by (cases "m s"; cases "fst (m s)") (auto simp: bindM_def retM_def)

lemma push_idle:
  assumes ok: "mstate_ok s" and d: "d \<in> idle s" and k: "card (idle s) \<le> k"
  shows "mstate_ok (s\<lparr>m_stack := d # m_stack s\<rparr>)" "0 < k" "card (idle (s\<lparr>m_stack := d # m_stack s\<rparr>)) \<le> k - 1"
proof -
  let ?s = "s\<lparr>m_stack := d # m_stack s\<rparr>"
  show "mstate_ok ?s" using ok by (simp add: mstate_ok_def)
  have "idle ?s \<subseteq> idle s" "d \<notin> idle ?s"
    by (auto simp: idle_def in_progress_def singletonFind_def sessionFind_def)
  from idle_less [OF this(1) d this(2) k] show "0 < k" "card (idle ?s) \<le> k - 1" .
qed

lemma claimed_idle:
  assumes ok: "mstate_ok s" and d: "d \<in> idle s" and k: "card (idle s) \<le> k"
  shows "mstate_ok (claimed d sc s)" "0 < k" "card (idle (claimed d sc s)) \<le> k - 1"
proof -
  show "mstate_ok (claimed d sc s)"
    using ok by (simp add: mstate_ok_def claimed_def aliases_wf_def primaryOf_def)
  have "idle (claimed d sc s) \<subseteq> idle s" "d \<notin> idle (claimed d sc s)"
    by (auto simp: idle_def in_progress_def singletonFind_def sessionFind_def claimed_def)
  from idle_less [OF this(1) d this(2) k] show "0 < k" "card (idle (claimed d sc s)) \<le> k - 1" .
qed

lemma guard_fuel:
  assumes body: "0 < k \<Longrightarrow> good (k - 1) body" and ok: "mstate_ok s" and k: "card (idle s) \<le> k"
    and d: "d < dtb_size (r_descriptors (m_reg s))" "dtb_lifetimeOf (r_descriptors (m_reg s)) d \<in> {Prototype, ThreadLocal}"
  shows "fst (cycleGuard d body s) \<noteq> Fuel"
proof (cases "d \<in> set (m_stack s)")
  case False
  then have "d \<in> idle s" using d by (auto simp: idle_def in_progress_def)
  note push = push_idle [OF ok this k]
  have "fst (body (s\<lparr>m_stack := d # m_stack s\<rparr>)) \<noteq> Fuel" by (rule goodD [OF body [OF push(2)] push(1,3)])
  then show ?thesis using False by (cases "body (s\<lparr>m_stack := d # m_stack s\<rparr>)") (simp add: cycleGuard_def)
qed (simp add: cycleGuard_def)

lemma claim_fuel:
  assumes res: "nested k res" and ok: "mstate_ok s" and k: "card (idle s) \<le> k"
    and d0: "d \<notin> set (m_stack s) \<Longrightarrow> look s = None \<Longrightarrow> d \<in> idle s"
    and pub: "\<And>s s' s'' mem. find (\<lambda>e. me_key e = \<lparr>mk_descId = d, mk_scope = sc\<rparr>) (r_materializing (m_reg s)) = None \<Longrightarrow>
          frame (claimed d sc s) s' \<Longrightarrow> publish mem s' = Some s'' \<Longrightarrow> frame s (releaseClaim d sc s'')"
    and stored: "\<And>s' s'' mem. frame (claimed d sc s) s' \<Longrightarrow> publish mem s' = Some s'' \<Longrightarrow> in_progress (releaseClaim d sc s'') d"
  shows "fst (claimAndMaterialize u res d sc cold okc look publish em s) \<noteq> Fuel"
proof (cases "d \<notin> set (m_stack s) \<and> look s = None \<and> okc
    \<and> find (\<lambda>e. me_key e = \<lparr>mk_descId = d, mk_scope = sc\<rparr>) (r_materializing (m_reg s)) = None")
  case False
  then show ?thesis
    by (auto simp: claimAndMaterialize_def readM_def claimMaterialization_def Let_def bindM_def abortM_def retM_def
        split: option.splits)
next
  case True
  then have none: "find (\<lambda>e. me_key e = \<lparr>mk_descId = d, mk_scope = sc\<rparr>) (r_materializing (m_reg s)) = None" by simp
  have d: "d \<in> idle s" using True d0 by simp
  note cl = claimed_idle(1) [OF ok d k, where sc = sc] claimed_idle(2) [OF ok d k] claimed_idle(3) [OF ok d k, where sc = sc]
  note res1 = nestedD [OF res cl(2)]
  have con: "good (k - 1) (constructM u res cold d)" by (rule g_construct [OF res1])
  have created: "good (k - 1) (createdLifecycle u res (c_exposedType cold) cold mem em)" for mem by (rule g_created [OF res1])
  have d': "d \<notin> set (m_stack s)" using d by (auto simp: idle_def in_progress_def)
  have claim: "claimMaterialization d sc (look s) s = (Ret True, claimed d sc s)"
    using True d' by (simp add: claimMaterialization_def Let_def)
  define rest where "rest mem = bindM (createdLifecycle u res (c_exposedType cold) cold mem em) (\<lambda>_. retM mem)" for mem
  have run: "claimAndMaterialize u res d sc cold okc look publish em s =
     bindM (catchM (constructM u res cold d) (updM (releaseClaim d sc))) (\<lambda>mem.
            bindM (tryUpdM (\<lambda>s. map_option (releaseClaim d sc) (publish mem s))) (\<lambda>_. rest mem)) (claimed d sc s)"
    unfolding claimAndMaterialize_def readM_def rest_def bind_Ret [of "claimMaterialization d sc (look s)" s, OF claim]
    using True by simp
  show ?thesis unfolding run
  proof (intro bind_fuel catch_fuel)
    show "fst (constructM u res cold d (claimed d sc s)) \<noteq> Fuel" by (rule goodD [OF con cl(1,3)])
    fix mem s1 a s3
    assume c: "catchM (constructM u res cold d) (updM (releaseClaim d sc)) (claimed d sc s) = (Ret mem, s1)"
      and t: "tryUpdM (\<lambda>s. map_option (releaseClaim d sc) (publish mem s)) s1 = (Ret a, s3)"
    have fr1: "frame (claimed d sc s) s1" by (rule keeps_Ret [OF good_keeps [OF con] catch_Ret [OF c]])
    from t obtain s2 where s2: "publish mem s1 = Some s2" "s3 = releaseClaim d sc s2"
      by (auto simp: tryUpdM_def split: option.splits)
    have fr3: "frame s s3" unfolding s2(2) by (rule pub [OF none fr1 s2(1)])
    have "in_progress s3 d" unfolding s2(2) by (rule stored [OF fr1 s2(1)])
    then have "d \<notin> idle s3" by (simp add: idle_def)
    from idle_less(2) [OF frame_ok(3) [OF fr3 ok] d this k] have "card (idle s3) \<le> k - 1" .
    moreover have "good (k - 1) (rest mem)" unfolding rest_def by (intro g_bind created g_ret)
    ultimately show "fst (rest mem s3) \<noteq> Fuel" using frame_ok(1) [OF fr3 ok] by (intro goodD)
  qed (simp_all add: updM_def tryUpdM_def split: option.splits)
qed

lemma singleton_stored:
  assumes fr: "frame (claimed d sc s) s'" and ok: "mstate_ok s" and st: "singletonStore d mem s' = Some s''"
    and life: "dtb_lifetimeOf (r_descriptors (m_reg s)) d = Singleton"
  shows "in_progress (releaseClaim d sc s'') d"
proof -
  have "mstate_ok (claimed d sc s)" using ok by (simp add: mstate_ok_def claimed_def aliases_wf_def primaryOf_def)
  then have "mstate_ok s'" by (rule frame_ok(1) [OF fr])
  then have inv: "ss_inv (r_singletons (m_reg s'))" by (simp add: mstate_ok_def)
  have dt: "r_descriptors (m_reg s') = r_descriptors (m_reg s)" using frame_reg(1) [OF fr] by (simp add: claimed_def)
  obtain ss where ss: "ss_store (r_singletons (m_reg s')) d mem = Some ss" "s'' = s'\<lparr>m_reg := (m_reg s')\<lparr>r_singletons := ss\<rparr>\<rparr>"
    using st by (auto simp: singletonStore_def)
  show ?thesis using ss_store_inv(4) [OF inv ss(1), of d] life
    by (simp add: in_progress_def releaseClaim_def singletonFind_def ss(2) dt)
qed

lemma session_stored:
  assumes fr: "frame (claimed d sc s) s'" and ok: "mstate_ok s"
    and st: "sessionStore (d_sessionSlot (dtb_at (r_descriptors (m_reg s)) d)) d mem s' = Some s''"
    and life: "dtb_lifetimeOf (r_descriptors (m_reg s)) d = Session"
  shows "in_progress (releaseClaim d sc s'') d"
proof -
  have "mstate_ok (claimed d sc s)" using ok by (simp add: mstate_ok_def claimed_def aliases_wf_def primaryOf_def)
  then have "mstate_ok s'" by (rule frame_ok(1) [OF fr])
  then have wf: "m_scope s' = Some b \<Longrightarrow> ses_wf (sc_sessionStore b)" for b by (simp add: mstate_ok_def)
  have dt: "r_descriptors (m_reg s') = r_descriptors (m_reg s)" using frame_reg(1) [OF fr] by (simp add: claimed_def)
  let ?slot = "d_sessionSlot (dtb_at (r_descriptors (m_reg s)) d)"
  obtain b ses where b: "m_scope s' = Some b" "ses_store (sc_sessionStore b) ?slot d mem = Some ses"
      "s'' = s'\<lparr>m_scope := Some (b\<lparr>sc_sessionStore := ses\<rparr>)\<rparr>"
    using st by (auto simp: sessionStore_def split: option.splits)
  show ?thesis using ses_store_wf(2) [OF b(2) wf [OF b(1)], of ?slot] life
    by (simp add: in_progress_def releaseClaim_def sessionFind_def b(3) dt)
qed

lemma singleton_fuel:
  assumes res: "nested k res" and ok: "mstate_ok s" and k: "card (idle s) \<le> k"
    and d: "d < dtb_size (r_descriptors (m_reg s))" "dtb_lifetimeOf (r_descriptors (m_reg s)) d = Singleton"
  shows "fst (materializeSingleton u res d s) \<noteq> Fuel"
  unfolding materializeSingleton_def readM_def Let_def
proof (rule bind_fuel)
  show "fst (claimAndMaterialize u res d None (dtb_coldAt (r_descriptors (m_reg s)) d)
      (c_origin (dtb_coldAt (r_descriptors (m_reg s)) d) \<noteq> RuntimeBinding) (singletonFind d) (singletonStore d) (emitterScope s) s) \<noteq> Fuel"
    by (rule claim_fuel [OF res ok k _ fr.R_claim_singleton singleton_stored])
       (use d ok in \<open>auto simp: idle_def in_progress_def\<close>)
qed (simp add: retM_def)

lemma session_fuel:
  assumes res: "nested k res" and ok: "mstate_ok s" and k: "card (idle s) \<le> k"
    and d: "primaryOf (m_reg s) d = d" "d < dtb_size (r_descriptors (m_reg s)) \<Longrightarrow> dtb_lifetimeOf (r_descriptors (m_reg s)) d = Session"
  shows "fst (materializeSessionInstance u res d scope s) \<noteq> Fuel"
proof -
  let ?slot = "d_sessionSlot (dtb_at (r_descriptors (m_reg s)) d)"
  have "fst (claimAndMaterialize u res d (Some (sc_self scope)) (dtb_coldAt (r_descriptors (m_reg s)) d) True
      (\<lambda>s. sessionFind s ?slot) (sessionStore ?slot d) (sc_scopeNameId scope) s) \<noteq> Fuel"
    if "d < dtb_size (r_descriptors (m_reg s))"
    by (rule claim_fuel [OF res ok k _ frame_claim_session session_stored])
       (use d that ok in \<open>auto simp: idle_def in_progress_def\<close>)
  then show ?thesis
    by (auto simp: materializeSessionInstance_def readM_def Let_def d(1) abortM_def retM_def throwM_def split: option.splits)
qed

lemma prototype_fuel:
  assumes res: "nested k res" and ok: "mstate_ok s" and k: "card (idle s) \<le> k"
    and p: "p < dtb_size (r_descriptors (m_reg s))" "dtb_lifetimeOf (r_descriptors (m_reg s)) p = Prototype"
  shows "fst (materializePrototype u res d p adj s) \<noteq> Fuel"
  unfolding materializePrototype_def Let_def
  by (rule guard_fuel [OF g_read ok k])
     (auto intro!: g_bind g_prototypeConstruct good_basic g_prototypeLifecycle nestedD [OF res] simp: p simp del: One_nat_def)

lemma threadLocal_fuel:
  assumes res: "nested k res" and ok: "mstate_ok s" and k: "card (idle s) \<le> k"
    and d: "primaryOf (m_reg s) d = d" "d < dtb_size (r_descriptors (m_reg s)) \<Longrightarrow> dtb_lifetimeOf (r_descriptors (m_reg s)) d = ThreadLocal"
  shows "fst (materializeThreadLocalInstance u res d s) \<noteq> Fuel"
proof (cases "d < dtb_size (r_descriptors (m_reg s))")
  case True
  let ?body = "\<lambda>cold. bindM (constructM u res cold d) (\<lambda>mem.
     bindM (updM (\<lambda>s. s\<lparr>m_tl := snd (tl_storeInstance (m_tl s) (m_registryId s) d mem)\<rparr>)) (\<lambda>_.
     bindM (createdLifecycle u res (c_exposedType cold) cold mem kNoScope) (\<lambda>_. retM mem)))"
  have body: "good (k - 1) (?body cold)" if "0 < k" for cold
    using that by (intro g_bind g_construct good_basic g_created nestedD [OF res])
  have guard: "fst (cycleGuard d (?body cold) s') \<noteq> Fuel" if "frame s s'" for s' cold
  proof (rule guard_fuel [OF body frame_ok(1) [OF that ok]])
    show "card (idle s') \<le> k" using card_mono [OF finite_idle frame_ok(3) [OF that ok]] k by simp
  qed (use d True in \<open>auto simp: frame_reg [OF that]\<close>)
  have find: "tlFind d s = (Ret a, s') \<Longrightarrow> frame s s'" for a s' by (rule keeps_Ret [OF fr.r_tlFind])
  have "fst (bindM (tlFind d) (\<lambda>q. case q of Some inst \<Rightarrow> retM inst | None \<Rightarrow> cycleGuard d (?body cold)) s) \<noteq> Fuel" for cold
  proof (rule bind_fuel)
    fix q s' assume "tlFind d s = (Ret q, s')"
    then show "fst ((case q of Some inst \<Rightarrow> retM inst | None \<Rightarrow> cycleGuard d (?body cold)) s') \<noteq> Fuel"
      using guard [OF find] by (cases q) (auto simp: retM_def)
  qed (rule goodD [OF g_tlFind ok k])
  then show ?thesis using True d by (simp add: materializeThreadLocalInstance_def readM_def Let_def)
qed (simp add: materializeThreadLocalInstance_def readM_def Let_def abortM_def)

lemma primaryOf_ok:
  assumes "mstate_ok s" "d < dtb_size (r_descriptors (m_reg s))"
  shows "primaryOf (m_reg s) (primaryOf (m_reg s) d) = primaryOf (m_reg s) d"
    "dtb_lifetimeOf (r_descriptors (m_reg s)) (primaryOf (m_reg s) d) = dtb_lifetimeOf (r_descriptors (m_reg s)) d"
  using assms by (auto simp: mstate_ok_def aliases_wf_def)

lemma sessionCase_fuel:
  assumes "nested k res" "mstate_ok s" "card (idle s) \<le> k"
    "d < dtb_size (r_descriptors (m_reg s))" "dtb_lifetimeOf (r_descriptors (m_reg s)) d = Session"
  shows "fst (sessionCase u res d (primaryOf (m_reg s) d) s) \<noteq> Fuel"
  using session_fuel [OF assms(1-3), where d = "primaryOf (m_reg s) d"] primaryOf_ok [OF assms(2,4)] assms(5)
  unfolding sessionCase_def readM_def
  by (auto simp: throwM_def retM_def split: option.splits)

lemma threadLocalCase_fuel:
  assumes "nested k res" "mstate_ok s" "card (idle s) \<le> k"
    "d < dtb_size (r_descriptors (m_reg s))" "dtb_lifetimeOf (r_descriptors (m_reg s)) d = ThreadLocal"
  shows "fst (threadLocalCase u res d (primaryOf (m_reg s) d) s) \<noteq> Fuel"
  using threadLocal_fuel [OF assms(1-3), where d = "primaryOf (m_reg s) d"] primaryOf_ok [OF assms(2,4)] assms(5)
  unfolding threadLocalCase_def by (auto simp: retM_def)

lemma materialize_fuel:
  assumes res: "nested k res" and ok: "mstate_ok s" and k: "card (idle s) \<le> k"
    and alias0: "primaryOf (m_reg s) d \<noteq> d \<Longrightarrow> d < dtb_size (r_descriptors (m_reg s)) \<Longrightarrow>
      fst (res (ReqMaterialize (primaryOf (m_reg s) d)) s) \<noteq> Fuel"
  shows "fst (materializeOneImpl u res d s) \<noteq> Fuel"
proof (cases "d < dtb_size (r_descriptors (m_reg s))")
  case True
  note p = primaryOf_ok [OF ok True]
  have *: "fst (singletonAlias res d (primaryOf (m_reg s) d) s) \<noteq> Fuel" if "primaryOf (m_reg s) d \<noteq> d"
    unfolding singletonAlias_def readM_def Let_def
    using alias0 [OF that True] by (auto simp: retM_def split: option.splits)
  show ?thesis
  proof (cases "dtb_lifetimeOf (r_descriptors (m_reg s)) d")
    case Singleton
    then show ?thesis using True * singleton_fuel [OF res ok k True Singleton]
      by (auto simp: materializeOneImpl_def readM_def Let_def retM_def split: option.splits)
  next
    case Prototype
    then show ?thesis using True prototype_fuel [OF res ok k, where p = "primaryOf (m_reg s) d"] p
      by (auto simp: materializeOneImpl_def readM_def Let_def abortM_def)
  next
    case Session
    then show ?thesis using True sessionCase_fuel [OF res ok k True Session] by (simp add: materializeOneImpl_def readM_def Let_def)
  next
    case ThreadLocal
    then show ?thesis using True threadLocalCase_fuel [OF res ok k True ThreadLocal] by (simp add: materializeOneImpl_def readM_def Let_def)
  qed
qed (simp add: materializeOneImpl_def readM_def Let_def abortM_def)

lemma resolve_fuel:
  assumes res: "nested k res" and ok: "mstate_ok s" and k: "card (idle s) \<le> k"
    and alias0: "\<And>d. primaryOf (m_reg s) d \<noteq> d \<Longrightarrow> d < dtb_size (r_descriptors (m_reg s)) \<Longrightarrow>
      fst (res (ReqMaterialize (primaryOf (m_reg s) d)) s) \<noteq> Fuel"
  shows "fst (registry_resolve u res t n s) \<noteq> Fuel"
  using materialize_fuel [OF res ok k] alias0 sessionCase_fuel [OF res ok k] threadLocalCase_fuel [OF res ok k]
  unfolding registry_resolve_def readM_def Let_def
  by (auto simp: throwM_def abortM_def retM_def split: sum.splits option.splits Lifetime.splits)

lemma run_fuel:
  shows "2 * k + 2 \<le> f \<Longrightarrow> good k (run u f req)"
    and "2 * k + 1 \<le> f \<Longrightarrow> mstate_ok s \<Longrightarrow> card (idle s) \<le> k \<Longrightarrow> primaryOf (m_reg s) p = p \<Longrightarrow>
      fst (run u f (ReqMaterialize p) s) \<noteq> Fuel"
proof (induction k arbitrary: f req s p rule: less_induct)
  case (less k)
  have mat: "fst (run u f (ReqMaterialize p) s) \<noteq> Fuel"
    if f: "2 * k + 1 \<le> f" and s: "mstate_ok s" "card (idle s) \<le> k" "primaryOf (m_reg s) p = p" for f s p
  proof -
    obtain g where g: "f = Suc g" "2 * k \<le> g" using f by (cases f) auto
    have "nested k (run u g)" using less.IH(1) [of "k - 1" g] g(2) by (simp add: nested_def)
    from materialize_fuel [OF this s(1,2)] show ?thesis unfolding g(1) using s(3) by simp
  qed
  {
    case 1
    obtain g where g: "f = Suc g" "2 * k + 1 \<le> g" using 1 by (cases f) auto
    have res: "nested k (run u g)" using less.IH(1) [of "k - 1" g] g(2) by (simp add: nested_def)
    have alias0: "fst (run u g (ReqMaterialize (primaryOf (m_reg s) d)) s) \<noteq> Fuel"
      if "mstate_ok s" "card (idle s) \<le> k" "d < dtb_size (r_descriptors (m_reg s))" for s d
      by (rule mat [OF g(2) that(1,2) primaryOf_ok(1) [OF that(1,3)]])
    have "fst (run u f req s) \<noteq> Fuel" if "mstate_ok s" "card (idle s) \<le> k" for s
      unfolding g(1) using resolve_fuel [OF res that alias0 [OF that]] materialize_fuel [OF res that alias0 [OF that]]
      by (cases req) auto
    then show ?case by (intro goodI fr.run_keeps)
  next
    case 2
    then show ?case by (rule mat)
  }
qed

lemma idle_bound: "card (idle s) \<le> dtb_size (r_descriptors (m_reg s))"
  using card_mono [of "{..<dtb_size (r_descriptors (m_reg s))}" "idle s"] by (auto simp: idle_def)

end
