(* ===== verification/Claims.thy ===== *)
theory Claims
  imports Materialization
begin

text \<open>
  Claims and waiting across threads (\<^verbatim>\<open>RegistryResolutionImpl.hpp\<close>): thread tokens, the wait slots,
  \<^verbatim>\<open>materializationWaitCycleDetected\<close> and \<^verbatim>\<open>claimMaterializationOrWait\<close> with its loop around the
  condition variable. The registry lock makes one pass through the loop atomic, so a pass is one
  step; threads interleave at the waits, and a release is separate from the \<open>notify_all\<close> that
  follows it outside the lock. A thread is its token; \<open>thread_tokens_unique\<close> justifies that.
\<close>

subsection \<open>Thread tokens\<close>

text \<open>A thread has no token (0) until it claims its first bean; exiting threads hand theirs back.\<close>

record token_pool =
  tp_next :: nat
  tp_free :: "nat list"
  tp_tokens :: "nat \<Rightarrow> nat"

definition kNoMaterializationThreadToken :: nat where
  "kNoMaterializationThreadToken = 0"

definition tp_init :: token_pool where
  "tp_init = \<lparr>tp_next = 0, tp_free = [], tp_tokens = (\<lambda>_. kNoMaterializationThreadToken)\<rparr>"

definition materializationThreadToken :: "nat \<Rightarrow> token_pool \<Rightarrow> nat \<times> token_pool" where
  "materializationThreadToken th p =
     (if tp_tokens p th \<noteq> kNoMaterializationThreadToken then (tp_tokens p th, p)
      else if tp_free p \<noteq> []
      then (last (tp_free p), p\<lparr>tp_free := butlast (tp_free p), tp_tokens := (tp_tokens p)(th := last (tp_free p))\<rparr>)
      else (let token = u32 (tp_next p + 1) in (token, p\<lparr>tp_next := token, tp_tokens := (tp_tokens p)(th := token)\<rparr>)))"

text \<open>The exit of a thread; \<open>pushThrows\<close>: whether the \<open>push_back\<close> fails, which is swallowed.\<close>

definition recycleMaterializationThreadToken :: "bool \<Rightarrow> nat \<Rightarrow> token_pool \<Rightarrow> token_pool" where
  "recycleMaterializationThreadToken pushThrows th p =
     (if tp_tokens p th = kNoMaterializationThreadToken then p
      else p\<lparr>tp_free := (if pushThrows then tp_free p else tp_free p @ [tp_tokens p th]),
             tp_tokens := (tp_tokens p)(th := kNoMaterializationThreadToken)\<rparr>)"

datatype token_op = TkUse nat | TkExit nat bool

fun tp_exec :: "token_op \<Rightarrow> token_pool \<Rightarrow> token_pool" where
  "tp_exec (TkUse th) p = snd (materializationThreadToken th p)"
| "tp_exec (TkExit th b) p = recycleMaterializationThreadToken b th p"

definition tp_inv :: "nat \<Rightarrow> token_pool \<Rightarrow> bool" where
  "tp_inv n p \<longleftrightarrow> tp_next p \<le> n \<and> distinct (tp_free p) \<and> set (tp_free p) \<subseteq> {0<..tp_next p}
     \<and> range (tp_tokens p) \<subseteq> {..tp_next p} - set (tp_free p) \<and> inj_on (tp_tokens p) {th. 0 < tp_tokens p th}"

lemma tp_invD:
  assumes "tp_inv n p"
  shows "tp_next p \<le> n" "distinct (tp_free p)" "x \<in> set (tp_free p) \<Longrightarrow> 0 < x \<and> x \<le> tp_next p"
    "tp_tokens p a \<le> tp_next p" "tp_tokens p a \<notin> set (tp_free p)"
    "0 < tp_tokens p a \<Longrightarrow> tp_tokens p a = tp_tokens p b \<Longrightarrow> a = b"
  using assms by (auto simp: tp_inv_def dest: inj_onD)

text \<open>Giving thread \<open>th\<close> a token that nobody holds, or none, keeps the holders apart.\<close>

lemma inj_on_token:
  assumes "inj_on f {th. 0 < f th}" "\<And>a. a \<noteq> th \<Longrightarrow> f a \<noteq> x \<or> x = (0::nat)"
  shows "inj_on (f(th := x)) {a. 0 < (f(th := x)) a}"
  using assms by (auto simp: inj_on_def) metis+

lemma tp_inv_take:
  assumes inv: "tp_inv n p" and ne: "tp_free p \<noteq> []"
  shows "tp_inv n (p\<lparr>tp_free := butlast (tp_free p), tp_tokens := (tp_tokens p)(th := last (tp_free p))\<rparr>)"
proof -
  have l: "last (tp_free p) \<in> set (tp_free p)" using ne by simp
  have "distinct (butlast (tp_free p) @ [last (tp_free p)])" using tp_invD(2) [OF inv] ne by simp
  then have "last (tp_free p) \<notin> set (butlast (tp_free p))" by simp
  moreover have "inj_on ((tp_tokens p)(th := last (tp_free p))) {a. 0 < ((tp_tokens p)(th := last (tp_free p))) a}"
  proof (rule inj_on_token)
    show "tp_tokens p a \<noteq> last (tp_free p) \<or> last (tp_free p) = 0" for a using l tp_invD(5) [OF inv, of a] by metis
  qed (use inv in \<open>simp add: tp_inv_def\<close>)
  ultimately show ?thesis using tp_invD(1-5) [OF inv] l
    by (auto simp: tp_inv_def distinct_butlast dest!: in_set_butlastD split: if_splits)
qed

lemma tp_inv_new:
  assumes inv: "tp_inv n p"
  shows "tp_inv (Suc n) (p\<lparr>tp_next := Suc (tp_next p), tp_tokens := (tp_tokens p)(th := Suc (tp_next p))\<rparr>)"
proof -
  have new: "tp_tokens p a \<noteq> Suc (tp_next p)" for a using tp_invD(4) [OF inv, of a] by simp
  have "inj_on ((tp_tokens p)(th := Suc (tp_next p))) {a. 0 < ((tp_tokens p)(th := Suc (tp_next p))) a}"
    using inv new by (intro inj_on_token) (auto simp: tp_inv_def)
  then show ?thesis using tp_invD(1-5) [OF inv] by (force simp: tp_inv_def le_SucI split: if_splits)
qed

lemma tp_inv_drop:
  assumes inv: "tp_inv n p" and th: "0 < tp_tokens p th"
  shows "tp_inv n (p\<lparr>tp_free := (if b then tp_free p else tp_free p @ [tp_tokens p th]), tp_tokens := (tp_tokens p)(th := 0)\<rparr>)"
proof -
  have "inj_on ((tp_tokens p)(th := 0)) {a. 0 < ((tp_tokens p)(th := 0)) a}"
    using inv by (intro inj_on_token) (auto simp: tp_inv_def)
  moreover have "tp_tokens p a \<noteq> tp_tokens p th" if "a \<noteq> th" for a using tp_invD(6) [OF inv th] that by metis
  ultimately show ?thesis using tp_invD(1-5) [OF inv] th by (auto simp: tp_inv_def split: if_splits)
qed

lemma tp_exec_inv:
  assumes inv: "tp_inv n p" and n: "Suc n < 2 ^ 32" shows "tp_inv (Suc n) (tp_exec x p)"
proof (cases x)
  case (TkUse th)
  have mono: "tp_inv (Suc n) q" if "tp_inv n q" for q using that by (auto simp: tp_inv_def)
  have "u32 (tp_next p + 1) = Suc (tp_next p)" using inv n by (simp add: u32_def tp_inv_def)
  then show ?thesis using mono [OF inv] mono [OF tp_inv_take [OF inv, of th]] tp_inv_new [OF inv, of th]
    by (simp add: TkUse materializationThreadToken_def kNoMaterializationThreadToken_def Let_def)
next
  case (TkExit th b)
  have "tp_inv (Suc n) q" if "tp_inv n q" for q using that by (auto simp: tp_inv_def)
  then show ?thesis using inv tp_inv_drop [OF inv, of th b]
    by (simp add: TkExit recycleMaterializationThreadToken_def kNoMaterializationThreadToken_def)
qed

lemma tp_run_inv: "tp_inv n p \<Longrightarrow> n + length xs < 2 ^ 32 \<Longrightarrow> tp_inv (n + length xs) (fold tp_exec xs p)"
proof (induction xs arbitrary: n p)
  case (Cons x xs)
  then show ?case using tp_exec_inv [of n p x] Cons.IH [of "Suc n" "tp_exec x p"] by simp
qed simp

text \<open>Two live threads never hold the same materialization token, however threads start to claim and
  exit, even when handing a token back fails, as long as there were fewer than $2^{32}$ events.\<close>

theorem thread_tokens_unique:
  assumes "length xs < 2 ^ 32" "tp_tokens (fold tp_exec xs tp_init) a \<noteq> kNoMaterializationThreadToken"
    "tp_tokens (fold tp_exec xs tp_init) a = tp_tokens (fold tp_exec xs tp_init) b"
  shows "a = b"
proof -
  have "tp_inv 0 tp_init" by (simp add: tp_inv_def tp_init_def kNoMaterializationThreadToken_def)
  then have "tp_inv (length xs) (fold tp_exec xs tp_init)" using tp_run_inv [of 0 tp_init xs] assms(1) by simp
  from tp_invD(6) [OF this _ assms(3)] show ?thesis using assms(2) by (simp add: kNoMaterializationThreadToken_def)
qed

theorem thread_tokens_unique_witness:
  "(7::nat) = 7 \<and> tp_tokens (fold tp_exec [TkUse 3, TkUse 5, TkExit 3 False, TkUse 7] tp_init) 7 = 1"
  using thread_tokens_unique [of "[TkUse 3, TkUse 5, TkExit 3 False, TkUse 7]" 7 7]
  by (simp add: tp_init_def materializationThreadToken_def recycleMaterializationThreadToken_def
      kNoMaterializationThreadToken_def u32_def)

subsection \<open>Wait slots\<close>

record mat_wait =
  mw_key :: mat_key
  mw_active :: bool

definition no_wait :: mat_wait where
  "no_wait = \<lparr>mw_key = \<lparr>mk_descId = kInvalidDescriptorId, mk_scope = None\<rparr>, mw_active = False\<rparr>"

definition kMaterializationWaitChunkSize :: nat where
  "kMaterializationWaitChunkSize = 256"

text \<open>Where a thread stands: outside the wait, inside \<open>cv_.wait\<close> for a key (and whether it has been
  notified since), or between releasing a claim and calling \<open>notify_all\<close>.\<close>

datatype claim_pc = CpRun | CpWait mat_key bool | CpNotify

text \<open>\<open>cl_stack\<close> is the thread's \<open>materializationStack()\<close>, innermost first; the second component
  records which C++ frame pushed the entry, a claim for a key or a \<open>CycleGuard\<close>.\<close>

record claims =
  cl_materializing :: "mat_entry list"
  cl_chunks :: "mat_wait list list"
  cl_capacity :: nat
  cl_stack :: "nat \<Rightarrow> (DescriptorId \<times> mat_key option) list"
  cl_pc :: "nat \<Rightarrow> claim_pc"

definition cl_init :: claims where
  "cl_init = \<lparr>cl_materializing = [], cl_chunks = [], cl_capacity = 0, cl_stack = (\<lambda>_. []), cl_pc = (\<lambda>_. CpRun)\<rparr>"

definition hasMaterializationWaitSlot :: "nat \<Rightarrow> claims \<Rightarrow> bool" where
  "hasMaterializationWaitSlot t s \<longleftrightarrow> t < cl_capacity s"

definition materializationWaitSlot :: "nat \<Rightarrow> claims \<Rightarrow> mat_wait" where
  "materializationWaitSlot t s =
     cl_chunks s ! (t div kMaterializationWaitChunkSize) ! (t mod kMaterializationWaitChunkSize)"

definition setWaitSlot :: "nat \<Rightarrow> mat_wait \<Rightarrow> claims \<Rightarrow> claims" where
  "setWaitSlot t w s = (let c = t div kMaterializationWaitChunkSize
     in s\<lparr>cl_chunks := (cl_chunks s)[c := (cl_chunks s ! c)[t mod kMaterializationWaitChunkSize := w]]\<rparr>)"

definition ensureMaterializationWaitSlot :: "nat \<Rightarrow> claims \<Rightarrow> claims" where
  "ensureMaterializationWaitSlot t s = (let requiredSlotCount = t + 1
     in if requiredSlotCount \<le> cl_capacity s then s
        else let requiredChunkCount = (requiredSlotCount + kMaterializationWaitChunkSize - 1) div kMaterializationWaitChunkSize;
                 grown = cl_chunks s @ replicate (requiredChunkCount - length (cl_chunks s))
                           (replicate kMaterializationWaitChunkSize no_wait)
             in s\<lparr>cl_chunks := grown, cl_capacity := length grown * kMaterializationWaitChunkSize\<rparr>)"

definition clearMaterializationWaitSlot :: "nat \<Rightarrow> claims \<Rightarrow> claims" where
  "clearMaterializationWaitSlot t s =
     (if t = kNoMaterializationThreadToken then s
      else if hasMaterializationWaitSlot t s then setWaitSlot t no_wait s else s)"

text \<open>The slots as the walk reads them: the key a thread is marked as waiting for.\<close>

definition waitKey :: "claims \<Rightarrow> nat \<Rightarrow> mat_key option" where
  "waitKey s t = (if hasMaterializationWaitSlot t s \<and> mw_active (materializationWaitSlot t s)
                  then Some (mw_key (materializationWaitSlot t s)) else None)"

definition slots_wf :: "claims \<Rightarrow> bool" where
  "slots_wf s \<longleftrightarrow> cl_capacity s = length (cl_chunks s) * kMaterializationWaitChunkSize
     \<and> (\<forall>c \<in> set (cl_chunks s). length c = kMaterializationWaitChunkSize)"

lemma chunk_bound:
  "slots_wf s \<Longrightarrow> hasMaterializationWaitSlot t s \<Longrightarrow>
   t div kMaterializationWaitChunkSize < length (cl_chunks s)
   \<and> length (cl_chunks s ! (t div kMaterializationWaitChunkSize)) = kMaterializationWaitChunkSize
   \<and> t mod kMaterializationWaitChunkSize < kMaterializationWaitChunkSize"
  by (auto simp: slots_wf_def hasMaterializationWaitSlot_def kMaterializationWaitChunkSize_def less_mult_imp_div_less)

lemma same_index: "t div kMaterializationWaitChunkSize = u div kMaterializationWaitChunkSize \<Longrightarrow>
   t mod kMaterializationWaitChunkSize = u mod kMaterializationWaitChunkSize \<Longrightarrow> t = u"
  by (metis div_mod_decomp)

lemma setWaitSlot_frame [simp]:
  "cl_materializing (setWaitSlot t w s) = cl_materializing s" "cl_stack (setWaitSlot t w s) = cl_stack s"
  "cl_pc (setWaitSlot t w s) = cl_pc s" "cl_capacity (setWaitSlot t w s) = cl_capacity s"
  by (simp_all add: setWaitSlot_def Let_def)

lemma setWaitSlot_wf [simp]: "slots_wf s \<Longrightarrow> hasMaterializationWaitSlot t s \<Longrightarrow> slots_wf (setWaitSlot t w s)"
  using chunk_bound [of s t] by (auto simp: slots_wf_def setWaitSlot_def Let_def dest: in_set_takeD in_set_dropD dest!: set_update_subset_insert [THEN subsetD])

lemma waitSlot_set:
  assumes "slots_wf s" "hasMaterializationWaitSlot t s"
  shows "materializationWaitSlot u (setWaitSlot t w s) = (if u = t then w else materializationWaitSlot u s)"
  using chunk_bound [OF assms] same_index [of t u]
  by (auto simp: materializationWaitSlot_def setWaitSlot_def Let_def nth_list_update)

lemma waitKey_set:
  assumes "slots_wf s" "hasMaterializationWaitSlot t s"
  shows "waitKey (setWaitSlot t w s) = (waitKey s)(t := (if mw_active w then Some (mw_key w) else None))"
  using assms by (auto simp: waitKey_def waitSlot_set fun_eq_iff) (simp_all add: hasMaterializationWaitSlot_def)

lemma ensure_frame [simp]:
  "cl_materializing (ensureMaterializationWaitSlot t s) = cl_materializing s"
  "cl_stack (ensureMaterializationWaitSlot t s) = cl_stack s" "cl_pc (ensureMaterializationWaitSlot t s) = cl_pc s"
  by (simp_all add: ensureMaterializationWaitSlot_def Let_def)

text \<open>Growing reaches the token, keeps the layout, and marks nobody as waiting.\<close>

lemma ensure_slot:
  assumes wf: "slots_wf s"
  shows "slots_wf (ensureMaterializationWaitSlot t s)" "hasMaterializationWaitSlot t (ensureMaterializationWaitSlot t s)"
    "waitKey (ensureMaterializationWaitSlot t s) = waitKey s"
proof -
  define k where "k = (t + kMaterializationWaitChunkSize) div kMaterializationWaitChunkSize - length (cl_chunks s)"
  define g where "g = cl_chunks s @ replicate k (replicate kMaterializationWaitChunkSize no_wait)"
  have step: "ensureMaterializationWaitSlot t s =
      (if t < cl_capacity s then s else s\<lparr>cl_chunks := g, cl_capacity := length g * kMaterializationWaitChunkSize\<rparr>)"
    by (simp add: ensureMaterializationWaitSlot_def Let_def g_def k_def Suc_le_eq kMaterializationWaitChunkSize_def)
  let ?s = "s\<lparr>cl_chunks := g, cl_capacity := length g * kMaterializationWaitChunkSize\<rparr>"
  have has: "t < length g * kMaterializationWaitChunkSize"
    by (simp add: g_def k_def kMaterializationWaitChunkSize_def)
  have wfg: "slots_wf ?s" using wf by (auto simp: slots_wf_def g_def)
  have keys: "waitKey ?s u = waitKey s u" for u
  proof (cases "hasMaterializationWaitSlot u s")
    case True
    then show ?thesis using chunk_bound [OF wf True] wf
      by (auto simp: waitKey_def hasMaterializationWaitSlot_def materializationWaitSlot_def g_def nth_append slots_wf_def
          add_mult_distrib)
  next
    case False
    have "\<not> mw_active (materializationWaitSlot u ?s)" if "hasMaterializationWaitSlot u ?s"
    proof -
      have "length (cl_chunks s) \<le> u div kMaterializationWaitChunkSize"
        using False wf by (simp add: hasMaterializationWaitSlot_def slots_wf_def kMaterializationWaitChunkSize_def)
      moreover from this have "u div kMaterializationWaitChunkSize - length (cl_chunks s) < k"
        using conjunct1 [OF chunk_bound [OF wfg that]] by (simp add: g_def)
      ultimately show ?thesis using chunk_bound [OF wfg that]
        by (simp add: materializationWaitSlot_def g_def nth_append no_wait_def)
    qed
    then show ?thesis using False by (simp add: waitKey_def)
  qed
  show "slots_wf (ensureMaterializationWaitSlot t s)" using wf wfg by (simp add: step)
  show "hasMaterializationWaitSlot t (ensureMaterializationWaitSlot t s)"
    using has by (simp add: step hasMaterializationWaitSlot_def)
  show "waitKey (ensureMaterializationWaitSlot t s) = waitKey s" using keys by (auto simp: step)
qed

subsection \<open>Claiming and waiting\<close>

definition cl_owner :: "claims \<Rightarrow> mat_key \<Rightarrow> mat_entry option" where
  "cl_owner s key = find (\<lambda>e. me_key e = key) (cl_materializing s)"

fun waitWalk :: "nat \<Rightarrow> claims \<Rightarrow> nat \<Rightarrow> nat \<Rightarrow> bool" where
  "waitWalk 0 s cur token = False"
| "waitWalk (Suc n) s cur token =
     (if token = cur then True
      else if token = kNoMaterializationThreadToken \<or> \<not> hasMaterializationWaitSlot token s then False
      else if \<not> mw_active (materializationWaitSlot token s) then False
      else case cl_owner s (mw_key (materializationWaitSlot token s)) of
             None \<Rightarrow> False
           | Some e \<Rightarrow> waitWalk n s cur (me_threadToken e))"

definition materializationWaitCycleDetected :: "claims \<Rightarrow> nat \<Rightarrow> nat \<Rightarrow> bool" where
  "materializationWaitCycleDetected s cur owner = waitWalk (length (cl_materializing s)) s cur owner"

datatype claim_result = CrExists | CrClaimed | CrCycle | CrCrossThreadCycle | CrWaits

text \<open>One pass through the loop, from \<open>findExisting\<close> to \<open>cv_.wait\<close>; \<open>existing\<close> is what the
  caller's \<open>findExisting\<close> answers.\<close>

definition claimPass :: "nat \<Rightarrow> mat_key \<Rightarrow> bool \<Rightarrow> claims \<Rightarrow> claim_result \<times> claims" where
  "claimPass t key existing s =
     (if existing then (CrExists, s)
      else case cl_owner s key of
        None \<Rightarrow>
          if mk_descId key \<in> fst ` set (cl_stack s t) then (CrCycle, s)
          else (CrClaimed, s\<lparr>cl_materializing := cl_materializing s @ [\<lparr>me_key = key, me_threadToken = t\<rparr>],
                             cl_stack := (cl_stack s)(t := (mk_descId key, Some key) # cl_stack s t)\<rparr>)
      | Some e \<Rightarrow>
          if me_threadToken e = t then (CrCycle, s)
          else if cl_stack s t \<noteq> [] \<and> materializationWaitCycleDetected s t (me_threadToken e)
          then (CrCrossThreadCycle, s)
          else (CrWaits, setWaitSlot t \<lparr>mw_key = key, mw_active = True\<rparr> (s\<lparr>cl_pc := (cl_pc s)(t := CpWait key False)\<rparr>)))"

definition claimMaterializationOrWait :: "nat \<Rightarrow> mat_key \<Rightarrow> bool \<Rightarrow> claims \<Rightarrow> claim_result \<times> claims" where
  "claimMaterializationOrWait t key existing s =
     (let s1 = setWaitSlot t no_wait (ensureMaterializationWaitSlot t s)
      in if mk_descId key \<in> fst ` set (cl_stack s1 t) then (CrCycle, s1) else claimPass t key existing s1)"

text \<open>Returning from \<open>cv_.wait\<close>, notified or spuriously, with the lock held, and the next pass.\<close>

definition claimWake :: "nat \<Rightarrow> mat_key \<Rightarrow> bool \<Rightarrow> claims \<Rightarrow> claim_result \<times> claims" where
  "claimWake t key existing s =
     claimPass t key existing
       (setWaitSlot t ((materializationWaitSlot t s)\<lparr>mw_active := False\<rparr>) (s\<lparr>cl_pc := (cl_pc s)(t := CpRun)\<rparr>))"

definition claimRelease :: "nat \<Rightarrow> mat_key \<Rightarrow> claims \<Rightarrow> claims" where
  "claimRelease t key s = s\<lparr>cl_materializing := swap_remove_first (\<lambda>e. me_key e = key) (cl_materializing s),
     cl_stack := (cl_stack s)(t := tl (cl_stack s t)), cl_pc := (cl_pc s)(t := CpNotify)\<rparr>"

definition claimNotifyAll :: "nat \<Rightarrow> claims \<Rightarrow> claims" where
  "claimNotifyAll t s = s\<lparr>cl_pc := (\<lambda>u. case cl_pc s u of CpWait k b \<Rightarrow> CpWait k True | c \<Rightarrow> if u = t then CpRun else c)\<rparr>"

inductive claims_step :: "claims \<Rightarrow> claims \<Rightarrow> bool" where
  enter: "t \<noteq> kNoMaterializationThreadToken \<Longrightarrow> cl_pc s t = CpRun \<Longrightarrow>
    claims_step s (snd (claimMaterializationOrWait t key existing s))"
| wake: "cl_pc s t = CpWait key b \<Longrightarrow> claims_step s (snd (claimWake t key existing s))"
| release: "cl_pc s t = CpRun \<Longrightarrow> cl_stack s t = (d, Some key) # fs \<Longrightarrow> claims_step s (claimRelease t key s)"
| notify: "cl_pc s t = CpNotify \<Longrightarrow> claims_step s (claimNotifyAll t s)"
| guard: "cl_pc s t = CpRun \<Longrightarrow> d \<notin> fst ` set (cl_stack s t) \<Longrightarrow>
    claims_step s (s\<lparr>cl_stack := (cl_stack s)(t := (d, None) # cl_stack s t)\<rparr>)"
| unguard: "cl_pc s t = CpRun \<Longrightarrow> cl_stack s t = (d, None) # fs \<Longrightarrow>
    claims_step s (s\<lparr>cl_stack := (cl_stack s)(t := fs)\<rparr>)"
| leave: "cl_pc s t = CpRun \<Longrightarrow> cl_stack s t = [] \<Longrightarrow> claims_step s (clearMaterializationWaitSlot t s)"

inductive claims_reachable :: "claims \<Rightarrow> bool" where
  init: "claims_reachable cl_init"
| step: "claims_reachable s \<Longrightarrow> claims_step s s' \<Longrightarrow> claims_reachable s'"

text \<open>Thread \<open>t\<close> waits for thread \<open>u\<close>: the edges the walk follows.\<close>

definition waits :: "claims \<Rightarrow> (nat \<times> nat) set" where
  "waits s = {(t, me_threadToken e) | t e. e \<in> set (cl_materializing s) \<and> waitKey s t = Some (me_key e)}"

definition owners :: "claims \<Rightarrow> nat set" where
  "owners s = me_threadToken ` set (cl_materializing s)"

definition pc_key :: "claim_pc \<Rightarrow> mat_key option" where
  "pc_key c = (case c of CpWait k b \<Rightarrow> Some k | _ \<Rightarrow> None)"

lemma pc_key_simps [simp]: "pc_key CpRun = None" "pc_key CpNotify = None" "pc_key (CpWait k b) = Some k"
  by (simp_all add: pc_key_def)

definition frames_ok :: "claims \<Rightarrow> bool" where
  "frames_ok s \<longleftrightarrow> distinct (map me_key (cl_materializing s))
     \<and> (\<forall>t. distinct (map fst (cl_stack s t)))
     \<and> (\<forall>t d key. (d, Some key) \<in> set (cl_stack s t) \<longrightarrow>
          mk_descId key = d \<and> \<lparr>me_key = key, me_threadToken = t\<rparr> \<in> set (cl_materializing s))
     \<and> (\<forall>e \<in> set (cl_materializing s). (mk_descId (me_key e), Some (me_key e)) \<in> set (cl_stack s (me_threadToken e))
          \<and> me_threadToken e \<noteq> kNoMaterializationThreadToken)"

definition slots_ok :: "claims \<Rightarrow> bool" where
  "slots_ok s \<longleftrightarrow> slots_wf s \<and> (\<forall>t. waitKey s t = pc_key (cl_pc s t))
     \<and> cl_pc s kNoMaterializationThreadToken = CpRun"

definition wakeups_ok :: "claims \<Rightarrow> bool" where
  "wakeups_ok s \<longleftrightarrow> (\<forall>t key. cl_pc s t = CpWait key False \<longrightarrow>
     key \<in> me_key ` set (cl_materializing s) \<or> (\<exists>u. cl_pc s u = CpNotify))"

definition claims_ok :: "claims \<Rightarrow> bool" where
  "claims_ok s \<longleftrightarrow> frames_ok s \<and> slots_ok s \<and> wakeups_ok s \<and> acyclic (waits s)"

subsection \<open>The walk follows the wait edges\<close>

lemma frames_okD:
  assumes "frames_ok s"
  shows "distinct (map me_key (cl_materializing s))" "distinct (map fst (cl_stack s t))"
    "(d, Some key) \<in> set (cl_stack s t) \<Longrightarrow> mk_descId key = d"
    "(d, Some key) \<in> set (cl_stack s t) \<Longrightarrow> \<lparr>me_key = key, me_threadToken = t\<rparr> \<in> set (cl_materializing s)"
    "e \<in> set (cl_materializing s) \<Longrightarrow> (mk_descId (me_key e), Some (me_key e)) \<in> set (cl_stack s (me_threadToken e))"
    "e \<in> set (cl_materializing s) \<Longrightarrow> me_threadToken e \<noteq> kNoMaterializationThreadToken"
  using assms unfolding frames_ok_def by blast+

lemma find_key: "distinct (map f xs) \<Longrightarrow> find (\<lambda>e. f e = k) xs = Some e \<longleftrightarrow> e \<in> set xs \<and> f e = k"
  by (induction xs) (auto simp: image_iff)

lemma cl_owner_Some: "frames_ok s \<Longrightarrow> cl_owner s key = Some e \<longleftrightarrow> e \<in> set (cl_materializing s) \<and> me_key e = key"
  unfolding cl_owner_def by (rule find_key) (simp add: frames_ok_def)

lemma cl_owner_None: "cl_owner s key = None \<longleftrightarrow> key \<notin> me_key ` set (cl_materializing s)"
  by (auto simp: cl_owner_def find_None_iff)

lemma waitWalk_step:
  assumes "frames_ok s" "slots_ok s" "(t, u) \<in> waits s" "t \<noteq> cur"
  shows "waitWalk (Suc n) s cur t = waitWalk n s cur u"
proof -
  obtain e where e: "e \<in> set (cl_materializing s)" "waitKey s t = Some (me_key e)" "u = me_threadToken e"
    using assms(3) by (auto simp: waits_def)
  have "cl_pc s t \<noteq> CpRun" using assms(2) e(2) by (auto simp: slots_ok_def pc_key_def split: claim_pc.splits)
  then have "t \<noteq> kNoMaterializationThreadToken" using assms(2) by (auto simp: slots_ok_def)
  moreover have "hasMaterializationWaitSlot t s" "mw_active (materializationWaitSlot t s)"
    "cl_owner s (mw_key (materializationWaitSlot t s)) = Some e"
    using e assms(1) by (auto simp: waitKey_def cl_owner_Some split: if_splits)
  ultimately show ?thesis using assms(4) e(3) by simp
qed

lemma waitWalk_path:
  assumes "frames_ok s" "slots_ok s" "(t, cur) \<in> waits s ^^ k" "k < n"
  shows "waitWalk n s cur t"
  using assms(3,4)
proof (induction k arbitrary: t n)
  case 0
  then show ?case by (cases n) simp_all
next
  case (Suc k)
  obtain m where n: "n = Suc m" using Suc.prems(2) by (cases n) auto
  obtain u where u: "(t, u) \<in> waits s" "(u, cur) \<in> waits s ^^ k" using Suc.prems(1) by (meson relpow_Suc_D2)
  show ?case
  proof (cases "t = cur")
    case True then show ?thesis by (simp add: n)
  next
    case False
    then show ?thesis using waitWalk_step [OF assms(1,2) u(1), of cur m] Suc.IH [OF u(2), of m] Suc.prems(2) n by simp
  qed
qed

text \<open>The length of \<open>materializing_\<close> bounds every path that ends at a claiming thread which is not waiting.\<close>

lemma waits_path_bound:
  assumes fr: "frames_ok s" and own: "t \<in> owners s" and path: "(t, cur) \<in> (waits s)\<^sup>*" and run: "waitKey s cur = None"
  shows "\<exists>k < length (cl_materializing s). (t, cur) \<in> waits s ^^ k"
proof -
  define R where "R = waits s \<inter> (owners s - {cur}) \<times> owners s"
  have fin: "finite (owners s)" by (simp add: owners_def)
  have sv: "u = v" if "(t, u) \<in> R" "(t, v) \<in> R" for t u v
  proof -
    obtain e1 e2 where "e1 \<in> set (cl_materializing s)" "e2 \<in> set (cl_materializing s)" "me_key e1 = me_key e2"
      "u = me_threadToken e1" "v = me_threadToken e2" using \<open>(t, u) \<in> R\<close> \<open>(t, v) \<in> R\<close> by (auto simp: R_def waits_def)
    then show ?thesis using fr unfolding frames_ok_def distinct_map by (metis inj_onD)
  qed
  have inR: "(a, b) \<in> R" if "(a, b) \<in> waits s" "a \<in> owners s" for a b
    using that run by (auto simp: R_def waits_def owners_def)
  have "(t, u) \<in> R\<^sup>* \<and> u \<in> owners s" if "(t, u) \<in> (waits s)\<^sup>*" for u
    using that by induction (use own inR in \<open>auto simp: waits_def owners_def intro: rtrancl_into_rtrancl\<close>)
  from this [OF path] have tR: "(t, cur) \<in> R\<^sup>*" and cur: "cur \<in> owners s" by auto
  have finR: "finite R" unfolding R_def using fin by (intro finite_Int) auto
  have "card R = card (Domain R)"
    using sv by (intro card_image [symmetric, of fst R, unfolded Domain_fst [symmetric]]) (auto simp: inj_on_def)
  also have "\<dots> \<le> card (owners s - {cur})" using fin by (intro card_mono) (auto simp: R_def)
  also have "\<dots> < card (owners s)" by (rule card_Diff1_less [OF fin cur])
  also have "\<dots> \<le> length (cl_materializing s)" unfolding owners_def by (meson card_image_le card_length finite_set le_trans)
  finally have bound: "card R < length (cl_materializing s)" .
  obtain k where k: "k \<le> card R" "(t, cur) \<in> R ^^ k" using tR by (auto simp: rtrancl_finite_eq_relpow [OF finR])
  have "R ^^ n \<subseteq> waits s ^^ n" for n
    by (induction n) (auto simp: R_def intro!: relcomp_mono)
  then have "(t, cur) \<in> waits s ^^ k" using k(2) by (rule subsetD)
  then show ?thesis using k(1) bound by (intro exI [of _ k]) simp
qed

lemma walk_detects:
  assumes "frames_ok s" "slots_ok s" "cl_pc s cur = CpRun" "t \<in> owners s" "(t, cur) \<in> (waits s)\<^sup>*"
  shows "materializationWaitCycleDetected s cur t"
proof -
  have "waitKey s cur = None" using assms(2,3) by (simp add: slots_ok_def)
  from waits_path_bound [OF assms(1,4,5) this] show ?thesis
    unfolding materializationWaitCycleDetected_def by (meson assms(1,2) waitWalk_path)
qed

lemma walk_sound: "frames_ok s \<Longrightarrow> waitWalk n s cur t \<Longrightarrow> (t, cur) \<in> (waits s)\<^sup>*"
proof (induction n arbitrary: t)
  case (Suc n)
  show ?case
  proof (cases "t = cur")
    case False
    with Suc.prems obtain e where e: "hasMaterializationWaitSlot t s" "mw_active (materializationWaitSlot t s)"
      "cl_owner s (mw_key (materializationWaitSlot t s)) = Some e" "waitWalk n s cur (me_threadToken e)"
      by (auto split: if_splits option.splits)
    then have "(t, me_threadToken e) \<in> waits s" using Suc.prems(1) by (auto simp: waits_def waitKey_def cl_owner_Some)
    with Suc.IH [OF Suc.prems(1) e(4)] show ?thesis by (meson converse_rtrancl_into_rtrancl)
  qed simp
qed simp

subsection \<open>Every step keeps the invariant\<close>

lemma claims_okD:
  assumes "claims_ok s"
  shows "frames_ok s" "slots_ok s" "slots_wf s" "wakeups_ok s" "acyclic (waits s)" "waitKey s t = pc_key (cl_pc s t)"
  using assms by (auto simp: claims_ok_def slots_ok_def)

lemma wakeups_okI:
  assumes "wakeups_ok s" "set (cl_materializing s) \<subseteq> set (cl_materializing s')"
    "\<And>u. cl_pc s u = CpNotify \<Longrightarrow> cl_pc s' u = CpNotify"
    "\<And>u key. cl_pc s' u = CpWait key False \<Longrightarrow> cl_pc s u = CpWait key False \<or> key \<in> me_key ` set (cl_materializing s')"
  shows "wakeups_ok s'"
  unfolding wakeups_ok_def
proof (intro allI impI)
  fix t key assume "cl_pc s' t = CpWait key False"
  from assms(4) [OF this] show "key \<in> me_key ` set (cl_materializing s') \<or> (\<exists>u. cl_pc s' u = CpNotify)"
    using assms(1-3) unfolding wakeups_ok_def by blast
qed

lemma waits_cong:
  "cl_materializing s' = cl_materializing s \<Longrightarrow> waitKey s' = waitKey s \<Longrightarrow> waits s' = waits s"
  by (simp add: waits_def)

lemma waitKey_cong:
  "cl_chunks s' = cl_chunks s \<Longrightarrow> cl_capacity s' = cl_capacity s \<Longrightarrow> waitKey s' = waitKey s"
  by (simp add: fun_eq_iff waitKey_def hasMaterializationWaitSlot_def materializationWaitSlot_def)

lemma slots_wf_cong: "cl_chunks s' = cl_chunks s \<Longrightarrow> cl_capacity s' = cl_capacity s \<Longrightarrow> slots_wf s' = slots_wf s"
  by (simp add: slots_wf_def)

lemma has_cong: "cl_capacity s' = cl_capacity s \<Longrightarrow> hasMaterializationWaitSlot t s' = hasMaterializationWaitSlot t s"
  by (simp add: hasMaterializationWaitSlot_def)

text \<open>Writing an inactive wait into the slot of a running thread, or growing the slots, changes nothing
  the invariant sees.\<close>

lemma claims_ok_same:
  assumes "claims_ok s" "cl_materializing s' = cl_materializing s" "cl_stack s' = cl_stack s" "cl_pc s' = cl_pc s"
    "slots_wf s'" "waitKey s' = waitKey s"
  shows "claims_ok s'"
  using assms waits_cong [OF assms(2,6)] by (simp add: claims_ok_def frames_ok_def slots_ok_def wakeups_ok_def)

lemma claims_ok_clear:
  assumes ok: "claims_ok s" and has: "hasMaterializationWaitSlot t s" and w: "\<not> mw_active w" and run: "cl_pc s t = CpRun"
  shows "claims_ok (setWaitSlot t w s)"
proof (rule claims_ok_same [OF ok])
  show "waitKey (setWaitSlot t w s) = waitKey s"
    using waitKey_set [OF claims_okD(3) [OF ok] has] w claims_okD(6) [OF ok, of t] run by (simp add: fun_eq_iff)
qed (use claims_okD(3) [OF ok] has in simp_all)

lemma claims_ok_ensure: "claims_ok s \<Longrightarrow> claims_ok (ensureMaterializationWaitSlot t s)"
  by (rule claims_ok_same) (simp_all add: ensure_slot claims_okD(3))

text \<open>A thread that returns from its wait.\<close>

lemma claims_ok_awake:
  assumes ok: "claims_ok s" and wt: "cl_pc s t = CpWait key b"
  defines "s' \<equiv> setWaitSlot t ((materializationWaitSlot t s)\<lparr>mw_active := False\<rparr>) (s\<lparr>cl_pc := (cl_pc s)(t := CpRun)\<rparr>)"
  shows "claims_ok s'" "hasMaterializationWaitSlot t s'" "cl_pc s' t = CpRun" "t \<noteq> kNoMaterializationThreadToken"
proof -
  have has: "hasMaterializationWaitSlot t s" using claims_okD(6) [OF ok, of t] wt by (auto simp: waitKey_def split: if_splits)
  let ?s = "s\<lparr>cl_pc := (cl_pc s)(t := CpRun)\<rparr>"
  have wf: "slots_wf ?s" "hasMaterializationWaitSlot t ?s" "waitKey ?s = waitKey s"
    using claims_okD(3) [OF ok] has waitKey_cong [of ?s s] by (simp_all add: slots_wf_def hasMaterializationWaitSlot_def)
  have wk: "waitKey s' = (waitKey s)(t := None)" unfolding s'_def by (simp add: waitKey_set [OF wf(1,2)] wf(3))
  have mats: "cl_materializing s' = cl_materializing s" by (simp add: s'_def)
  show pcr: "cl_pc s' t = CpRun" by (simp add: s'_def)
  show "hasMaterializationWaitSlot t s'" using has by (simp add: s'_def hasMaterializationWaitSlot_def)
  show "t \<noteq> kNoMaterializationThreadToken" using claims_okD(2) [OF ok] wt unfolding slots_ok_def by (metis claim_pc.distinct(1))
  have "waits s' \<subseteq> waits s" using mats by (auto simp: waits_def wk split: if_splits)
  then have "acyclic (waits s')" by (meson acyclic_subset claims_okD(5) ok)
  moreover have "frames_ok s'" using claims_okD(1) [OF ok] by (simp add: frames_ok_def s'_def)
  moreover have "slots_ok s'" using claims_okD(2) [OF ok] wf by (auto simp: slots_ok_def wk) (simp_all add: s'_def)
  moreover have "wakeups_ok s'" 
    by (rule wakeups_okI [OF claims_okD(4) [OF ok]]) (use wt in \<open>auto simp: s'_def split: if_splits\<close>)
  ultimately show "claims_ok s'" by (simp add: claims_ok_def)
qed

lemma claims_ok_claimed:
  assumes ok: "claims_ok s" and t: "t \<noteq> kNoMaterializationThreadToken" and run: "cl_pc s t = CpRun"
    and new: "key \<notin> me_key ` set (cl_materializing s)" and d: "mk_descId key \<notin> fst ` set (cl_stack s t)"
  defines "s' \<equiv> s\<lparr>cl_materializing := cl_materializing s @ [\<lparr>me_key = key, me_threadToken = t\<rparr>],
                  cl_stack := (cl_stack s)(t := (mk_descId key, Some key) # cl_stack s t)\<rparr>"
  shows "claims_ok s'"
proof -
  have wk: "waitKey s' = waitKey s" "slots_wf s' = slots_wf s" by (rule waitKey_cong, simp_all add: s'_def slots_wf_def)
  have "t \<notin> Domain (waits s)" using claims_okD(6) [OF ok, of t] run by (auto simp: waits_def)
  have sub: "waits s' \<subseteq> waits s \<union> {u. waitKey s u = Some key} \<times> {t}" by (auto simp: waits_def wk) (auto simp: s'_def)
  have "acyclic (waits s')"
  proof (rule acyclic_subset [OF _ sub], rule acyclicI, intro allI notI)
    fix x assume x: "(x, x) \<in> (waits s \<union> {u. waitKey s u = Some key} \<times> {t})\<^sup>+"
    have noout: "(t, y) \<notin> waits s \<union> {u. waitKey s u = Some key} \<times> {t}" for y
      using claims_okD(6) [OF ok, of t] run by (auto simp: waits_def)
    have "(x, y) \<in> (waits s)\<^sup>+ \<or> y = t" if "(x, y) \<in> (waits s \<union> {u. waitKey s u = Some key} \<times> {t})\<^sup>+" for y
      using that by induction (use noout in \<open>auto intro: trancl_into_trancl\<close>)
    from this [OF x] show False
    proof
      assume "(x, x) \<in> (waits s)\<^sup>+" then show False using claims_okD(5) [OF ok] by (simp add: acyclic_def)
    next
      assume "x = t" then show False using x noout by (meson tranclD)
    qed
  qed
  moreover have "frames_ok s'" using claims_okD(1) [OF ok] new d t by (force simp: frames_ok_def s'_def)
  moreover have "slots_ok s'" using claims_okD(2) [OF ok] by (simp add: slots_ok_def wk) (simp add: s'_def)
  moreover have "wakeups_ok s'" by (rule wakeups_okI [OF claims_okD(4) [OF ok]]) (auto simp: s'_def)
  ultimately show ?thesis by (simp add: claims_ok_def)
qed

lemma claims_ok_waiting:
  assumes ok: "claims_ok s" and t: "t \<noteq> kNoMaterializationThreadToken" and run: "cl_pc s t = CpRun"
    and has: "hasMaterializationWaitSlot t s" and e: "cl_owner s key = Some e" "me_threadToken e \<noteq> t"
    and walk: "cl_stack s t = [] \<or> \<not> materializationWaitCycleDetected s t (me_threadToken e)"
  defines "s' \<equiv> setWaitSlot t \<lparr>mw_key = key, mw_active = True\<rparr> (s\<lparr>cl_pc := (cl_pc s)(t := CpWait key False)\<rparr>)"
  shows "claims_ok s'"
proof -
  let ?s = "s\<lparr>cl_pc := (cl_pc s)(t := CpWait key False)\<rparr>"
  note fr = claims_okD(1) [OF ok]
  have wf: "slots_wf ?s" "hasMaterializationWaitSlot t ?s" "waitKey ?s = waitKey s"
    using claims_okD(3) [OF ok] has waitKey_cong [of ?s s] by (simp_all add: slots_wf_def hasMaterializationWaitSlot_def)
  have wk: "waitKey s' = (waitKey s)(t \<mapsto> key)" unfolding s'_def by (simp add: waitKey_set [OF wf(1,2)] wf(3))
  have em: "e \<in> set (cl_materializing s)" "me_key e = key" using e(1) fr by (simp_all add: cl_owner_Some)
  have uniq: "e' = e" if "e' \<in> set (cl_materializing s)" "me_key e' = key" for e'
    using that e(1) cl_owner_Some [OF fr, of key e'] by simp
  have mats: "cl_materializing s' = cl_materializing s" by (simp add: s'_def)
  have "waits s' \<subseteq> insert (t, me_threadToken e) (waits s)"
    using uniq by (auto simp: waits_def wk mats split: if_splits)
  moreover have "(me_threadToken e, t) \<notin> (waits s)\<^sup>*"
  proof
    assume path: "(me_threadToken e, t) \<in> (waits s)\<^sup>*"
    have "me_threadToken e \<in> owners s" using em by (simp add: owners_def)
    from walk_detects [OF fr claims_okD(2) [OF ok] run this path] have "cl_stack s t = []" using walk by simp
    moreover have "t \<in> Range (waits s)" using path e(2) by (metis RangeI rtranclE)
    ultimately show False using fr by (auto simp: waits_def frames_ok_def)
  qed
  ultimately have "acyclic (waits s')" using claims_okD(5) [OF ok] by (meson acyclic_insert acyclic_subset)
  moreover have "frames_ok s'" using fr by (simp add: frames_ok_def s'_def)
  moreover have "slots_ok s'" using claims_okD(2) [OF ok] wf t by (auto simp: slots_ok_def wk) (simp_all add: s'_def)
  moreover have "wakeups_ok s'" 
    by (rule wakeups_okI [OF claims_okD(4) [OF ok]]) (use em run in \<open>auto simp: s'_def split: if_splits\<close>)
  ultimately show ?thesis by (simp add: claims_ok_def)
qed

lemma claims_ok_pass:
  assumes "claims_ok s" "t \<noteq> kNoMaterializationThreadToken" "cl_pc s t = CpRun" "hasMaterializationWaitSlot t s"
  shows "claims_ok (snd (claimPass t key existing s))"
proof (cases "cl_owner s key")
  case None
  then show ?thesis using assms(1) claims_ok_claimed [OF assms(1-3), of key] cl_owner_None [of s key] by (simp add: claimPass_def)
next
  case (Some e)
  then show ?thesis using assms claims_ok_waiting [OF assms Some] by (simp add: claimPass_def)
qed

lemma swap_remove_first_key:
  assumes "distinct (map f xs)"
  shows "set (swap_remove_first (\<lambda>e. f e = k) xs) = {e \<in> set xs. f e \<noteq> k}"
    "distinct (map f (swap_remove_first (\<lambda>e. f e = k) xs))"
proof -
  have "set (swap_remove_first (\<lambda>e. f e = k) xs) = {e \<in> set xs. f e \<noteq> k} \<and> distinct (map f (swap_remove_first (\<lambda>e. f e = k) xs))"
    using assms
  proof (induction xs)
    case (Cons x xs)
    show ?case
    proof (cases "f x = k \<and> xs \<noteq> []")
      case True
      then obtain ys y where xs: "xs = ys @ [y]" by (meson rev_exhaust)
      then show ?thesis using True Cons.prems by (auto simp: image_iff)
    next
      case False
      then show ?thesis using Cons by (auto simp: image_iff)
    qed
  qed simp
  then show "set (swap_remove_first (\<lambda>e. f e = k) xs) = {e \<in> set xs. f e \<noteq> k}"
    "distinct (map f (swap_remove_first (\<lambda>e. f e = k) xs))" by blast+
qed

lemma claims_ok_release:
  assumes ok: "claims_ok s" and run: "cl_pc s t = CpRun" and top: "cl_stack s t = (d, Some key) # fs"
  shows "claims_ok (claimRelease t key s)"
proof -
  let ?s = "claimRelease t key s"
  note fr = claims_okD(1) [OF ok]
  have dist: "distinct (map me_key (cl_materializing s))" using fr by (simp add: frames_ok_def)
  have mine: "\<lparr>me_key = key, me_threadToken = t\<rparr> \<in> set (cl_materializing s)" "mk_descId key = d"
    using frames_okD(3,4) [OF fr, of d key t] top by simp_all
  have mats: "set (cl_materializing ?s) = {e \<in> set (cl_materializing s). me_key e \<noteq> key}"
    "distinct (map me_key (cl_materializing ?s))"
    using swap_remove_first_key [OF dist, of key] by (simp_all add: claimRelease_def)
  have wk: "waitKey ?s = waitKey s" "slots_wf ?s = slots_wf s"
    by (rule waitKey_cong, simp_all add: claimRelease_def slots_wf_def)
  have tk: "t \<noteq> kNoMaterializationThreadToken" using frames_okD(6) [OF fr mine(1)] by simp
  have "waits ?s \<subseteq> waits s" by (auto simp: waits_def wk mats)
  then have "acyclic (waits ?s)" by (meson acyclic_subset claims_okD(5) ok)
  moreover have "slots_ok ?s" using claims_okD(2) [OF ok] tk run by (auto simp: slots_ok_def wk) (auto simp: claimRelease_def)
  moreover have "wakeups_ok ?s" by (auto simp: wakeups_ok_def claimRelease_def)
  moreover have "frames_ok ?s"
    unfolding frames_ok_def
  proof (intro conjI allI impI ballI)
    show "distinct (map me_key (cl_materializing ?s))" by (fact mats)
    fix u
    show "distinct (map fst (cl_stack ?s u))" using frames_okD(2) [OF fr] by (simp add: claimRelease_def map_tl distinct_tl)
    fix d' key' assume in': "(d', Some key') \<in> set (cl_stack ?s u)"
    have fs: "u = t \<Longrightarrow> (d', Some key') \<in> set fs" using in' top by (simp add: claimRelease_def)
    have s: "(d', Some key') \<in> set (cl_stack s u)"
      using in' top fs by (cases "u = t") (simp_all add: claimRelease_def)
    then show "mk_descId key' = d'" by (rule frames_okD(3) [OF fr])
    have e': "\<lparr>me_key = key', me_threadToken = u\<rparr> \<in> set (cl_materializing s)" using frames_okD(4) [OF fr s] .
    have "key' \<noteq> key"
    proof
      assume eq: "key' = key"
      then have "u = t" using e' mine(1) find_key [OF dist, of key] by (metis mat_entry.ext_inject mat_entry.select_convs(1) option.inject)
      moreover have "d \<notin> fst ` set fs" using frames_okD(2) [OF fr, of t] top by simp
      ultimately show False using fs \<open>mk_descId key' = d'\<close> eq mine(2) by force
    qed
    then show "\<lparr>me_key = key', me_threadToken = u\<rparr> \<in> set (cl_materializing ?s)" using e' by (simp add: mats)
  next
    fix e assume e: "e \<in> set (cl_materializing ?s)"
    then have es: "e \<in> set (cl_materializing s)" "me_key e \<noteq> key" by (simp_all add: mats)
    then show "me_threadToken e \<noteq> kNoMaterializationThreadToken" using fr by (simp add: frames_ok_def)
    have "(mk_descId (me_key e), Some (me_key e)) \<in> set (cl_stack s (me_threadToken e))" using fr es by (simp add: frames_ok_def)
    then show "(mk_descId (me_key e), Some (me_key e)) \<in> set (cl_stack ?s (me_threadToken e))"
      using es(2) top by (auto simp: claimRelease_def)
  qed
  ultimately show ?thesis by (simp add: claims_ok_def)
qed

lemma claims_ok_notify:
  assumes ok: "claims_ok s"
  shows "claims_ok (claimNotifyAll t s)"
proof -
  let ?s = "claimNotifyAll t s"
  have wk: "waitKey ?s = waitKey s" "slots_wf ?s = slots_wf s" "cl_materializing ?s = cl_materializing s"
    by (rule waitKey_cong, simp_all add: claimNotifyAll_def slots_wf_def)
  have "pc_key (cl_pc ?s u) = pc_key (cl_pc s u)" for u by (simp add: claimNotifyAll_def split: claim_pc.split)
  then have "slots_ok ?s" using claims_okD(2) [OF ok] by (simp add: slots_ok_def wk) (simp add: claimNotifyAll_def)
  moreover have "waits ?s = waits s" by (simp add: waits_def wk)
  moreover have "frames_ok ?s" using claims_okD(1) [OF ok] by (simp add: frames_ok_def claimNotifyAll_def)
  moreover have "wakeups_ok ?s" by (auto simp: wakeups_ok_def claimNotifyAll_def split: claim_pc.splits if_splits)
  ultimately show ?thesis using claims_okD(5) [OF ok] by (simp add: claims_ok_def)
qed

lemma claims_ok_frames:
  assumes ok: "claims_ok s" and fr: "frames_ok (s\<lparr>cl_stack := st\<rparr>)" shows "claims_ok (s\<lparr>cl_stack := st\<rparr>)"
proof -
  have wk: "waitKey (s\<lparr>cl_stack := st\<rparr>) = waitKey s" by (rule waitKey_cong) simp_all
  then show ?thesis using ok fr waits_cong [OF _ wk] by (simp add: claims_ok_def slots_ok_def wakeups_ok_def slots_wf_def)
qed

lemma claims_ok_step: "claims_step s s' \<Longrightarrow> claims_ok s \<Longrightarrow> claims_ok s'"
proof (induction rule: claims_step.induct)
  case (enter t s key existing)
  let ?s = "setWaitSlot t no_wait (ensureMaterializationWaitSlot t s)"
  have has: "hasMaterializationWaitSlot t (ensureMaterializationWaitSlot t s)" using enter by (simp add: ensure_slot claims_okD(3))
  have "claims_ok ?s" using enter has by (intro claims_ok_clear claims_ok_ensure) (simp_all add: no_wait_def)
  moreover from this have "claims_ok (snd (claimPass t key existing ?s))"
    using enter has by (intro claims_ok_pass) (simp_all add: hasMaterializationWaitSlot_def)
  ultimately show ?case by (simp add: claimMaterializationOrWait_def Let_def)
next
  case (wake s t key b existing)
  show ?case unfolding claimWake_def
    by (rule claims_ok_pass [OF claims_ok_awake(1) claims_ok_awake(4) claims_ok_awake(3) claims_ok_awake(2)]) (fact wake)+
next
  case (release s t d key fs)
  then show ?case by (rule claims_ok_release [rotated])
next
  case (notify s t)
  then show ?case by (simp add: claims_ok_notify)
next
  case (guard s t d)
  then show ?case using claims_okD(1) [of s] by (intro claims_ok_frames) (auto simp: frames_ok_def)
next
  case (unguard s t d fs)
  then have "frames_ok s" by (simp add: claims_okD)
  note fr = frames_okD [OF this]
  have sub: "set fs \<subseteq> set (cl_stack s t)" "distinct (map fst fs)" "(x, Some k) \<in> set (cl_stack s t) \<Longrightarrow> (x, Some k) \<in> set fs" for x k
    using fr(2) [of t] unguard.hyps(2) by auto
  have "frames_ok (s\<lparr>cl_stack := (cl_stack s)(t := fs)\<rparr>)" unfolding frames_ok_def
    using fr(1-6) sub by (auto dest!: subsetD [OF sub(1)])
  then show ?case using unguard by (intro claims_ok_frames) auto
next
  case (leave s t)
  then show ?case by (simp add: clearMaterializationWaitSlot_def claims_ok_clear no_wait_def)
qed

lemma claims_reachable_ok: "claims_reachable s \<Longrightarrow> claims_ok s"
proof (induction rule: claims_reachable.induct)
  case init
  have "waitKey cl_init t = None" for t by (simp add: waitKey_def hasMaterializationWaitSlot_def cl_init_def)
  then show ?case by (simp add: claims_ok_def frames_ok_def slots_ok_def wakeups_ok_def waits_def acyclic_def)
      (simp add: cl_init_def slots_wf_def)
next
  case (step s s')
  then show ?case by (simp add: claims_ok_step)
qed

subsection \<open>What the protocol guarantees\<close>

definition sample_key :: "nat \<Rightarrow> mat_key" where
  "sample_key d = \<lparr>mk_descId = d, mk_scope = None\<rparr>"

text \<open>Two threads that each build one bean; then thread 2 asks for the bean of thread 1 and waits.\<close>

definition sample_claims :: claims where
  "sample_claims = snd (claimMaterializationOrWait 2 (sample_key 8) False (snd (claimMaterializationOrWait 1 (sample_key 7) False cl_init)))"

definition sample_waiting :: claims where
  "sample_waiting = snd (claimMaterializationOrWait 2 (sample_key 7) False sample_claims)"

lemmas claim_eval = claimMaterializationOrWait_def claimPass_def Let_def cl_owner_def sample_key_def cl_init_def
  kNoMaterializationThreadToken_def ensureMaterializationWaitSlot_def setWaitSlot_def materializationWaitSlot_def
  hasMaterializationWaitSlot_def kMaterializationWaitChunkSize_def no_wait_def materializationWaitCycleDetected_def

lemma sample_claims_eq:
  "sample_claims = \<lparr>cl_materializing = [\<lparr>me_key = sample_key 7, me_threadToken = 1\<rparr>, \<lparr>me_key = sample_key 8, me_threadToken = 2\<rparr>],
     cl_chunks = [replicate 256 no_wait], cl_capacity = 256,
     cl_stack = (\<lambda>_. [])(1 := [(7, Some (sample_key 7))], 2 := [(8, Some (sample_key 8))]), cl_pc = (\<lambda>_. CpRun)\<rparr>"
proof -
  have upd: "(replicate 256 x)[n := x] = replicate 256 x" if "n < 256" for n and x :: mat_wait
    using that by (intro nth_equalityI) (simp_all add: nth_list_update)
  show ?thesis by (simp add: sample_claims_def claim_eval upd)
qed

lemma sample_waiting_eq:
  "sample_waiting = sample_claims\<lparr>cl_chunks := [(replicate 256 no_wait)[2 := \<lparr>mw_key = sample_key 7, mw_active = True\<rparr>]],
     cl_pc := (\<lambda>_. CpRun)(2 := CpWait (sample_key 7) False)\<rparr>"
  by (simp add: sample_waiting_def sample_claims_eq claim_eval)

lemma sample_reachable: "claims_reachable sample_claims" "claims_reachable sample_waiting"
proof -
  let ?one = "snd (claimMaterializationOrWait 1 (sample_key 7) False cl_init)"
  have "claims_reachable ?one"
    by (rule claims_reachable.step [OF claims_reachable.init claims_step.enter])
      (simp_all add: cl_init_def kNoMaterializationThreadToken_def)
  moreover have "cl_pc ?one 2 = CpRun" by (simp add: claim_eval)
  ultimately show one: "claims_reachable sample_claims" unfolding sample_claims_def
    by (rule claims_reachable.step [OF _ claims_step.enter [rotated]]) (simp add: kNoMaterializationThreadToken_def)
  then show "claims_reachable sample_waiting" unfolding sample_waiting_def
    by (rule claims_reachable.step [OF _ claims_step.enter]) (simp_all add: kNoMaterializationThreadToken_def sample_claims_eq)
qed

text \<open>C23.  At most one thread at a time constructs the bean of a key: two threads never hold frames that
  claim the same descriptor in the same scope.\<close>

theorem claims_exclusive:
  assumes "claims_reachable s" "(d, Some key) \<in> set (cl_stack s t)" "(d', Some key) \<in> set (cl_stack s u)"
  shows "t = u"
proof -
  have fr: "frames_ok s" using claims_okD(1) [OF claims_reachable_ok [OF assms(1)]] .
  have "cl_owner s key = Some \<lparr>me_key = key, me_threadToken = t\<rparr>" "cl_owner s key = Some \<lparr>me_key = key, me_threadToken = u\<rparr>"
    using frames_okD(4) [OF fr assms(2)] frames_okD(4) [OF fr assms(3)] by (simp_all add: cl_owner_Some [OF fr])
  then show ?thesis by simp
qed

theorem claims_exclusive_witness: "(1::nat) = 1 \<and> (7, Some (sample_key 7)) \<in> set (cl_stack sample_claims 1)"
  using claims_exclusive [of sample_claims 7 "sample_key 7" 1 7 1] sample_reachable by (simp add: sample_claims_eq)

text \<open>C22.  The bounded walk of \<^verbatim>\<open>materializationWaitCycleDetected\<close> is exact: called with the owner of a
  claimed key it answers true exactly if that owner waits, directly or through others, for the calling
  thread; the bound \<open>materializing_.size()\<close> never cuts the walk short.\<close>

theorem wait_walk_exact:
  assumes "claims_reachable s" "cl_pc s t = CpRun" "cl_owner s key = Some e"
  shows "materializationWaitCycleDetected s t (me_threadToken e) \<longleftrightarrow> (me_threadToken e, t) \<in> (waits s)\<^sup>*"
proof -
  have ok: "claims_ok s" by (rule claims_reachable_ok [OF assms(1)])
  have "me_threadToken e \<in> owners s"
    using assms(3) cl_owner_Some [OF claims_okD(1) [OF ok]] by (simp add: owners_def)
  then show ?thesis using walk_detects [OF claims_okD(1,2) [OF ok] assms(2)] walk_sound [OF claims_okD(1) [OF ok]]
    unfolding materializationWaitCycleDetected_def by blast
qed

theorem wait_walk_exact_witness:
  "materializationWaitCycleDetected sample_waiting 1 2 \<and> (2, 1) \<in> (waits sample_waiting)\<^sup>*"
  using wait_walk_exact [of sample_waiting 1 "sample_key 8" "\<lparr>me_key = sample_key 8, me_threadToken = 2\<rparr>"] sample_reachable
  by (simp add: sample_waiting_eq sample_claims_eq claim_eval)

text \<open>C4.  No deadlock and no lost wake-up: the wait-for graph never has a cycle, and behind every thread
  that waits unnotified there is a thread that can move, one about to call \<open>notify_all\<close>, or one it
  transitively waits for that is either running user code for a claim it holds or already notified.\<close>

theorem waiting_makes_progress:
  assumes "claims_reachable s" "cl_pc s t = CpWait key False"
  shows "acyclic (waits s) \<and> ((\<exists>u. cl_pc s u = CpNotify)
     \<or> (\<exists>u. (t, u) \<in> (waits s)\<^sup>+ \<and> ((cl_pc s u = CpRun \<and> cl_stack s u \<noteq> []) \<or> (\<exists>k. cl_pc s u = CpWait k True))))"
proof -
  have ok: "claims_ok s" by (rule claims_reachable_ok [OF assms(1)])
  have edge: "\<exists>v. (u, v) \<in> waits s" if pc: "cl_pc s u = CpWait k False" and no: "\<nexists>u. cl_pc s u = CpNotify" for u k
  proof -
    obtain e where "e \<in> set (cl_materializing s)" "k = me_key e" using claims_okD(4) [OF ok] pc no by (auto simp: wakeups_ok_def)
    then show ?thesis using claims_okD(6) [OF ok, of u] pc by (auto simp: waits_def)
  qed
  have owns: "cl_stack s u \<noteq> []" if "(v, u) \<in> waits s" for u v
    using that frames_okD(5) [OF claims_okD(1) [OF ok]] by (fastforce simp: waits_def)
  have "waits s \<subseteq> {..<cl_capacity s} \<times> owners s"
    by (auto simp: waits_def owners_def waitKey_def hasMaterializationWaitSlot_def split: if_splits)
  then have "finite (waits s)" by (rule finite_subset) (simp add: owners_def)
  then have wf: "wf ((waits s)\<inverse>)" using claims_okD(5) [OF ok] by (rule finite_acyclic_wf_converse)
  have "\<exists>u. (t, u) \<in> (waits s)\<^sup>+ \<and> ((cl_pc s u = CpRun \<and> cl_stack s u \<noteq> []) \<or> (\<exists>k. cl_pc s u = CpWait k True))"
    if no: "\<nexists>u. cl_pc s u = CpNotify"
  proof -
    obtain v where "(t, v) \<in> waits s" using edge [OF assms(2) no] by auto
    then have "v \<in> {u. (t, u) \<in> (waits s)\<^sup>+}" by auto
    then obtain z where z: "(t, z) \<in> (waits s)\<^sup>+" "\<And>y. (z, y) \<in> waits s \<Longrightarrow> (t, y) \<notin> (waits s)\<^sup>+"
      using wfE_min [OF wf, of v "{u. (t, u) \<in> (waits s)\<^sup>+}"] by auto
    have "\<nexists>y. (z, y) \<in> waits s" using z by (meson trancl_into_trancl)
    then have "\<nexists>k. cl_pc s z = CpWait k False" using edge no by metis
    moreover have "cl_stack s z \<noteq> []" using z(1) owns by (metis tranclD2)
    ultimately have "(cl_pc s z = CpRun \<and> cl_stack s z \<noteq> []) \<or> (\<exists>k. cl_pc s z = CpWait k True)"
      using no by (metis (full_types) claim_pc.exhaust)
    then show ?thesis using z(1) by blast
  qed
  then show ?thesis using claims_okD(5) [OF ok] by blast
qed

theorem waiting_makes_progress_witness:
  "\<exists>u. (2, u) \<in> (waits sample_waiting)\<^sup>+ \<and> cl_pc sample_waiting u = CpRun \<and> cl_stack sample_waiting u \<noteq> []"
proof -
  have pc: "cl_pc sample_waiting u = (if u = 2 then CpWait (sample_key 7) False else CpRun)" for u
    by (simp add: sample_waiting_eq)
  have "\<nexists>u. cl_pc sample_waiting u = CpNotify" "\<nexists>u k. cl_pc sample_waiting u = CpWait k True" by (auto simp: pc)
  with waiting_makes_progress [OF sample_reachable(2), of 2 "sample_key 7"] pc [of 2] show ?thesis by auto
qed

end
