(* ===== verification/Resolution.thy ===== *)
theory Resolution
  imports Materialization
begin

text \<open>
  What a resolution guarantees: it ends, it restores the bookkeeping it touched on every exit,
  a singleton has one identity, dependencies are stored before their dependents, and a
  descriptor that is already under construction is rejected as a cycle.
\<close>

subsection \<open>Termination\<close>

text \<open>C9.  Resolution always ends: whatever the constructors, hooks and listeners resolve or throw,
  a request from a well-formed state returns, throws, fails an assertion or waits for another
  thread within a nesting depth of two calls per descriptor. Endless recursion is impossible.\<close>

theorem resolution_terminates:
  assumes "mstate_ok s" "2 * dtb_size (r_descriptors (m_reg s)) + 2 \<le> f"
  shows "fst (run u f req s) \<noteq> Fuel"
  by (rule goodD [OF run_fuel(1) [OF assms(2)] assms(1) idle_bound])

subsection \<open>What is restored\<close>

text \<open>C10.  Whether a request returns or throws, it leaves the stack of descriptors under construction
  and the list of claims as they were, does not touch the descriptor table or the candidate
  index, never replaces a stored singleton, only extends the insertion order and keeps
  the state well-formed.\<close>

theorem resolution_restores:
  assumes "mstate_ok s" "run u f req s = (Ret h, s') \<or> run u f req s = (Exc e, s')"
  shows "m_stack s' = m_stack s \<and> r_materializing (m_reg s') = r_materializing (m_reg s)
     \<and> r_descriptors (m_reg s') = r_descriptors (m_reg s) \<and> r_index (m_reg s') = r_index (m_reg s)
     \<and> (\<forall>d p. ss_find (r_singletons (m_reg s)) d = Some p \<longrightarrow> ss_find (r_singletons (m_reg s')) d = Some p)
     \<and> (\<exists>new. ss_insertionOrder (r_singletons (m_reg s')) = ss_insertionOrder (r_singletons (m_reg s)) @ new)
     \<and> mstate_ok s'"
proof -
  have fr: "frame s s'" using assms(2) fr.run_keeps [of u f req] by (auto simp: keeps_def ends_def)
  then have "ss_inv (r_singletons (m_reg s))" "reg_frame (m_reg s) (m_reg s')" "m_stack s' = m_stack s"
    using assms(1) by (auto simp: mstate_ok_def frame_def)
  then show ?thesis using frame_ok(1) [OF fr assms(1)] by (auto simp: reg_frame_def singleton_frame_def)
qed

subsection \<open>One identity per singleton\<close>

lemma bind_RetE:
  assumes "bindM m k s = (Ret b, s'')"
  obtains a s' where "m s = (Ret a, s')" "k a s' = (Ret b, s'')"
  using assms by (auto simp: bindM_def split: prod.splits outcome.splits)

lemma try_RetE: "tryUpdM g s = (Ret a, s') \<Longrightarrow> g s = Some s'"
  by (auto simp: tryUpdM_def split: option.splits)

lemma frame_find:
  assumes "frame s s'" "mstate_ok s" "ss_find (r_singletons (m_reg s)) d = Some p"
  shows "ss_find (r_singletons (m_reg s')) d = Some p"
  using assms by (auto simp: frame_def reg_frame_def singleton_frame_def mstate_ok_def)

text \<open>A claim that returns: the instance was there, or it was constructed, published and kept.\<close>

lemma claim_RetE:
  assumes run: "claimAndMaterialize u res d sc cold okc look publish em s = (Ret inst, s')"
  obtains "look s = Some inst" "s' = s"
  | s1 s2 where "constructM u res cold d (claimed d sc s) = (Ret inst, s1)" "publish inst s1 = Some s2"
      "createdLifecycle u res (c_exposedType cold) cold inst em (releaseClaim d sc s2) = (Ret (), s')"
      "d \<notin> set (m_stack s)" "look s = None"
      "find (\<lambda>e. me_key e = \<lparr>mk_descId = d, mk_scope = sc\<rparr>) (r_materializing (m_reg s)) = None"
proof -
  note r = run [unfolded claimAndMaterialize_def readM_def]
  obtain did s0 where c: "claimMaterialization d sc (look s) s = (Ret did, s0)" and
    rest: "(if \<not> did then (\<lambda>s. (case look s of None \<Rightarrow> abortM | Some inst \<Rightarrow> retM inst) s)
       else if \<not> okc then abortM
       else bindM (catchM (constructM u res cold d) (updM (releaseClaim d sc))) (\<lambda>mem.
            bindM (tryUpdM (\<lambda>s. map_option (releaseClaim d sc) (publish mem s))) (\<lambda>_.
            bindM (createdLifecycle u res (c_exposedType cold) cold mem em) (\<lambda>_. retM mem)))) s0 = (Ret inst, s')"
    by (rule bind_RetE [OF r]) (rule that)
  show ?thesis
  proof (cases did)
    case False
    then have "s0 = s" "d \<notin> set (m_stack s)" using c
      by (auto simp: claimMaterialization_def Let_def split: if_splits option.splits)
    with rest False show ?thesis by (auto simp: abortM_def retM_def split: option.splits intro: that(1))
  next
    case True
    with c have s0: "s0 = claimed d sc s" "d \<notin> set (m_stack s)" "look s = None"
      "find (\<lambda>e. me_key e = \<lparr>mk_descId = d, mk_scope = sc\<rparr>) (r_materializing (m_reg s)) = None"
      by (auto simp: claimMaterialization_def Let_def split: if_splits option.splits)
    have okc using rest True by (auto simp: abortM_def split: if_splits)
    with True rest have "bindM (catchM (constructM u res cold d) (updM (releaseClaim d sc))) (\<lambda>mem.
            bindM (tryUpdM (\<lambda>s. map_option (releaseClaim d sc) (publish mem s))) (\<lambda>_.
            bindM (createdLifecycle u res (c_exposedType cold) cold mem em) (\<lambda>_. retM mem))) (claimed d sc s) = (Ret inst, s')"
      by (simp add: s0(1))
    then show ?thesis
    proof (elim bind_RetE)
      fix mem s1 x s3 y s4
      assume "catchM (constructM u res cold d) (updM (releaseClaim d sc)) (claimed d sc s) = (Ret mem, s1)"
        and t: "tryUpdM (\<lambda>s. map_option (releaseClaim d sc) (publish mem s)) s1 = (Ret x, s3)"
        and l: "createdLifecycle u res (c_exposedType cold) cold mem em s3 = (Ret y, s4)" and "retM mem s4 = (Ret inst, s')"
      then have "constructM u res cold d (claimed d sc s) = (Ret inst, s1)" "mem = inst" "s4 = s'" by (auto simp: retM_def dest: catch_Ret)
      moreover obtain s2 where "publish mem s1 = Some s2" "s3 = releaseClaim d sc s2" using try_RetE [OF t] by auto
      ultimately show ?thesis using that(2) [OF _ _ _ s0(2-4)] l by simp
    qed
  qed
qed

text \<open>The descriptor that \<open>resolve\<close> selects.\<close>

definition selected :: "mstate \<Rightarrow> TypeId \<Rightarrow> NameId \<Rightarrow> ctr_error + DescriptorId" where
  "selected s t n = resolve_select (r_index (m_reg s)) (prio (m_reg s)) t (effectiveName s t n)"

lemma construct_claimed_ok: "mstate_ok s \<Longrightarrow> mstate_ok (claimed d sc s)"
  by (simp add: mstate_ok_def claimed_def aliases_wf_def primaryOf_def)

lemma claimed_selected:
  "selected (claimed d sc s) t n = selected s t n" "r_descriptors (m_reg (claimed d sc s)) = r_descriptors (m_reg s)"
  "primaryOf (m_reg (claimed d sc s)) = primaryOf (m_reg s)"
proof -
  have "prio (m_reg (claimed d sc s)) = prio (m_reg s)" by (simp add: prio_def claimed_def fun_eq_iff)
  moreover have "effectiveName (claimed d sc s) t n = effectiveName s t n"
    by (simp add: effectiveName_def claimed_def Let_def)
  moreover have "r_index (m_reg (claimed d sc s)) = r_index (m_reg s)" by (simp add: claimed_def)
  ultimately show "selected (claimed d sc s) t n = selected s t n" by (simp add: selected_def)
  show "r_descriptors (m_reg (claimed d sc s)) = r_descriptors (m_reg s)" by (simp add: claimed_def)
  show "primaryOf (m_reg (claimed d sc s)) = primaryOf (m_reg s)" by (simp add: claimed_def primaryOf_def fun_eq_iff)
qed

text \<open>A constructed singleton: where the store put it, and what happened to the insertion order.\<close>

lemma singleton_RetE:
  assumes res: "\<And>req. keeps frame (res req)" and ok: "mstate_ok s"
    and run: "materializeSingleton u res d s = (Ret h, s')" and none: "ss_find (r_singletons (m_reg s)) d = None"
  obtains p s1 order2 where "h = Direct p kInvalidSlotId d" "ss_find (r_singletons (m_reg s')) d = Some p"
    "constructM u res (dtb_coldAt (r_descriptors (m_reg s)) d) d (claimed d None s) = (Ret p, s1)" "frame (claimed d None s) s1"
    "ss_insertionOrder (r_singletons (m_reg s')) = ss_insertionOrder (r_singletons (m_reg s1)) @ [d] @ order2"
proof -
  let ?cold = "dtb_coldAt (r_descriptors (m_reg s)) d"
  obtain p where h: "h = Direct p kInvalidSlotId d" and
    c: "claimAndMaterialize u res d None ?cold (c_origin ?cold \<noteq> RuntimeBinding) (singletonFind d) (singletonStore d) (emitterScope s) s = (Ret p, s')"
    using run unfolding materializeSingleton_def readM_def Let_def by (elim bind_RetE) (auto simp: retM_def)
  from c show ?thesis
  proof (cases rule: claim_RetE)
    case 1
    then show ?thesis using none by (simp add: singletonFind_def)
  next
    case (2 s1 s2)
    have fr1: "frame (claimed d None s) s1" by (rule keeps_Ret [OF fr.r_construct [OF res] 2(1)])
    have ok1: "mstate_ok s1" by (rule frame_ok(1) [OF fr1 construct_claimed_ok [OF ok]])
    then have inv1: "ss_inv (r_singletons (m_reg s1))" by (simp add: mstate_ok_def)
    obtain ss where ss: "ss_store (r_singletons (m_reg s1)) d p = Some ss" "s2 = s1\<lparr>m_reg := (m_reg s1)\<lparr>r_singletons := ss\<rparr>\<rparr>"
      using 2(2) by (auto simp: singletonStore_def)
    have find2: "ss_find (r_singletons (m_reg (releaseClaim d None s2))) d = Some p"
      and ord2: "ss_insertionOrder (r_singletons (m_reg (releaseClaim d None s2))) = ss_insertionOrder (r_singletons (m_reg s1)) @ [d]"
      using ss_store_inv(3,4) [OF inv1 ss(1)] by (simp_all add: releaseClaim_def ss(2))
    have fr2: "frame s (releaseClaim d None s2)" by (rule fr.R_claim_singleton [OF 2(6) fr1 2(2)])
    then have ok2: "mstate_ok (releaseClaim d None s2)" by (rule frame_ok(1) [OF _ ok])
    have fr3: "frame (releaseClaim d None s2) s'" by (rule keeps_Ret [OF fr.r_created [OF res] 2(3)])
    then obtain new where "ss_insertionOrder (r_singletons (m_reg s')) = ss_insertionOrder (r_singletons (m_reg s1)) @ [d] @ new"
      using ok2 ord2 by (auto simp: frame_def reg_frame_def singleton_frame_def mstate_ok_def)
    then show ?thesis using that [OF h frame_find [OF fr3 ok2 find2] 2(1) fr1] by blast
  qed
qed

lemma materialize_singleton_Ret:
  assumes ok: "mstate_ok s" and run: "run u f (ReqMaterialize d) s = (Ret h, s')"
    and life: "dtb_lifetimeOf (r_descriptors (m_reg s)) d = Singleton" and prim: "primaryOf (m_reg s) d = d"
  shows "\<exists>p. h = Direct p kInvalidSlotId d \<and> ss_find (r_singletons (m_reg s')) d = Some p"
proof -
  obtain g where f: "f = Suc g" using run by (cases f) auto
  have m: "materializeOneImpl u (run u g) d s = (Ret h, s')" using run by (simp add: f)
  show ?thesis
  proof (cases "ss_find (r_singletons (m_reg s)) d")
    case None
    then have "materializeSingleton u (run u g) d s = (Ret h, s')"
      using m life prim by (auto simp: materializeOneImpl_def readM_def Let_def abortM_def split: if_splits)
    from singleton_RetE [OF fr.run_keeps ok this None] show ?thesis by blast
  next
    case (Some p)
    then show ?thesis using m life by (auto simp: materializeOneImpl_def readM_def Let_def abortM_def retM_def split: if_splits)
  qed
qed

lemma resolve_singleton:
  assumes sel: "selected s t n = Inr d" and life: "dtb_lifetimeOf (r_descriptors (m_reg s)) d = Singleton"
    and ready: "r_started (m_reg s)" "t \<noteq> kInvalidTypeId"
  shows "run u (Suc f) (ReqResolve t n) s = run u (Suc f) (ReqMaterialize d) s"
  using assms by (auto simp: registry_resolve_def readM_def Let_def selected_def materializeOneImpl_def split: option.splits)

lemma resolve_ready:
  assumes "run u f (ReqResolve t n) s = (Ret h, s')"
  shows "r_started (m_reg s)" "t \<noteq> kInvalidTypeId"
  using assms by (cases f; auto simp: registry_resolve_def readM_def Let_def throwM_def split: if_splits)+

lemma frame_selected:
  assumes "frame s s'"
  shows "selected s' t n = selected s t n" "r_started (m_reg s') = r_started (m_reg s)"
proof -
  obtain ss where r: "m_reg s' = (m_reg s)\<lparr>r_singletons := ss\<rparr>" using assms by (auto simp: frame_def reg_frame_def)
  have "effectiveName s' t n = effectiveName s t n"
    using assms by (auto simp: effectiveName_def r frame_def scope_frame_def Let_def split: option.splits)
  moreover have "prio (m_reg s') = prio (m_reg s)" by (simp add: r prio_def fun_eq_iff)
  ultimately show "selected s' t n = selected s t n" by (simp add: selected_def r)
  show "r_started (m_reg s') = r_started (m_reg s)" by (simp add: r)
qed

text \<open>C1.  A singleton has one identity: after a request for it has returned a handle, and whatever
  request runs next, asking for the same type and name again returns the same handle at once and
  changes nothing.\<close>

theorem singleton_identity:
  assumes ok: "mstate_ok s" and first: "run u f (ReqResolve t n) s = (Ret h, s1)"
    and sel: "selected s t n = Inr d" "dtb_lifetimeOf (r_descriptors (m_reg s)) d = Singleton" "primaryOf (m_reg s) d = d"
    and between: "run u g req s1 = (Ret h', s2) \<or> run u g req s1 = (Exc e, s2)"
  shows "run u (Suc k) (ReqResolve t n) s2 = (Ret h, s2)"
proof -
  obtain f0 where f: "f = Suc f0" using first by (cases f) auto
  note ready = resolve_ready [OF first]
  have "run u f (ReqMaterialize d) s = (Ret h, s1)" using first unfolding f resolve_singleton [OF sel(1,2) ready] .
  from materialize_singleton_Ret [OF ok this sel(2,3)]
  obtain p where p: "h = Direct p kInvalidSlotId d" "ss_find (r_singletons (m_reg s1)) d = Some p" by blast
  have f1: "frame s s1" using first by (rule keeps_Ret [OF fr.run_keeps])
  have f2: "frame s1 s2" using between fr.run_keeps [of u g req] by (auto simp: keeps_def ends_def)
  have "frame s s2" by (rule fr.R_trans [OF f1 f2])
  note same = frame_selected [OF this] frame_reg(1) [OF this]
  have size: "d < dtb_size (r_descriptors (m_reg s))"
    using \<open>run u f (ReqMaterialize d) s = (Ret h, s1)\<close> unfolding f
    by (auto simp: materializeOneImpl_def readM_def Let_def abortM_def split: if_splits)
  have "ss_find (r_singletons (m_reg s2)) d = Some p" by (rule frame_find [OF f2 frame_ok(1) [OF f1 ok] p(2)])
  then show ?thesis using same sel(1,2) ready p(1) size
    by (simp add: registry_resolve_def readM_def Let_def selected_def retM_def)
qed

text \<open>C24.  An interface alias shares the instance of its primary: a request for an alias that is
  not stored itself returns the primary's stored singleton, adjusted to the exposed type.\<close>

theorem alias_shares_instance:
  assumes ok: "mstate_ok s" and run: "run u f (ReqMaterialize d) s = (Ret h, s')"
    and d: "dtb_lifetimeOf (r_descriptors (m_reg s)) d = Singleton" "primaryOf (m_reg s) d \<noteq> d"
      "ss_find (r_singletons (m_reg s)) d = None"
  shows "\<exists>p. ss_find (r_singletons (m_reg s')) (primaryOf (m_reg s) d) = Some p
    \<and> h = Direct (adjusted (dtb_at (r_descriptors (m_reg s)) d) p) kInvalidSlotId d"
proof -
  let ?p = "primaryOf (m_reg s) d"
  obtain g where f: "f = Suc g" using run by (cases f) auto
  have size: "d < dtb_size (r_descriptors (m_reg s))" and a: "singletonAlias (run u g) d ?p s = (Ret h, s')"
    using run d unfolding f by (auto simp: materializeOneImpl_def readM_def Let_def abortM_def split: if_splits)
  show ?thesis
  proof (cases "ss_find (r_singletons (m_reg s)) ?p")
    case (Some p)
    then show ?thesis using a by (auto simp: singletonAlias_def readM_def Let_def retM_def)
  next
    case None
    then obtain h0 where h0: "run u g (ReqMaterialize ?p) s = (Ret h0, s')"
      "h = Direct (adjusted (dtb_at (r_descriptors (m_reg s)) d) (handle_instance h0)) kInvalidSlotId d"
      using a by (auto simp: singletonAlias_def readM_def Let_def retM_def elim!: bind_RetE)
    note p = primaryOf_ok [OF ok size]
    from materialize_singleton_Ret [OF ok h0(1) _ p(1)] p(2) d(1) h0(2) show ?thesis by auto
  qed
qed

subsection \<open>Dependencies come first\<close>

text \<open>The thunk that constructs a bean, whichever of the two forms the descriptor has.\<close>

definition constructor_of :: "descriptor_cold \<Rightarrow> thunk option" where
  "constructor_of cold = (case c_allocAndConstruct cold of Some th \<Rightarrow> Some th | None \<Rightarrow> c_construct cold)"

lemma actions_RetE:
  assumes "run_actions res as s = (Ret x, s')" "Resolve t n \<in> set as" "\<And>req. keeps frame (res req)"
  obtains s1 s2 h where "frame s s1" "res (ReqResolve t n) s1 = (Ret h, s2)" "frame s2 s'"
  using assms
proof (induction res as arbitrary: s rule: run_actions.induct)
  case (2 res t' n' as)
  from "2.prems"(2) obtain h s1 where h: "res (ReqResolve t' n') s = (Ret h, s1)" and rest: "run_actions res as s1 = (Ret x, s')"
    by (auto elim: bind_RetE)
  have f1: "frame s s1" by (rule keeps_Ret [OF "2.prems"(4) h])
  have f2: "frame s1 s'" by (rule keeps_Ret [OF fr.r_actions [OF "2.prems"(4)] rest])
  show ?case
  proof (cases "Resolve t n = Resolve t' n'")
    case True
    then show ?thesis using "2.prems"(1) [OF fr.R_refl _ f2] h by simp
  next
    case False
    then have "Resolve t n \<in> set as" using "2.prems"(3) by auto
    then show ?thesis using "2.IH" [OF _ rest] "2.prems"(1,4) fr.R_trans [OF f1] by metis
  qed
qed (auto simp: throwM_def)

lemma thunk_RetE:
  assumes "runThunk u res ev th s = (Ret x, s')" "destroyed [ev] = []" "Resolve t n \<in> set (u_script u th)" "\<And>req. keeps frame (res req)"
  obtains s1 s2 h where "frame s s1" "res (ReqResolve t n) s1 = (Ret h, s2)" "frame s2 s'"
proof -
  obtain s0 where s0: "frame s s0" "run_actions res (u_script u th) s0 = (Ret x, s')"
    using assms(1) unfolding runThunk_def by (elim bind_RetE) (use keeps_Ret [OF fr.r_log [OF assms(2)]] in blast)
  show ?thesis using actions_RetE [OF s0(2) assms(3,4)] fr.R_trans [OF s0(1)] that by metis
qed

lemma construct_RetE:
  assumes run: "constructM u res cold d s = (Ret p, s')" and th: "constructor_of cold = Some th"
    and a: "Resolve t n \<in> set (u_script u th)" and res: "\<And>req. keeps frame (res req)"
  obtains s1 s2 h where "frame s s1" "res (ReqResolve t n) s1 = (Ret h, s2)" "frame s2 s'"
proof (cases "c_allocAndConstruct cold")
  case (Some th')
  then obtain x s0 where r: "runThunk u res (EvConstruct th None) th s = (Ret x, s0)" and al: "allocM d s0 = (Ret p, s')"
    using run th by (auto simp: constructM_def constructor_of_def elim!: bind_RetE)
  obtain b c h where bc: "frame s b" "res (ReqResolve t n) b = (Ret h, c)" "frame c s0" by (rule thunk_RetE [OF r _ a res]) simp_all
  show ?thesis by (rule that [OF bc(1,2) fr.R_trans [OF bc(3) keeps_Ret [OF fr.r_alloc al]]])
next
  case None
  then obtain mem s0 x s1 where s: "allocM d s = (Ret mem, s0)" "constructThunk u res cold mem s0 = (Ret x, s1)" "s' = s1"
    using run by (auto simp: constructM_def retM_def elim!: bind_RetE dest: catch_Ret)
  then have r: "runThunk u res (EvConstruct th (Some mem)) th s0 = (Ret x, s')"
    using th None by (simp add: constructThunk_def constructor_of_def)
  obtain b c h where bc: "frame s0 b" "res (ReqResolve t n) b = (Ret h, c)" "frame c s'" by (rule thunk_RetE [OF r _ a res]) simp_all
  show ?thesis by (rule that [OF fr.R_trans [OF keeps_Ret [OF fr.r_alloc s(1)] bc(1)] bc(2,3)])
qed

text \<open>C11.  Dependencies are stored before their dependents: when the constructor of a singleton
  resolves another singleton and the construction succeeds, the dependency precedes the dependent in
  the insertion order, so the shutdown, which runs over the reversed order, destroys the dependent
  first.\<close>

theorem dependency_stored_first:
  assumes ok: "mstate_ok s" and run: "run u f (ReqMaterialize d) s = (Ret h, s')"
    and d: "dtb_lifetimeOf (r_descriptors (m_reg s)) d = Singleton" "primaryOf (m_reg s) d = d"
      "ss_find (r_singletons (m_reg s)) d = None"
    and dep: "constructor_of (dtb_coldAt (r_descriptors (m_reg s)) d) = Some th" "Resolve t n \<in> set (u_script u th)"
      "selected s t n = Inr e" "dtb_lifetimeOf (r_descriptors (m_reg s)) e = Singleton" "primaryOf (m_reg s) e = e"
  shows "\<exists>before after. ss_insertionOrder (r_singletons (m_reg s')) = before @ [d] @ after
           \<and> e \<in> set before \<and> set (ss_insertionOrder (r_singletons (m_reg s))) \<subseteq> set before"
proof -
  obtain g where f: "f = Suc g" using run by (cases f) auto
  have "materializeSingleton u (run u g) d s = (Ret h, s')"
    using run d unfolding f by (auto simp: materializeOneImpl_def readM_def Let_def abortM_def split: if_splits)
  then obtain p s1 new where c: "constructM u (run u g) (dtb_coldAt (r_descriptors (m_reg s)) d) d (claimed d None s) = (Ret p, s1)"
      "frame (claimed d None s) s1"
      and ord: "ss_insertionOrder (r_singletons (m_reg s')) = ss_insertionOrder (r_singletons (m_reg s1)) @ [d] @ new"
    by (rule singleton_RetE [OF fr.run_keeps ok _ d(3)])
  obtain a b hd where r: "frame (claimed d None s) a" "run u g (ReqResolve t n) a = (Ret hd, b)" "frame b s1"
    by (rule construct_RetE [OF c(1) dep(1,2) fr.run_keeps])
  have ok_a: "mstate_ok a" and ok_1: "mstate_ok s1" and ok_b: "mstate_ok b"
    using frame_ok(1) construct_claimed_ok [OF ok] r(1) c(2) keeps_Ret [OF fr.run_keeps r(2)] by blast+
  note base = claimed_selected [where d = d and sc = None and s = s]
  have sel: "selected a t n = Inr e" "dtb_lifetimeOf (r_descriptors (m_reg a)) e = Singleton" "primaryOf (m_reg a) e = e"
    using dep(3-5) base frame_selected(1) [OF r(1)] frame_reg [OF r(1)] by simp_all
  obtain g0 where g: "g = Suc g0" using r(2) by (cases g) auto
  have "run u g (ReqMaterialize e) a = (Ret hd, b)"
    using r(2) unfolding g resolve_singleton [OF sel(1,2) resolve_ready [OF r(2)]] .
  then obtain q where "ss_find (r_singletons (m_reg b)) e = Some q" using materialize_singleton_Ret [OF ok_a _ sel(2,3)] by blast
  then have "ss_find (r_singletons (m_reg s1)) e = Some q" by (rule frame_find [OF r(3) ok_b])
  then have "e \<in> set (ss_insertionOrder (r_singletons (m_reg s1)))" using ok_1 by (simp add: mstate_ok_def ss_inv_def)
  moreover have "set (ss_insertionOrder (r_singletons (m_reg s))) \<subseteq> set (ss_insertionOrder (r_singletons (m_reg s1)))"
    using c(2) ok by (auto simp: frame_def reg_frame_def singleton_frame_def claimed_def mstate_ok_def)
  ultimately show ?thesis using ord by blast
qed

subsection \<open>Cycles\<close>


subsection \<open>Concrete instances\<close>

text \<open>
  A started registry with two singletons of the types 0 and 1, whose constructors are the
  thunks 10 and 11, and an alias of the second for the type 2. In \<open>sample_user\<close> the first
  depends on the second; in \<open>cyclic_user\<close> they depend on each other.
\<close>

definition sample_hot :: "DescriptorId \<Rightarrow> descriptor" where
  "sample_hot p = \<lparr>d_priority = 0, d_primaryDescriptor = p, d_sessionSlot = kInvalidSessionSlot, d_lifetime = Singleton,
     d_adjustToExposed = Some (\<lambda>x. x + 16)\<rparr>"

definition sample_cold :: "TypeId \<Rightarrow> descriptor_cold" where
  "sample_cold t = (runtime_cold t kUnnamed None None None 8 8 t ''T'')\<lparr>c_origin := AnnotatedType, c_construct := Some (t + 10)\<rparr>"

definition sample_index :: tindex where
  "sample_index = tix_sortAllCandidates (\<lambda>_. 0)
     (tix_insertCandidate (tix_insertCandidate (tix_insertCandidate tix_init 0 kUnnamed 0) 1 kUnnamed 1) 2 kUnnamed 2)"

definition sample_mstate :: mstate where
  "sample_mstate = \<lparr>m_reg = registry_init\<lparr>r_started := True,
       r_descriptors := \<lparr>dtb_entries = [sample_hot 0, sample_hot 1, sample_hot 1],
         dtb_coldEntries = [sample_cold 0, sample_cold 1, sample_cold 2],
         dtb_lifetimes = [Singleton, Singleton, Singleton]\<rparr>,
       r_index := sample_index, r_singletons := ss_resize ss_init 3\<rparr>,
     m_listeners = ls_init, m_proto = ps_init, m_tl = tl_init, m_registryId = 1, m_token = 1,
     m_scope = None, m_stack = [], m_log = [], m_next = 1000\<rparr>"

definition sample_user :: user_code where
  "sample_user = \<lparr>u_script = (\<lambda>th. if th = 10 then [Resolve 1 kUnnamed] else []), u_callback = (\<lambda>_. []), u_maxSlots = None\<rparr>"

definition cyclic_user :: user_code where
  "cyclic_user = \<lparr>u_script = (\<lambda>th. if th = 10 then [Resolve 1 kUnnamed] else [Resolve 0 kUnnamed]),
     u_callback = (\<lambda>_. []), u_maxSlots = None\<rparr>"

lemmas tix_eval =
  tix_insertCandidate_def Let_def grow_to_def tix_sortAllCandidates_def tix_flushOne_def tix_ensureTable_def ne_push_def
  ne_default_def ne_finish_def std_sort_desc_def tix_singleOf_def tix_ambiguousNames_def tix_updateSingleUnnamed_def
  tix_tableFor_def tix_candidatesFor_def tix_entryFor_def tix_init_def sentinel_defs

lemma sample_index_eval:
  "resolve_select sample_index p 0 0 = Inr 0" "resolve_select sample_index p (Suc 0) 0 = Inr (Suc 0)" "resolve_select sample_index p 2 0 = Inr 2"
  by (simp_all add: sample_index_def resolve_select_def tix_singleUnnamedCandidate_def tix_eval)

lemma sample_regs:
  "r_index (m_reg sample_mstate) = sample_index" "r_started (m_reg sample_mstate)"
  "dtb_size (r_descriptors (m_reg sample_mstate)) = 3" "\<And>i. i < 3 \<Longrightarrow> dtb_lifetimeOf (r_descriptors (m_reg sample_mstate)) i = Singleton"
  "primaryOf (m_reg sample_mstate) 0 = 0" "primaryOf (m_reg sample_mstate) 1 = 1" "primaryOf (m_reg sample_mstate) 2 = 1"
  "r_singletons (m_reg sample_mstate) = ss_resize ss_init 3"
  by (auto simp: sample_mstate_def dtb_size_def dtb_lifetimeOf_def primaryOf_def dtb_at_def sample_hot_def sentinel_defs
      less_Suc_eq numeral_3_eq_3 Let_def)

lemma sample_ok: "mstate_ok sample_mstate"
proof -
  have "aliases_wf (m_reg sample_mstate)"
    unfolding aliases_wf_def sample_regs(3)
  proof (intro allI impI)
    fix d :: nat assume "d < 3"
    then have "d = 0 \<or> d = 1 \<or> d = 2" by linarith
    then show "primaryOf (m_reg sample_mstate) (primaryOf (m_reg sample_mstate) d) = primaryOf (m_reg sample_mstate) d \<and>
        dtb_lifetimeOf (r_descriptors (m_reg sample_mstate)) (primaryOf (m_reg sample_mstate) d) =
        dtb_lifetimeOf (r_descriptors (m_reg sample_mstate)) d"
      by (elim disjE) (simp_all add: sample_regs del: One_nat_def)
  qed
  then show ?thesis using ss_resize_inv [of ss_init 3] by (simp add: mstate_ok_def sample_regs(8) sample_mstate_def ss_init_def)
qed

lemmas run_eval =
  registry_resolve_def readM_def Let_def effectiveName_def materializeOneImpl_def materializeSingleton_def
  claimAndMaterialize_def singletonFind_def claimMaterialization_def bindM_def claimed_def constructM_def allocM_def
  updM_def retM_def catchM_def constructThunk_def runThunk_def logM_def throwM_def tryUpdM_def singletonStore_def
  createdLifecycle_def dispatchM_def postConstructM_def releaseClaim_def primaryOf_def emitterScope_def
  dtb_size_def dtb_lifetimeOf_def dtb_at_def dtb_coldAt_def sample_hot_def sample_cold_def runtime_cold_def
  ss_find_def ss_store_def arr_write_def ss_resize_def ss_init_def ls_init_def sample_index_eval

lemma sample_run:
  "\<exists>s1. run sample_user (Suc (Suc (Suc f))) (ReqResolve 0 0) sample_mstate = (Ret (Direct 1000 kInvalidSlotId 0), s1)
     \<and> ss_insertionOrder (r_singletons (m_reg s1)) = [1, 0]"
  by (simp add: sample_mstate_def sample_user_def registry_init_def run_eval sentinel_defs)

lemma cyclic_run:
  "fst (run cyclic_user (Suc (Suc (Suc (Suc f)))) (ReqResolve 0 0) sample_mstate) = Exc (ResolutionError DependencyCycle)"
  by (simp add: sample_mstate_def cyclic_user_def registry_init_def run_eval sentinel_defs)

theorem resolution_terminates_witness:
  "mstate_ok sample_mstate \<and> fst (run cyclic_user 8 (ReqResolve 0 0) sample_mstate) \<noteq> Fuel"
  using resolution_terminates [OF sample_ok, of 8 cyclic_user "ReqResolve 0 0"] sample_ok by (simp add: sample_regs)

theorem resolution_restores_witness:
  "\<exists>s'. run cyclic_user (Suc (Suc (Suc (Suc 0)))) (ReqResolve 0 0) sample_mstate = (Exc (ResolutionError DependencyCycle), s')
     \<and> m_stack s' = [] \<and> r_materializing (m_reg s') = []"
proof -
  obtain s' where s': "run cyclic_user (Suc (Suc (Suc (Suc 0)))) (ReqResolve 0 0) sample_mstate = (Exc (ResolutionError DependencyCycle), s')"
    using cyclic_run [of 0] by (metis prod.collapse)
  have "m_stack sample_mstate = []" "r_materializing (m_reg sample_mstate) = []"
    by (simp_all add: sample_mstate_def registry_init_def)
  then show ?thesis using resolution_restores [OF sample_ok disjI2 [OF s']] s' by simp
qed

theorem singleton_identity_witness:
  "\<exists>s1. run sample_user (Suc (Suc (Suc 0))) (ReqResolve 0 0) sample_mstate = (Ret (Direct 1000 kInvalidSlotId 0), s1)
     \<and> run sample_user 1 (ReqResolve 0 0) s1 = (Ret (Direct 1000 kInvalidSlotId 0), s1)"
proof -
  obtain s1 where s1: "run sample_user (Suc (Suc (Suc 0))) (ReqResolve 0 0) sample_mstate = (Ret (Direct 1000 kInvalidSlotId 0), s1)"
    using sample_run [of 0] by blast
  have sel: "selected sample_mstate 0 0 = Inr 0"
    by (simp add: sample_mstate_def selected_def effectiveName_def registry_init_def sample_index_eval Let_def sentinel_defs)
  have none: "run sample_user (Suc 0) (ReqResolve kInvalidTypeId 0) s1 = (Exc (ResolutionError UnknownType), s1)"
    using frame_selected(2) [OF keeps_Ret [OF fr.run_keeps s1]]
    by (simp add: registry_resolve_def readM_def throwM_def sample_regs)
  have life: "dtb_lifetimeOf (r_descriptors (m_reg sample_mstate)) 0 = Singleton" by (simp add: sample_regs)
  from singleton_identity [OF sample_ok s1 sel life sample_regs(5) disjI2 [OF none], of 0] s1
  show ?thesis by simp
qed

theorem alias_shares_instance_witness:
  "\<exists>s' h p. run sample_user (Suc (Suc 0)) (ReqMaterialize 2) sample_mstate = (Ret h, s')
     \<and> ss_find (r_singletons (m_reg s')) 1 = Some p \<and> h = Direct (p + 16) kInvalidSlotId 2"
proof -
  obtain s' h where run: "run sample_user (Suc (Suc 0)) (ReqMaterialize 2) sample_mstate = (Ret h, s')"
    by (simp add: sample_mstate_def sample_user_def registry_init_def run_eval singletonAlias_def sentinel_defs)
  have "dtb_lifetimeOf (r_descriptors (m_reg sample_mstate)) 2 = Singleton" by (simp add: sample_regs)
  moreover have "ss_find (r_singletons (m_reg sample_mstate)) 2 = None" by (simp add: sample_regs)
  moreover have "adjusted (dtb_at (r_descriptors (m_reg sample_mstate)) 2) p = p + 16" for p
    by (simp add: sample_mstate_def dtb_at_def adjusted_def sample_hot_def)
  ultimately show ?thesis using alias_shares_instance [OF sample_ok run] run by (auto simp: sample_regs(7) simp del: One_nat_def)
qed

theorem dependency_stored_first_witness:
  "\<exists>s' h before after. run sample_user (Suc (Suc (Suc 0))) (ReqMaterialize 0) sample_mstate = (Ret h, s')
     \<and> ss_insertionOrder (r_singletons (m_reg s')) = before @ [0] @ after \<and> 1 \<in> set before"
proof -
  obtain s' h where run: "run sample_user (Suc (Suc (Suc 0))) (ReqMaterialize 0) sample_mstate = (Ret h, s')"
    by (simp add: sample_mstate_def sample_user_def registry_init_def run_eval sentinel_defs)
  have d: "dtb_lifetimeOf (r_descriptors (m_reg sample_mstate)) 0 = Singleton" "ss_find (r_singletons (m_reg sample_mstate)) 0 = None"
      "dtb_lifetimeOf (r_descriptors (m_reg sample_mstate)) 1 = Singleton" by (simp_all add: sample_regs)
  have dep: "constructor_of (dtb_coldAt (r_descriptors (m_reg sample_mstate)) 0) = Some 10" "Resolve 1 0 \<in> set (u_script sample_user 10)"
    "selected sample_mstate 1 0 = Inr 1"
    by (simp_all add: constructor_of_def sample_mstate_def dtb_coldAt_def sample_cold_def runtime_cold_def sample_user_def
        selected_def effectiveName_def registry_init_def sample_index_eval Let_def sentinel_defs)
  from dependency_stored_first [OF sample_ok run d(1) sample_regs(5) d(2) dep d(3) sample_regs(6)] run show ?thesis by blast
qed


end
