(* ===== verification/Destruction.thy ===== *)
theory Destruction
  imports Resolution
begin

text \<open>
  The end of beans: \<^verbatim>\<open>executeDestructionLifecycle\<close>, \<^verbatim>\<open>stopRegistryOwnedBeans\<close>, \<^verbatim>\<open>stopScope\<close>,
  \<^verbatim>\<open>rollbackFailedStart\<close>, \<^verbatim>\<open>Registry::stop\<close> and the destructor, and the lifecycle steps that
  follow \<open>start\<close>: the dispatches for bound beans and the eager singletons.

  The functions of the teardown are \<open>noexcept\<close>: an exception that leaves user code calls
  \<open>std::terminate\<close>, which is \<open>Abort\<close>.
\<close>

subsection \<open>One bean\<close>

definition noexceptM :: "'a comp \<Rightarrow> 'a comp" where
  "noexceptM m s = (case m s of (Exc e, s') \<Rightarrow> (Abort, s') | (o1, s') \<Rightarrow> (o1, s'))"

text \<open>The contexts of the teardown carry no scope; the scope object itself stays as it is.\<close>

definition withoutScope :: "'a comp \<Rightarrow> 'a comp" where
  "withoutScope m s = (case m (s\<lparr>m_scope := None\<rparr>) of (o1, s') \<Rightarrow> (o1, s'\<lparr>m_scope := m_scope s\<rparr>))"

definition preDestroyM :: "user_code \<Rightarrow> resolver \<Rightarrow> descriptor_cold \<Rightarrow> ptr \<Rightarrow> unit comp" where
  "preDestroyM u res cold mem =
     (case c_preDestroy cold of None \<Rightarrow> retM () | Some th \<Rightarrow> runThunk u res (EvPreDestroy th mem) th)"

text \<open>
  The steps up to the destructor, which \<open>stopScope\<close> repeats as \<^verbatim>\<open>destroyWithoutDeallocation\<close>. The
  two flags are read once, before the first step.
\<close>

definition destroySteps :: "user_code \<Rightarrow> resolver \<Rightarrow> descriptor_cold \<Rightarrow> ptr \<Rightarrow> NameId \<Rightarrow> unit comp" where
  "destroySteps u res cold mem emitter = readM (\<lambda>s.
     let dispatchPreDestroy = ls_hasListeners (m_listeners s) phasePreDestroy;
         dispatchDestroyed = ls_hasListeners (m_listeners s) phaseDestroyed
     in if dispatchPreDestroy \<or> dispatchDestroyed
        then bindM (if dispatchPreDestroy then dispatchM u res phasePreDestroy (c_exposedType cold) emitter else retM ()) (\<lambda>_.
             bindM (preDestroyM u res cold mem) (\<lambda>_.
             bindM (if dispatchDestroyed then dispatchM u res phaseDestroyed (c_exposedType cold) emitter else retM ()) (\<lambda>_.
             logM (EvDestroy (c_destroy cold) mem))))
        else bindM (preDestroyM u res cold mem) (\<lambda>_. logM (EvDestroy (c_destroy cold) mem)))"

definition deallocM :: "descriptor_cold \<Rightarrow> ptr \<Rightarrow> unit comp" where
  "deallocM cold mem =
     (if c_dealloc cold \<noteq> None then logM (EvFree mem (c_dealloc cold))
      else if c_size cold \<noteq> 0 then logM (EvFree mem None) else retM ())"

definition executeDestructionLifecycle :: "user_code \<Rightarrow> resolver \<Rightarrow> DescriptorId \<Rightarrow> ptr \<Rightarrow> NameId \<Rightarrow> unit comp" where
  "executeDestructionLifecycle u res d mem emitter = readM (\<lambda>s.
     let cold = dtb_coldAt (r_descriptors (m_reg s)) d
     in if dtb_size (r_descriptors (m_reg s)) \<le> d then abortM
        else noexceptM (withoutScope
               (bindM (destroySteps u res cold mem emitter) (\<lambda>_. deallocM cold mem))))"

definition takeSlotMeta :: "SlotId \<Rightarrow> (ptr option \<times> DescriptorId) comp" where
  "takeSlotMeta slot s =
     (let (meta, ps) = ps_takeSlotMetaForDestruction (m_proto s) slot in (Ret meta, s\<lparr>m_proto := ps\<rparr>))"

definition releasePrototypeLast :: "user_code \<Rightarrow> resolver \<Rightarrow> SlotId \<Rightarrow> unit comp" where
  "releasePrototypeLast u res slot =
     bindM (takeSlotMeta slot) (\<lambda>(mem, d).
     bindM (case mem of None \<Rightarrow> retM () | Some p \<Rightarrow> executeDestructionLifecycle u res d p kNoScope) (\<lambda>_.
     onProto (\<lambda>ps. ps_reclaimSlot ps slot)))"

subsection \<open>The registry\<close>

fun destroySingletons :: "user_code \<Rightarrow> resolver \<Rightarrow> DescriptorId list \<Rightarrow> unit comp" where
  "destroySingletons u res [] = retM ()"
| "destroySingletons u res (d # ds) =
     bindM (readM (\<lambda>s. case ss_find (r_singletons (m_reg s)) d of
         None \<Rightarrow> retM () | Some mem \<Rightarrow> executeDestructionLifecycle u res d mem kNoScope))
       (\<lambda>_. destroySingletons u res ds)"

text \<open>The loop over the prototype slots, from the last one down.\<close>

fun destroyPrototypes :: "user_code \<Rightarrow> resolver \<Rightarrow> nat \<Rightarrow> unit comp" where
  "destroyPrototypes u res 0 = retM ()"
| "destroyPrototypes u res (Suc slot) =
     bindM (takeSlotMeta slot) (\<lambda>(mem, d).
     bindM (case mem of None \<Rightarrow> retM () | Some p \<Rightarrow> executeDestructionLifecycle u res d p kNoScope) (\<lambda>_.
     destroyPrototypes u res slot))"

definition updReg :: "(registry \<Rightarrow> registry) \<Rightarrow> unit comp" where
  "updReg f = updM (\<lambda>s. s\<lparr>m_reg := f (m_reg s)\<rparr>)"

definition stopRegistryOwnedBeans :: "user_code \<Rightarrow> resolver \<Rightarrow> bool comp" where
  "stopRegistryOwnedBeans u res = readM (\<lambda>s.
     if \<not> r_started (m_reg s) then retM False
     else bindM (updReg (\<lambda>r. r\<lparr>r_started := False\<rparr>)) (\<lambda>_.
          bindM (destroySingletons u res (rev (ss_insertionOrder (r_singletons (m_reg s))))) (\<lambda>_.
          bindM (updReg (\<lambda>r. r\<lparr>r_singletons := ss_releaseAll (r_singletons r)\<rparr>)) (\<lambda>_.
          bindM (readM (\<lambda>s. destroyPrototypes u res (ps_slotCount (m_proto s)))) (\<lambda>_.
          retM True)))))"

definition rollbackFailedStart :: "user_code \<Rightarrow> resolver \<Rightarrow> unit comp" where
  "rollbackFailedStart u res =
     bindM (updReg (\<lambda>r. r\<lparr>r_startLifecyclePending := [], r_materializing := []\<rparr>)) (\<lambda>_.
     bindM (stopRegistryOwnedBeans u res) (\<lambda>_. retM ()))"

fun destroyAll :: "user_code \<Rightarrow> resolver \<Rightarrow> (DescriptorId \<times> ptr) list \<Rightarrow> unit comp" where
  "destroyAll u res [] = retM ()"
| "destroyAll u res ((d, mem) # xs) =
     bindM (executeDestructionLifecycle u res d mem kNoScope) (\<lambda>_. destroyAll u res xs)"

text \<open>
  \<open>tlToDestroy\<close> is what the sweep over the thread-local stores collects; that sweep is \<open>tw_stop\<close>,
  which returns the list already reversed.
\<close>

definition registry_stop :: "user_code \<Rightarrow> resolver \<Rightarrow> (DescriptorId \<times> ptr) list \<Rightarrow> unit comp" where
  "registry_stop u res tlReversed =
     bindM (stopRegistryOwnedBeans u res) (\<lambda>stopped.
       if \<not> stopped then retM ()
       else bindM (destroyAll u res tlReversed) (\<lambda>_. updM (\<lambda>s. s\<lparr>m_listeners := ls_clear (m_listeners s)\<rparr>)))"

fun destroyPending :: "pending_singleton list \<Rightarrow> unit comp" where
  "destroyPending [] = retM ()"
| "destroyPending (pb # pbs) =
     bindM (logM (EvDestroy (Some (pb_destroy pb)) (pb_instance pb))) (\<lambda>_.
     bindM (if pb_dealloc pb \<noteq> None then logM (EvFree (pb_instance pb) (pb_dealloc pb))
            else if pb_size pb \<noteq> 0 then logM (EvFree (pb_instance pb) None) else retM ()) (\<lambda>_.
     destroyPending pbs))"

definition registry_destructor :: "user_code \<Rightarrow> resolver \<Rightarrow> unit comp" where
  "registry_destructor u res =
     bindM (stopRegistryOwnedBeans u res) (\<lambda>_.
     bindM (readM (\<lambda>s. destroyPending (r_pendingRuntimeSingletons (m_reg s)))) (\<lambda>_.
     updM (\<lambda>s. s\<lparr>m_proto := ps_markRegistryDeadAndReleaseHold (m_proto s)\<rparr>)))"

subsection \<open>The scope\<close>

text \<open>\<open>pushThrows\<close>: whether retiring a block of that descriptor fails to allocate.\<close>

fun destroySession :: "user_code \<Rightarrow> resolver \<Rightarrow> (DescriptorId \<Rightarrow> bool) \<Rightarrow> bool \<Rightarrow> NameId \<Rightarrow> DescriptorId list \<Rightarrow> unit comp" where
  "destroySession u res pushThrows deferred scopeName [] = retM ()"
| "destroySession u res pushThrows deferred scopeName (d # ds) =
     bindM (readM (\<lambda>s.
       let slot = d_sessionSlot (dtb_at (r_descriptors (m_reg s)) d);
           cold = dtb_coldAt (r_descriptors (m_reg s)) d
       in if dtb_size (r_descriptors (m_reg s)) \<le> d then abortM
          else case sessionFind s slot of
            None \<Rightarrow> retM ()
          | Some mem \<Rightarrow>
              bindM (if deferred
                     then bindM (noexceptM (withoutScope (destroySteps u res cold mem scopeName))) (\<lambda>_.
                          updM (\<lambda>s. s\<lparr>m_scope := map_option (\<lambda>sc. sc\<lparr>sc_sessionStore :=
                             ses_retireDeallocation (sc_sessionStore sc) (pushThrows d)
                               \<lparr>rb_descId = d, rb_memory = mem, rb_dealloc = c_dealloc cold,
                                rb_size = c_size cold, rb_align = c_align cold\<rparr>\<rparr>) (m_scope s)\<rparr>))
                     else executeDestructionLifecycle u res d mem scopeName) (\<lambda>_.
              tryUpdM (\<lambda>s. case m_scope s of None \<Rightarrow> None
                | Some sc \<Rightarrow> map_option (\<lambda>st. s\<lparr>m_scope := Some (sc\<lparr>sc_sessionStore := st\<rparr>)\<rparr>)
                     (ses_nullSlot (sc_sessionStore sc) slot)))))
       (\<lambda>_. destroySession u res pushThrows deferred scopeName ds)"

definition updScope :: "(scoped \<Rightarrow> scoped) \<Rightarrow> unit comp" where
  "updScope f = updM (\<lambda>s. s\<lparr>m_scope := map_option f (m_scope s)\<rparr>)"

definition stopScope :: "user_code \<Rightarrow> resolver \<Rightarrow> (DescriptorId \<Rightarrow> bool) \<Rightarrow> bool \<Rightarrow> unit comp" where
  "stopScope u res pushThrows deferDeallocation = readM (\<lambda>s.
     case m_scope s of
       None \<Rightarrow> abortM
     | Some sc \<Rightarrow>
         bindM (updScope (\<lambda>sc. sc\<lparr>sc_scopeState := Stopping\<rparr>)) (\<lambda>_.
         bindM (destroySession u res pushThrows deferDeallocation (sc_scopeNameId sc)
                  (rev (ses_insertionOrder (sc_sessionStore sc)))) (\<lambda>_.
         updScope (\<lambda>sc. sc\<lparr>sc_sessionStore := ses_releaseAll (sc_sessionStore sc) (\<not> deferDeallocation),
                          sc_scopeState := Stopped\<rparr>))))"

subsection \<open>After \<open>start\<close>\<close>

definition dispatchBeanContextStartLifecycle :: "user_code \<Rightarrow> resolver \<Rightarrow> unit comp" where
  "dispatchBeanContextStartLifecycle u res = readM (\<lambda>s.
     if \<not> r_beanContextStartLifecyclePending (m_reg s) then retM ()
     else (let typeId = c_exposedType (dtb_coldAt (r_descriptors (m_reg s)) (r_beanContextDescId (m_reg s)))
           in bindM (updReg (\<lambda>r. r\<lparr>r_beanContextStartLifecyclePending := False\<rparr>)) (\<lambda>_.
              bindM (dispatchM u res phaseInitialized typeId kNoScope) (\<lambda>_.
              dispatchM u res phaseCreated typeId kNoScope))))"

fun dispatchBound :: "user_code \<Rightarrow> resolver \<Rightarrow> (DescriptorId \<times> ptr \<times> TypeId) list \<Rightarrow> unit comp" where
  "dispatchBound u res [] = retM ()"
| "dispatchBound u res ((d, p, t) # bs) =
     bindM (dispatchM u res phaseInitialized t kNoScope) (\<lambda>_.
     bindM (dispatchM u res phaseCreated t kNoScope) (\<lambda>_. dispatchBound u res bs))"

definition dispatchBoundSingletonLifecycle :: "user_code \<Rightarrow> resolver \<Rightarrow> unit comp" where
  "dispatchBoundSingletonLifecycle u res = readM (\<lambda>s.
     bindM (dispatchBound u res (r_startLifecyclePending (m_reg s))) (\<lambda>_.
     updReg (\<lambda>r. r\<lparr>r_startLifecyclePending := []\<rparr>)))"

definition is_eager :: "registry \<Rightarrow> DescriptorId \<Rightarrow> bool" where
  "is_eager r d \<longleftrightarrow> d_lifetime (dtb_at (r_descriptors r) d) = Singleton
     \<and> c_origin (dtb_coldAt (r_descriptors r) d) \<noteq> RuntimeBinding \<and> \<not> c_lazy (dtb_coldAt (r_descriptors r) d)
     \<and> d_primaryDescriptor (dtb_at (r_descriptors r) d) = d"

fun materializeAll :: "resolver \<Rightarrow> DescriptorId list \<Rightarrow> unit comp" where
  "materializeAll res [] = retM ()"
| "materializeAll res (d # ds) = bindM (res (ReqMaterialize d)) (\<lambda>_. materializeAll res ds)"

definition materializeEagerSingletons :: "resolver \<Rightarrow> unit comp" where
  "materializeEagerSingletons res = withoutScope (readM (\<lambda>s.
     materializeAll res (std_sort_desc (prio (m_reg s))
       (filter (is_eager (m_reg s)) [0..<dtb_size (r_descriptors (m_reg s))]))))"

definition completeStart :: "registry \<Rightarrow> registry" where
  "completeStart r = r\<lparr>r_pending := []\<rparr>"

subsection \<open>Teardown of the registry\<close>

lemma destroyed_append [simp]: "destroyed (xs @ ys) = destroyed xs @ destroyed ys"
  by (induction xs rule: destroyed.induct) auto

text \<open>User code that neither resolves nor throws.\<close>

definition harmless :: "user_code \<Rightarrow> bool" where
  "harmless u \<longleftrightarrow> (\<forall>th. u_script u th = []) \<and> (\<forall>c. u_callback u c = [])"

text \<open>
  Computations of the teardown, while the registry is not started and has \<open>n\<close> descriptors: they
  only log, and destroy the objects \<open>ds\<close>, or, unless \<open>q\<close> is given, throw or abort.
\<close>

definition adds :: "bool \<Rightarrow> nat \<Rightarrow> ptr list \<Rightarrow> 'a comp \<Rightarrow> bool" where
  "adds q n ds m \<longleftrightarrow> (\<forall>s. \<not> r_started (m_reg s) \<longrightarrow> dtb_size (r_descriptors (m_reg s)) = n \<longrightarrow>
     (\<exists>a evs. m s = (Ret a, s\<lparr>m_log := m_log s @ evs\<rparr>) \<and> destroyed evs = ds)
     \<or> \<not> q \<and> (\<exists>e s'. m s = (Exc e, s')) \<or> \<not> q \<and> (\<exists>s'. m s = (Abort, s')))"

lemma addsE:
  assumes "adds q n ds m" "\<not> r_started (m_reg s)" "dtb_size (r_descriptors (m_reg s)) = n"
  obtains a evs where "m s = (Ret a, s\<lparr>m_log := m_log s @ evs\<rparr>)" "destroyed evs = ds"
  | e s' where "m s = (Exc e, s')" "\<not> q" | s' where "m s = (Abort, s')" "\<not> q"
  using assms unfolding adds_def by blast

lemma a_ret: "adds q n [] (retM a)"
proof -
  have "(Ret a, s) = (Ret a, s\<lparr>m_log := m_log s @ []\<rparr>) \<and> destroyed [] = []" for s :: mstate by simp
  then show ?thesis unfolding adds_def retM_def by blast
qed

lemma a_log: "adds q n (destroyed [ev]) (logM ev)"
  by (auto simp: adds_def logM_def updM_def)

lemma a_bind:
  assumes m: "adds q n ds m" and k: "\<And>a. adds q n es (k a)"
  shows "adds q n (ds @ es) (bindM m k)"
  unfolding adds_def
proof (intro allI impI)
  fix s :: mstate assume s: "\<not> r_started (m_reg s)" "dtb_size (r_descriptors (m_reg s)) = n"
  show "(\<exists>b evs. bindM m k s = (Ret b, s\<lparr>m_log := m_log s @ evs\<rparr>) \<and> destroyed evs = ds @ es)
     \<or> \<not> q \<and> (\<exists>e s'. bindM m k s = (Exc e, s')) \<or> \<not> q \<and> (\<exists>s'. bindM m k s = (Abort, s'))"
  proof (rule addsE [OF m s])
    fix a evs assume 1: "m s = (Ret a, s\<lparr>m_log := m_log s @ evs\<rparr>)" "destroyed evs = ds"
    have eq: "bindM m k s = k a (s\<lparr>m_log := m_log s @ evs\<rparr>)" by (simp add: bindM_def 1)
    have "\<not> r_started (m_reg (s\<lparr>m_log := m_log s @ evs\<rparr>))" "dtb_size (r_descriptors (m_reg (s\<lparr>m_log := m_log s @ evs\<rparr>))) = n"
      using s by simp_all
    then show ?thesis unfolding eq by (rule addsE [OF k, of _ a]) (auto simp: 1(2) intro!: exI [of _ "evs @ _"])
  qed (simp_all add: bindM_def)
qed

lemma a_read: "(\<And>s. dtb_size (r_descriptors (m_reg s)) = n \<Longrightarrow> adds q n ds (f s)) \<Longrightarrow> adds q n ds (readM f)"
  by (simp add: adds_def readM_def)

lemma a_if: "adds q n ds m \<Longrightarrow> adds q n ds m' \<Longrightarrow> adds q n ds (if b then m else m')"
  by simp

lemma a_noexcept: "adds q n ds m \<Longrightarrow> adds q n ds (noexceptM m)"
  by (fastforce simp: adds_def noexceptM_def)

lemma a_withoutScope:
  assumes "adds q n ds m"
  shows "adds q n ds (withoutScope m)"
  unfolding adds_def
proof (intro allI impI)
  fix s :: mstate assume "\<not> r_started (m_reg s)" "dtb_size (r_descriptors (m_reg s)) = n"
  then have "\<not> r_started (m_reg (s\<lparr>m_scope := None\<rparr>))" "dtb_size (r_descriptors (m_reg (s\<lparr>m_scope := None\<rparr>))) = n" by simp_all
  then show "(\<exists>b evs. withoutScope m s = (Ret b, s\<lparr>m_log := m_log s @ evs\<rparr>) \<and> destroyed evs = ds)
     \<or> \<not> q \<and> (\<exists>e s'. withoutScope m s = (Exc e, s')) \<or> \<not> q \<and> (\<exists>s'. withoutScope m s = (Abort, s'))"
    by (rule addsE [OF assms]) (auto simp: withoutScope_def)
qed

text \<open>While the registry is not started, user code that resolves anything gets \<open>NotStarted\<close>.\<close>

lemma a_actions:
  assumes "q \<longrightarrow> as = []"
  shows "adds q n [] (run_actions (run u (Suc f)) as)"
proof (cases as)
  case (Cons a bs)
  then show ?thesis using assms
    by (cases a) (auto simp: adds_def throwM_def bindM_def registry_resolve_def readM_def)
qed (simp add: a_ret)

lemma a_thunk: "destroyed [ev] = [] \<Longrightarrow> q \<longrightarrow> harmless u \<Longrightarrow> adds q n [] (runThunk u (run u (Suc f)) ev th)"
  using a_bind [OF a_log [of q n ev] a_actions [of q "u_script u th"]] by (simp add: runThunk_def harmless_def)

lemma a_callAll:
  assumes q: "q \<longrightarrow> harmless u"
  shows "adds q n [] (callAll u (run u (Suc f)) cs)"
proof (induction cs)
  case (Cons c cs)
  have "adds q n [] (run_actions (run u (Suc f)) (u_callback u c))" using q by (intro a_actions) (simp add: harmless_def)
  from a_bind [OF a_log [of _ _ "EvCallback c"] a_bind [OF this Cons]] show ?case by simp
qed (simp add: a_ret)

lemma a_dispatch: "q \<longrightarrow> harmless u \<Longrightarrow> adds q n [] (dispatchM u (run u (Suc f)) ph ty sc)"
  unfolding dispatchM_def by (rule a_read) (auto intro: a_ret a_callAll split: option.splits)

lemma a_preDestroy: "q \<longrightarrow> harmless u \<Longrightarrow> adds q n [] (preDestroyM u (run u (Suc f)) cold mem)"
  unfolding preDestroyM_def by (auto intro: a_ret a_thunk split: option.splits)

lemma a_destroySteps:
  assumes q: "q \<longrightarrow> harmless u"
  shows "adds q n [mem] (destroySteps u (run u (Suc f)) cold mem emitter)"
proof -
  have destroy: "adds q n [mem] (logM (EvDestroy (c_destroy cold) mem))" using a_log [of q n "EvDestroy (c_destroy cold) mem"] by simp
  have "adds q n ([] @ [] @ [] @ [mem])
      (bindM (if b then dispatchM u (run u (Suc f)) phasePreDestroy (c_exposedType cold) emitter else retM ()) (\<lambda>_.
       bindM (preDestroyM u (run u (Suc f)) cold mem) (\<lambda>_.
       bindM (if c then dispatchM u (run u (Suc f)) phaseDestroyed (c_exposedType cold) emitter else retM ()) (\<lambda>_.
       logM (EvDestroy (c_destroy cold) mem)))))" for b c
    by (intro a_bind a_if a_dispatch a_ret a_preDestroy destroy q)
  moreover have "adds q n ([] @ [mem]) (bindM (preDestroyM u (run u (Suc f)) cold mem) (\<lambda>_. logM (EvDestroy (c_destroy cold) mem)))"
    by (intro a_bind a_preDestroy destroy q)
  ultimately show ?thesis unfolding destroySteps_def Let_def by (intro a_read a_if) simp_all
qed

lemma a_dealloc: "adds q n [] (deallocM cold mem)"
  using a_log [of q n "EvFree mem _"] by (simp add: deallocM_def a_ret)

lemma a_destruction:
  assumes "q \<longrightarrow> harmless u \<and> d < n"
  shows "adds q n [mem] (executeDestructionLifecycle u (run u (Suc f)) d mem emitter)"
proof -
  have "q \<longrightarrow> harmless u" using assms by blast
  from a_bind [OF a_destroySteps [OF this] a_dealloc]
  have "adds q n [mem] (noexceptM (withoutScope (bindM (destroySteps u (run u (Suc f)) cold mem emitter) (\<lambda>_. deallocM cold mem))))" for cold
    by (intro a_noexcept a_withoutScope) simp
  moreover have "n \<le> d \<Longrightarrow> adds q n [mem] (abortM :: unit comp)" using assms by (auto simp: adds_def abortM_def)
  ultimately show ?thesis unfolding executeDestructionLifecycle_def Let_def by (intro a_read) (simp split: if_split)
qed

lemma noexcept_no_Exc: "noexceptM m s \<noteq> (Exc e, s')"
  by (cases "m s"; cases "fst (m s)") (auto simp: noexceptM_def)

lemma destruction_run:
  assumes "\<not> r_started (m_reg s)"
  obtains evs where "executeDestructionLifecycle u (run u (Suc f)) d mem emitter s = (Ret (), s\<lparr>m_log := m_log s @ evs\<rparr>)" "destroyed evs = [mem]"
  | s' where "executeDestructionLifecycle u (run u (Suc f)) d mem emitter s = (Abort, s')"
      "\<not> (harmless u \<and> d < dtb_size (r_descriptors (m_reg s)))"
proof -
  let ?q = "harmless u \<and> d < dtb_size (r_descriptors (m_reg s))"
  have "adds ?q (dtb_size (r_descriptors (m_reg s))) [mem] (executeDestructionLifecycle u (run u (Suc f)) d mem emitter)"
    by (rule a_destruction) simp
  from addsE [OF this assms refl] show thesis
  proof cases
    case (2 e s')
    then show thesis using noexcept_no_Exc
      by (auto simp: executeDestructionLifecycle_def readM_def Let_def abortM_def split: if_splits)
  qed (auto intro: that)
qed

lemma destroySingletons_run:
  assumes "\<not> r_started (m_reg s)"
  shows "(\<exists>evs. destroySingletons u (run u (Suc f)) ds s = (Ret (), s\<lparr>m_log := m_log s @ evs\<rparr>)
       \<and> destroyed evs = List.map_filter (ss_find (r_singletons (m_reg s))) ds)
     \<or> (\<exists>s'. destroySingletons u (run u (Suc f)) ds s = (Abort, s'))
       \<and> \<not> (harmless u \<and> (\<forall>d \<in> set ds. d < dtb_size (r_descriptors (m_reg s))))"
  using assms
proof (induction ds arbitrary: s)
  case Nil
  then show ?case by (simp add: retM_def List.map_filter_def)
      (metis append_Nil2 destroyed.simps(1) mstate.surjective mstate.update_convs(9))
next
  case (Cons d ds)
  show ?case
  proof (cases "ss_find (r_singletons (m_reg s)) d")
    case None
    then show ?thesis using Cons.IH [OF Cons.prems] by (auto simp: bindM_def readM_def retM_def List.map_filter_def)
  next
    case (Some mem)
    show ?thesis
    proof (rule destruction_run [OF Cons.prems, where u = u and f = f and d = d and mem = mem and emitter = kNoScope])
      fix s' assume "executeDestructionLifecycle u (run u (Suc f)) d mem kNoScope s = (Abort, s')"
        "\<not> (harmless u \<and> d < dtb_size (r_descriptors (m_reg s)))"
      then show ?thesis by (auto simp: bindM_def readM_def Some)
    next
      fix evs assume e: "executeDestructionLifecycle u (run u (Suc f)) d mem kNoScope s = (Ret (), s\<lparr>m_log := m_log s @ evs\<rparr>)" "destroyed evs = [mem]"
      have "\<not> r_started (m_reg (s\<lparr>m_log := m_log s @ evs\<rparr>))" using Cons.prems by simp
      from Cons.IH [OF this] show ?thesis
      proof (elim disjE exE conjE)
        fix evs2 assume 2: "destroySingletons u (run u (Suc f)) ds (s\<lparr>m_log := m_log s @ evs\<rparr>) =
            (Ret (), s\<lparr>m_log := m_log s @ evs, m_log := m_log (s\<lparr>m_log := m_log s @ evs\<rparr>) @ evs2\<rparr>)"
          "destroyed evs2 = List.map_filter (ss_find (r_singletons (m_reg (s\<lparr>m_log := m_log s @ evs\<rparr>)))) ds"
        have "destroySingletons u (run u (Suc f)) (d # ds) s = (Ret (), s\<lparr>m_log := m_log s @ (evs @ evs2)\<rparr>)"
          "destroyed (evs @ evs2) = List.map_filter (ss_find (r_singletons (m_reg s))) (d # ds)"
          using 2 by (simp_all add: bindM_def readM_def Some e List.map_filter_simps)
        then show ?thesis by blast
      qed (auto simp: bindM_def readM_def Some e)
    qed
  qed
qed

lemma memoryAt_take:
  "fst (fst (ps_takeSlotMetaForDestruction ps i)) = ps_memoryAt ps i"
  "ps_memoryAt (snd (ps_takeSlotMetaForDestruction ps i)) j = (if j = i then None else ps_memoryAt ps j)"
  "ps_slotCount (snd (ps_takeSlotMetaForDestruction ps i)) = ps_slotCount ps"
  by (auto simp: ps_takeSlotMetaForDestruction_def ps_memoryAt_def ps_has_def)

text \<open>Every occupied prototype slot names a descriptor of the table.\<close>

definition proto_in_range :: "mstate \<Rightarrow> bool" where
  "proto_in_range s \<longleftrightarrow> (\<forall>i mem. ps_memoryAt (m_proto s) i = Some mem \<longrightarrow>
     snd (fst (ps_takeSlotMetaForDestruction (m_proto s) i)) < dtb_size (r_descriptors (m_reg s)))"

lemma proto_in_range_take:
  "proto_in_range s \<Longrightarrow> proto_in_range (s\<lparr>m_proto := snd (ps_takeSlotMetaForDestruction (m_proto s) n), m_log := l\<rparr>)"
  by (auto simp: proto_in_range_def ps_takeSlotMetaForDestruction_def ps_memoryAt_def ps_has_def split: if_splits)

lemma destroyPrototypes_run:
  assumes "\<not> r_started (m_reg s)"
  shows "(\<exists>evs ps. destroyPrototypes u (run u (Suc f)) n s = (Ret (), s\<lparr>m_log := m_log s @ evs, m_proto := ps\<rparr>)
       \<and> destroyed evs = List.map_filter (ps_memoryAt (m_proto s)) (rev [0..<n])
       \<and> (\<forall>i. ps_memoryAt ps i = (if i < n then None else ps_memoryAt (m_proto s) i)))
     \<or> (\<exists>s'. destroyPrototypes u (run u (Suc f)) n s = (Abort, s')) \<and> \<not> (harmless u \<and> proto_in_range s)"
  using assms
proof (induction n arbitrary: s)
  case 0
  have "retM () s = (Ret (), s\<lparr>m_log := m_log s @ [], m_proto := m_proto s\<rparr>)" by (simp add: retM_def)
  moreover have "destroyed [] = List.map_filter (ps_memoryAt (m_proto s)) (rev [0..<0])" by (simp add: List.map_filter_simps)
  ultimately show ?case by (simp only: destroyPrototypes.simps not_less0 if_False) blast
next
  case (Suc n)
  let ?t = "ps_takeSlotMetaForDestruction (m_proto s) n"
  let ?s = "s\<lparr>m_proto := snd ?t\<rparr>"
  have t: "takeSlotMeta n s = (Ret (ps_memoryAt (m_proto s) n, snd (fst ?t)), ?s)"
    by (simp add: takeSlotMeta_def split_beta Let_def flip: memoryAt_take(1))
  have ns: "\<not> r_started (m_reg ?s)" using Suc.prems by simp
  have range: "rev [0..<Suc n] = n # rev [0..<n]" by simp
  have mf: "List.map_filter (ps_memoryAt (snd ?t)) (rev [0..<n]) = List.map_filter (ps_memoryAt (m_proto s)) (rev [0..<n])"
    by (auto simp: List.map_filter_def memoryAt_take intro!: map_cong filter_cong)
  have finish: ?case
    if step: "destroyPrototypes u (run u (Suc f)) (Suc n) s = destroyPrototypes u (run u (Suc f)) n (s\<lparr>m_proto := snd ?t, m_log := m_log s @ evs0\<rparr>)"
      and evs0: "destroyed evs0 = (case ps_memoryAt (m_proto s) n of None \<Rightarrow> [] | Some m \<Rightarrow> [m])" for evs0
  proof -
    have "\<not> r_started (m_reg (s\<lparr>m_proto := snd ?t, m_log := m_log s @ evs0\<rparr>))" using Suc.prems by simp
    from Suc.IH [OF this] show ?case unfolding step
    proof (elim disjE exE conjE)
      fix evs ps assume 1: "destroyPrototypes u (run u (Suc f)) n (s\<lparr>m_proto := snd ?t, m_log := m_log s @ evs0\<rparr>) =
          (Ret (), s\<lparr>m_proto := snd ?t, m_log := m_log s @ evs0,
             m_log := m_log (s\<lparr>m_proto := snd ?t, m_log := m_log s @ evs0\<rparr>) @ evs, m_proto := ps\<rparr>)"
        "destroyed evs = List.map_filter (ps_memoryAt (m_proto (s\<lparr>m_proto := snd ?t, m_log := m_log s @ evs0\<rparr>))) (rev [0..<n])"
        "\<forall>i. ps_memoryAt ps i = (if i < n then None else ps_memoryAt (m_proto (s\<lparr>m_proto := snd ?t, m_log := m_log s @ evs0\<rparr>)) i)"
      have "destroyPrototypes u (run u (Suc f)) n (s\<lparr>m_proto := snd ?t, m_log := m_log s @ evs0\<rparr>) =
          (Ret (), s\<lparr>m_log := m_log s @ (evs0 @ evs), m_proto := ps\<rparr>)" unfolding 1(1) by simp
      moreover have "destroyed (evs0 @ evs) = List.map_filter (ps_memoryAt (m_proto s)) (rev [0..<Suc n])"
        using 1(2) mf by (simp add: evs0 List.map_filter_simps split: option.splits)
      moreover have "\<forall>i. ps_memoryAt ps i = (if i < Suc n then None else ps_memoryAt (m_proto s) i)"
        using 1(3) by (auto simp: memoryAt_take)
      ultimately show "(\<exists>evs ps. destroyPrototypes u (run u (Suc f)) n (s\<lparr>m_proto := snd ?t, m_log := m_log s @ evs0\<rparr>) =
            (Ret (), s\<lparr>m_log := m_log s @ evs, m_proto := ps\<rparr>)
         \<and> destroyed evs = List.map_filter (ps_memoryAt (m_proto s)) (rev [0..<Suc n])
         \<and> (\<forall>i. ps_memoryAt ps i = (if i < Suc n then None else ps_memoryAt (m_proto s) i)))
       \<or> (\<exists>s'. destroyPrototypes u (run u (Suc f)) n (s\<lparr>m_proto := snd ?t, m_log := m_log s @ evs0\<rparr>) = (Abort, s'))
         \<and> \<not> (harmless u \<and> proto_in_range s)"
        by blast
    qed (use proto_in_range_take in blast)
  qed
  show ?case
  proof (cases "ps_memoryAt (m_proto s) n")
    case None
    then show ?thesis by (intro finish [of "[]"]) (simp_all add: bindM_def t retM_def)
  next
    case (Some mem)
    show ?thesis
    proof (rule destruction_run [OF ns, where u = u and f = f and d = "snd (fst ?t)" and mem = mem and emitter = kNoScope])
      fix s' assume "executeDestructionLifecycle u (run u (Suc f)) (snd (fst ?t)) mem kNoScope ?s = (Abort, s')"
        "\<not> (harmless u \<and> snd (fst ?t) < dtb_size (r_descriptors (m_reg ?s)))"
      then show ?thesis using Some by (auto simp: bindM_def t proto_in_range_def)
    next
      fix evs assume e: "executeDestructionLifecycle u (run u (Suc f)) (snd (fst ?t)) mem kNoScope ?s = (Ret (), ?s\<lparr>m_log := m_log ?s @ evs\<rparr>)" "destroyed evs = [mem]"
      show ?thesis by (rule finish [of evs]) (simp_all add: bindM_def t Some e)
    qed
  qed
qed

lemma stop_owned_run:
  assumes started: "r_started (m_reg s)" and inv: "ss_inv (r_singletons (m_reg s))"
    and run: "stopRegistryOwnedBeans u (run u (Suc f)) s = (o1, s')"
  shows "(o1 = Abort \<and> \<not> (harmless u \<and> proto_in_range s
        \<and> (\<forall>d \<in> set (ss_insertionOrder (r_singletons (m_reg s))). d < dtb_size (r_descriptors (m_reg s)))))
    \<or> (o1 = Ret True \<and> (\<exists>evs. m_log s' = m_log s @ evs
      \<and> destroyed evs = map (\<lambda>d. the (ss_find (r_singletons (m_reg s)) d)) (rev (ss_insertionOrder (r_singletons (m_reg s))))
          @ List.map_filter (ps_memoryAt (m_proto s)) (rev [0..<ps_slotCount (m_proto s)]))
    \<and> \<not> r_started (m_reg s') \<and> (\<forall>d. ss_find (r_singletons (m_reg s')) d = None) \<and> (\<forall>i. ps_memoryAt (m_proto s') i = None))"
proof -
  let ?s1 = "s\<lparr>m_reg := (m_reg s)\<lparr>r_started := False\<rparr>\<rparr>"
  let ?order = "rev (ss_insertionOrder (r_singletons (m_reg s)))"
  have 1: "\<not> r_started (m_reg ?s1)" by simp
  have mf: "List.map_filter (ss_find (r_singletons (m_reg s))) ?order = map (\<lambda>d. the (ss_find (r_singletons (m_reg s)) d)) ?order"
    using inv by (auto simp: List.map_filter_def ss_inv_def intro!: filter_True)
  from destroySingletons_run [OF 1, of u f ?order] show ?thesis
  proof (elim disjE exE conjE)
    fix sa assume "destroySingletons u (run u (Suc f)) ?order ?s1 = (Abort, sa)"
      "\<not> (harmless u \<and> (\<forall>d \<in> set ?order. d < dtb_size (r_descriptors (m_reg ?s1))))"
    then show ?thesis using run started by (auto simp: stopRegistryOwnedBeans_def readM_def bindM_def updReg_def updM_def)
  next
    fix evs assume e: "destroySingletons u (run u (Suc f)) ?order ?s1 = (Ret (), ?s1\<lparr>m_log := m_log ?s1 @ evs\<rparr>)"
      "destroyed evs = List.map_filter (ss_find (r_singletons (m_reg ?s1))) ?order"
    let ?s2 = "s\<lparr>m_log := m_log s @ evs, m_reg := (m_reg s)\<lparr>r_started := False, r_singletons := ss_releaseAll (r_singletons (m_reg s))\<rparr>\<rparr>"
    have 2: "\<not> r_started (m_reg ?s2)" by simp
    have stop: "stopRegistryOwnedBeans u (run u (Suc f)) s =
        bindM (destroyPrototypes u (run u (Suc f)) (ps_slotCount (m_proto s))) (\<lambda>_. retM True) ?s2"
      using e(1) started by (simp add: stopRegistryOwnedBeans_def readM_def bindM_def updReg_def updM_def)
    from destroyPrototypes_run [OF 2, of u f "ps_slotCount (m_proto s)"] show ?thesis
    proof (elim disjE exE conjE)
      fix evs2 ps assume p: "destroyPrototypes u (run u (Suc f)) (ps_slotCount (m_proto s)) ?s2 = (Ret (), ?s2\<lparr>m_log := m_log ?s2 @ evs2, m_proto := ps\<rparr>)"
        "destroyed evs2 = List.map_filter (ps_memoryAt (m_proto ?s2)) (rev [0..<ps_slotCount (m_proto s)])"
        "\<forall>i. ps_memoryAt ps i = (if i < ps_slotCount (m_proto s) then None else ps_memoryAt (m_proto ?s2) i)"
      have "ps_memoryAt ps i = None" for i using p(3) by (simp add: ps_memoryAt_def)
      then show ?thesis using p(1,2) run e(2) mf unfolding stop by (auto simp: bindM_def retM_def)
    next
      fix sa assume "destroyPrototypes u (run u (Suc f)) (ps_slotCount (m_proto s)) ?s2 = (Abort, sa)"
        "\<not> (harmless u \<and> proto_in_range ?s2)"
      moreover have "proto_in_range ?s2 = proto_in_range s" by (simp add: proto_in_range_def)
      ultimately show ?thesis using run unfolding stop by (auto simp: bindM_def)
    qed
  qed
qed


subsection \<open>Teardown of a scope\<close>

text \<open>The registry stays started, so user code may resolve; no resolution destroys anything.\<close>

interpretation qu: resolution_frame "\<lambda>s s'. frame s s' \<and> destroyed (m_log s') = destroyed (m_log s)"
proof (unfold_locales, goal_cases)
  case (2 s s' s'')
  then show ?case using fr.R_trans [of s s' s''] by simp
next
  case (4 d s s')
  then show ?case using fr.R_guard [of d s s'] by simp
next
  case (5 d sc s s')
  then show ?case using fr.R_claim_fail [of d sc s s'] by (simp add: releaseClaim_def claimed_def)
next
  case (6 d s s' mem s'')
  then show ?case using fr.R_claim_singleton [of d s s' mem s'']
    by (auto simp: releaseClaim_def claimed_def singletonStore_def)
next
  case (7 d sc s s' slot mem s'')
  then show ?case using frame_claim_session [of d sc s s' slot mem s'']
    by (auto simp: releaseClaim_def claimed_def sessionStore_def split: option.splits)
qed (simp_all add: fr.R_refl fr.R_local)

definition destroys :: "ptr list \<Rightarrow> 'a comp \<Rightarrow> bool" where
  "destroys ds m \<longleftrightarrow> (\<forall>s a s'. m s = (Ret a, s') \<longrightarrow> frame s s' \<and> destroyed (m_log s') = destroyed (m_log s) @ ds)"

lemma destroysD: "destroys ds m \<Longrightarrow> m s = (Ret a, s') \<Longrightarrow> frame s s' \<and> destroyed (m_log s') = destroyed (m_log s) @ ds"
  by (simp add: destroys_def)

lemma d_keeps: "keeps (\<lambda>s s'. frame s s' \<and> destroyed (m_log s') = destroyed (m_log s)) m \<Longrightarrow> destroys [] m"
  by (auto simp: destroys_def keeps_def ends_def)

lemma d_bind:
  assumes m: "destroys ds m" and k: "\<And>a. destroys es (k a)"
  shows "destroys (ds @ es) (bindM m k)"
  unfolding destroys_def
proof (intro allI impI)
  fix s b s' assume "bindM m k s = (Ret b, s')"
  then show "frame s s' \<and> destroyed (m_log s') = destroyed (m_log s) @ ds @ es"
  proof (rule bind_RetE)
    fix a s1 assume 1: "m s = (Ret a, s1)" "k a s1 = (Ret b, s')"
    show ?thesis using destroysD [OF m 1(1)] destroysD [OF k 1(2)] by (auto intro: fr.R_trans)
  qed
qed

lemma d_read: "(\<And>s. destroys ds (f s)) \<Longrightarrow> destroys ds (readM f)"
  by (simp add: destroys_def readM_def)

lemma d_log: "destroys [mem] (logM (EvDestroy th mem))"
  by (simp add: destroys_def logM_def updM_def frame_def reg_frame_refl scope_frame_refl)

lemma d_destroySteps: "destroys [mem] (destroySteps u (run u f) cold mem emitter)"
proof -
  have pre: "keeps (\<lambda>s s'. frame s s' \<and> destroyed (m_log s') = destroyed (m_log s)) (preDestroyM u (run u f) cold mem)"
    unfolding preDestroyM_def by (auto intro!: qu.r_ret qu.r_thunk qu.run_keeps split: option.splits)
  have disp: "keeps (\<lambda>s s'. frame s s' \<and> destroyed (m_log s') = destroyed (m_log s))
      (if b then dispatchM u (run u f) ph (c_exposedType cold) emitter else retM ())" for b ph
    by (auto intro: qu.r_ret qu.r_dispatch qu.run_keeps)
  have "destroys ([] @ [] @ [] @ [mem])
      (bindM (if b then dispatchM u (run u f) phasePreDestroy (c_exposedType cold) emitter else retM ()) (\<lambda>_.
       bindM (preDestroyM u (run u f) cold mem) (\<lambda>_.
       bindM (if c then dispatchM u (run u f) phaseDestroyed (c_exposedType cold) emitter else retM ()) (\<lambda>_.
       logM (EvDestroy (c_destroy cold) mem)))))" for b c
    by (intro d_bind d_keeps [OF disp] d_keeps [OF pre] d_log)
  moreover have "destroys ([] @ [mem]) (bindM (preDestroyM u (run u f) cold mem) (\<lambda>_. logM (EvDestroy (c_destroy cold) mem)))"
    by (intro d_bind d_keeps [OF pre] d_log)
  ultimately show ?thesis unfolding destroySteps_def Let_def by (intro d_read) simp
qed

lemma d_dealloc: "destroys [] (deallocM cold mem)"
  unfolding deallocM_def by (auto intro!: d_keeps qu.r_log qu.r_ret)

lemma hidden_run:
  assumes "noexceptM (withoutScope m) s = (Ret a, s')" "destroys ds m"
  shows "frame s s' \<and> destroyed (m_log s') = destroyed (m_log s) @ ds \<and> m_scope s' = m_scope s"
proof -
  from assms(1) obtain s1 where s1: "m (s\<lparr>m_scope := None\<rparr>) = (Ret a, s1)" "s' = s1\<lparr>m_scope := m_scope s\<rparr>"
    by (cases "m (s\<lparr>m_scope := None\<rparr>)"; cases "fst (m (s\<lparr>m_scope := None\<rparr>))") (auto simp: noexceptM_def withoutScope_def)
  have "frame (s\<lparr>m_scope := None\<rparr>) s1" "destroyed (m_log s1) = destroyed (m_log s) @ ds"
    using destroysD [OF assms(2) s1(1)] by simp_all
  then show ?thesis by (simp add: s1(2) frame_def scope_frame_refl)
qed

lemma execute_hidden:
  assumes "executeDestructionLifecycle u (run u f) d mem emitter s = (Ret a, s')"
  shows "frame s s' \<and> destroyed (m_log s') = destroyed (m_log s) @ [mem] \<and> m_scope s' = m_scope s"
proof -
  let ?cold = "dtb_coldAt (r_descriptors (m_reg s)) d"
  have "destroys ([mem] @ []) (bindM (destroySteps u (run u f) ?cold mem emitter) (\<lambda>_. deallocM ?cold mem))"
    by (intro d_bind d_destroySteps d_dealloc)
  with assms show ?thesis using hidden_run [of _ s a s' "[mem]"]
    by (simp add: executeDestructionLifecycle_def readM_def Let_def abortM_def split: if_splits)
qed

text \<open>
  The loop of \<open>stopScope\<close>: \<open>slot\<close> gives the session slots, \<open>st\<close> is the store at the beginning. Every
  descriptor is destroyed once, and in the deferred mode its memory is retired in that order.
\<close>

definition session_slot :: "mstate \<Rightarrow> DescriptorId \<Rightarrow> SessionSlot" where
  "session_slot s d = d_sessionSlot (dtb_at (r_descriptors (m_reg s)) d)"

lemma nullSlot_find:
  assumes "ses_nullSlot st k = Some st'" "ses_wf st"
  shows "ses_wf st'" "ses_find st' j = (if j = k then None else ses_find st j)" "ses_retiredBlocks st' = ses_retiredBlocks st"
  using assms by (auto simp: ses_nullSlot_def ses_wf_def ses_find_def arr_write_nth nth_list_update split: option.splits if_splits)

lemma retire_find [simp]:
  "ses_find (ses_retireDeallocation st b blk) k = ses_find st k" "ses_wf (ses_retireDeallocation st b blk) = ses_wf st"
  by (auto simp: ses_retireDeallocation_def ses_find_def ses_wf_def split: option.splits)

lemma bind_assoc: "bindM (bindM m k) l = bindM m (\<lambda>a. bindM (k a) l)"
  by (auto simp: bindM_def fun_eq_iff split: prod.splits outcome.splits)

lemma bind_read: "bindM (readM g) k s = bindM (g s) k s"
  by (simp add: bindM_def readM_def)

lemma bind_upd: "bindM (updM g) k s = k () (g s)"
  by (simp add: bindM_def updM_def)

lemma bind_abort: "bindM abortM k s = (Abort, s)"
  by (simp add: bindM_def abortM_def)

lemma destroySession_step:
  assumes run: "destroySession u (run u f) pt dfr nm (d # ds) s = (Ret (), s')" and sc: "m_scope s = Some sc" "ses_wf (sc_sessionStore sc)"
    and mem: "ses_find (sc_sessionStore sc) (session_slot s d) = Some mem"
  obtains s1 st1 where "destroySession u (run u f) pt dfr nm ds s1 = (Ret (), s')" "frame s (s1\<lparr>m_scope := Some sc\<rparr>)"
    "destroyed (m_log s1) = destroyed (m_log s) @ [mem]" "m_scope s1 = Some (sc\<lparr>sc_sessionStore := st1\<rparr>)" "ses_wf st1"
    "\<And>k. ses_find st1 k = (if k = session_slot s d then None else ses_find (sc_sessionStore sc) k)"
    "dfr \<Longrightarrow> \<not> pt d \<Longrightarrow> map rb_memory (ses_retiredBlocks st1) = map rb_memory (ses_retiredBlocks (sc_sessionStore sc)) @ [mem]"
proof -
  let ?slot = "session_slot s d"
  let ?cold = "dtb_coldAt (r_descriptors (m_reg s)) d"
  let ?blk = "\<lparr>rb_descId = d, rb_memory = mem, rb_dealloc = c_dealloc ?cold, rb_size = c_size ?cold, rb_align = c_align ?cold\<rparr>"
  let ?st = "if dfr then ses_retireDeallocation (sc_sessionStore sc) (pt d) ?blk else sc_sessionStore sc"
  define retire :: "unit comp" where "retire = updM (\<lambda>s. s\<lparr>m_scope := map_option (\<lambda>sc. sc\<lparr>sc_sessionStore :=
     ses_retireDeallocation (sc_sessionStore sc) (pt d) ?blk\<rparr>) (m_scope s)\<rparr>)"
  define nullM :: "unit comp" where "nullM = tryUpdM (\<lambda>s. case m_scope s of None \<Rightarrow> None
     | Some sc \<Rightarrow> map_option (\<lambda>st. s\<lparr>m_scope := Some (sc\<lparr>sc_sessionStore := st\<rparr>)\<rparr>) (ses_nullSlot (sc_sessionStore sc) ?slot))"
  have find: "sessionFind s ?slot = Some mem" using sc(1) mem by (simp add: sessionFind_def)
  have "\<not> dtb_size (r_descriptors (m_reg s)) \<le> d"
    using run by (auto simp: bind_read Let_def bind_abort)
  then have start: "bindM (if dfr then bindM (noexceptM (withoutScope (destroySteps u (run u f) ?cold mem nm))) (\<lambda>_. retire)
         else executeDestructionLifecycle u (run u f) d mem nm) (\<lambda>_. bindM nullM (\<lambda>_. destroySession u (run u f) pt dfr nm ds)) s = (Ret (), s')"
    using run find unfolding session_slot_def retire_def nullM_def by (simp add: bind_read bind_assoc Let_def split del: if_split)
  have null: "bindM nullM k s0 = (Ret (), s') \<Longrightarrow> m_scope s0 = Some (sc\<lparr>sc_sessionStore := ?st\<rparr>) \<Longrightarrow>
      \<exists>st1. ses_nullSlot ?st ?slot = Some st1 \<and> k () (s0\<lparr>m_scope := Some (sc\<lparr>sc_sessionStore := st1\<rparr>)\<rparr>) = (Ret (), s')" for k s0
    by (auto simp: nullM_def tryUpdM_def bindM_def split: option.splits)
  obtain sa st1 where sa: "frame s (sa\<lparr>m_scope := Some sc\<rparr>)" "destroyed (m_log sa) = destroyed (m_log s) @ [mem]"
      "m_scope sa = Some (sc\<lparr>sc_sessionStore := ?st\<rparr>)" "ses_nullSlot ?st ?slot = Some st1"
      "destroySession u (run u f) pt dfr nm ds (sa\<lparr>m_scope := Some (sc\<lparr>sc_sessionStore := st1\<rparr>)\<rparr>) = (Ret (), s')"
  proof (cases dfr)
    case True
    have "bindM (noexceptM (withoutScope (destroySteps u (run u f) ?cold mem nm)))
        (\<lambda>_. bindM retire (\<lambda>_. bindM nullM (\<lambda>_. destroySession u (run u f) pt dfr nm ds))) s = (Ret (), s')"
      using start True by (simp only: if_True bind_assoc)
    then obtain b s0 where b: "noexceptM (withoutScope (destroySteps u (run u f) ?cold mem nm)) s = (Ret b, s0)"
      and rest: "bindM retire (\<lambda>_. bindM nullM (\<lambda>_. destroySession u (run u f) pt dfr nm ds)) s0 = (Ret (), s')"
      by (rule bind_RetE)
    note h = hidden_run [OF b d_destroySteps]
    let ?sa = "s0\<lparr>m_scope := Some (sc\<lparr>sc_sessionStore := ?st\<rparr>)\<rparr>"
    have "bindM nullM (\<lambda>_. destroySession u (run u f) pt dfr nm ds) ?sa = (Ret (), s')"
      using rest h sc(1) True by (simp add: retire_def bind_upd)
    from null [OF this] show ?thesis using that [of ?sa] h sc(1) by (auto simp: frame_def)
  next
    case False
    then have "bindM (executeDestructionLifecycle u (run u f) d mem nm)
        (\<lambda>_. bindM nullM (\<lambda>_. destroySession u (run u f) pt dfr nm ds)) s = (Ret (), s')"
      using start by simp
    then obtain b s0 where b: "executeDestructionLifecycle u (run u f) d mem nm s = (Ret b, s0)"
      and rest: "bindM nullM (\<lambda>_. destroySession u (run u f) pt dfr nm ds) s0 = (Ret (), s')"
      by (rule bind_RetE)
    note h = execute_hidden [OF b]
    from null [OF rest] show ?thesis using that [of s0] h sc(1) False by (auto simp: frame_def)
  qed
  have "ses_wf ?st" using sc(2) by simp
  note n = nullSlot_find [OF sa(4) this]
  show ?thesis
  proof (rule that [OF sa(5)])
    show "ses_find st1 k = (if k = ?slot then None else ses_find (sc_sessionStore sc) k)" for k using n(2) by simp
    show "map rb_memory (ses_retiredBlocks st1) = map rb_memory (ses_retiredBlocks (sc_sessionStore sc)) @ [mem]" if dfr "\<not> pt d"
      using n(3) that by (simp add: ses_retireDeallocation_def)
  qed (use sa n(1) in simp_all)
qed

lemma destroySession_all:
  assumes "destroySession u (run u f) pt dfr nm ds s = (Ret (), s')" "m_scope s = Some sc" "ses_wf (sc_sessionStore sc)"
    "distinct (map (session_slot s) ds)" "\<forall>d \<in> set ds. ses_find (sc_sessionStore sc) (session_slot s d) \<noteq> None"
  shows "\<exists>st. m_scope s' = Some (sc\<lparr>sc_sessionStore := st\<rparr>) \<and> r_descriptors (m_reg s') = r_descriptors (m_reg s)
    \<and> destroyed (m_log s') = destroyed (m_log s) @ map (\<lambda>d. the (ses_find (sc_sessionStore sc) (session_slot s d))) ds
    \<and> (dfr \<and> (\<forall>d. \<not> pt d) \<longrightarrow> map rb_memory (ses_retiredBlocks st) = map rb_memory (ses_retiredBlocks (sc_sessionStore sc))
          @ map (\<lambda>d. the (ses_find (sc_sessionStore sc) (session_slot s d))) ds)"
  using assms
proof (induction ds arbitrary: s sc)
  case Nil
  then show ?case by (auto simp: retM_def intro!: exI [of _ "sc_sessionStore sc"])
next
  case (Cons d ds)
  from Cons.prems(5) obtain mem where mem: "ses_find (sc_sessionStore sc) (session_slot s d) = Some mem" by auto
  obtain s1 st1 where 1: "destroySession u (run u f) pt dfr nm ds s1 = (Ret (), s')" "frame s (s1\<lparr>m_scope := Some sc\<rparr>)"
    "destroyed (m_log s1) = destroyed (m_log s) @ [mem]" "m_scope s1 = Some (sc\<lparr>sc_sessionStore := st1\<rparr>)" "ses_wf st1"
    "\<And>k. ses_find st1 k = (if k = session_slot s d then None else ses_find (sc_sessionStore sc) k)"
    "dfr \<Longrightarrow> \<not> pt d \<Longrightarrow> map rb_memory (ses_retiredBlocks st1) = map rb_memory (ses_retiredBlocks (sc_sessionStore sc)) @ [mem]"
    by (rule destroySession_step [OF Cons.prems(1-3) mem]) (rule that, assumption+)
  have dt: "r_descriptors (m_reg s1) = r_descriptors (m_reg s)" using frame_reg(1) [OF 1(2)] by simp
  have slot: "session_slot s1 = session_slot s" by (simp add: session_slot_def dt fun_eq_iff)
  have keep: "ses_find st1 (session_slot s e) = ses_find (sc_sessionStore sc) (session_slot s e)" if "e \<in> set ds" for e
    using Cons.prems(4) that by (simp add: 1(6)) (metis image_eqI)
  then have map: "map (\<lambda>d. the (ses_find st1 (session_slot s d))) ds = map (\<lambda>d. the (ses_find (sc_sessionStore sc) (session_slot s d))) ds"
    by simp
  have "distinct (map (session_slot s1) ds)" "\<forall>d \<in> set ds. ses_find (sc_sessionStore (sc\<lparr>sc_sessionStore := st1\<rparr>)) (session_slot s1 d) \<noteq> None"
    using Cons.prems(4,5) keep by (auto simp: slot)
  from Cons.IH [OF 1(1,4) _ this] show ?case using 1(3,5,7) map mem by (auto simp: slot dt)
qed

lemma releaseAll_simps [simp]:
  "ses_find (ses_releaseAll st b) k = None" "ses_retiredBlocks (ses_releaseAll st False) = ses_retiredBlocks st"
  by (simp_all add: ses_releaseAll_def ses_find_def Let_def)

lemma ses_inv_wf: "ses_inv slot D st \<Longrightarrow> ses_wf st"
  by (auto simp: ses_inv_def ses_wf_def)

lemma stopScope_run:
  assumes sc: "m_scope s = Some sc" and inv: "ses_inv (session_slot s) D (sc_sessionStore sc)" "inj_on (session_slot s) D"
    and run: "stopScope u (run u f) pt dfr s = (Ret (), s')"
  defines "beans \<equiv> map (\<lambda>d. the (ses_find (sc_sessionStore sc) (session_slot s d))) (rev (ses_insertionOrder (sc_sessionStore sc)))"
  shows "\<exists>sc'. m_scope s' = Some sc' \<and> sc_scopeState sc' = Stopped \<and> (\<forall>k. ses_find (sc_sessionStore sc') k = None)
    \<and> destroyed (m_log s') = destroyed (m_log s) @ beans
    \<and> (dfr \<and> (\<forall>d. \<not> pt d) \<longrightarrow> map rb_memory (ses_retiredBlocks (sc_sessionStore sc'))
          = map rb_memory (ses_retiredBlocks (sc_sessionStore sc)) @ beans)"
proof -
  let ?sc = "sc\<lparr>sc_scopeState := Stopping\<rparr>"
  let ?s = "s\<lparr>m_scope := Some ?sc\<rparr>"
  let ?order = "rev (ses_insertionOrder (sc_sessionStore sc))"
  have slot: "session_slot ?s = session_slot s" by (simp add: session_slot_def fun_eq_iff)
  have ord: "distinct ?order" "set ?order \<subseteq> D" using inv(1) by (auto simp: ses_inv_def)
  then have "distinct (map (session_slot ?s) ?order)" using inj_on_subset [OF inv(2) ord(2)] by (simp add: slot distinct_map)
  moreover have "\<forall>d \<in> set ?order. ses_find (sc_sessionStore ?sc) (session_slot ?s d) \<noteq> None"
    using inv(1) ord(2) by (auto simp: slot ses_inv_def)
  moreover from run sc obtain s1 where s1: "destroySession u (run u f) pt dfr (sc_scopeNameId sc) ?order ?s = (Ret (), s1)"
    "s' = s1\<lparr>m_scope := map_option (\<lambda>sc. sc\<lparr>sc_sessionStore := ses_releaseAll (sc_sessionStore sc) (\<not> dfr),
        sc_scopeState := Stopped\<rparr>) (m_scope s1)\<rparr>"
    by (auto simp: stopScope_def readM_def updScope_def bind_upd updM_def elim!: bind_RetE)
  ultimately obtain st where st: "m_scope s1 = Some (?sc\<lparr>sc_sessionStore := st\<rparr>)" "destroyed (m_log s1) = destroyed (m_log s) @ beans"
      "dfr \<and> (\<forall>d. \<not> pt d) \<longrightarrow> map rb_memory (ses_retiredBlocks st) = map rb_memory (ses_retiredBlocks (sc_sessionStore sc)) @ beans"
    using destroySession_all [OF s1(1), of ?sc] ses_inv_wf [OF inv(1)] by (auto simp: slot beans_def)
  then show ?thesis by (auto simp: s1(2))
qed

text \<open>C12.  Stopping a scope destroys every session bean of the scope exactly once, in the reverse of the
  order in which they were stored, whatever the hooks and listeners resolve meanwhile; afterwards the
  scope is stopped and holds no instance. With deferred deallocation (a restart) the memory
  of the beans is retired in that order instead of being freed.\<close>

theorem stop_scope_destroys_in_reverse:
  assumes sc: "m_scope s = Some sc" and inv: "ses_inv (session_slot s) D (sc_sessionStore sc)" "inj_on (session_slot s) D"
    and run: "stopScope u (run u f) pt dfr s = (Ret (), s')"
  defines "beans \<equiv> map (\<lambda>d. the (ses_find (sc_sessionStore sc) (session_slot s d))) (rev (ses_insertionOrder (sc_sessionStore sc)))"
  shows "\<exists>sc'. m_scope s' = Some sc' \<and> sc_scopeState sc' = Stopped \<and> (\<forall>k. ses_find (sc_sessionStore sc') k = None)
    \<and> destroyed (m_log s') = destroyed (m_log s) @ beans
    \<and> (dfr \<and> (\<forall>d. \<not> pt d) \<longrightarrow> map rb_memory (ses_retiredBlocks (sc_sessionStore sc'))
          = map rb_memory (ses_retiredBlocks (sc_sessionStore sc)) @ beans)"
  unfolding beans_def by (rule stopScope_run [OF sc inv run])

subsection \<open>Eager singletons\<close>

lemma materializeAll_stored:
  assumes "materializeAll (run u f) ds s = (Ret a, s')" "mstate_ok s"
    "\<forall>d \<in> set ds. dtb_lifetimeOf (r_descriptors (m_reg s)) d = Singleton \<and> primaryOf (m_reg s) d = d"
  shows "frame s s' \<and> (\<forall>d \<in> set ds. ss_find (r_singletons (m_reg s')) d \<noteq> None)"
  using assms
proof (induction ds arbitrary: s)
  case Nil
  then show ?case by (simp add: retM_def fr.R_refl)
next
  case (Cons d ds)
  from Cons.prems(1) obtain h s1 where 1: "run u f (ReqMaterialize d) s = (Ret h, s1)" "materializeAll (run u f) ds s1 = (Ret a, s')"
    by (auto elim: bind_RetE)
  have fr1: "frame s s1" by (rule keeps_Ret [OF fr.run_keeps 1(1)])
  have ok1: "mstate_ok s1" by (rule frame_ok(1) [OF fr1 Cons.prems(2)])
  obtain p where p: "ss_find (r_singletons (m_reg s1)) d = Some p"
    using materialize_singleton_Ret [OF Cons.prems(2) 1(1)] Cons.prems(3) by auto
  have rest: "frame s1 s' \<and> (\<forall>d \<in> set ds. ss_find (r_singletons (m_reg s')) d \<noteq> None)"
    using Cons.IH [OF 1(2) ok1] Cons.prems(3) frame_reg [OF fr1] by simp
  then show ?case using fr.R_trans [OF fr1] frame_find [OF _ ok1 p] by auto
qed

lemma g_materializeAll: "(\<And>req. good k (res req)) \<Longrightarrow> good k (materializeAll res ds)"
  by (induction ds) (auto intro!: g_bind good_basic)

lemma eager_run:
  assumes ok: "mstate_ok s" and inv: "dtb_inv (r_descriptors (m_reg s))"
    and fuel: "2 * dtb_size (r_descriptors (m_reg s)) + 2 \<le> f"
    and run: "materializeEagerSingletons (run u f) s = (o1, s')"
  shows "o1 \<noteq> Fuel \<and> (o1 = Ret () \<longrightarrow>
     (\<forall>d < dtb_size (r_descriptors (m_reg s)). is_eager (m_reg s) d \<longrightarrow> ss_find (r_singletons (m_reg s')) d \<noteq> None)
     \<and> (\<forall>d p. ss_find (r_singletons (m_reg s)) d = Some p \<longrightarrow> ss_find (r_singletons (m_reg s')) d = Some p))"
proof -
  let ?s = "s\<lparr>m_scope := None\<rparr>"
  let ?n = "dtb_size (r_descriptors (m_reg s))"
  let ?ds = "std_sort_desc (prio (m_reg s)) (filter (is_eager (m_reg s)) [0..<?n])"
  obtain s1 where s1: "materializeAll (run u f) ?ds ?s = (o1, s1)" "s' = s1\<lparr>m_scope := m_scope s\<rparr>"
    using run by (auto simp: materializeEagerSingletons_def withoutScope_def readM_def split: prod.splits)
  have ok': "mstate_ok ?s" using ok by (simp add: mstate_ok_def)
  have "good ?n (materializeAll (run u f) ?ds)" by (rule g_materializeAll) (rule run_fuel(1) [OF fuel])
  then have "o1 \<noteq> Fuel" using goodD [OF _ ok', of ?n] idle_bound [of ?s] s1(1) by fastforce
  moreover have "\<forall>d \<in> set ?ds. dtb_lifetimeOf (r_descriptors (m_reg ?s)) d = Singleton \<and> primaryOf (m_reg ?s) d = d"
    using inv by (auto simp: is_eager_def primaryOf_def Let_def dtb_inv_def dtb_lifetimeOf_def dtb_at_def dtb_size_def)
  ultimately show ?thesis
    using materializeAll_stored [OF _ ok', of u f ?ds _ s1] frame_find [OF _ ok'] s1 by (cases o1) (auto simp: s1(2))
qed

text \<open>C31.  The eager pass of \<open>start\<close> ends, and when it completes every non-lazy, non-alias singleton that
  was discovered is stored; singletons that were stored before keep their instance.\<close>

theorem eager_singletons_stored:
  assumes ok: "mstate_ok s" and inv: "dtb_inv (r_descriptors (m_reg s))"
    and fuel: "2 * dtb_size (r_descriptors (m_reg s)) + 2 \<le> f"
    and run: "materializeEagerSingletons (run u f) s = (o1, s')"
  shows "o1 \<noteq> Fuel \<and> (o1 = Ret () \<longrightarrow>
     (\<forall>d < dtb_size (r_descriptors (m_reg s)). is_eager (m_reg s) d \<longrightarrow> ss_find (r_singletons (m_reg s')) d \<noteq> None)
     \<and> (\<forall>d p. ss_find (r_singletons (m_reg s)) d = Some p \<longrightarrow> ss_find (r_singletons (m_reg s')) d = Some p))"
  by (rule eager_run [OF ok inv fuel run])

subsection \<open>Concrete instances\<close>

definition idle_user :: user_code where
  "idle_user = \<lparr>u_script = (\<lambda>_. []), u_callback = (\<lambda>_. []), u_maxSlots = None\<rparr>"


definition sample_scope :: scoped where
  "sample_scope = \<lparr>sc_self = 77, sc_scopeNameId = 5, sc_sessionStore = \<lparr>ses_instancesBase = Some 0, ses_instancesSize = 1,
     ses_graveyard = [[Some 500]], ses_insertionOrder = [0], ses_retiredBlocks = [], ses_freed = []\<rparr>,
     sc_scopeState = Running, sc_scopedDefaults = [], sc_hasAnyScopedDefault = False,
     sc_pendingRuntimeSessions = []\<rparr>"

definition scoped_mstate :: mstate where
  "scoped_mstate = sample_mstate\<lparr>m_reg := (m_reg sample_mstate)\<lparr>r_descriptors :=
     \<lparr>dtb_entries = [(sample_hot 0)\<lparr>d_lifetime := Session, d_sessionSlot := 0\<rparr>], dtb_coldEntries = [sample_cold 0],
      dtb_lifetimes = [Session]\<rparr>\<rparr>, m_scope := Some sample_scope\<rparr>"

theorem stop_scope_destroys_in_reverse_witness:
  "\<exists>s' sc'. stopScope idle_user (run idle_user 1) (\<lambda>_. False) True scoped_mstate = (Ret (), s') \<and> m_scope s' = Some sc'
     \<and> sc_scopeState sc' = Stopped \<and> destroyed (m_log s') = [500] \<and> map rb_memory (ses_retiredBlocks (sc_sessionStore sc')) = [500]"
proof -
  obtain s' where s': "stopScope idle_user (run idle_user (Suc 0)) (\<lambda>_. False) True scoped_mstate = (Ret (), s')"
    by (simp add: scoped_mstate_def sample_mstate_def sample_scope_def idle_user_def stopScope_def updScope_def bind_upd bind_read
        readM_def Let_def dtb_size_def dtb_at_def sample_hot_def sessionFind_def ses_find_def bind_assoc noexceptM_def withoutScope_def
        destroySteps_def ls_hasListeners_def ls_init_def preDestroyM_def dtb_coldAt_def sample_cold_def runtime_cold_def
        bindM_def retM_def logM_def updM_def tryUpdM_def ses_nullSlot_def ses_retireDeallocation_def)
  have sc: "m_scope scoped_mstate = Some sample_scope" by (simp add: scoped_mstate_def)
  have slot: "session_slot scoped_mstate 0 = 0" by (simp add: session_slot_def scoped_mstate_def dtb_at_def)
  have inv: "ses_inv (session_slot scoped_mstate) {0} (sc_sessionStore sample_scope)" "inj_on (session_slot scoped_mstate) {0}"
    by (simp_all add: ses_inv_def sample_scope_def slot ses_find_def)
  have "destroyed (m_log scoped_mstate) = []" by (simp add: scoped_mstate_def sample_mstate_def)
  then show ?thesis using stop_scope_destroys_in_reverse [OF sc inv s'] s' by (auto simp: sample_scope_def slot ses_find_def)
qed

definition eager_mstate :: mstate where
  "eager_mstate = sample_mstate\<lparr>m_reg := (m_reg sample_mstate)\<lparr>r_descriptors :=
     dtb_coldAtMutable (r_descriptors (m_reg sample_mstate)) 0 (\<lambda>c. c\<lparr>c_lazy := False\<rparr>)\<rparr>\<rparr>"

theorem eager_singletons_stored_witness:
  "\<exists>s'. materializeEagerSingletons (run sample_user 8) eager_mstate = (Ret (), s') \<and> ss_find (r_singletons (m_reg s')) 0 \<noteq> None"
proof -
  have inv: "dtb_inv (r_descriptors (m_reg eager_mstate))"
    by (simp add: eager_mstate_def sample_mstate_def dtb_inv_def sample_hot_def dtb_coldAtMutable_def dtb_size_def)
  have eq: "r_singletons (m_reg eager_mstate) = r_singletons (m_reg sample_mstate)" "m_scope eager_mstate = m_scope sample_mstate"
    "primaryOf (m_reg eager_mstate) = primaryOf (m_reg sample_mstate)" "dtb_size (r_descriptors (m_reg eager_mstate)) = 3"
    "dtb_lifetimeOf (r_descriptors (m_reg eager_mstate)) = dtb_lifetimeOf (r_descriptors (m_reg sample_mstate))"
    by (simp_all add: eager_mstate_def dtb_coldAtMutable_def primaryOf_def dtb_at_def dtb_lifetimeOf_def fun_eq_iff dtb_size_def sample_mstate_def)
  have ok: "mstate_ok eager_mstate" using sample_ok by (simp add: mstate_ok_def aliases_wf_def eq sample_regs(3))
  have eager: "is_eager (m_reg eager_mstate) 0"
    by (simp add: is_eager_def eager_mstate_def sample_mstate_def dtb_at_def dtb_coldAt_def dtb_coldAtMutable_def sample_hot_def
        sample_cold_def runtime_cold_def)
  have list: "filter (is_eager (m_reg eager_mstate)) [0..<3] = [0]"
    by (simp add: upt_rec is_eager_def eager_mstate_def sample_mstate_def dtb_at_def dtb_coldAt_def dtb_coldAtMutable_def
        sample_hot_def sample_cold_def runtime_cold_def)
  have "\<exists>s'. materializeAll (run sample_user (Suc (Suc (Suc k)))) [0] (eager_mstate\<lparr>m_scope := None\<rparr>) = (Ret (), s')" for k
    by (simp add: eager_mstate_def dtb_coldAtMutable_def sample_mstate_def sample_user_def registry_init_def run_eval sentinel_defs)
  from this [of 5] have "\<exists>s'. materializeEagerSingletons (run sample_user 8) eager_mstate = (Ret (), s')"
    by (auto simp: materializeEagerSingletons_def withoutScope_def readM_def eq(4) list std_sort_desc_def)
  then show ?thesis using eager_singletons_stored [OF ok inv, of 8 sample_user] eager by (auto simp: eq(4))
qed

end
