(* ===== verification/Binding.thy ===== *)
theory Binding
  imports Destruction
begin

text \<open>
  Runtime bindings: \<^verbatim>\<open>Registry::bindSingleton\<close>, \<^verbatim>\<open>BeanContext::bindSingleton\<close> and
  \<^verbatim>\<open>ScopedContext::bindSession\<close> (\<^verbatim>\<open>BindReflectiveImpl.hpp\<close>). What the code derives from the bound
  type \<open>T\<close> at compile time (its name, \<open>type_info\<close>, size and thunks) comes with the instance in a
  \<open>pending_singleton\<close>.
\<close>

subsection \<open>Singletons\<close>

definition internNameSafe :: "registry \<Rightarrow> string \<Rightarrow> NameId \<times> registry" where
  "internNameSafe r nm =
     (if nm = [] then (kUnnamed, r)
      else (let (n, ni) = ni_intern (r_names r) nm in (n, r\<lparr>r_names := ni\<rparr>)))"

text \<open>Look the type up by its \<open>type_index\<close>, or intern it by name.\<close>

definition boundTypeId :: "registry \<Rightarrow> pending_singleton \<Rightarrow> TypeId \<times> registry" where
  "boundTypeId r pb =
     (let t = ti_lookupByTypeIndex (r_types r) (pb_typeInfo pb)
      in if t \<noteq> kInvalidTypeId then (t, r)
         else (let (t', ty) = ti_internByName (r_types r) (pb_typeName pb) (pb_typeInfo pb) in (t', r\<lparr>r_types := ty\<rparr>)))"

definition materializingConflict :: "registry \<Rightarrow> TypeId \<Rightarrow> NameId \<Rightarrow> int \<Rightarrow> bool" where
  "materializingConflict r typeId nameId priority =
     list_ex (\<lambda>e. mk_scope (me_key e) = None
       \<and> c_exposedType (dtb_coldAt (r_descriptors r) (mk_descId (me_key e))) = typeId
       \<and> c_name (dtb_coldAt (r_descriptors r) (mk_descId (me_key e))) = nameId
       \<and> prio r (mk_descId (me_key e)) = priority) (r_materializing r)"

definition bound_cold :: "pending_singleton \<Rightarrow> TypeId \<Rightarrow> descriptor_cold" where
  "bound_cold pb typeId = runtime_cold typeId (pb_nameId pb) (Some (pb_destroy pb)) (pb_preDestroy pb) (pb_dealloc pb)
     (pb_size pb) (pb_align pb) (pb_typeInfo pb) (pb_typeName pb)"

definition republish :: "registry \<Rightarrow> TypeId \<Rightarrow> registry" where
  "republish r t = r\<lparr>r_index := tix_updateSingleUnnamed (tix_sortAllCandidates (prio r) (r_index r)) t\<rparr>"

text \<open>
  The part under the write lock when the registry is started: an exception or the new descriptor
  and its type, and the registry. \<open>None\<close>: an assertion of the singleton store fails.
\<close>

definition bindStarted :: "pending_singleton \<Rightarrow> registry \<Rightarrow> ((ctr_error + DescriptorId \<times> TypeId) \<times> registry) option" where
  "bindStarted pb r0 =
     (let (typeId, r) = boundTypeId r0 pb
      in if candidateKeyExists r typeId (pb_nameId pb) (pb_priority pb)
         then Some (Inl (ConfigurationError BindingCollision), r)
         else if materializingConflict r typeId (pb_nameId pb) (pb_priority pb)
         then Some (Inl (ConfigurationError BindingDuringMaterialization), r)
         else (let (i, r1) = append_runtime r (runtime_hot Singleton (pb_priority pb) kInvalidSessionSlot) (bound_cold pb typeId)
               in map_option (\<lambda>ss. (Inr (i, typeId), republish (r1\<lparr>r_singletons := ss\<rparr>) typeId))
                    (ss_growAndStore (r_singletons r1) i (pb_instance pb))))"

definition bindPending :: "pending_singleton \<Rightarrow> registry \<Rightarrow> ctr_error option \<times> registry" where
  "bindPending pb r =
     (if list_ex (\<lambda>p. pb_typeName p = pb_typeName pb \<and> pb_nameId p = pb_nameId pb \<and> pb_priority p = pb_priority pb)
           (r_pendingRuntimeSingletons r)
      then (Some (ConfigurationError BindingCollision), r)
      else (None, r\<lparr>r_pendingRuntimeSingletons := r_pendingRuntimeSingletons r @ [pb]\<rparr>))"

definition setReg :: "registry \<Rightarrow> unit comp" where
  "setReg r = updM (\<lambda>s. s\<lparr>m_reg := r\<rparr>)"

text \<open>\<open>isBeanContext\<close>: whether \<open>T\<close> is \<^verbatim>\<open>ctr::BeanContext\<close>. The empty handle is \<open>None\<close>.\<close>

definition registry_bindSingleton :: "user_code \<Rightarrow> resolver \<Rightarrow> bool \<Rightarrow> pending_singleton \<Rightarrow> handle option comp" where
  "registry_bindSingleton u res isBeanContext pb =
     (if isBeanContext then throwM (ConfigurationError ForbiddenBinding)
      else readM (\<lambda>s.
        if r_started (m_reg s) then
          (case bindStarted pb (m_reg s) of
             None \<Rightarrow> abortM
           | Some (Inl e, r) \<Rightarrow> bindM (setReg r) (\<lambda>_. throwM e)
           | Some (Inr (i, typeId), r) \<Rightarrow>
               bindM (setReg r) (\<lambda>_.
               bindM (dispatchM u res phaseInitialized typeId kNoScope) (\<lambda>_.
               bindM (dispatchM u res phaseCreated typeId kNoScope) (\<lambda>_.
               retM (Some (Direct (pb_instance pb) kInvalidSlotId i))))))
        else
          (case bindPending pb (m_reg s) of
             (Some e, r) \<Rightarrow> throwM e
           | (None, r) \<Rightarrow> bindM (setReg r) (\<lambda>_. retM None))))"

text \<open>
  \<^verbatim>\<open>BeanContext::bindSingleton\<close>: the name is interned first, on the root in both cases, since a
  scoped context shares the registry of its root.
\<close>

definition context_bindSingleton :: "user_code \<Rightarrow> resolver \<Rightarrow> bool \<Rightarrow> string option \<Rightarrow> pending_singleton \<Rightarrow> unit comp" where
  "context_bindSingleton u res isBeanContext nm pb = readM (\<lambda>s.
     let (n, r) = internNameSafe (m_reg s) (case nm of None \<Rightarrow> [] | Some x \<Rightarrow> x)
     in bindM (setReg r) (\<lambda>_.
        bindM (registry_bindSingleton u res isBeanContext (pb\<lparr>pb_nameId := n\<rparr>)) (\<lambda>_. retM ())))"

subsection \<open>Sessions\<close>

definition pendingKey :: "registry \<Rightarrow> scoped \<Rightarrow> TypeId \<Rightarrow> NameId \<Rightarrow> int \<Rightarrow> bool" where
  "pendingKey r sc typeId nameId priority =
     list_ex (\<lambda>(d, _). c_exposedType (dtb_coldAt (r_descriptors r) d) = typeId
        \<and> c_name (dtb_coldAt (r_descriptors r) d) = nameId \<and> prio r d = priority) (sc_pendingRuntimeSessions sc)"

text \<open>The runtime session descriptor that an earlier cycle or another scope left for this key.\<close>

definition findSessionDescriptor :: "registry \<Rightarrow> TypeId \<Rightarrow> NameId \<Rightarrow> int \<Rightarrow> DescriptorId option" where
  "findSessionDescriptor r typeId nameId priority =
     (if \<not> r_started r then None
      else case tix_tableFor (r_index r) typeId of
        None \<Rightarrow> None
      | Some tbl \<Rightarrow> (case map_of tbl nameId of
          None \<Rightarrow> None
        | Some e \<Rightarrow> find (\<lambda>d. c_origin (dtb_coldAt (r_descriptors r) d) = RuntimeBinding
              \<and> d_lifetime (dtb_at (r_descriptors r) d) = Session \<and> prio r d = priority) (ne_candidates e)))"

definition newSessionDescriptor :: "pending_singleton \<Rightarrow> registry \<Rightarrow> TypeId \<Rightarrow> DescriptorId \<times> registry" where
  "newSessionDescriptor pb r typeId =
     (if r_started r
      then (let (i, r1) = append_runtime (r\<lparr>r_sessionSlotCount := r_sessionSlotCount r + 1\<rparr>)
                 (runtime_hot Session (pb_priority pb) (u32 (r_sessionSlotCount r))) (bound_cold pb typeId)
            in (i, republish r1 typeId))
      else append_runtime r (runtime_hot Session (pb_priority pb) kInvalidSessionSlot) (bound_cold pb typeId))"

text \<open>\<open>Inr (Some t)\<close>: stored in the running scope, and the listeners for \<open>t\<close> are due.\<close>

definition bindSession_core :: "pending_singleton \<Rightarrow> registry \<Rightarrow> scoped
    \<Rightarrow> ((ctr_error + TypeId option) \<times> registry \<times> scoped) option" where
  "bindSession_core pb r0 sc =
     (let (typeId, r) = (if r_started r0 then boundTypeId r0 pb
            else (let (t, ty) = ti_internByName (r_types r0) (pb_typeName pb) (pb_typeInfo pb) in (t, r0\<lparr>r_types := ty\<rparr>)))
      in if pendingKey r sc typeId (pb_nameId pb) (pb_priority pb)
         then Some (Inl (ConfigurationError SessionBound), r, sc)
         else (let (d, r1) = (case findSessionDescriptor r typeId (pb_nameId pb) (pb_priority pb) of
                       Some d \<Rightarrow> (d, r) | None \<Rightarrow> newSessionDescriptor pb r typeId)
               in if list_ex (\<lambda>(e, _). e = d) (sc_pendingRuntimeSessions sc)
                  then Some (Inl (ConfigurationError SessionBound), r1, sc)
                  else if sc_scopeState sc \<noteq> Running
                  then Some (Inr None, r1, sc\<lparr>sc_pendingRuntimeSessions := sc_pendingRuntimeSessions sc @ [(d, pb_instance pb)]\<rparr>)
                  else (let slot = d_sessionSlot (dtb_at (r_descriptors r1) d)
                        in if ses_find (sc_sessionStore sc) slot \<noteq> None
                           then Some (Inl (ConfigurationError SessionBound), r1, sc)
                           else map_option (\<lambda>st. (Inr (Some typeId), r1, sc\<lparr>sc_sessionStore := st\<rparr>))
                                  (ses_growAndStore (sc_sessionStore sc) slot d (pb_instance pb)))))"

definition bindSession :: "user_code \<Rightarrow> resolver \<Rightarrow> bool \<Rightarrow> string option \<Rightarrow> pending_singleton \<Rightarrow> unit comp" where
  "bindSession u res isBeanContext nm pb =
     (if isBeanContext then throwM (ConfigurationError ForbiddenBinding)
      else readM (\<lambda>s. case m_scope s of
          None \<Rightarrow> abortM
        | Some sc \<Rightarrow>
            (let (n, r) = internNameSafe (m_reg s) (case nm of None \<Rightarrow> [] | Some x \<Rightarrow> x)
             in case bindSession_core (pb\<lparr>pb_nameId := n\<rparr>) r sc of
                  None \<Rightarrow> abortM
                | Some (o1, r', sc') \<Rightarrow>
                    bindM (updM (\<lambda>s. s\<lparr>m_reg := r', m_scope := Some sc'\<rparr>)) (\<lambda>_.
                    case o1 of
                      Inl e \<Rightarrow> throwM e
                    | Inr None \<Rightarrow> retM ()
                    | Inr (Some typeId) \<Rightarrow>
                        bindM (dispatchM u res phaseInitialized typeId (sc_scopeNameId sc')) (\<lambda>_.
                        dispatchM u res phaseCreated typeId (sc_scopeNameId sc'))))))"

subsection \<open>A binding adds one candidate\<close>

lemma boundTypeId_ok:
  assumes ok: "reg_ok tinfo P r" and room: "length (ti_names (r_types r)) < kInvalidTypeId"
    and info: "pb_typeInfo pb = tinfo (pb_typeName pb)"
  shows "\<exists>ty. boundTypeId r pb = (fst (boundTypeId r pb), r\<lparr>r_types := ty\<rparr>) \<and> reg_ok tinfo P (r\<lparr>r_types := ty\<rparr>)
    \<and> ti_known ty (pb_typeName pb) = Some (fst (boundTypeId r pb))
    \<and> (\<forall>k i. ti_known (r_types r) k = Some i \<longrightarrow> ti_known ty k = Some i) \<and> ti_frozen ty = ti_frozen (r_types r)"
proof -
  have inv: "ti_inv tinfo (r_types r)" and inj: "inj tinfo" using ok by (simp_all add: reg_ok_def)
  note look = ti_lookup_known [OF inv, of "pb_typeName pb", folded info]
  show ?thesis
  proof (cases "ti_known (r_types r) (pb_typeName pb)")
    case (Some t)
    have "t < ti_size (r_types r)" using Some ti_known_iff [OF inv, of "pb_typeName pb" t] by (auto simp: ti_size_def)
    then have "t \<noteq> kInvalidTypeId" using room by (simp add: ti_size_def)
    then have "boundTypeId r pb = (t, r)" using look Some by (simp add: boundTypeId_def Let_def)
    then show ?thesis using ok Some by (intro exI [of _ "r_types r"]) simp
  next
    case None
    note it = reg_intern_type [OF ok room, of "pb_typeName pb", folded info]
    have "boundTypeId r pb = (fst (ti_internByName (r_types r) (pb_typeName pb) (pb_typeInfo pb)),
        r\<lparr>r_types := snd (ti_internByName (r_types r) (pb_typeName pb) (pb_typeInfo pb))\<rparr>)"
      using look None by (simp add: boundTypeId_def Let_def split_beta)
    moreover have "ti_known (snd (ti_internByName (r_types r) (pb_typeName pb) (pb_typeInfo pb))) k = Some i"
      if "ti_known (r_types r) k = Some i" for k i
      using tin.known_stable [OF conjI [OF inj inv] that] info by simp
    moreover have "ti_frozen (snd (ti_internByName (r_types r) (pb_typeName pb) (pb_typeInfo pb))) = ti_frozen (r_types r)"
      by (auto simp: ti_internByName_def Let_def split: option.splits)
    ultimately show ?thesis using it by (intro exI [of _ "snd (ti_internByName (r_types r) (pb_typeName pb) (pb_typeInfo pb))"]) simp
  qed
qed

lemma append_runtime_keyed:
  fixes r :: registry and d :: descriptor
  assumes ok: "reg_ok tinfo P r" and room: "dtb_size (r_descriptors r) < kInvalidDescriptorId"
    and known: "ti_known (r_types r) nm = Some (c_exposedType cold)" "P nm"
  defines "i \<equiv> dtb_size (r_descriptors r)"
  defines "r' \<equiv> snd (append_runtime r d cold)"
  shows "keyed r' t n = keyed r t n @ (if t = c_exposedType cold \<and> n = c_name cold then [i] else [])"
    "\<And>j. j < i \<Longrightarrow> dtb_at (r_descriptors r') j = dtb_at (r_descriptors r) j"
    "\<And>j. j < i \<Longrightarrow> dtb_coldAt (r_descriptors r') j = dtb_coldAt (r_descriptors r) j"
    "dtb_at (r_descriptors r') i = d\<lparr>d_primaryDescriptor := i\<rparr>" "dtb_coldAt (r_descriptors r') i = cold"
    "\<exists>dt ix. r' = r\<lparr>r_descriptors := dt, r_index := ix\<rparr>"
proof -
  let ?f = "\<lambda>d :: descriptor. d\<lparr>d_primaryDescriptor := i\<rparr>"
  note app = reg_append [OF ok room known, where f = ?f and d = d, folded i_def]
  have eq: "r' = r\<lparr>r_descriptors := dtb_atMutable (snd (dtb_append (r_descriptors r) d cold)) i ?f,
       r_index := tix_insertCandidate (r_index r) (c_exposedType cold) (c_name cold) i\<rparr>"
    using app(1) by (simp add: r'_def append_runtime_def split_beta)
  show at: "\<And>j. j < i \<Longrightarrow> dtb_at (r_descriptors r') j = dtb_at (r_descriptors r) j"
    "\<And>j. j < i \<Longrightarrow> dtb_coldAt (r_descriptors r') j = dtb_coldAt (r_descriptors r) j"
    "dtb_at (r_descriptors r') i = d\<lparr>d_primaryDescriptor := i\<rparr>" "dtb_coldAt (r_descriptors r') i = cold"
    using app(3-6) by (simp_all add: eq)
  have size: "dtb_size (r_descriptors r') = Suc i" using app(7) by (simp add: eq)
  show "keyed r' t n = keyed r t n @ (if t = c_exposedType cold \<and> n = c_name cold then [i] else [])"
  proof -
    have "filter (\<lambda>j. c_exposedType (dtb_coldAt (r_descriptors r') j) = t \<and> c_name (dtb_coldAt (r_descriptors r') j) = n) [0..<i]
        = filter (\<lambda>j. c_exposedType (dtb_coldAt (r_descriptors r) j) = t \<and> c_name (dtb_coldAt (r_descriptors r) j) = n) [0..<i]"
      using at(2) by (intro filter_cong) auto
    then show ?thesis using at(4) size by (auto simp: keyed_def i_def)
  qed
  show "\<exists>dt ix. r' = r\<lparr>r_descriptors := dt, r_index := ix\<rparr>" using eq by blast
qed

lemma republish_ok:
  assumes ok: "reg_ok tinfo P r"
  shows "reg_ok tinfo P (republish r t)" "tix_ready (prio (republish r t)) (r_index (republish r t))"
    "keyed (republish r t) = keyed r"
proof -
  note so = sorted_ok [OF ok, of "prio r"]
  let ?ix = "tix_sortAllCandidates (prio r) (r_index r)"
  have prio: "prio (republish r t) = prio r" by (simp add: republish_def prio_def fun_eq_iff)
  show "keyed (republish r t) = keyed r" by (simp add: republish_def keyed_def fun_eq_iff)
  have "tix_wf ?ix" using so(1) by (simp add: reg_ok_def)
  then show "reg_ok tinfo P (republish r t)"
    using so(1) update_wf by (simp add: republish_def reg_ok_def keyed_def)
  show "tix_ready (prio (republish r t)) (r_index (republish r t))"
  proof -
    have "tix_ready (prio r) (tix_updateSingleUnnamed ?ix t)"
      using so(2) unfolding tix_ready_def [of _ ?ix] by (intro update_ready) auto
    then show ?thesis unfolding prio by (simp add: republish_def)
  qed
qed

lemma single_cands:
  assumes "reg_ok tinfo P r" "keyed r t n = [d]"
  shows "tix_cands (r_index r) t n = [d]"
proof -
  have "mset (tix_cands (r_index r) t n) = mset [d]" using assms by (auto simp: reg_ok_def)
  then show ?thesis by (metis mset_eq_length length_0_conv length_Cons length_Suc_conv list.set_intros(1) mset_eq_setD set_ConsD empty_iff list.set(1))
qed

lemma keyed_single:
  assumes "reg_ok tinfo P r" "tix_cands (r_index r) t n = [d]"
  shows "keyed r t n = [d]"
proof -
  have "mset (keyed r t n) = mset [d]" using assms by (metis reg_ok_def)
  then show ?thesis by (metis mset_eq_length length_0_conv length_Cons length_Suc_conv list.set_intros(1) mset_eq_setD set_ConsD empty_iff list.set(1))
qed

lemma slots_ok_append:
  assumes ok: "slots_ok r" and size: "dtb_size (r_descriptors r') = Suc (dtb_size (r_descriptors r))"
    and at: "\<And>j. j < dtb_size (r_descriptors r) \<Longrightarrow> dtb_at (r_descriptors r') j = dtb_at (r_descriptors r) j"
    and new: "d_lifetime (dtb_at (r_descriptors r') (dtb_size (r_descriptors r))) \<noteq> Session"
      "d_sessionSlot (dtb_at (r_descriptors r') (dtb_size (r_descriptors r))) = kInvalidSessionSlot"
    and cnt: "r_sessionSlotCount r' = r_sessionSlotCount r"
  shows "slots_ok r'"
proof -
  let ?A = "{i. i < dtb_size (r_descriptors r) \<and> d_lifetime (dtb_at (r_descriptors r) i) = Session}"
  have dom: "{i. i < dtb_size (r_descriptors r') \<and> d_lifetime (dtb_at (r_descriptors r') i) = Session} = ?A"
    using at new(1) by (auto simp: size less_Suc_eq)
  have "bij_betw (\<lambda>i. d_sessionSlot (dtb_at (r_descriptors r') i)) ?A {0..<r_sessionSlotCount r'}
      = bij_betw (\<lambda>i. d_sessionSlot (dtb_at (r_descriptors r) i)) ?A {0..<r_sessionSlotCount r'}"
    by (rule bij_betw_cong) (simp add: at)
  then show ?thesis using ok at new(2) unfolding slots_ok_def dom by (auto simp: size less_Suc_eq cnt)
qed

text \<open>What a binding may assume: the registry is started, ids are left, and no instance or claim refers
  to a descriptor that does not exist.\<close>

definition bindable :: "(string \<Rightarrow> type_index) \<Rightarrow> ptr \<Rightarrow> registry \<Rightarrow> bool" where
  "bindable tinfo ctx r \<longleftrightarrow> started_ok tinfo ctx r \<and> reg_room r 1
     \<and> (\<forall>d. ss_find (r_singletons r) d \<noteq> None \<longrightarrow> d < dtb_size (r_descriptors r))
     \<and> (\<forall>e \<in> set (r_materializing r). mk_descId (me_key e) < dtb_size (r_descriptors r))"

lemma conflict_is_collision:
  assumes "\<forall>e \<in> set (r_materializing r). mk_descId (me_key e) < dtb_size (r_descriptors r)"
    "materializingConflict r t n p"
  shows "candidateKeyExists r t n p"
  using assms by (auto simp: materializingConflict_def candidateKeyExists_def list_ex_iff)

lemma bindStarted_new:
  assumes b: "bindable tinfo ctx r" and pb: "pb_typeInfo pb = tinfo (pb_typeName pb)" "pb_typeName pb \<noteq> beanContextName"
    and free: "\<not> candidateKeyExists (snd (boundTypeId r pb)) (fst (boundTypeId r pb)) (pb_nameId pb) (pb_priority pb)"
  defines "i \<equiv> dtb_size (r_descriptors r)" and "t \<equiv> fst (boundTypeId r pb)"
  shows "\<exists>r'. bindStarted pb r = Some (Inr (i, t), r') \<and> started_ok tinfo ctx r'
    \<and> (\<forall>t' n. keyed r' t' n = keyed r t' n @ (if t' = t \<and> n = pb_nameId pb then [i] else []))
    \<and> (\<forall>d. ss_find (r_singletons r') d = (if d = i then Some (pb_instance pb) else ss_find (r_singletons r) d))
    \<and> (\<forall>j < i. prio r' j = prio r j) \<and> prio r' i = pb_priority pb"
proof -
  have st: "started_ok tinfo ctx r" and room: "reg_room r 1" using b by (simp_all add: bindable_def)
  have ok: "reg_ok tinfo (\<lambda>_. True) r" and inv: "ss_inv (r_singletons r)" using st by (simp_all add: started_ok_def)
  have len: "length (ti_names (r_types r)) < kInvalidTypeId" using room by (simp add: reg_room_def)
  obtain ty where ty: "boundTypeId r pb = (t, r\<lparr>r_types := ty\<rparr>)" "reg_ok tinfo (\<lambda>_. True) (r\<lparr>r_types := ty\<rparr>)"
    "ti_known ty (pb_typeName pb) = Some t" "\<And>k i. ti_known (r_types r) k = Some i \<Longrightarrow> ti_known ty k = Some i"
    "ti_frozen ty = ti_frozen (r_types r)"
    using boundTypeId_ok [OF ok len pb(1)] unfolding t_def by blast
  let ?r1 = "r\<lparr>r_types := ty\<rparr>"
  let ?hot = "runtime_hot Singleton (pb_priority pb) kInvalidSessionSlot" and ?cold = "bound_cold pb t"
  let ?r2 = "snd (append_runtime ?r1 ?hot ?cold)"
  have sz: "dtb_size (r_descriptors ?r1) < kInvalidDescriptorId" using room by (simp add: reg_room_def)
  have keys: "c_exposedType ?cold = t" "c_name ?cold = pb_nameId pb" by (simp_all add: bound_cold_def runtime_cold_def)
  have known: "ti_known (r_types ?r1) (pb_typeName pb) = Some (c_exposedType ?cold)" using ty(3) keys by simp
  note app = append_runtime_ok [OF ty(2) sz known TrueI, where d = ?hot] and ak = append_runtime_keyed [OF ty(2) sz known TrueI, where d = ?hot]
  obtain dt ix where r2: "?r2 = ?r1\<lparr>r_descriptors := dt, r_index := ix\<rparr>" using ak(6) by blast
  have none: "ss_find (r_singletons r) i = None" using b unfolding bindable_def i_def by (metis less_irrefl)
  obtain ss where ss: "ss_growAndStore (r_singletons r) i (pb_instance pb) = Some ss" "ss_inv ss"
      "\<And>d'. ss_find ss d' = (if d' = i then Some (pb_instance pb) else ss_find (r_singletons r) d')"
    using ss_growAndStore_Some [OF inv none, of "pb_instance pb"] by metis
  let ?r3 = "?r2\<lparr>r_singletons := ss\<rparr>"
  let ?r' = "republish ?r3 t"
  have ok3: "reg_ok tinfo (\<lambda>_. True) ?r3" using app(2) by (simp add: reg_ok_def keyed_def)
  note rep = republish_ok [OF ok3, of t]
  have noconf: "\<not> materializingConflict ?r1 t (pb_nameId pb) (pb_priority pb)"
    using conflict_is_collision [of ?r1] free b by (auto simp: ty(1) bindable_def)
  have i: "dtb_size (r_descriptors r) = i" by (simp add: i_def)
  have run: "bindStarted pb r = Some (Inr (i, t), ?r')"
    using free noconf app(1) ss(1) by (simp add: bindStarted_def ty(1) Let_def split_beta i_def [symmetric] r2)
  have keyed: "keyed ?r' t' n = keyed r t' n @ (if t' = t \<and> n = pb_nameId pb then [i] else [])" for t' n
  proof -
    have "keyed ?r3 t' n = keyed ?r2 t' n" "keyed ?r1 t' n = keyed r t' n" by (simp_all add: keyed_def)
    then show ?thesis using ak(1) [of t' n] by (simp add: rep(3) keys i_def)
  qed
  have at: "dtb_at (r_descriptors ?r') j = dtb_at (r_descriptors ?r2) j" "dtb_size (r_descriptors ?r') = Suc i" for j
    using app(3) by (simp_all add: republish_def i)
  have "slots_ok ?r'"
  proof (rule slots_ok_append)
    show "slots_ok r" using st by (simp add: started_ok_def)
    show "r_sessionSlotCount ?r' = r_sessionSlotCount r" by (simp add: republish_def r2)
  qed (use at ak(2,4) in \<open>simp_all add: i runtime_hot_def\<close>)
  moreover obtain tb where tb: "ti_known (r_types r) beanContextName = Some tb" "tix_cands (r_index r) tb kUnnamed = [r_beanContextDescId r]"
    using st by (auto simp: started_ok_def)
  moreover have "tb \<noteq> t"
    using tin.known_inj [of tinfo ty] ty(2,3) ty(4) [OF tb(1)] pb(2) by (auto simp: reg_ok_def)
  ultimately have "started_ok tinfo ctx ?r'"
    using st rep(1,2) ss(2,3) none ty(4) [OF tb(1)] ty(5) at(2) single_cands [OF rep(1), of tb kUnnamed] keyed_single [OF ok tb(2)] keyed [of tb kUnnamed]
    by (auto simp: started_ok_def republish_def r2 i_def)
  moreover have "prio ?r' j = prio r j" if "j < i" for j using ak(2) [of j] that at(1) by (simp add: prio_def i)
  moreover have "prio ?r' i = pb_priority pb" using ak(4) at(1) by (simp add: prio_def i runtime_hot_def)
  moreover have "ss_find (r_singletons ?r') d = (if d = i then Some (pb_instance pb) else ss_find (r_singletons r) d)" for d
    using ss(3) by (simp add: republish_def)
  ultimately show ?thesis using run keyed by blast
qed


text \<open>Pending bindings are unique: a binding made before \<open>start\<close> is rejected when one with the same type
  name, bean name and priority is pending, and is queued otherwise; so two pending bindings never
  have the same key and \<open>start\<close> can only report a collision with a discovered bean.\<close>

theorem bind_pending_unique:
  assumes "distinct (map (\<lambda>p. (pb_typeName p, pb_nameId p, pb_priority p)) (r_pendingRuntimeSingletons r))"
  shows "distinct (map (\<lambda>p. (pb_typeName p, pb_nameId p, pb_priority p)) (r_pendingRuntimeSingletons (snd (bindPending pb r))))
    \<and> (fst (bindPending pb r) = None \<longleftrightarrow> (pb_typeName pb, pb_nameId pb, pb_priority pb)
          \<notin> (\<lambda>p. (pb_typeName p, pb_nameId p, pb_priority p)) ` set (r_pendingRuntimeSingletons r))
    \<and> (fst (bindPending pb r) = None \<longrightarrow> pb \<in> set (r_pendingRuntimeSingletons (snd (bindPending pb r))))"
  using assms by (auto simp: bindPending_def list_ex_iff image_iff) metis

subsection \<open>A session key is bound once per cycle\<close>

lemma findSession_cands:
  assumes "r_started r" "tix_ready p (r_index r)"
  shows "findSessionDescriptor r t n q = find (\<lambda>d. c_origin (dtb_coldAt (r_descriptors r) d) = RuntimeBinding
      \<and> d_lifetime (dtb_at (r_descriptors r) d) = Session \<and> prio r d = q) (tix_cands (r_index r) t n)"
proof -
  have "tix_entryFor (r_index r) t n = (case tix_tableFor (r_index r) t of None \<Rightarrow> None | Some tbl \<Rightarrow> map_of tbl n)"
    by (simp add: tix_entryFor_def tix_tableFor_def)
  then show ?thesis using assms(1) tix_ready_cands [OF assms(2), of t n]
    by (auto simp: findSessionDescriptor_def split: option.splits)
qed

lemma find_SomeD: "find P xs = Some x \<Longrightarrow> x \<in> set xs \<and> P x"
  by (induction xs) (auto split: if_splits)

lemma cands_keyed:
  assumes "reg_ok tinfo P r"
  shows "set (tix_cands (r_index r) t n) = {i. i < dtb_size (r_descriptors r)
     \<and> c_exposedType (dtb_coldAt (r_descriptors r) i) = t \<and> c_name (dtb_coldAt (r_descriptors r) i) = n}"
proof -
  have "mset (tix_cands (r_index r) t n) = mset (keyed r t n)" using assms by (simp add: reg_ok_def)
  then have "set (tix_cands (r_index r) t n) = set (keyed r t n)" by (rule mset_eq_setD)
  then show ?thesis by (auto simp: keyed_def)
qed

text \<open>A runtime session descriptor for a key.\<close>

definition session_match :: "registry \<Rightarrow> TypeId \<Rightarrow> NameId \<Rightarrow> int \<Rightarrow> DescriptorId \<Rightarrow> bool" where
  "session_match r t n q d \<longleftrightarrow> d < dtb_size (r_descriptors r) \<and> c_exposedType (dtb_coldAt (r_descriptors r) d) = t
     \<and> c_name (dtb_coldAt (r_descriptors r) d) = n \<and> prio r d = q
     \<and> c_origin (dtb_coldAt (r_descriptors r) d) = RuntimeBinding \<and> d_lifetime (dtb_at (r_descriptors r) d) = Session"

lemma findSession_match:
  assumes "r_started r" "reg_ok tinfo P r" "tix_ready p (r_index r)"
  shows "findSessionDescriptor r t n q = Some d \<Longrightarrow> session_match r t n q d"
    "findSessionDescriptor r t n q = None \<Longrightarrow> \<not> session_match r t n q e"
  unfolding findSession_cands [OF assms(1,3)]
  using cands_keyed [OF assms(2), of t n] by (auto dest!: find_SomeD simp: session_match_def find_None_iff)

lemma newSession_ok:
  assumes st: "started_ok tinfo ctx r" and room: "dtb_size (r_descriptors r) < kInvalidDescriptorId"
    and known: "ti_known (r_types r) (pb_typeName pb) = Some t"
  defines "i \<equiv> dtb_size (r_descriptors r)" and "r' \<equiv> snd (newSessionDescriptor pb r t)"
  shows "fst (newSessionDescriptor pb r t) = i" "r_started r'" "reg_ok tinfo (\<lambda>_. True) r'" "tix_ready (prio r') (r_index r')"
    "session_match r' t (pb_nameId pb) (pb_priority pb) i" "r_types r' = r_types r"
    "\<And>d. d \<noteq> i \<Longrightarrow> session_match r' t' n q d \<Longrightarrow> session_match r t' n q d"
proof -
  let ?r0 = "r\<lparr>r_sessionSlotCount := r_sessionSlotCount r + 1\<rparr>"
  let ?hot = "runtime_hot Session (pb_priority pb) (u32 (r_sessionSlotCount r))" and ?cold = "bound_cold pb t"
  have started: "r_started r" and ok: "reg_ok tinfo (\<lambda>_. True) r" using st by (simp_all add: started_ok_def)
  have ok0: "reg_ok tinfo (\<lambda>_. True) ?r0" using ok by (simp add: reg_ok_def keyed_def)
  have sz: "dtb_size (r_descriptors ?r0) < kInvalidDescriptorId" using room by simp
  have keys: "c_exposedType ?cold = t" "c_name ?cold = pb_nameId pb" "c_origin ?cold = RuntimeBinding"
    by (simp_all add: bound_cold_def runtime_cold_def)
  have kn: "ti_known (r_types ?r0) (pb_typeName pb) = Some (c_exposedType ?cold)" using known keys by simp
  note app = append_runtime_ok [OF ok0 sz kn TrueI, where d = ?hot] and ak = append_runtime_keyed [OF ok0 sz kn TrueI, where d = ?hot]
  let ?r1 = "snd (append_runtime ?r0 ?hot ?cold)"
  have r': "r' = republish ?r1 t" "fst (newSessionDescriptor pb r t) = fst (append_runtime ?r0 ?hot ?cold)"
    by (simp_all add: r'_def newSessionDescriptor_def started split_beta)
  obtain dt ix where r1: "?r1 = ?r0\<lparr>r_descriptors := dt, r_index := ix\<rparr>" using ak(6) by blast
  note rep = republish_ok [OF app(2), of t]
  have dt: "r_descriptors r' = r_descriptors ?r1" by (simp add: r'(1) republish_def)
  have i: "dtb_size (r_descriptors r) = i" by (simp add: i_def)
  show "fst (newSessionDescriptor pb r t) = i" using app(1) by (simp add: r'(2) i)
  show "r_started r'" "r_types r' = r_types r" using started unfolding r'(1) republish_def r1 by simp_all
  show "reg_ok tinfo (\<lambda>_. True) r'" "tix_ready (prio r') (r_index r')" using rep by (simp_all add: r'(1))
  show "session_match r' t (pb_nameId pb) (pb_priority pb) i"
    using ak(4,5) app(3) keys by (simp add: session_match_def dt prio_def i runtime_hot_def)
  show "session_match r t' n q d" if "d \<noteq> i" "session_match r' t' n q d" for d
    using that ak(2,3) [of d] app(3) by (auto simp: session_match_def dt prio_def i less_Suc_eq)
qed

lemma boundTypeId_known:
  assumes "reg_ok tinfo P r" "pb_typeInfo pb = tinfo (pb_typeName pb)" "ti_known (r_types r) (pb_typeName pb) = Some t"
    "t \<noteq> kInvalidTypeId"
  shows "boundTypeId r pb = (t, r)"
  using ti_lookup_known [of tinfo "r_types r" "pb_typeName pb"] assms by (simp add: boundTypeId_def Let_def reg_ok_def)

text \<open>A session key is bound once per scope cycle: after a session bean was bound to a scope, running or
  not, a second binding of the same type under the same name and priority to that scope is rejected
  and leaves the scope alone. In a running scope the bound object is the instance of its slot.\<close>

theorem bind_session_once:
  assumes st: "started_ok tinfo ctx r" and room: "reg_room r 1" and inv: "ses_inv slot D (sc_sessionStore sc)"
    and pb: "pb_typeInfo pb = tinfo (pb_typeName pb)" and run: "bindSession_core pb r sc = Some (Inr x, r', sc')"
    and again: "pb_typeName pb' = pb_typeName pb" "pb_typeInfo pb' = pb_typeInfo pb" "pb_nameId pb' = pb_nameId pb" "pb_priority pb' = pb_priority pb"
  shows "bindSession_core pb' r' sc' = Some (Inl (ConfigurationError SessionBound), r', sc')
    \<and> (sc_scopeState sc = Running \<longrightarrow> (\<exists>d. session_match r' (fst (boundTypeId r pb)) (pb_nameId pb) (pb_priority pb) d
          \<and> ses_find (sc_sessionStore sc') (d_sessionSlot (dtb_at (r_descriptors r') d)) = Some (pb_instance pb)))"
proof -
  have ok: "reg_ok tinfo (\<lambda>_. True) r" and started: "r_started r" using st by (simp_all add: started_ok_def)
  have len: "length (ti_names (r_types r)) < kInvalidTypeId" using room by (simp add: reg_room_def)
  define t where "t = fst (boundTypeId r pb)"
  obtain ty where ty: "boundTypeId r pb = (t, r\<lparr>r_types := ty\<rparr>)" "reg_ok tinfo (\<lambda>_. True) (r\<lparr>r_types := ty\<rparr>)"
    "ti_known ty (pb_typeName pb) = Some t" "\<forall>k i. ti_known (r_types r) k = Some i \<longrightarrow> ti_known ty k = Some i"
    "ti_frozen ty = ti_frozen (r_types r)"
    using boundTypeId_ok [OF ok len pb] unfolding t_def by blast
  let ?r = "r\<lparr>r_types := ty\<rparr>"
  have st1: "started_ok tinfo ctx ?r" using st ty(2,4,5) by (auto simp: started_ok_def slots_ok_def prio_def [abs_def])
  have ready1: "tix_ready (prio ?r) (r_index ?r)" using st1 by (simp add: started_ok_def)
  let ?n = "pb_nameId pb" and ?q = "pb_priority pb"
  define dr where "dr = (case findSessionDescriptor ?r t ?n ?q of Some d \<Rightarrow> (d, ?r) | None \<Rightarrow> newSessionDescriptor pb ?r t)"
  obtain d r1 where d: "dr = (d, r1)" by fastforce
  have sz: "dtb_size (r_descriptors ?r) < kInvalidDescriptorId" using room by (simp add: reg_room_def)
  have r1: "r_started r1" "reg_ok tinfo (\<lambda>_. True) r1" "tix_ready (prio r1) (r_index r1)" "r_types r1 = ty"
    "session_match r1 t ?n ?q d" "findSessionDescriptor r1 t ?n ?q = Some d"
  proof -
    have "r_started r1 \<and> reg_ok tinfo (\<lambda>_. True) r1 \<and> tix_ready (prio r1) (r_index r1) \<and> r_types r1 = ty \<and> session_match r1 t ?n ?q d
        \<and> findSessionDescriptor r1 t ?n ?q = Some d"
    proof (cases "findSessionDescriptor ?r t ?n ?q")
      case (Some e)
      then have "d = e" "r1 = ?r" using d by (simp_all add: dr_def)
      then show ?thesis using Some started ty(2) ready1 findSession_match(1) [OF _ ty(2) ready1 Some] by simp
    next
      case None
      note new = newSession_ok [OF st1 sz, of pb t]
      have k: "ti_known (r_types ?r) (pb_typeName pb) = Some t" using ty(3) by simp
      have dr': "newSessionDescriptor pb ?r t = (d, r1)" using d None by (simp add: dr_def)
      have di: "d = dtb_size (r_descriptors ?r)" using new(1) [OF k] dr' by simp
      have m: "session_match r1 t ?n ?q d" using new(5) [OF k] dr' di by simp
      have only: "session_match r1 t ?n ?q e \<Longrightarrow> e = d" for e
        using new(7) [OF k, of e t ?n ?q] findSession_match(2) [OF _ ty(2) ready1 None, of e] started dr' di by auto
      have r1s: "r_started r1" "reg_ok tinfo (\<lambda>_. True) r1" "tix_ready (prio r1) (r_index r1)" "r_types r1 = ty"
        using new(2,3,4,6) [OF k] dr' by simp_all
      have "findSessionDescriptor r1 t ?n ?q = Some d"
        using findSession_match [OF r1s(1-3), of t ?n ?q] m only by (cases "findSessionDescriptor r1 t ?n ?q") auto
      then show ?thesis using m r1s by simp
    qed
    then show "r_started r1" "reg_ok tinfo (\<lambda>_. True) r1" "tix_ready (prio r1) (r_index r1)" "r_types r1 = ty"
      "session_match r1 t ?n ?q d" "findSessionDescriptor r1 t ?n ?q = Some d" by blast+
  qed
  have "t < ti_size ty" using ty(2,3) ti_known_iff [of tinfo ty "pb_typeName pb" t] by (auto simp: reg_ok_def ti_size_def)
  moreover have "ti_size ty \<le> length (ti_names (r_types r)) + 1" using ty(1) ti_intern_names_length [of "r_types r" "pb_typeName pb" "pb_typeInfo pb"]
    by (auto simp: boundTypeId_def Let_def split_beta ti_size_def split: if_splits dest!: arg_cong [where f = r_types])
  ultimately have tv: "t \<noteq> kInvalidTypeId" using room by (simp add: reg_room_def)
  have bt': "boundTypeId r1 pb' = (t, r1)"
    using boundTypeId_known [OF r1(2), of pb' t] again(1,2) pb ty(3) r1(4) tv by simp
  have run': "(if list_ex (\<lambda>(e, _). e = d) (sc_pendingRuntimeSessions sc) then Some (Inl (ConfigurationError SessionBound), r1, sc)
      else if sc_scopeState sc \<noteq> Running
      then Some (Inr None, r1, sc\<lparr>sc_pendingRuntimeSessions := sc_pendingRuntimeSessions sc @ [(d, pb_instance pb)]\<rparr>)
      else if ses_find (sc_sessionStore sc) (d_sessionSlot (dtb_at (r_descriptors r1) d)) \<noteq> None
      then Some (Inl (ConfigurationError SessionBound), r1, sc)
      else map_option (\<lambda>st. (Inr (Some t), r1, sc\<lparr>sc_sessionStore := st\<rparr>))
         (ses_growAndStore (sc_sessionStore sc) (d_sessionSlot (dtb_at (r_descriptors r1) d)) d (pb_instance pb))) = Some (Inr x, r', sc')"
    using run unfolding bindSession_core_def
    by (simp add: started ty(1) Let_def d [unfolded dr_def] split: if_splits)
  show ?thesis
  proof (cases "sc_scopeState sc = Running")
    case False
    with run' have s': "r' = r1" "sc' = sc\<lparr>sc_pendingRuntimeSessions := sc_pendingRuntimeSessions sc @ [(d, pb_instance pb)]\<rparr>"
      by (auto split: if_splits)
    have "pendingKey r1 sc' t ?n ?q" using r1(5) by (simp add: pendingKey_def s'(2) session_match_def)
    then show ?thesis using False by (simp add: bindSession_core_def s'(1) r1(1) bt' again Let_def)
  next
    case True
    let ?slot = "d_sessionSlot (dtb_at (r_descriptors r1) d)"
    obtain ses where ses: "ses_growAndStore (sc_sessionStore sc) ?slot d (pb_instance pb) = Some ses" "r' = r1" "sc' = sc\<lparr>sc_sessionStore := ses\<rparr>"
      "\<not> list_ex (\<lambda>(e, _). e = d) (sc_pendingRuntimeSessions sc)"
      using run' True by (auto split: if_splits)
    have stored: "ses_find ses ?slot = Some (pb_instance pb)" using ses_growAndStore_Some [OF inv, of ?slot d "pb_instance pb"] ses(1) by auto
    have "bindSession_core pb' r1 sc' = Some (Inl (ConfigurationError SessionBound), r1, sc')"
      using True ses(3,4) stored r1(6) by (auto simp: bindSession_core_def r1(1) bt' again Let_def)
    then show ?thesis using stored r1(5) ses(2,3) unfolding t_def by auto
  qed
qed

subsection \<open>Concrete instances\<close>

definition sample_binding :: "string \<Rightarrow> int \<Rightarrow> ptr \<Rightarrow> pending_singleton" where
  "sample_binding nm pri p = \<lparr>pb_instance = p, pb_typeName = nm, pb_typeInfo = name_code nm, pb_nameId = kUnnamed, pb_priority = pri,
     pb_destroy = 3, pb_preDestroy = None, pb_dealloc = Some 4, pb_size = 8, pb_align = 8\<rparr>"

lemma sample_bindable:
  "\<exists>r. registry_start (name_code beanContextName, 8) sample_registry 5 = Some (None, r) \<and> bindable name_code 5 r"
proof -
  have "\<exists>r. registry_start (name_code beanContextName, 8) sample_registry 5 = Some (None, r) \<and> reg_room r 1
      \<and> (\<forall>d. ss_find (r_singletons r) d \<noteq> None \<longrightarrow> d < dtb_size (r_descriptors r)) \<and> r_materializing r = []"
    by (simp add: start_eval sample_registry_def reg_room_def ss_find_def less_Suc_eq)
  then show ?thesis using registry_start_ok [OF sample_startable, of 5] by (auto simp: bindable_def)
qed

lemma sample_binding_wf: "pb_typeInfo (sample_binding nm pri p) = name_code (pb_typeName (sample_binding nm pri p))"
  by (simp add: sample_binding_def)


theorem bind_pending_unique_witness:
  "fst (bindPending (sample_binding ''C'' 1 900) registry_init) = None
   \<and> fst (bindPending (sample_binding ''C'' 1 901) (snd (bindPending (sample_binding ''C'' 1 900) registry_init))) \<noteq> None"
  using bind_pending_unique [of registry_init "sample_binding ''C'' 1 900"]
    bind_pending_unique [of "snd (bindPending (sample_binding ''C'' 1 900) registry_init)" "sample_binding ''C'' 1 901"]
  by (simp add: registry_init_def sample_binding_def bindPending_def)

theorem bind_session_once_witness:
  "\<exists>r r' sc'. registry_start (name_code beanContextName, 8) sample_registry 5 = Some (None, r)
     \<and> bindSession_core (sample_binding ''C'' 1 900) r sample_scope = Some (Inr (Some (fst (boundTypeId r (sample_binding ''C'' 1 900)))), r', sc')
     \<and> bindSession_core (sample_binding ''C'' 1 901) r' sc' = Some (Inl (ConfigurationError SessionBound), r', sc')"
proof -
  obtain r where r: "registry_start (name_code beanContextName, 8) sample_registry 5 = Some (None, r)" "bindable name_code 5 r"
    using sample_bindable by blast
  have st: "started_ok name_code 5 r" and room: "reg_room r 1" using r(2) by (simp_all add: bindable_def)
  have inv: "ses_inv (\<lambda>d. d) {0} (sc_sessionStore sample_scope)" by (simp add: ses_inv_def sample_scope_def ses_find_def)
  have "\<exists>r r' sc'. registry_start (name_code beanContextName, 8) sample_registry 5 = Some (None, r)
     \<and> bindSession_core (sample_binding ''C'' 1 900) r sample_scope = Some (Inr (Some (fst (boundTypeId r (sample_binding ''C'' 1 900)))), r', sc')"
    by (simp add: start_eval sample_registry_def bindSession_core_def boundTypeId_def sample_binding_def sample_scope_def
        ti_lookupByTypeIndex_def pendingKey_def findSessionDescriptor_def newSessionDescriptor_def append_runtime_def republish_def
        bound_cold_def ses_find_def ses_growAndStore_def ses_grow_def ses_store_def)
  with r(1) obtain r' sc' where run: "bindSession_core (sample_binding ''C'' 1 900) r sample_scope
      = Some (Inr (Some (fst (boundTypeId r (sample_binding ''C'' 1 900)))), r', sc')" by auto
  from bind_session_once [OF st room inv sample_binding_wf run, of "sample_binding ''C'' 1 901"] run r(1)
  show ?thesis by (auto simp: sample_binding_def)
qed

end
