(* ===== verification/Registry_Tables.thy ===== *)
theory Registry_Tables
  imports Binding "HOL-Library.Countable"
begin

text \<open>
  The small tables of \<^verbatim>\<open>Registry.hpp\<close> around resolution: the packed \<^verbatim>\<open>MaterializedBeanHandle\<close>, the
  segmented scope table, the cached interning of scope names, and the cache behind \<^verbatim>\<open>typeIdFor\<close>.
\<close>

unbundle bit_operations_syntax

subsection \<open>Packed handles\<close>

text \<open>\<open>MaterializedBeanHandle::pack\<close>, and the same layout for the union \<open>Bean::Bits\<close> on a little-endian
  machine: the first 32-bit field in the low half, the descriptor in the high half.\<close>

definition pack :: "nat \<Rightarrow> DescriptorId \<Rightarrow> 64 word" where
  "pack lo descId = push_bit 32 (ucast (word_of_nat descId :: 32 word)) OR ucast (word_of_nat lo :: 32 word)"

definition lo32 :: "64 word \<Rightarrow> nat" where
  "lo32 w = unat (ucast (w AND 0xFFFFFFFF) :: 32 word)"

definition hi32 :: "64 word \<Rightarrow> nat" where
  "hi32 w = unat (ucast (drop_bit 32 w) :: 32 word)"

lemma mask32: "(0xFFFFFFFF :: 64 word) = mask 32"
  by (simp add: mask_eq_exp_minus_1)

lemma lo32_pack [simp]: "lo < 2 ^ 32 \<Longrightarrow> lo32 (pack lo d) = lo"
proof -
  assume "lo < 2 ^ 32"
  moreover have "(ucast (pack lo d AND 0xFFFFFFFF) :: 32 word) = word_of_nat lo"
    by (rule bit_word_eqI) (auto simp: pack_def mask32 bit_simps)
  ultimately show ?thesis by (simp add: lo32_def unat_of_nat)
qed

lemma hi32_pack [simp]: "d < 2 ^ 32 \<Longrightarrow> hi32 (pack lo d) = d"
proof -
  assume "d < 2 ^ 32"
  moreover have "(ucast (drop_bit 32 (pack lo d)) :: 32 word) = word_of_nat d"
    by (rule bit_word_eqI) (auto simp: pack_def bit_simps)
  ultimately show ?thesis by (simp add: hi32_def unat_of_nat)
qed

lemma pack_lo_hi: "pack (lo32 w) (hi32 w) = w"
  by (rule bit_word_eqI) (auto simp: pack_def lo32_def hi32_def mask32 bit_simps)

datatype MaterializedHandleForm = FormDirect | FormProxy | FormThreadLocal

definition kMaterializedProxySlot :: SlotId where
  "kMaterializedProxySlot = kInvalidSlotId - 1"

definition kMaterializedThreadLocalSlot :: SlotId where
  "kMaterializedThreadLocalSlot = kInvalidSlotId - 2"

record materialized =
  mh_value :: "64 word"
  mh_bits :: "64 word"

definition mh_direct :: "ptr \<Rightarrow> SlotId \<Rightarrow> DescriptorId \<Rightarrow> materialized" where
  "mh_direct inst slot descId = \<lparr>mh_value = word_of_nat inst, mh_bits = pack slot descId\<rparr>"

definition mh_proxy :: "NameId \<Rightarrow> DescriptorId \<Rightarrow> materialized" where
  "mh_proxy scopeNameId descId = \<lparr>mh_value = word_of_nat scopeNameId, mh_bits = pack kMaterializedProxySlot descId\<rparr>"

definition mh_threadLocal :: "DescriptorId \<Rightarrow> materialized" where
  "mh_threadLocal descId = \<lparr>mh_value = 0, mh_bits = pack kMaterializedThreadLocalSlot descId\<rparr>"

definition mh_slot :: "materialized \<Rightarrow> SlotId" where "mh_slot m = lo32 (mh_bits m)"
definition mh_descId :: "materialized \<Rightarrow> DescriptorId" where "mh_descId m = hi32 (mh_bits m)"
definition mh_instance :: "materialized \<Rightarrow> ptr" where "mh_instance m = unat (mh_value m)"
definition mh_scopeNameId :: "materialized \<Rightarrow> NameId" where
  "mh_scopeNameId m = unat (ucast (mh_value m) :: 32 word)"

definition mh_form :: "materialized \<Rightarrow> MaterializedHandleForm" where
  "mh_form m =
     (if mh_slot m = kMaterializedProxySlot then FormProxy
      else if mh_slot m = kMaterializedThreadLocalSlot then FormThreadLocal
      else FormDirect)"

text \<open>What \<open>materializeOneImpl\<close> returns for a handle of the model, and the switch of \<open>materializeOne\<close>.\<close>

fun materialized_of :: "handle \<Rightarrow> materialized" where
  "materialized_of (Direct p slot d) = mh_direct p slot d"
| "materialized_of (Proxy n d) = mh_proxy n d"
| "materialized_of (ThreadLocalForm d) = mh_threadLocal d"

definition materializeOne :: "materialized \<Rightarrow> handle" where
  "materializeOne m =
     (case mh_form m of
        FormDirect \<Rightarrow> Direct (mh_instance m) (mh_slot m) (mh_descId m)
      | FormProxy \<Rightarrow> Proxy (mh_scopeNameId m) (mh_descId m)
      | FormThreadLocal \<Rightarrow> ThreadLocalForm (mh_descId m))"

fun handle_fits :: "handle \<Rightarrow> bool" where
  "handle_fits (Direct p slot d) \<longleftrightarrow> p < 2 ^ 64 \<and> d < 2 ^ 32 \<and> (slot = kInvalidSlotId \<or> slot < kMaterializedThreadLocalSlot)"
| "handle_fits (Proxy n d) \<longleftrightarrow> n < 2 ^ 32 \<and> d < 2 ^ 32"
| "handle_fits (ThreadLocalForm d) \<longleftrightarrow> d < 2 ^ 32"

lemmas mh_defs = mh_direct_def mh_proxy_def mh_threadLocal_def mh_slot_def mh_descId_def mh_instance_def
  mh_scopeNameId_def mh_form_def

lemma ucast_word_of_nat: "n < 2 ^ 32 \<Longrightarrow> unat (ucast (word_of_nat n :: 64 word) :: 32 word) = n"
  by (simp add: unsigned_ucast_eq take_bit_eq_mod unat_of_nat)

text \<open>C29.  The 16 bytes through which materialization hands a bean to the typed wrapper lose nothing: the
  form, the pointer or scope name, the slot and the descriptor come out as they went in, for every
  pointer and every identifier, as long as a slot is not one of the two sentinels that mark a form.\<close>

theorem materialized_handle_roundtrip:
  assumes "handle_fits h"
  shows "materializeOne (materialized_of h) = h"
proof (cases h)
  case (Direct p slot d)
  have "slot < 2 ^ 32" using assms Direct by (auto simp: sentinel_defs kMaterializedThreadLocalSlot_def)
  then show ?thesis using assms Direct
    by (auto simp: materializeOne_def mh_defs unat_of_nat kMaterializedProxySlot_def kMaterializedThreadLocalSlot_def sentinel_defs)
next
  case (Proxy n d)
  then show ?thesis using assms
    by (simp add: materializeOne_def mh_defs ucast_word_of_nat kMaterializedProxySlot_def sentinel_defs)
next
  case (ThreadLocalForm d)
  then show ?thesis using assms
    by (simp add: materializeOne_def mh_defs kMaterializedProxySlot_def kMaterializedThreadLocalSlot_def sentinel_defs)
qed

theorem materialized_handle_roundtrip_witness:
  "materializeOne (materialized_of (Direct 18446744073709551615 kInvalidSlotId 4294967295))
     = Direct 18446744073709551615 kInvalidSlotId 4294967295"
  by (rule materialized_handle_roundtrip) (simp add: sentinel_defs)

subsection \<open>The scope table\<close>

definition kScopeChunkSize :: nat where "kScopeChunkSize = 256"
definition kScopeTopCapacity :: nat where "kScopeTopCapacity = 256"

type_synonym scope_table = "nat \<Rightarrow> (nat \<Rightarrow> ptr option) option"

definition registerScope :: "NameId \<Rightarrow> ptr \<Rightarrow> scope_table \<Rightarrow> ctr_error + scope_table" where
  "registerScope i scope t =
     (let chunkIndex = i div kScopeChunkSize
      in if kScopeTopCapacity \<le> chunkIndex then Inl (ConfigurationError ScopeCapacity)
         else (let chunk = (case t chunkIndex of None \<Rightarrow> (\<lambda>_. None) | Some c \<Rightarrow> c)
               in Inr (t(chunkIndex \<mapsto> chunk(i mod kScopeChunkSize \<mapsto> scope)))))"

definition findScope :: "scope_table \<Rightarrow> NameId \<Rightarrow> ptr option" where
  "findScope t i =
     (let chunkIndex = i div kScopeChunkSize
      in if kScopeTopCapacity \<le> chunkIndex then None
         else case t chunkIndex of None \<Rightarrow> None | Some chunk \<Rightarrow> chunk (i mod kScopeChunkSize))"

lemma div_mod_eq: "i div n = j div n \<Longrightarrow> i mod n = j mod n \<Longrightarrow> i = (j :: nat)"
  by (metis div_mod_decomp)

lemma findScope_register:
  "registerScope i scope t = Inr t' \<Longrightarrow> findScope t' j = (if j = i then Some scope else findScope t j)"
  using div_mod_eq [of i kScopeChunkSize j]
  by (auto simp: registerScope_def findScope_def Let_def split: if_splits option.splits)

lemma registerScope_fails_iff: "(\<exists>e. registerScope i scope t = Inl e) \<longleftrightarrow> 65536 \<le> i"
  by (auto simp: registerScope_def Let_def kScopeChunkSize_def kScopeTopCapacity_def)

subsection \<open>Cached scope names\<close>

text \<open>The cache word is a static of the call site, whose name is fixed; registries are told apart by
  their identifiers.\<close>

definition internScopeNameCached :: "nat \<Rightarrow> string \<Rightarrow> registry \<Rightarrow> 64 word \<Rightarrow> NameId \<times> registry \<times> 64 word" where
  "internScopeNameCached registryId name r cache =
     (if name = [] then (kUnnamed, r, cache)
      else if hi32 cache = registryId then (lo32 cache, r, cache)
      else (let (nid, r') = internNameSafe r name in (nid, r', pack nid registryId)))"

text \<open>Any number of registries that share a call site and intern other names in between.\<close>

datatype scope_name_op = SnCall nat | SnIntern nat string

fun sn_exec :: "string \<Rightarrow> scope_name_op \<Rightarrow> (nat \<Rightarrow> registry) \<times> 64 word \<Rightarrow> (nat \<Rightarrow> registry) \<times> 64 word" where
  "sn_exec name (SnCall rid) (regs, cache) =
     (let (nid, r', cache') = internScopeNameCached rid name (regs rid) cache in (regs(rid := r'), cache'))"
| "sn_exec name (SnIntern rid nm) (regs, cache) = (regs(rid := snd (internNameSafe (regs rid) nm)), cache)"

definition sn_ids :: "scope_name_op list \<Rightarrow> nat set" where
  "sn_ids ops = {rid. SnCall rid \<in> set ops}"

definition sn_inv :: "string \<Rightarrow> nat \<Rightarrow> (nat \<Rightarrow> registry) \<times> 64 word \<Rightarrow> bool" where
  "sn_inv name k w \<longleftrightarrow> (\<forall>rid. ni_inv (r_names (fst w rid)) \<and> k \<le> ni_room (r_names (fst w rid)))
     \<and> (hi32 (snd w) = 0 \<or> ni_known (r_names (fst w (hi32 (snd w)))) name = Some (lo32 (snd w)))"

lemma internNameSafe_names:
  "r_names (snd (internNameSafe r nm)) = snd (ni_intern (r_names r) nm)" "fst (internNameSafe r nm) = fst (ni_intern (r_names r) nm)"
  by (simp_all add: internNameSafe_def ni_intern_def Let_def split: option.split)

lemma sn_inv_intern:
  assumes "sn_inv name (Suc k) (regs, cache)"
  shows "sn_inv name k (regs(rid := snd (internNameSafe (regs rid) nm)), cache)"
proof -
  have r: "ni_inv (r_names (regs i))" "Suc k \<le> ni_room (r_names (regs i))" for i using assms by (auto simp: sn_inv_def)
  have "ni_inv (snd (ni_intern (r_names (regs rid)) nm))" using r [of rid] by (intro nin.invar_intern) auto
  moreover have "k \<le> ni_room (snd (ni_intern (r_names (regs rid)) nm))"
    using r [of rid] nin.room_intern [of "r_names (regs rid)" nm] by linarith
  moreover have "ni_known (r_names (regs rid)) name = Some i \<Longrightarrow> ni_known (snd (ni_intern (r_names (regs rid)) nm)) name = Some i" for i
    by (rule nin.known_stable) (rule r)
  ultimately show ?thesis using assms r by (auto simp: sn_inv_def internNameSafe_names Suc_leD)
qed

lemma sn_call:
  assumes inv: "sn_inv name (Suc k) (regs, cache)" and rid: "0 < rid" "rid < 2 ^ 32" and name: "name \<noteq> []"
  shows "sn_inv name k (sn_exec name (SnCall rid) (regs, cache))"
    and "fst (internScopeNameCached rid name (regs rid) cache) = fst (ni_intern (r_names (regs rid)) name)"
proof -
  have r: "ni_inv (r_names (regs i))" for i using inv by (auto simp: sn_inv_def)
  note mono = sn_inv_intern [OF inv, of rid name]
  show "fst (internScopeNameCached rid name (regs rid) cache) = fst (ni_intern (r_names (regs rid)) name)"
    using inv rid name nin.intern_known [OF r, of rid name]
    by (auto simp: internScopeNameCached_def sn_inv_def Let_def case_prod_beta internNameSafe_names)
  show "sn_inv name k (sn_exec name (SnCall rid) (regs, cache))"
  proof (cases "hi32 cache = rid")
    case True
    then show ?thesis using inv name by (auto simp: internScopeNameCached_def sn_inv_def Suc_leD)
  next
    case False
    let ?n = "fst (internNameSafe (regs rid) name)"
    have known: "ni_known (r_names (snd (internNameSafe (regs rid) name))) name = Some ?n"
      using nin.known_intern [OF r, of rid name] by (simp add: internNameSafe_names)
    moreover have "ni_inv (r_names (snd (internNameSafe (regs rid) name)))"
      using mono unfolding sn_inv_def by (metis fst_conv fun_upd_same)
    then have "?n < kInvalidNameId - 2" using known by (rule ni_inv_id_bound)
    then have "?n < 2 ^ 32" by (simp add: sentinel_defs)
    ultimately show ?thesis using False mono name rid
      by (auto simp: internScopeNameCached_def sn_inv_def Let_def case_prod_beta)
  qed
qed

lemma sn_run_inv:
  assumes "sn_inv name (k + length ops) w" "name \<noteq> []" "\<forall>rid \<in> sn_ids ops. 0 < rid \<and> rid < 2 ^ 32"
  shows "sn_inv name k (fold (sn_exec name) ops w)"
  using assms
proof (induction ops arbitrary: w)
  case (Cons x xs)
  obtain regs cache where w: "w = (regs, cache)" by (cases w)
  have "sn_inv name (k + length xs) (sn_exec name x w)"
  proof (cases x)
    case (SnCall rid)
    then show ?thesis using Cons.prems sn_call(1) [of name "k + length xs" regs cache rid] by (simp add: w sn_ids_def)
  next
    case (SnIntern rid nm)
    then show ?thesis using Cons.prems sn_inv_intern [of name "k + length xs" regs cache] by (simp add: w)
  qed
  then show ?case using Cons by (simp add: sn_ids_def)
qed simp

text \<open>The one-word cache of a call site never mixes registries up: whatever registries have called
  through it and whatever names they interned meanwhile, a cached call returns the \<open>NameId\<close> that
  \<open>resolveScope\<close> gets for the same name in the same registry by interning it.\<close>

theorem scope_name_cache_coherent:
  assumes "name \<noteq> []" "\<forall>i \<in> insert rid (sn_ids ops). 0 < i \<and> i < 2 ^ 32"
    "\<forall>i. ni_inv (r_names (regs i)) \<and> length ops < ni_room (r_names (regs i))"
    "fold (sn_exec name) ops (regs, 0) = (regs', cache)"
  shows "fst (internScopeNameCached rid name (regs' rid) cache) = fst (internNameSafe (regs' rid) name)"
proof -
  have "hi32 0 = 0" by (simp add: hi32_def)
  then have "sn_inv name (Suc 0 + length ops) (regs, 0)" using assms(3) by (auto simp: sn_inv_def Suc_le_eq)
  from sn_run_inv [OF this assms(1)] have "sn_inv name (Suc 0) (regs', cache)" using assms(2,4) by simp
  from sn_call(2) [OF this, of rid] show ?thesis using assms(1,2) by (simp add: internNameSafe_names)
qed

theorem scope_name_cache_coherent_witness:
  "fst (internScopeNameCached 1 ''req'' (snd (internNameSafe (snd (internNameSafe registry_init ''a'')) ''req''))
     (pack 1 2)) = 2"
proof -
  have "\<exists>regs' cache. fold (sn_exec ''req'') [SnIntern 1 ''a'', SnCall 1, SnCall 2] (\<lambda>_. registry_init, 0) = (regs', cache)
      \<and> regs' 1 = snd (internNameSafe (snd (internNameSafe registry_init ''a'')) ''req'') \<and> cache = pack 1 2"
    using hi32_pack [of 1 2] by (simp add: internScopeNameCached_def internNameSafe_def ni_intern_def registry_init_def ni_init_def)
      (simp add: hi32_def)
  then obtain regs' cache where w: "fold (sn_exec ''req'') [SnIntern 1 ''a'', SnCall 1, SnCall 2] (\<lambda>_. registry_init, 0) = (regs', cache)"
    "regs' 1 = snd (internNameSafe (snd (internNameSafe registry_init ''a'')) ''req'')" "cache = pack 1 2" by blast
  have "fst (internScopeNameCached 1 ''req'' (regs' 1) cache) = fst (internNameSafe (regs' 1) ''req'')"
  proof (rule scope_name_cache_coherent [OF _ _ _ w(1)])
    show "\<forall>i. ni_inv (r_names registry_init) \<and> length [SnIntern 1 ''a'', SnCall 1, SnCall 2] < ni_room (r_names registry_init)"
      using ni_inv_init by (simp add: registry_init_def) (simp add: ni_room_def ni_init_def sentinel_defs)
  qed (auto simp: sn_ids_def)
  then show ?thesis unfolding w(2,3) by (simp add: internNameSafe_def ni_intern_def registry_init_def ni_init_def)
qed

subsection \<open>Cached type identifiers\<close>

definition kTypeIdCacheChunkSize :: nat where "kTypeIdCacheChunkSize = 256"
definition kTypeIdCacheTopCapacity :: nat where "kTypeIdCacheTopCapacity = 256"

text \<open>Process-wide: the function-local \<open>slotCache\<close> of every type and the next free slot.\<close>

record slot_caches =
  tc_slotCache :: "type_index \<Rightarrow> nat"
  tc_next :: nat

type_synonym type_id_chunks = "nat \<Rightarrow> (nat \<Rightarrow> TypeId) option"

definition tc_init :: slot_caches where
  "tc_init = \<lparr>tc_slotCache = (\<lambda>_. kInvalidTypeId), tc_next = 0\<rparr>"

text \<open>
  Another thread may claim a slot for the same type between the first load and the last
  compare-exchange: it takes its number before this thread does, or after. Only one of the two numbers
  is then stored, and the other one is lost.
\<close>

datatype race = NoRace | RaceBefore | RaceAfter

definition storeSlot :: "type_index \<Rightarrow> slot_caches \<Rightarrow> slot_caches" where
  "storeSlot T p = p\<lparr>tc_slotCache := (tc_slotCache p)(T := tc_next p), tc_next := u32 (tc_next p + 1)\<rparr>"

definition takeSlot :: "slot_caches \<Rightarrow> slot_caches" where
  "takeSlot p = p\<lparr>tc_next := u32 (tc_next p + 1)\<rparr>"

definition claimTypeIdCacheSlot :: "race \<Rightarrow> type_index \<Rightarrow> slot_caches \<Rightarrow> nat \<times> slot_caches" where
  "claimTypeIdCacheSlot raced T p =
     (if tc_slotCache p T \<noteq> kInvalidTypeId then (tc_slotCache p T, p)
      else if tc_next p = kInvalidTypeId then (kInvalidTypeId, p)
      else case raced of
        NoRace \<Rightarrow> (tc_next p, storeSlot T p)
      | RaceBefore \<Rightarrow>
          (let p1 = storeSlot T p
           in if tc_next p1 = kInvalidTypeId then (kInvalidTypeId, p1) else (tc_slotCache p1 T, takeSlot p1))
      | RaceAfter \<Rightarrow>
          (let p1 = takeSlot p
           in if tc_next p1 = kInvalidTypeId then (tc_next p, p1\<lparr>tc_slotCache := (tc_slotCache p1)(T := tc_next p)\<rparr>)
              else (tc_next p1, storeSlot T p1)))"

definition cachedTypeIdForSlot :: "nat \<Rightarrow> type_id_chunks \<Rightarrow> TypeId" where
  "cachedTypeIdForSlot slot chunks =
     (let chunkIndex = slot div kTypeIdCacheChunkSize
      in if kTypeIdCacheTopCapacity \<le> chunkIndex then kInvalidTypeId
         else case chunks chunkIndex of
           None \<Rightarrow> kInvalidTypeId
         | Some chunk \<Rightarrow> chunk (slot mod kTypeIdCacheChunkSize))"

text \<open>\<open>fails\<close>: the chunk cannot be allocated, or recording it throws.\<close>

definition cacheTypeIdForSlot :: "bool \<Rightarrow> nat \<Rightarrow> type_index \<Rightarrow> type_interning \<Rightarrow> type_id_chunks \<Rightarrow> TypeId \<times> type_id_chunks" where
  "cacheTypeIdForSlot fails slot T types chunks =
     (let chunkIndex = slot div kTypeIdCacheChunkSize; offset = slot mod kTypeIdCacheChunkSize
      in if kTypeIdCacheTopCapacity \<le> chunkIndex then (ti_lookupByTypeIndex types T, chunks)
         else case chunks chunkIndex of
           Some chunk \<Rightarrow>
             if chunk offset \<noteq> kInvalidTypeId then (chunk offset, chunks)
             else (let i = ti_lookupByTypeIndex types T
                   in if i = kInvalidTypeId then (i, chunks)
                      else (i, chunks(chunkIndex \<mapsto> chunk(offset := i))))
         | None \<Rightarrow>
             (let i = ti_lookupByTypeIndex types T
              in if i = kInvalidTypeId \<or> fails then (i, chunks)
                 else (i, chunks(chunkIndex \<mapsto> (\<lambda>_. kInvalidTypeId)(offset := i)))))"

definition typeIdFor :: "race \<Rightarrow> bool \<Rightarrow> type_index \<Rightarrow> slot_caches \<Rightarrow> type_interning \<Rightarrow> type_id_chunks
    \<Rightarrow> TypeId \<times> slot_caches \<times> type_id_chunks" where
  "typeIdFor raced fails T p types chunks =
     (let (slot, p') = (if tc_slotCache p T = kInvalidTypeId then claimTypeIdCacheSlot raced T p else (tc_slotCache p T, p))
      in if slot = kInvalidTypeId then (ti_lookupByTypeIndex types T, p', chunks)
         else if cachedTypeIdForSlot slot chunks \<noteq> kInvalidTypeId then (cachedTypeIdForSlot slot chunks, p', chunks)
         else (let (i, chunks') = cacheTypeIdForSlot fails slot T types chunks in (i, p', chunks')))"

text \<open>All registries of a process with the type names they intern; \<open>tinfo\<close> gives the type of a name.\<close>

record type_world =
  ty_caches :: slot_caches
  ty_types :: "nat \<Rightarrow> type_interning"
  ty_chunks :: "nat \<Rightarrow> type_id_chunks"

datatype type_op = TyFor nat string race bool | TyIntern nat string | TyFreeze nat

fun ty_exec :: "(string \<Rightarrow> type_index) \<Rightarrow> type_op \<Rightarrow> type_world \<Rightarrow> type_world" where
  "ty_exec tinfo (TyFor rid n raced fails) w =
     (let (i, p, chunks) = typeIdFor raced fails (tinfo n) (ty_caches w) (ty_types w rid) (ty_chunks w rid)
      in w\<lparr>ty_caches := p, ty_chunks := (ty_chunks w)(rid := chunks)\<rparr>)"
| "ty_exec tinfo (TyIntern rid n) w =
     w\<lparr>ty_types := (ty_types w)(rid := snd (ti_internByName (ty_types w rid) n (tinfo n)))\<rparr>"
| "ty_exec tinfo (TyFreeze rid) w = w\<lparr>ty_types := (ty_types w)(rid := ti_freeze (ty_types w rid))\<rparr>"

definition ty_init :: type_world where
  "ty_init = \<lparr>ty_caches = tc_init, ty_types = (\<lambda>_. ti_init), ty_chunks = (\<lambda>_ _. None)\<rparr>"

definition slots_distinct :: "slot_caches \<Rightarrow> bool" where
  "slots_distinct p \<longleftrightarrow> tc_next p \<le> kInvalidTypeId
     \<and> (\<forall>T. tc_slotCache p T \<noteq> kInvalidTypeId \<longrightarrow> tc_slotCache p T < tc_next p)
     \<and> (\<forall>T U. tc_slotCache p T \<noteq> kInvalidTypeId \<longrightarrow> tc_slotCache p T = tc_slotCache p U \<longrightarrow> T = U)"

text \<open>A cached identifier is the right one for the type that owns the slot; slots nobody owns are empty.\<close>

definition cache_ok :: "slot_caches \<Rightarrow> type_interning \<Rightarrow> type_id_chunks \<Rightarrow> bool" where
  "cache_ok p types chunks \<longleftrightarrow> (\<forall>slot. cachedTypeIdForSlot slot chunks \<noteq> kInvalidTypeId \<longrightarrow>
     (\<exists>T. tc_slotCache p T = slot \<and> slot \<noteq> kInvalidTypeId \<and> ti_lookupByTypeIndex types T = cachedTypeIdForSlot slot chunks))"

lemma slots_inj:
  assumes "slots_distinct p" "tc_slotCache p A = s" "tc_slotCache p B = s" "s \<noteq> kInvalidTypeId"
  shows "A = B"
proof -
  have "tc_slotCache p A \<noteq> kInvalidTypeId \<longrightarrow> tc_slotCache p A = tc_slotCache p B \<longrightarrow> A = B"
    using assms(1) unfolding slots_distinct_def by (elim conjE allE) assumption
  then show ?thesis using assms(2-4) by simp
qed

lemma claim_slots:
  assumes "slots_distinct p" "claimTypeIdCacheSlot raced T p = (slot, p')"
  shows "slots_distinct p'" "slot \<noteq> kInvalidTypeId \<Longrightarrow> tc_slotCache p' T = slot"
    "tc_slotCache p U \<noteq> kInvalidTypeId \<Longrightarrow> tc_slotCache p' U = tc_slotCache p U"
proof -
  have u: "tc_next p \<noteq> kInvalidTypeId \<Longrightarrow> u32 (tc_next p + 1) = tc_next p + 1 \<and> tc_next p + 1 \<le> kInvalidTypeId"
    "tc_next p + 1 \<noteq> kInvalidTypeId \<Longrightarrow> tc_next p \<noteq> kInvalidTypeId \<Longrightarrow> u32 (tc_next p + 2) = tc_next p + 2 \<and> tc_next p + 2 \<le> kInvalidTypeId"
    using assms(1) by (auto simp: slots_distinct_def sentinel_defs)
  note d = claimTypeIdCacheSlot_def storeSlot_def takeSlot_def Let_def
  show "tc_slotCache p U \<noteq> kInvalidTypeId \<Longrightarrow> tc_slotCache p' U = tc_slotCache p U"
    using assms(2) by (auto simp: d split: race.splits if_splits)
  show "slot \<noteq> kInvalidTypeId \<Longrightarrow> tc_slotCache p' T = slot"
    using assms(2) by (auto simp: d split: race.splits if_splits)
  have lt: "tc_slotCache p U \<noteq> kInvalidTypeId \<Longrightarrow> tc_slotCache p U < tc_next p" for U
    using assms(1) by (simp add: slots_distinct_def)
  have "p' = p \<or> (tc_next p \<noteq> kInvalidTypeId \<and> tc_next p' \<le> kInvalidTypeId
      \<and> (\<exists>x. tc_slotCache p' = (tc_slotCache p)(T := x) \<and> tc_next p \<le> x \<and> x < tc_next p'))"
    using assms(2) u by (auto simp: d split: race.splits if_splits)
  then show "slots_distinct p'"
  proof
    assume "tc_next p \<noteq> kInvalidTypeId \<and> tc_next p' \<le> kInvalidTypeId
      \<and> (\<exists>x. tc_slotCache p' = (tc_slotCache p)(T := x) \<and> tc_next p \<le> x \<and> x < tc_next p')"
    then obtain x where x: "tc_next p' \<le> kInvalidTypeId" "tc_slotCache p' = (tc_slotCache p)(T := x)" "tc_next p \<le> x" "x < tc_next p'" by blast
    have old: "tc_slotCache p U \<noteq> kInvalidTypeId \<Longrightarrow> tc_slotCache p U < x \<and> tc_slotCache p U < tc_next p'" for U
      using lt [of U] x by linarith
    have inj: "tc_slotCache p A \<noteq> kInvalidTypeId \<Longrightarrow> tc_slotCache p A = tc_slotCache p B \<Longrightarrow> A = B" for A B
      using assms(1) unfolding slots_distinct_def by blast
    have "A = B" if "tc_slotCache p' A \<noteq> kInvalidTypeId" "tc_slotCache p' A = tc_slotCache p' B" for A B
      using that old [of A] old [of B] inj [of A B] unfolding x(2) by (simp split: if_splits)
    moreover have "tc_slotCache p' A < tc_next p'" if "tc_slotCache p' A \<noteq> kInvalidTypeId" for A
      using that old [of A] x(4) unfolding x(2) by (cases "A = T") auto
    ultimately show ?thesis using x(1) unfolding slots_distinct_def by blast
  qed (use assms(1) in simp)
qed

lemma cached_store:
  "cachedTypeIdForSlot s (chunks(slot div kTypeIdCacheChunkSize \<mapsto> chunk(slot mod kTypeIdCacheChunkSize := i))) =
     (if s = slot \<and> slot div kTypeIdCacheChunkSize < kTypeIdCacheTopCapacity then i
      else if s div kTypeIdCacheChunkSize = slot div kTypeIdCacheChunkSize \<and> slot div kTypeIdCacheChunkSize < kTypeIdCacheTopCapacity
      then chunk (s mod kTypeIdCacheChunkSize) else cachedTypeIdForSlot s chunks)"
  using div_mod_eq [of s kTypeIdCacheChunkSize slot] by (auto simp: cachedTypeIdForSlot_def Let_def)

text \<open>The miss path answers with the lookup and writes at most the one slot.\<close>

lemma cacheTypeId_spec:
  assumes "cacheTypeIdForSlot fails slot T types chunks = (i, chunks')" "cachedTypeIdForSlot slot chunks = kInvalidTypeId"
  shows "i = ti_lookupByTypeIndex types T"
    "cachedTypeIdForSlot s chunks' \<noteq> kInvalidTypeId \<Longrightarrow>
       cachedTypeIdForSlot s chunks' = cachedTypeIdForSlot s chunks \<or> (s = slot \<and> cachedTypeIdForSlot s chunks' = i)"
proof -
  let ?c = "slot div kTypeIdCacheChunkSize" and ?o = "slot mod kTypeIdCacheChunkSize"
  consider (same) "i = ti_lookupByTypeIndex types T" "chunks' = chunks"
    | (upd) chunk where "?c < kTypeIdCacheTopCapacity" "i = ti_lookupByTypeIndex types T" "chunks' = chunks(?c \<mapsto> chunk(?o := i))"
       "\<And>s. s div kTypeIdCacheChunkSize = ?c \<Longrightarrow> chunk (s mod kTypeIdCacheChunkSize) = cachedTypeIdForSlot s chunks"
    using assms by (force simp: cacheTypeIdForSlot_def cachedTypeIdForSlot_def Let_def split: if_splits option.splits)
  then have "i = ti_lookupByTypeIndex types T \<and> (cachedTypeIdForSlot s chunks' \<noteq> kInvalidTypeId \<longrightarrow>
       cachedTypeIdForSlot s chunks' = cachedTypeIdForSlot s chunks \<or> (s = slot \<and> cachedTypeIdForSlot s chunks' = i))"
  proof cases
    case (upd chunk)
    then show ?thesis by (simp add: cached_store)
  qed simp
  then show "i = ti_lookupByTypeIndex types T"
    "cachedTypeIdForSlot s chunks' \<noteq> kInvalidTypeId \<Longrightarrow>
       cachedTypeIdForSlot s chunks' = cachedTypeIdForSlot s chunks \<or> (s = slot \<and> cachedTypeIdForSlot s chunks' = i)"
    by blast+
qed

lemma cache_ok_mono:
  assumes "cache_ok p types chunks" "\<And>U. tc_slotCache p U \<noteq> kInvalidTypeId \<Longrightarrow> tc_slotCache p' U = tc_slotCache p U"
    "\<And>U. ti_lookupByTypeIndex types U \<noteq> kInvalidTypeId \<Longrightarrow> ti_lookupByTypeIndex types' U = ti_lookupByTypeIndex types U"
  shows "cache_ok p' types' chunks"
  using assms unfolding cache_ok_def by (metis (full_types))

lemma typeIdFor_spec:
  assumes d: "slots_distinct p" and c: "cache_ok p types chunks"
    and e: "typeIdFor raced fails T p types chunks = (i, p', chunks')"
  shows "i = ti_lookupByTypeIndex types T" "slots_distinct p'" "cache_ok p' types chunks'"
    "tc_slotCache p U \<noteq> kInvalidTypeId \<Longrightarrow> tc_slotCache p' U = tc_slotCache p U"
proof -
  obtain slot q where q: "(if tc_slotCache p T = kInvalidTypeId then claimTypeIdCacheSlot raced T p else (tc_slotCache p T, p)) = (slot, q)"
    by fastforce
  have e': "(if slot = kInvalidTypeId then (ti_lookupByTypeIndex types T, q, chunks)
      else if cachedTypeIdForSlot slot chunks \<noteq> kInvalidTypeId then (cachedTypeIdForSlot slot chunks, q, chunks)
      else (let (i, chunks') = cacheTypeIdForSlot fails slot T types chunks in (i, q, chunks'))) = (i, p', chunks')"
    using e unfolding typeIdFor_def q by simp
  have p': "p' = q" using e' by (auto simp: Let_def split: prod.splits if_splits)
  have cl: "slots_distinct p'" "slot \<noteq> kInvalidTypeId \<Longrightarrow> tc_slotCache p' T = slot"
    "tc_slotCache p U \<noteq> kInvalidTypeId \<Longrightarrow> tc_slotCache p' U = tc_slotCache p U" for U
  proof -
    have "slots_distinct q \<and> (slot \<noteq> kInvalidTypeId \<longrightarrow> tc_slotCache q T = slot)
        \<and> (tc_slotCache p U \<noteq> kInvalidTypeId \<longrightarrow> tc_slotCache q U = tc_slotCache p U)"
    proof (cases "tc_slotCache p T = kInvalidTypeId")
      case True
      then have "claimTypeIdCacheSlot raced T p = (slot, q)" using q by simp
      from claim_slots [OF d this] show ?thesis by blast
    next
      case False
      then show ?thesis using q d by auto
    qed
    then show "slots_distinct p'" "slot \<noteq> kInvalidTypeId \<Longrightarrow> tc_slotCache p' T = slot"
      "tc_slotCache p U \<noteq> kInvalidTypeId \<Longrightarrow> tc_slotCache p' U = tc_slotCache p U" by (simp_all add: p')
  qed
  show "slots_distinct p'" "tc_slotCache p U \<noteq> kInvalidTypeId \<Longrightarrow> tc_slotCache p' U = tc_slotCache p U" by (fact cl)+
  have c': "cache_ok p' types chunks" by (rule cache_ok_mono [OF c cl(3)]) auto
  consider (none) "slot = kInvalidTypeId"
    | (hit) "slot \<noteq> kInvalidTypeId" "cachedTypeIdForSlot slot chunks \<noteq> kInvalidTypeId"
    | (miss) "slot \<noteq> kInvalidTypeId" "cachedTypeIdForSlot slot chunks = kInvalidTypeId" by blast
  then have "i = ti_lookupByTypeIndex types T \<and> cache_ok p' types chunks'"
  proof cases
    case hit
    then have hit': "i = cachedTypeIdForSlot slot chunks" "chunks' = chunks" using e' by auto
    obtain U where "tc_slotCache p' U = slot" "ti_lookupByTypeIndex types U = i" using c' hit(2) hit'(1) unfolding cache_ok_def by blast
    moreover have "tc_slotCache p' T = slot" by (rule cl(2) [OF hit(1)])
    then have "U = T" by (rule slots_inj [OF cl(1) \<open>tc_slotCache p' U = slot\<close> _ hit(1)])
    ultimately show ?thesis using c' hit'(2) by simp
  next
    case miss
    then have "cacheTypeIdForSlot fails slot T types chunks = (i, chunks')" using e' by (simp add: case_prod_beta prod_eq_iff)
    note sp = cacheTypeId_spec [OF this miss(2)]
    have "cache_ok p' types chunks'" unfolding cache_ok_def
    proof (intro allI impI)
      fix s assume s: "cachedTypeIdForSlot s chunks' \<noteq> kInvalidTypeId"
      from sp(2) [OF this] show "\<exists>T. tc_slotCache p' T = s \<and> s \<noteq> kInvalidTypeId \<and> ti_lookupByTypeIndex types T = cachedTypeIdForSlot s chunks'"
      proof
        assume "cachedTypeIdForSlot s chunks' = cachedTypeIdForSlot s chunks"
        then show ?thesis using c' s by (simp add: cache_ok_def)
      next
        assume "s = slot \<and> cachedTypeIdForSlot s chunks' = i"
        then show ?thesis using cl(2) [OF miss(1)] miss(1) sp(1) by (intro exI [of _ T]) auto
      qed
    qed
    then show ?thesis using sp(1) by simp
  qed (use c' e' in simp)
  then show "i = ti_lookupByTypeIndex types T" "cache_ok p' types chunks'" by blast+
qed

definition ty_inv :: "(string \<Rightarrow> type_index) \<Rightarrow> nat \<Rightarrow> type_world \<Rightarrow> bool" where
  "ty_inv tinfo k w \<longleftrightarrow> slots_distinct (ty_caches w)
     \<and> (\<forall>rid. ti_inv tinfo (ty_types w rid) \<and> k \<le> ti_room (ty_types w rid) \<and> cache_ok (ty_caches w) (ty_types w rid) (ty_chunks w rid))"

lemma lookup_stable:
  assumes "ti_inv tinfo s" "inj tinfo" "0 < ti_room s" "ti_lookupByTypeIndex s U \<noteq> kInvalidTypeId"
  shows "ti_lookupByTypeIndex (snd (ti_internByName s n (tinfo n))) U = ti_lookupByTypeIndex s U"
proof (cases "ti_known s n")
  case None
  have "ti_lookupByTypeIndex s (tinfo n) = kInvalidTypeId" using ti_lookup_known [OF assms(1), of n] None by simp
  then have "U \<noteq> tinfo n" using assms(4) by auto
  then show ?thesis by (simp add: ti_intern_new [OF assms(1,3) None] ti_lookupByTypeIndex_def split: option.split)
qed (simp add: ti_intern_known)

lemma ty_inv_step:
  assumes inv: "ty_inv tinfo (Suc k) w" and inj: "inj tinfo" shows "ty_inv tinfo k (ty_exec tinfo x w)"
proof (cases x)
  case (TyFor rid n raced fails)
  obtain i p' chunks' where e: "typeIdFor raced fails (tinfo n) (ty_caches w) (ty_types w rid) (ty_chunks w rid) = (i, p', chunks')"
    by (metis prod_cases3)
  note sp = typeIdFor_spec [OF _ _ e]
  have w: "slots_distinct (ty_caches w)" "cache_ok (ty_caches w) (ty_types w j) (ty_chunks w j)" for j using inv by (auto simp: ty_inv_def)
  have "cache_ok p' (ty_types w j) (ty_chunks w j)" for j by (rule cache_ok_mono [OF w(2) sp(4) [OF w]]) auto
  then show ?thesis using inv sp(2,3) [OF w] e by (simp add: TyFor ty_inv_def Suc_leD)
next
  case (TyIntern rid n)
  have w: "ti_inv tinfo (ty_types w j)" "Suc k \<le> ti_room (ty_types w j)" "cache_ok (ty_caches w) (ty_types w j) (ty_chunks w j)" for j
    using inv by (auto simp: ty_inv_def)
  let ?t = "snd (ti_internByName (ty_types w rid) n (tinfo n))"
  have room: "0 < ti_room (ty_types w rid)" using w(2) [of rid] by linarith
  have "ti_inv tinfo ?t" by (rule ti_inv_intern [OF w(1) inj room])
  moreover have "k \<le> ti_room ?t" using w(2) [of rid] tin.room_intern [of tinfo "ty_types w rid" n] w(1) inj by fastforce
  moreover have "cache_ok (ty_caches w) ?t (ty_chunks w rid)"
    by (rule cache_ok_mono [OF w(3) _ lookup_stable [OF w(1) inj room]]) auto
  ultimately show ?thesis using inv by (simp add: TyIntern ty_inv_def Suc_leD)
next
  case (TyFreeze rid)
  have "ti_lookupByTypeIndex (ti_freeze t) U = ti_lookupByTypeIndex t U" "ti_room (ti_freeze t) = ti_room t" for t U
    by (simp_all add: ti_lookupByTypeIndex_def ti_freeze_def ti_room_def split: option.split)
  then show ?thesis using inv by (simp add: TyFreeze ty_inv_def Suc_leD ti_inv_freeze cache_ok_def)
qed

lemma ty_run_inv: "ty_inv tinfo (k + length ops) w \<Longrightarrow> inj tinfo \<Longrightarrow> ty_inv tinfo k (fold (ty_exec tinfo) ops w)"
proof (induction ops arbitrary: w)
  case (Cons x xs)
  then show ?case using ty_inv_step [of tinfo "k + length xs" w x] by simp
qed simp

text \<open>C30.  The per-type slots and per-registry chunks behind \<^verbatim>\<open>typeIdFor\<close> are invisible: after any calls
  from any registries, with racing claims, failed chunk allocations and types interned meanwhile, a
  call returns what the lookup in the type table of the registry returns.\<close>

theorem type_id_cache_coherent:
  assumes "inj tinfo" "length ops < kInvalidTypeId" "w = fold (ty_exec tinfo) ops ty_init"
  shows "fst (typeIdFor raced fails (tinfo n) (ty_caches w) (ty_types w rid) (ty_chunks w rid))
     = ti_lookupByTypeIndex (ty_types w rid) (tinfo n)"
proof -
  have "ty_inv tinfo (0 + length ops) ty_init" using assms(2) ti_inv_init [of tinfo]
    by (simp add: ty_inv_def ty_init_def slots_distinct_def tc_init_def cache_ok_def cachedTypeIdForSlot_def ti_room_def)
      (simp add: ti_init_def)
  from ty_run_inv [OF this assms(1)] have "ty_inv tinfo 0 w" by (simp add: assms(3))
  then show ?thesis using typeIdFor_spec(1) [of "ty_caches w" "ty_types w rid" "ty_chunks w rid" raced fails "tinfo n"]
    by (cases "typeIdFor raced fails (tinfo n) (ty_caches w) (ty_types w rid) (ty_chunks w rid)") (auto simp: ty_inv_def)
qed

lemma inj_type_of: "inj (\<lambda>n :: string. to_nat n)"
  by (rule inj_to_nat)

theorem type_id_cache_coherent_witness:
  "\<exists>tinfo. inj tinfo \<and> (let w = fold (ty_exec tinfo) [TyIntern 1 ''A'', TyFor 1 ''A'' RaceBefore False] ty_init
     in fst (typeIdFor NoRace False (tinfo ''A'') (ty_caches w) (ty_types w 1) (ty_chunks w 1)) = 0)"
proof -
  let ?w = "fold (ty_exec to_nat) [TyIntern 1 ''A'', TyFor 1 ''A'' RaceBefore False] ty_init"
  have coherent: "fst (typeIdFor NoRace False (to_nat ''A'') (ty_caches ?w) (ty_types ?w 1) (ty_chunks ?w 1))
      = ti_lookupByTypeIndex (ty_types ?w 1) (to_nat ''A'')"
    by (rule type_id_cache_coherent [OF inj_type_of _ refl]) (simp add: sentinel_defs)
  have "ty_types ?w 1 = snd (ti_internByName ti_init ''A'' (to_nat ''A''))"
    by (simp add: ty_init_def Let_def case_prod_beta)
  then have "ti_lookupByTypeIndex (ty_types ?w 1) (to_nat ''A'') = 0"
    by (simp add: ti_internByName_def ti_init_def ti_lookupByTypeIndex_def emplace_def u32_def)
  then have "fst (typeIdFor NoRace False (to_nat ''A'') (ty_caches ?w) (ty_types ?w 1) (ty_chunks ?w 1)) = 0"
    using coherent by (rule trans [rotated])
  then show ?thesis unfolding Let_def by (intro exI [of _ "to_nat :: string \<Rightarrow> nat"] conjI inj_type_of)
qed

end
