(* ===== verification/Bean_Casts.thy ===== *)
theory Bean_Casts
  imports Registry_Tables
begin

text \<open>
  The layout of handles (\<^verbatim>\<open>api/ctr/Bean.hpp\<close>, \<^verbatim>\<open>api/ctr/AnyBean.hpp\<close>) and what \<^verbatim>\<open>HandleInlineImpl.hpp\<close> reads
  from them: the three forms, dereferencing, the owning context, metadata, and casts. \<open>Bean<T>\<close> and
  \<open>AnyBean\<close> have the same members and the same operations, so one record models both; a target type \<open>U\<close>
  is the answer of \<open>typeIdFor<U>()\<close>.
\<close>

subsection \<open>Layout and forms\<close>

text \<open>\<open>registry_\<close> points at the registry or, for a prototype, at the prototype store.\<close>

datatype anchor = AnchorRegistry | AnchorStore

record bean =
  b_object :: "ptr option"
  b_bits :: "64 word"
  b_registry :: "anchor option"

definition empty_bean :: bean where
  "empty_bean = \<lparr>b_object = None, b_bits = 0, b_registry = None\<rparr>"

definition b_slot :: "bean \<Rightarrow> SlotId" where "b_slot b = lo32 (b_bits b)"
definition b_scopeNameId :: "bean \<Rightarrow> NameId" where "b_scopeNameId b = lo32 (b_bits b)"
definition b_descId :: "bean \<Rightarrow> DescriptorId" where "b_descId b = hi32 (b_bits b)"

definition makeDirect :: "ptr \<Rightarrow> SlotId \<Rightarrow> DescriptorId \<Rightarrow> bean" where
  "makeDirect inst slot descId = \<lparr>b_object = Some inst, b_bits = pack slot descId,
     b_registry = Some (if slot \<noteq> kInvalidSlotId then AnchorStore else AnchorRegistry)\<rparr>"

definition makeProxy :: "NameId \<Rightarrow> DescriptorId \<Rightarrow> bean" where
  "makeProxy scopeNameId descId = \<lparr>b_object = None, b_bits = pack scopeNameId descId, b_registry = Some AnchorRegistry\<rparr>"

definition makeThreadLocal :: "DescriptorId \<Rightarrow> bean" where
  "makeThreadLocal descId = \<lparr>b_object = None, b_bits = pack kThreadLocalSentinel descId, b_registry = Some AnchorRegistry\<rparr>"

definition bean_eq :: "bean \<Rightarrow> bean \<Rightarrow> bool" where
  "bean_eq a b \<longleftrightarrow> b_object a = b_object b \<and> b_bits a = b_bits b \<and> b_registry a = b_registry b"

text \<open>The guard in front of every retain and release.\<close>

definition tracked :: "bean \<Rightarrow> bool" where
  "tracked b \<longleftrightarrow> b_slot b \<noteq> kInvalidSlotId \<and> b_object b \<noteq> None"

text \<open>The handle that \<open>materializeOne\<close> builds.\<close>

fun bean_of :: "handle \<Rightarrow> bean" where
  "bean_of (Direct p slot d) = makeDirect p slot d"
| "bean_of (Proxy n d) = makeProxy n d"
| "bean_of (ThreadLocalForm d) = makeThreadLocal d"

subsection \<open>Casts\<close>

definition findAliasByPrimary :: "registry \<Rightarrow> TypeId \<Rightarrow> NameId \<Rightarrow> DescriptorId \<Rightarrow> DescriptorId option" where
  "findAliasByPrimary r uid name primary =
     (let check = (\<lambda>n. case tix_candidatesFor (r_index r) uid n of
            None \<Rightarrow> None
          | Some cands \<Rightarrow> find (\<lambda>did. d_primaryDescriptor (dtb_at (r_descriptors r) did) = primary) cands)
      in case check name of
           Some did \<Rightarrow> Some did
         | None \<Rightarrow> if name \<noteq> kUnnamed then check kUnnamed else None)"

datatype CastTargetKind = Incompatible | CastProxy | SameExposed | Concrete | ExposedAlias | DowncastUnavailable

record cast_target =
  ct_kind :: CastTargetKind
  ct_descId :: DescriptorId
  ct_object :: "ptr option"

definition no_target :: cast_target where
  "no_target = \<lparr>ct_kind = Incompatible, ct_descId = kInvalidDescriptorId, ct_object = None\<rparr>"

definition ct_compatible :: "cast_target \<Rightarrow> bool" where
  "ct_compatible t \<longleftrightarrow> ct_kind t \<noteq> Incompatible"

definition ct_castable :: "cast_target \<Rightarrow> bool" where
  "ct_castable t \<longleftrightarrow> ct_compatible t \<and> ct_kind t \<noteq> DowncastUnavailable"

definition resolveCastTarget :: "registry \<Rightarrow> TypeId \<Rightarrow> ptr option \<Rightarrow> DescriptorId \<Rightarrow> cast_target" where
  "resolveCastTarget r uid object descId =
     (let cold = dtb_coldAt (r_descriptors r) descId; primary = primaryOf r descId
      in if uid = kInvalidTypeId then no_target
         else if c_exposedType cold = uid
         then \<lparr>ct_kind = (if object = None then CastProxy else SameExposed), ct_descId = descId, ct_object = object\<rparr>
         else case (if c_concreteType cold = uid then Some primary else findAliasByPrimary r uid (c_name cold) primary) of
           None \<Rightarrow> no_target
         | Some target \<Rightarrow>
             (case object of
                None \<Rightarrow> \<lparr>ct_kind = CastProxy, ct_descId = target, ct_object = None\<rparr>
              | Some p \<Rightarrow>
                  if c_adjustToConcrete cold = None \<and> primary \<noteq> descId
                  then \<lparr>ct_kind = DowncastUnavailable, ct_descId = target, ct_object = None\<rparr>
                  else (let concretePtr = (case c_adjustToConcrete cold of None \<Rightarrow> p | Some down \<Rightarrow> down p)
                        in if c_concreteType cold = uid
                           then \<lparr>ct_kind = Concrete, ct_descId = primary, ct_object = Some concretePtr\<rparr>
                           else \<lparr>ct_kind = ExposedAlias, ct_descId = target,
                                 ct_object = Some (adjusted (dtb_at (r_descriptors r) target) concretePtr)\<rparr>)))"

text \<open>\<open>registry()\<close> is null for an empty handle only.\<close>

definition bean_target :: "registry \<Rightarrow> TypeId \<Rightarrow> bean \<Rightarrow> cast_target" where
  "bean_target r uid b = (if b_registry b = None then no_target else resolveCastTarget r uid (b_object b) (b_descId b))"

definition bean_compatible :: "registry \<Rightarrow> TypeId \<Rightarrow> bean \<Rightarrow> bool" where
  "bean_compatible r uid b = ct_compatible (bean_target r uid b)"

definition bean_exact :: "registry \<Rightarrow> TypeId \<Rightarrow> bean \<Rightarrow> bool" where
  "bean_exact r uid b \<longleftrightarrow> b_registry b \<noteq> None \<and> uid \<noteq> kInvalidTypeId
     \<and> c_concreteType (dtb_coldAt (r_descriptors r) (b_descId b)) = uid"

text \<open>The three ways a cast fills in its result; the retain that follows belongs to the copy.\<close>

definition cast_result :: "bean \<Rightarrow> cast_target \<Rightarrow> bean" where
  "cast_result b t =
     (if ct_kind t = CastProxy
      then \<lparr>b_object = None, b_bits = pack (lo32 (b_bits b)) (ct_descId t), b_registry = b_registry b\<rparr>
      else if ct_kind t = SameExposed
      then \<lparr>b_object = ct_object t, b_bits = b_bits b, b_registry = b_registry b\<rparr>
      else \<lparr>b_object = ct_object t, b_bits = pack (b_slot b) (ct_descId t), b_registry = b_registry b\<rparr>)"

definition bean_cast :: "registry \<Rightarrow> TypeId \<Rightarrow> bean \<Rightarrow> ctr_error + bean" where
  "bean_cast r uid b =
     (let t = bean_target r uid b
      in if \<not> ct_compatible t then Inl (ResolutionError IncompatibleCast)
         else if \<not> ct_castable t then Inl (ResolutionError VirtualBaseCast)
         else Inr (cast_result b t))"

definition bean_tryCast :: "registry \<Rightarrow> TypeId \<Rightarrow> bean \<Rightarrow> bean option" where
  "bean_tryCast r uid b =
     (let t = bean_target r uid b in if \<not> ct_castable t then None else Some (cast_result b t))"

lemma lo32_bound: "lo32 w < 2 ^ 32"
  using unsigned_less [of "ucast (w AND 0xFFFFFFFF) :: 32 word"] by (simp add: lo32_def)

text \<open>A cast refers to the same slot, and is tracked only if the handle is.\<close>

lemma cast_tracked: "bean_cast r uid b = Inr b' \<Longrightarrow> tracked b' \<Longrightarrow> tracked b \<and> b_slot b' = b_slot b"
  using lo32_bound [of "b_bits b"]
  by (auto simp: bean_cast_def bean_target_def Let_def cast_result_def tracked_def b_slot_def resolveCastTarget_def no_target_def
      ct_castable_def ct_compatible_def split: if_splits option.splits)

subsection \<open>Metadata and context\<close>

record bean_metadata =
  bm_observedTypeGetter :: "type_index option"
  bm_exactTypeGetter :: "type_index option"
  bm_nameStr :: string
  bm_factoryMethodName :: "string option"
  bm_lifetime :: Lifetime
  bm_origin :: Origin
  bm_reflective :: "nat option"

definition metadata :: "registry \<Rightarrow> bean \<Rightarrow> bean_metadata" where
  "metadata r b =
     (if b_registry b \<noteq> None
      then (let d = dtb_at (r_descriptors r) (b_descId b); cold = dtb_coldAt (r_descriptors r) (b_descId b)
            in \<lparr>bm_observedTypeGetter = c_observedTypeGetter cold, bm_exactTypeGetter = c_exactTypeGetter cold,
                bm_nameStr = (case c_nameStr cold of None \<Rightarrow> [] | Some n \<Rightarrow> n), bm_factoryMethodName = c_factoryMethodName cold,
                bm_lifetime = d_lifetime d, bm_origin = c_origin cold, bm_reflective = c_reflectiveData cold\<rparr>)
      else \<lparr>bm_observedTypeGetter = None, bm_exactTypeGetter = None, bm_nameStr = [], bm_factoryMethodName = Some [],
            bm_lifetime = Singleton, bm_origin = AnnotatedType, bm_reflective = None\<rparr>)"

text \<open>The address of the owning context: the root, or the scope that is registered under the name.\<close>

definition bean_context :: "scope_table \<Rightarrow> registry \<Rightarrow> bean \<Rightarrow> ptr option" where
  "bean_context scopes r b =
     (if b_object b \<noteq> None then r_root r
      else case findScope scopes (b_scopeNameId b) of Some sc \<Rightarrow> Some sc | None \<Rightarrow> r_root r)"

text \<open>
  What the generated thunks guarantee for the descriptors of one bean: a primary exposes its own class
  and is its own primary, and casting up to an exposed base and down again is the identity (there is no
  way down from a virtual base).
\<close>

definition casts_linked :: "registry \<Rightarrow> DescriptorId \<Rightarrow> ptr \<Rightarrow> bool" where
  "casts_linked r d q \<longleftrightarrow> d \<noteq> kInvalidDescriptorId \<and> primaryOf r (primaryOf r d) = primaryOf r d
     \<and> d_adjustToExposed (dtb_at (r_descriptors r) (primaryOf r d)) = None
     \<and> (case c_adjustToConcrete (dtb_coldAt (r_descriptors r) d) of
          None \<Rightarrow> True | Some down \<Rightarrow> down (adjusted (dtb_at (r_descriptors r) d) q) = q)"

lemma findAlias_primary:
  assumes "findAliasByPrimary r uid n p = Some d'" shows "d_primaryDescriptor (dtb_at (r_descriptors r) d') = p"
  using assms by (auto simp: findAliasByPrimary_def Let_def find_Some_iff split: option.splits if_splits)


text \<open>A class with a second base at offset 8: type 0 is the class, type 1 the base.\<close>

definition sample_hot' :: "DescriptorId \<Rightarrow> adjust option \<Rightarrow> descriptor" where
  "sample_hot' p adj = \<lparr>d_priority = 0, d_primaryDescriptor = p, d_sessionSlot = kInvalidSessionSlot,
     d_lifetime = Singleton, d_adjustToExposed = adj\<rparr>"

definition two_bases :: registry where
  "two_bases = registry_init\<lparr>r_started := True,
     r_descriptors := \<lparr>dtb_entries = [sample_hot' 0 None, sample_hot' 0 (Some (\<lambda>p. p + 8))],
       dtb_coldEntries = [sample_cold 0, (sample_cold 1)\<lparr>c_concreteType := 0, c_adjustToConcrete := Some (\<lambda>p. p - 8)\<rparr>],
       dtb_lifetimes = [Singleton, Singleton]\<rparr>,
     r_index := tix_sortAllCandidates (\<lambda>_. 0) (tix_insertCandidate (tix_insertCandidate tix_init 0 kUnnamed 0) 1 kUnnamed 1)\<rparr>"

lemma two_bases_eval:
  "r_descriptors two_bases = \<lparr>dtb_entries = [sample_hot' 0 None, sample_hot' 0 (Some (\<lambda>p. p + 8))],
       dtb_coldEntries = [sample_cold 0, (sample_cold 1)\<lparr>c_concreteType := 0, c_adjustToConcrete := Some (\<lambda>p. p - 8)\<rparr>],
       dtb_lifetimes = [Singleton, Singleton]\<rparr>"
  "tix_candidatesFor (r_index two_bases) 0 0 = Some [0]" "tix_candidatesFor (r_index two_bases) (Suc 0) 0 = Some [Suc 0]"
  by (simp_all add: two_bases_def tix_eval)

lemmas cast_eval = two_bases_eval sample_hot'_def sample_cold_def runtime_cold_def dtb_at_def dtb_coldAt_def primaryOf_def
  adjusted_def Let_def sentinel_defs


subsection \<open>The view of a typed listener\<close>

text \<open>The wrapper of \<open>BeanContext::on<T>\<close> (\<^verbatim>\<open>ContextLifecycleImpl.hpp\<close>): the handle its callback gets, if the
  bean is compatible with the type.\<close>

definition listener_view :: "registry \<Rightarrow> TypeId \<Rightarrow> bean \<Rightarrow> bean option" where
  "listener_view r uid b =
     (if \<not> bean_compatible r uid b then None
      else Some (case b_object b of
          None \<Rightarrow> makeProxy (b_scopeNameId b) (b_descId b)
        | Some p \<Rightarrow> makeDirect p kInvalidSlotId (b_descId b)))"

text \<open>A typed listener gets the unadjusted pointer: for a bean whose class has the listener's type as a
  base at a nonzero offset, the callback of \<open>on<Base>\<close> is called with the address of the whole object as a
  \<open>Base*\<close>, where \<open>cast<Base>()\<close> of the same handle adjusts the address.\<close>

theorem typed_listener_unadjusted:
  "\<exists>r uid b v b'. listener_view r uid b = Some v \<and> bean_cast r uid b = Inr b' \<and> b_object v = Some 1000 \<and> b_object b' = Some 1008"
proof -
  let ?b = "makeDirect 1000 kInvalidSlotId 0"
  have "bean_cast two_bases 1 ?b = Inr (makeDirect 1008 kInvalidSlotId 1)" "bean_compatible two_bases 1 ?b" "b_descId ?b = 0"
    using hi32_pack [of 0 kInvalidSlotId] lo32_pack [of kInvalidSlotId 0]
    by (simp_all add: bean_cast_def bean_target_def bean_compatible_def resolveCastTarget_def makeDirect_def b_descId_def b_slot_def
        ct_castable_def ct_compatible_def cast_result_def findAliasByPrimary_def cast_eval)
  then show ?thesis
    by (intro exI [of _ two_bases] exI [of _ 1] exI [of _ ?b] exI [of _ "makeDirect 1000 kInvalidSlotId 0"]
        exI [of _ "makeDirect 1008 kInvalidSlotId 1"]) (simp add: listener_view_def makeDirect_def)
qed

end
