(* ===== verification/Bean_Handles.thy ===== *)
theory Bean_Handles
  imports Bean_Casts
begin

text \<open>
  Ownership through handles: copying, moving, assigning, casting and destroying \<open>Bean<T>\<close> and \<open>AnyBean\<close>
  with the reference counts of the prototype store, for programs whose beans hold handles themselves.
\<close>

subsection \<open>Copy, move, assignment, destruction\<close>

text \<open>The handle variables of the program by address (one that does not exist is an empty handle), and
  the state of the container.\<close>

record hworld =
  hw_vars :: "nat \<Rightarrow> bean"
  hw_m :: mstate

abbreviation hw_store :: "hworld \<Rightarrow> proto_store" where
  "hw_store w \<equiv> m_proto (hw_m w)"

definition hw_put :: "proto_store \<Rightarrow> hworld \<Rightarrow> hworld" where
  "hw_put ps w = w\<lparr>hw_m := (hw_m w)\<lparr>m_proto := ps\<rparr>\<rparr>"

definition hw_set :: "nat \<Rightarrow> bean \<Rightarrow> hworld \<Rightarrow> hworld" where
  "hw_set v b w = w\<lparr>hw_vars := (hw_vars w)(v := b)\<rparr>"

text \<open>\<open>lc\<close> is \<open>executeDestructionLifecycle\<close> with the user code it runs, which may use handles itself.\<close>

type_synonym lifecycle = "DescriptorId \<Rightarrow> ptr \<Rightarrow> hworld \<Rightarrow> hworld option"

definition retainIfPrototype :: "bean \<Rightarrow> hworld \<Rightarrow> hworld option" where
  "retainIfPrototype b w = map_option (\<lambda>ps. hw_put ps w) (ps_retain (hw_store w) (b_slot b))"

definition hw_releasePrototypeLast :: "lifecycle \<Rightarrow> SlotId \<Rightarrow> hworld \<Rightarrow> hworld option" where
  "hw_releasePrototypeLast lc slot w =
     (let ((mem, d), ps) = ps_takeSlotMetaForDestruction (hw_store w) slot; w1 = hw_put ps w
      in case (case mem of None \<Rightarrow> Some w1 | Some p \<Rightarrow> lc d p w1) of
           None \<Rightarrow> None
         | Some w2 \<Rightarrow> map_option (\<lambda>ps. hw_put ps w2) (ps_reclaimSlot (hw_store w2) slot))"

definition releaseIfPrototype :: "lifecycle \<Rightarrow> bean \<Rightarrow> hworld \<Rightarrow> hworld option" where
  "releaseIfPrototype lc b w =
     (case ps_releaseAcquire (hw_store w) (b_slot b) of
        None \<Rightarrow> None
      | Some (isLast, ps) \<Rightarrow>
          (let w1 = hw_put ps w
           in if \<not> isLast then Some w1
              else if \<not> ps_alive (hw_store w1)
              then map_option (\<lambda>ps. hw_put ps w1) (ps_reclaimSlot (hw_store w1) (b_slot b))
              else hw_releasePrototypeLast lc (b_slot b) w1))"

text \<open>Filling in a handle and retaining, as the copy constructor does and the casts for their result.\<close>

definition retainInto :: "nat \<Rightarrow> bean \<Rightarrow> hworld \<Rightarrow> hworld option" where
  "retainInto dst b w = (let w1 = hw_set dst b w in if tracked b then retainIfPrototype b w1 else Some w1)"

definition copyConstruct :: "nat \<Rightarrow> nat \<Rightarrow> hworld \<Rightarrow> hworld option" where
  "copyConstruct dst src w = retainInto dst (hw_vars w src) w"

text \<open>\<open>cast<U>()\<close>: an exception creates no handle.\<close>

definition castConstruct :: "TypeId \<Rightarrow> nat \<Rightarrow> nat \<Rightarrow> hworld \<Rightarrow> hworld option" where
  "castConstruct uid dst src w =
     (case bean_cast (m_reg (hw_m w)) uid (hw_vars w src) of Inl e \<Rightarrow> Some w | Inr b \<Rightarrow> retainInto dst b w)"

definition moveConstruct :: "nat \<Rightarrow> nat \<Rightarrow> hworld \<Rightarrow> hworld" where
  "moveConstruct dst src w = hw_set src empty_bean (hw_set dst (hw_vars w src) w)"

definition releaseVar :: "lifecycle \<Rightarrow> nat \<Rightarrow> hworld \<Rightarrow> hworld option" where
  "releaseVar lc v w = (if tracked (hw_vars w v) then releaseIfPrototype lc (hw_vars w v) w else Some w)"

definition copyAssign :: "lifecycle \<Rightarrow> nat \<Rightarrow> nat \<Rightarrow> hworld \<Rightarrow> hworld option" where
  "copyAssign lc dst src w =
     (if dst = src then Some w
      else case releaseVar lc dst w of None \<Rightarrow> None | Some w1 \<Rightarrow> copyConstruct dst src w1)"

definition moveAssign :: "lifecycle \<Rightarrow> nat \<Rightarrow> nat \<Rightarrow> hworld \<Rightarrow> hworld option" where
  "moveAssign lc dst src w =
     (if dst = src then Some w
      else case releaseVar lc dst w of None \<Rightarrow> None | Some w1 \<Rightarrow> Some (moveConstruct dst src w1))"

definition destroyHandle :: "lifecycle \<Rightarrow> nat \<Rightarrow> hworld \<Rightarrow> hworld option" where
  "destroyHandle lc v w =
     (case releaseVar lc v w of None \<Rightarrow> None | Some w1 \<Rightarrow> Some (hw_set v empty_bean w1))"

text \<open>A new prototype: \<open>allocate\<close>, \<open>activate\<close>, and the handle; at the slot limit an exception leaves
  everything as it was.\<close>

definition newPrototype :: "nat option \<Rightarrow> nat \<Rightarrow> DescriptorId \<Rightarrow> DescriptorId \<Rightarrow> ptr \<Rightarrow> ptr \<Rightarrow> hworld \<Rightarrow> hworld option" where
  "newPrototype lim v d p mem exposed w =
     (case ps_allocate lim (hw_store w) p mem of
        None \<Rightarrow> None
      | Some (Inl e) \<Rightarrow> Some w
      | Some (Inr (slot, ps)) \<Rightarrow>
          map_option (\<lambda>ps'. hw_set v (makeDirect exposed slot d) (hw_put ps' w)) (ps_activate ps slot))"

text \<open>The prototypes of a stopping registry, from the last slot down.\<close>

fun hw_destroyPrototypes :: "lifecycle \<Rightarrow> nat \<Rightarrow> hworld \<Rightarrow> hworld option" where
  "hw_destroyPrototypes lc 0 w = Some w"
| "hw_destroyPrototypes lc (Suc slot) w =
     (let ((mem, d), ps) = ps_takeSlotMetaForDestruction (hw_store w) slot; w1 = hw_put ps w
      in case (case mem of None \<Rightarrow> Some w1 | Some p \<Rightarrow> lc d p w1) of
           None \<Rightarrow> None
         | Some w2 \<Rightarrow> hw_destroyPrototypes lc slot w2)"

subsection \<open>Reference counts are handle counts\<close>

definition refs :: "nat set \<Rightarrow> hworld \<Rightarrow> SlotId \<Rightarrow> nat set" where
  "refs L w x = {v. v \<notin> L \<and> tracked (hw_vars w v) \<and> b_slot (hw_vars w v) = x}"

text \<open>
  What holds between and during operations: \<open>L\<close> are the variables whose handle is being released (it no
  longer counts), \<open>D\<close> the slots whose instance is being destroyed, \<open>intact\<close> that no instance was taken
  from under its handles by a stop.
\<close>

fun slot_ok :: "bool \<Rightarrow> nat set \<Rightarrow> SlotId set \<Rightarrow> hworld \<Rightarrow> SlotId \<Rightarrow> (slot_state \<times> DescriptorId \<times> ptr option) option \<Rightarrow> bool" where
  "slot_ok intact L D w x None \<longleftrightarrow> refs L w x = {} \<and> x \<notin> D"
| "slot_ok intact L D w x (Some (SPending, d, m)) \<longleftrightarrow> False"
| "slot_ok intact L D w x (Some (SLive n, d, m)) \<longleftrightarrow> card (refs L w x) = n \<and> x \<notin> D \<and> (intact \<longrightarrow> m \<noteq> None)"
| "slot_ok intact L D w x (Some (SDying, d, m)) \<longleftrightarrow> refs L w x = {} \<and> x \<in> D"

definition live_handles :: "hworld \<Rightarrow> nat set" where
  "live_handles w = {v. tracked (hw_vars w v)}"

text \<open>The counts are 32 bits wide.\<close>

definition few :: "nat set \<Rightarrow> bool" where
  "few vs \<longleftrightarrow> finite vs \<and> card vs < 2 ^ 32 - 1"

definition hw_inv :: "bool \<Rightarrow> nat set \<Rightarrow> SlotId set \<Rightarrow> hworld \<Rightarrow> bool" where
  "hw_inv intact L D w \<longleftrightarrow> few (live_handles w)
     \<and> (\<exists>g. ps_rel (hw_store w) g \<and> (\<forall>x. slot_ok intact L D w x (g x)))"

text \<open>What destruction callbacks promise: they use handles properly and leave alone the handles that are
  just being released; \<open>own\<close> are the variables they may release, the members of beans.\<close>

definition keeps_handles :: "nat set \<Rightarrow> lifecycle \<Rightarrow> bool" where
  "keeps_handles own lc \<longleftrightarrow> (\<forall>intact L D d p w. L \<inter> own = {} \<longrightarrow> hw_inv intact L D w \<longrightarrow>
     (\<exists>w'. lc d p w = Some w' \<and> hw_inv intact L D w' \<and> (\<forall>v \<in> L. hw_vars w' v = hw_vars w v)))"

lemma few_subset: "few B \<Longrightarrow> A \<subseteq> B \<Longrightarrow> few A"
  unfolding few_def by (meson card_mono finite_subset le_less_trans)

lemma hw_simps [simp]:
  "hw_vars (hw_put ps w) = hw_vars w" "hw_store (hw_put ps w) = ps" "hw_put ps (hw_put ps' w) = hw_put ps w"
  "hw_vars (hw_set v b w) = (hw_vars w)(v := b)" "hw_m (hw_set v b w) = hw_m w"
  "refs L (hw_put ps w) x = refs L w x"
  "live_handles (hw_put ps w) = live_handles w"
  by (simp_all add: hw_put_def hw_set_def refs_def live_handles_def)

lemma empty_not_tracked [simp]: "\<not> tracked empty_bean"
  by (simp add: tracked_def empty_bean_def)

lemma refs_finite: "few (live_handles w) \<Longrightarrow> finite (refs L w x)"
  by (rule finite_subset [rotated]) (auto simp: refs_def live_handles_def few_def)

lemma hw_invI: "few (live_handles w) \<Longrightarrow> ps_rel (hw_store w) g \<Longrightarrow> (\<And>x. slot_ok i L D w x (g x)) \<Longrightarrow> hw_inv i L D w"
  by (auto simp: hw_inv_def)

text \<open>Changing the store of one slot only touches the clause of that slot.\<close>

lemma slot_ok_put [simp]: "slot_ok i L D (hw_put ps w) x e = slot_ok i L D w x e"
  by (cases "(i, L, D, w, x, e)" rule: slot_ok.cases) simp_all

lemma slot_ok_cong:
  assumes "refs L w x = refs L' w' x" "(x \<in> D) = (x \<in> D')"
  shows "slot_ok i L D w x e = slot_ok i L' D' w' x e"
  using assms by (cases "(i, L, D, w, x, e)" rule: slot_ok.cases) simp_all

lemma tracked_live:
  assumes "ps_rel (hw_store w) g" "\<And>x. slot_ok i L D w x (g x)" "few (live_handles w)" "v \<notin> L" "tracked (hw_vars w v)"
  shows "\<exists>d m. g (b_slot (hw_vars w v)) = Some (SLive (card (refs L w (b_slot (hw_vars w v)))), d, m)
    \<and> b_slot (hw_vars w v) \<notin> D \<and> 0 < card (refs L w (b_slot (hw_vars w v))) \<and> (i \<longrightarrow> m \<noteq> None)"
proof -
  let ?x = "b_slot (hw_vars w v)"
  have v: "v \<in> refs L w ?x" using assms(4,5) by (simp add: refs_def)
  then have pos: "0 < card (refs L w ?x)" using refs_finite [OF assms(3)] by (auto simp: card_gt_0_iff)
  obtain st d m where g: "g ?x = Some (st, d, m)" using assms(2) [of ?x] v by (cases "g ?x") auto
  then obtain n where "st = SLive n" using assms(2) [of ?x] v by (cases st) auto
  then show ?thesis using assms(2) [of ?x] g pos by auto
qed

lemma not_deleted:
  assumes "ps_rel s g" "g x = Some (st, d, m)" "st \<noteq> SPending" shows "ps_deleted s = 0"
proof -
  have "x \<in> counted g" using assms(2,3) by (auto simp: counted_def)
  then show ?thesis using assms(1) by (auto simp: ps_rel_def)
qed

lemma refs_insert: "refs (insert v L) w x = refs L w x - {v}"
  by (auto simp: refs_def)

text \<open>Giving a dying slot back after its destruction.\<close>

lemma reclaim_ok:
  assumes inv: "hw_inv i L (insert x D) w" and x: "x \<notin> D"
  shows "\<exists>ps. ps_reclaimSlot (hw_store w) x = Some ps \<and> hw_inv i L D (hw_put ps w)"
proof -
  obtain g where g: "ps_rel (hw_store w) g" "\<And>y. slot_ok i L (insert x D) w y (g y)" and fin: "few (live_handles w)"
    using inv by (auto simp: hw_inv_def)
  obtain d m where gx: "g x = Some (SDying, d, m)" and none: "refs L w x = {}"
    using g(2) [of x] by (cases "(i, L, insert x D, w, x, g x)" rule: slot_ok.cases) auto
  obtain ps where ps: "ps_reclaimSlot (hw_store w) x = Some ps" "ps_rel ps (g(x := None))"
    using rel_reclaimSlot [OF g(1) gx not_deleted [OF g(1) gx]] by auto
  have "slot_ok i L D w y ((g(x := None)) y)" for y
    using g(2) [of y] none x slot_ok_cong [of L w y L w "insert x D" D i "g y"] by (cases "y = x") auto
  then have "hw_inv i L D (hw_put ps w)" using fin ps(2) by (intro hw_invI [of _ "g(x := None)"]) auto
  with ps(1) show ?thesis by blast
qed

lemma take_ok:
  assumes inv: "hw_inv i L D w"
    and e: "ps_takeSlotMetaForDestruction (hw_store w) x = ((mem, d), ps)"
  shows "hw_inv False L D (hw_put ps w)" "x \<in> D \<Longrightarrow> hw_inv i L D (hw_put ps w)"
proof -
  obtain g where g: "ps_rel (hw_store w) g" "\<And>y. slot_ok i L D w y (g y)" and fin: "few (live_handles w)"
    using inv by (auto simp: hw_inv_def)
  have weaker: "slot_ok False L D w y e'" if "slot_ok i L D w y e'" for y e'
    using that by (cases "(i, L, D, w, y, e')" rule: slot_ok.cases) auto
  show "hw_inv False L D (hw_put ps w)" "x \<in> D \<Longrightarrow> hw_inv i L D (hw_put ps w)"
  proof (atomize (full), cases "g x")
    case None
    have "ps_rel ps g" using g(1) None e
      by (auto simp: ps_rel_def ps_has_def ps_takeSlotMetaForDestruction_def split: if_splits)
    then show "hw_inv False L D (hw_put ps w) \<and> (x \<in> D \<longrightarrow> hw_inv i L D (hw_put ps w))"
      using g(2) fin weaker by (auto intro!: hw_invI [of _ g])
  next
    case (Some a)
    obtain st d' m' where a: "g x = Some (st, d', m')" using Some by (cases a) auto
    have ps: "ps_rel ps (g(x \<mapsto> (st, d', None)))" using rel_take [OF g(1) a] e by simp
    have "slot_ok False L D w y ((g(x \<mapsto> (st, d', None))) y)" for y
      using weaker [OF g(2) [of y]] a by (cases st) auto
    moreover have "slot_ok i L D w y ((g(x \<mapsto> (st, d', None))) y)" if "x \<in> D" for y
      using g(2) [of y] a that by (cases st) auto
    ultimately show "hw_inv False L D (hw_put ps w) \<and> (x \<in> D \<longrightarrow> hw_inv i L D (hw_put ps w))"
      using fin ps by (auto intro!: hw_invI [of _ "g(x \<mapsto> (st, d', None))"])
  qed
qed

lemma lifecycle_ok:
  assumes "keeps_handles own lc" "hw_inv i L D w" "L \<inter> own = {}"
  shows "\<exists>w'. (case mem of None \<Rightarrow> Some w | Some p \<Rightarrow> lc d p w) = Some w' \<and> hw_inv i L D w'
    \<and> (\<forall>v \<in> L. hw_vars w' v = hw_vars w v)"
  using assms unfolding keeps_handles_def by (cases mem) (simp, metis option.simps(5))

lemma releaseLast_ok:
  assumes keeps: "keeps_handles own lc" and inv: "hw_inv i L (insert x D) w" and x: "x \<notin> D" and L: "L \<inter> own = {}"
  shows "\<exists>w'. hw_releasePrototypeLast lc x w = Some w' \<and> hw_inv i L D w' \<and> (\<forall>v \<in> L. hw_vars w' v = hw_vars w v)"
proof -
  obtain mem d ps where t: "ps_takeSlotMetaForDestruction (hw_store w) x = ((mem, d), ps)" by (metis surj_pair)
  have "hw_inv i L (insert x D) (hw_put ps w)" by (rule take_ok(2) [OF inv t]) simp
  from lifecycle_ok [OF keeps this L, where mem = mem and d = d] obtain w2 where w2:
    "(case mem of None \<Rightarrow> Some (hw_put ps w) | Some p \<Rightarrow> lc d p (hw_put ps w)) = Some w2"
    "hw_inv i L (insert x D) w2" "\<forall>v \<in> L. hw_vars w2 v = hw_vars w v" by auto
  from reclaim_ok [OF w2(2) x] obtain ps2 where "ps_reclaimSlot (hw_store w2) x = Some ps2" "hw_inv i L D (hw_put ps2 w2)" by blast
  with t w2 show ?thesis by (auto simp: hw_releasePrototypeLast_def Let_def)
qed

lemma release_ok:
  assumes keeps: "keeps_handles own lc" and inv: "hw_inv i L D w" and v: "v \<notin> L" "tracked (hw_vars w v)"
    and L: "insert v L \<inter> own = {}"
  shows "\<exists>w'. releaseIfPrototype lc (hw_vars w v) w = Some w' \<and> hw_inv i (insert v L) D w'
    \<and> (\<forall>u \<in> insert v L. hw_vars w' u = hw_vars w u)"
proof -
  let ?x = "b_slot (hw_vars w v)" and ?n = "card (refs L w (b_slot (hw_vars w v)))"
  obtain g where g: "ps_rel (hw_store w) g" "\<And>y. slot_ok i L D w y (g y)" and fin: "few (live_handles w)"
    using inv by (auto simp: hw_inv_def)
  obtain d m where gx: "g ?x = Some (SLive ?n, d, m)" "?x \<notin> D" "0 < ?n" "i \<longrightarrow> m \<noteq> None"
    using tracked_live [OF g(1,2) fin v] by blast
  obtain ps where ps: "ps_releaseAcquire (hw_store w) ?x = Some (?n = 1, ps)"
      "ps_rel ps (g(?x \<mapsto> ((if ?n = 1 then SDying else SLive (?n - 1)), d, m)))"
    using rel_release [OF g(1) gx(1)] by blast
  have mem: "v \<in> refs L w ?x" using v by (simp add: refs_def)
  have cnt: "card (refs (insert v L) w ?x) = ?n - 1" using mem by (simp add: refs_insert)
  have none: "refs (insert v L) w ?x = {}" if "?n = 1"
    using cnt that refs_finite [OF fin, of "insert v L" ?x] by simp
  have other: "refs (insert v L) w y = refs L w y" if "y \<noteq> ?x" for y using that by (auto simp: refs_def)
  let ?D = "if ?n = 1 then insert ?x D else D"
  have "slot_ok i (insert v L) ?D w y ((g(?x \<mapsto> ((if ?n = 1 then SDying else SLive (?n - 1)), d, m))) y)" for y
  proof (cases "y = ?x")
    case True then show ?thesis using gx cnt none by auto
  next
    case False
    then show ?thesis using g(2) [of y] slot_ok_cong [OF other [OF False], of ?D D i "g y"] by auto
  qed
  then have inv1: "hw_inv i (insert v L) ?D (hw_put ps w)"
    using fin ps(2) by (intro hw_invI [of _ "g(?x \<mapsto> ((if ?n = 1 then SDying else SLive (?n - 1)), d, m))"]) auto
  show ?thesis
  proof (cases "?n = 1")
    case False
    then show ?thesis using ps(1) inv1 by (auto simp: releaseIfPrototype_def)
  next
    case True
    then have inv2: "hw_inv i (insert v L) (insert ?x D) (hw_put ps w)" using inv1 by simp
    show ?thesis
    proof (cases "ps_alive ps")
      case True
      from releaseLast_ok [OF keeps inv2 gx(2) L] show ?thesis using ps(1) \<open>?n = 1\<close> True
        by (auto simp: releaseIfPrototype_def Let_def)
    next
      case False
      from reclaim_ok [OF inv2 gx(2)] show ?thesis using ps(1) \<open>?n = 1\<close> False
        by (auto simp: releaseIfPrototype_def Let_def)
    qed
  qed
qed

lemma hw_inv_limbo:
  assumes "hw_inv i L D w" "\<not> tracked (hw_vars w v)"
  shows "hw_inv i (insert v L) D w"
proof -
  have "refs (insert v L) w x = refs L w x" for x using assms(2) by (auto simp: refs_def)
  then show ?thesis using assms(1) slot_ok_cong [of L w _ "insert v L" w D D] by (auto simp: hw_inv_def)
qed

lemma releaseVar_ok:
  assumes "keeps_handles own lc" "hw_inv i L D w" "v \<notin> L" "insert v L \<inter> own = {}"
  shows "\<exists>w'. releaseVar lc v w = Some w' \<and> hw_inv i (insert v L) D w' \<and> (\<forall>u \<in> insert v L. hw_vars w' u = hw_vars w u)"
  using release_ok [OF assms(1-3) _ assms(4)] hw_inv_limbo [OF assms(2), of v] by (auto simp: releaseVar_def)

text \<open>Overwriting a handle that no longer counts.\<close>

lemma hw_inv_set:
  assumes inv: "hw_inv i (insert v L) D w" and v: "v \<notin> L" and b: "\<not> tracked b"
  shows "hw_inv i L D (hw_set v b w)"
proof -
  obtain g where g: "ps_rel (hw_store w) g" "\<And>y. slot_ok i (insert v L) D w y (g y)" and fin: "few (live_handles w)"
    using inv by (auto simp: hw_inv_def)
  have "refs (insert v L) w y = refs L (hw_set v b w) y" for y using b v by (auto simp: refs_def)
  then have "slot_ok i L D (hw_set v b w) y (g y)" for y using g(2) [of y] slot_ok_cong by metis
  moreover have "live_handles (hw_set v b w) \<subseteq> live_handles w" using b by (auto simp: live_handles_def split: if_splits)
  then have "few (live_handles (hw_set v b w))" by (rule few_subset [OF fin])
  ultimately show ?thesis using g(1) by (intro hw_invI [of _ g]) auto
qed

lemma retainInto_ok:
  assumes inv: "hw_inv i (insert v L) D w" and v: "v \<notin> L" "src \<noteq> v" "src \<notin> L"
    and b: "tracked b \<Longrightarrow> tracked (hw_vars w src) \<and> b_slot b = b_slot (hw_vars w src)"
    and i: "tracked (hw_vars w src) \<longrightarrow> i" and few: "few (insert v (live_handles w))"
  shows "\<exists>w'. retainInto v b w = Some w' \<and> hw_inv i L D w'"
proof (cases "tracked b")
  case False
  then show ?thesis using hw_inv_set [OF inv v(1) False] by (simp add: retainInto_def Let_def)
next
  case True
  let ?b = b and ?x = "b_slot (hw_vars w src)"
  let ?w = "hw_set v ?b w"
  obtain g where g: "ps_rel (hw_store w) g" "\<And>y. slot_ok i (insert v L) D w y (g y)" and fin: "few (live_handles w)"
    using inv by (auto simp: hw_inv_def)
  let ?n = "card (refs (insert v L) w ?x)"
  obtain d m where gx: "g ?x = Some (SLive ?n, d, m)" "?x \<notin> D" "m \<noteq> None"
    using tracked_live [OF g(1,2) fin, of src] b [OF True] v i by auto
  have new: "refs L ?w ?x = insert v (refs (insert v L) w ?x)" "v \<notin> refs (insert v L) w ?x" using b [OF True] True v by (auto simp: refs_def)
  have cnt: "card (refs L ?w ?x) = ?n + 1" using new refs_finite [OF fin] by simp
  have "refs L ?w ?x \<subseteq> insert v (live_handles w)" by (auto simp: refs_def live_handles_def split: if_splits)
  then have "card (refs L ?w ?x) < 2 ^ 32 - 1" using few_subset [OF few] by (simp add: few_def)
  then have bound: "?n + 1 < 4294967296" using cnt by simp
  have "?x < ps_slotCount (hw_store w)" "ps_metas (hw_store w) ?x = \<lparr>sm_memory = m, sm_descId = d\<rparr>"
    using ps_relD(3,4) [OF g(1) gx(1)] by simp_all
  then obtain ps where ps: "ps_retain (hw_store w) ?x = Some ps" using ps_relD(2) [OF g(1)] gx(3) by (auto simp: ps_retain_def)
  have rel: "ps_rel ps (g(?x \<mapsto> (SLive (?n + 1), d, m)))" by (rule rel_retain [OF g(1) gx(1) bound ps])
  have "slot_ok i L D ?w y ((g(?x \<mapsto> (SLive (?n + 1), d, m))) y)" for y
  proof (cases "y = ?x")
    case eq: True then show ?thesis using gx cnt by simp
  next
    case False
    then have "refs (insert v L) w y = refs L ?w y" using b [OF True] by (auto simp: refs_def)
    then show ?thesis using False g(2) [of y] slot_ok_cong by (metis fun_upd_other)
  qed
  moreover have "live_handles ?w \<subseteq> insert v (live_handles w)" by (auto simp: live_handles_def split: if_splits)
  then have "few (live_handles ?w)" by (rule few_subset [OF few])
  ultimately have "hw_inv i L D (hw_put ps ?w)" using rel
    by (intro hw_invI [of _ "g(?x \<mapsto> (SLive (?n + 1), d, m))"]) (auto simp del: fun_upd_apply)
  then show ?thesis using ps True b [OF True] by (auto simp: retainInto_def Let_def retainIfPrototype_def)
qed

lemmas copy_ok = retainInto_ok [where b = "hw_vars w src" and w = w and src = src for w src, folded copyConstruct_def]

text \<open>Moving keeps every count: the handle changes its address.\<close>

lemma move_ok:
  assumes inv: "hw_inv i (insert v L) D w" and v: "v \<notin> L" "src \<noteq> v" "src \<notin> L"
  shows "hw_inv i L D (moveConstruct v src w)"
proof -
  let ?w = "moveConstruct v src w"
  obtain g where g: "ps_rel (hw_store w) g" "\<And>y. slot_ok i (insert v L) D w y (g y)" and fin: "few (live_handles w)"
    using inv by (auto simp: hw_inv_def)
  have vars: "hw_vars ?w = (hw_vars w)(v := hw_vars w src, src := empty_bean)" "hw_m ?w = hw_m w"
    by (simp_all add: moveConstruct_def)
  have swap: "card (insert v A - {src}) = card A" if "finite A" "v \<notin> A" "src \<in> A" for A
    using that v(2) card_gt_0_iff [of A] by (auto simp: insert_Diff_if)
  have sub: "few (live_handles ?w)"
  proof (cases "src \<in> live_handles w")
    case True
    have "live_handles ?w \<subseteq> insert v (live_handles w - {v}) - {src}" by (auto simp: live_handles_def vars split: if_splits)
    moreover have "card (insert v (live_handles w - {v}) - {src}) = card (live_handles w - {v})"
      using fin True v by (intro swap) (auto simp: few_def)
    moreover have "card (live_handles w - {v}) \<le> card (live_handles w)" using fin by (simp add: few_def card_mono)
    ultimately have "few (insert v (live_handles w - {v}) - {src})" using fin by (simp add: few_def)
    then show ?thesis by (rule few_subset) fact
  next
    case False
    then have "live_handles ?w \<subseteq> live_handles w" by (auto simp: live_handles_def vars split: if_splits)
    then show ?thesis by (rule few_subset [OF fin])
  qed
  have card_eq: "card (refs L ?w y) = card (refs (insert v L) w y) \<and> (refs L ?w y = {} \<longleftrightarrow> refs (insert v L) w y = {})" for y
  proof (cases "src \<in> refs (insert v L) w y")
    case True
    then have "refs L ?w y = insert v (refs (insert v L) w y) - {src}" using v by (auto simp: refs_def vars split: if_splits)
    moreover have "v \<notin> refs (insert v L) w y" by (simp add: refs_def)
    ultimately show ?thesis using swap [OF refs_finite [OF fin] _ True] True v(2) by auto
  next
    case False
    then have "refs L ?w y = refs (insert v L) w y" using v by (auto simp: refs_def vars split: if_splits)
    then show ?thesis by simp
  qed
  have "slot_ok i L D ?w y (g y)" for y
    using g(2) [of y] card_eq [of y] by (cases "(i, insert v L, D, w, y, g y)" rule: slot_ok.cases) auto
  then show ?thesis using sub g(1) vars(2) by (intro hw_invI [of _ g]) auto
qed

lemma new_ok:
  assumes inv: "hw_inv i (insert v L) D w" and v: "v \<notin> L" and alive: "ps_alive (hw_store w)"
    and few: "few (insert v (live_handles w))"
  shows "(\<exists>w'. newPrototype lim v d p mem exposed w = Some w' \<and> hw_inv i L D w' )
     \<or> newPrototype lim v d p mem exposed w = Some w
     \<or> (newPrototype lim v d p mem exposed w = None \<and> ps_slotCount (hw_store w) = 65536)"
proof -
  obtain g where g: "ps_rel (hw_store w) g" "\<And>y. slot_ok i (insert v L) D w y (g y)" and fin: "few (live_handles w)"
    using inv by (auto simp: hw_inv_def)
  have "\<exists>w'. newPrototype lim v d p mem exposed w = Some w' \<and> hw_inv i L D w'"
    if a: "ps_allocate lim (hw_store w) p mem = Some (Inr (x, ps))" "g x = None" "x < 65536" "ps_rel ps (g(x \<mapsto> (SPending, p, Some mem)))"
    for x ps
  proof -
    have x: "x \<noteq> kInvalidSlotId" "lo32 (pack x d) = x" using a(3) by (simp_all add: sentinel_defs)
    have "ps_has ps x" using ps_relD(2,3) [OF a(4), of x] by auto
    then obtain ps' where ps': "ps_activate ps x = Some ps'" by (simp add: ps_activate_def)
    have al: "ps_alive ps" using a(1) alive by (auto simp: ps_allocate_def Let_def split: prod.splits if_splits option.splits)
    have rel: "ps_rel ps' (g(x \<mapsto> (SLive 1, p, Some mem)))" using rel_activate [OF a(4) _ al ps', of p "Some mem"] by simp
    let ?b = "makeDirect exposed x d"
    let ?w = "hw_set v ?b (hw_put ps' w)"
    have b: "tracked ?b" "b_slot ?b = x" using x by (simp_all add: tracked_def b_slot_def makeDirect_def)
    have none: "refs (insert v L) w x = {}" "x \<notin> D" using g(2) [of x] a(2) by auto
    have one: "refs L ?w x = {v}" using b v none by (auto simp: refs_def split: if_splits)
    have "slot_ok i L D ?w y ((g(x \<mapsto> (SLive 1, p, Some mem))) y)" for y
    proof (cases "y = x")
      case True then show ?thesis using one none by simp
    next
      case False
      then have "refs (insert v L) w y = refs L ?w y" using b by (auto simp: refs_def)
      then show ?thesis using False g(2) [of y] slot_ok_cong by (metis fun_upd_other)
    qed
    moreover have "live_handles ?w \<subseteq> insert v (live_handles w)" by (auto simp: live_handles_def split: if_splits)
    then have "few (live_handles ?w)" by (rule few_subset [OF few])
    ultimately have "hw_inv i L D ?w" using rel by (intro hw_invI [of _ "g(x \<mapsto> (SLive 1, p, Some mem))"]) (auto simp del: fun_upd_apply)
    then show ?thesis using a(1) ps' by (simp add: newPrototype_def)
  qed
  with ps_allocate_cases [OF g(1), of lim p mem] show ?thesis by (auto simp: newPrototype_def)
qed

lemma destroyPrototypes_ok:
  assumes "keeps_handles own lc" "hw_inv False {} D w"
  shows "\<exists>w'. hw_destroyPrototypes lc n w = Some w' \<and> hw_inv False {} D w'"
  using assms(2)
proof (induction n arbitrary: w)
  case (Suc slot)
  obtain mem d ps where t: "ps_takeSlotMetaForDestruction (hw_store w) slot = ((mem, d), ps)" by (metis surj_pair)
  obtain w2 where w2: "(case mem of None \<Rightarrow> Some (hw_put ps w) | Some p \<Rightarrow> lc d p (hw_put ps w)) = Some w2"
    "hw_inv False {} D w2"
    using lifecycle_ok [OF assms(1) take_ok(1) [OF Suc.prems t], where mem = mem and d = d] by auto
  from Suc.IH [OF w2(2)] show ?case using t w2 by (auto simp: Let_def)
qed simp

subsection \<open>Programs over handles\<close>

datatype handle_op =
    HCopy nat nat | HCast TypeId nat nat | HMove nat nat | HCopyAssign nat nat | HMoveAssign nat nat | HDestroy nat
  | HNew nat DescriptorId DescriptorId ptr ptr | HOther nat bean | HStopPrototypes | HRegistryGone

fun hop_exec :: "lifecycle \<Rightarrow> nat option \<Rightarrow> handle_op \<Rightarrow> hworld \<Rightarrow> hworld option" where
  "hop_exec lc lim (HCopy dst src) w = copyConstruct dst src w"
| "hop_exec lc lim (HCast uid dst src) w = castConstruct uid dst src w"
| "hop_exec lc lim (HMove dst src) w = Some (moveConstruct dst src w)"
| "hop_exec lc lim (HCopyAssign dst src) w = copyAssign lc dst src w"
| "hop_exec lc lim (HMoveAssign dst src) w = moveAssign lc dst src w"
| "hop_exec lc lim (HDestroy v) w = destroyHandle lc v w"
| "hop_exec lc lim (HNew v d p mem exposed) w = newPrototype lim v d p mem exposed w"
| "hop_exec lc lim (HOther v b) w = Some (hw_set v b w)"
| "hop_exec lc lim HStopPrototypes w = hw_destroyPrototypes lc (ps_slotCount (hw_store w)) w"
| "hop_exec lc lim HRegistryGone w = Some (hw_put (ps_markRegistryDeadAndReleaseHold (hw_store w)) w)"

text \<open>No instance was taken from under a handle by a stop.\<close>

definition intact :: "hworld \<Rightarrow> bool" where
  "intact w \<longleftrightarrow> (\<forall>v. tracked (hw_vars w v) \<longrightarrow> sm_memory (ps_metas (hw_store w) (b_slot (hw_vars w v))) \<noteq> None)"

text \<open>When a C++ program may run the operation: construction of a handle that does not exist, assignment
  to and destruction of handles that are no members of a bean under destruction (those belong to \<open>own\<close>),
  copies of a prototype handle only while its instance exists, and fewer handles than the count can hold.\<close>

fun hop_pre :: "nat set \<Rightarrow> handle_op \<Rightarrow> hworld \<Rightarrow> bool" where
  "hop_pre own (HCopy dst src) w \<longleftrightarrow> dst \<noteq> src \<and> \<not> tracked (hw_vars w dst) \<and> (tracked (hw_vars w src) \<longrightarrow> intact w)
     \<and> few (insert dst (live_handles w))"
| "hop_pre own (HCast uid dst src) w \<longleftrightarrow> dst \<noteq> src \<and> \<not> tracked (hw_vars w dst) \<and> (tracked (hw_vars w src) \<longrightarrow> intact w)
     \<and> few (insert dst (live_handles w))"
| "hop_pre own (HMove dst src) w \<longleftrightarrow> dst \<noteq> src \<and> \<not> tracked (hw_vars w dst)"
| "hop_pre own (HCopyAssign dst src) w \<longleftrightarrow> dst \<notin> own \<and> intact w \<and> few (insert dst (live_handles w))"
| "hop_pre own (HMoveAssign dst src) w \<longleftrightarrow> dst \<notin> own"
| "hop_pre own (HDestroy v) w \<longleftrightarrow> v \<notin> own"
| "hop_pre own (HNew v d p mem exposed) w \<longleftrightarrow> \<not> tracked (hw_vars w v) \<and> ps_alive (hw_store w) \<and> few (insert v (live_handles w))"
| "hop_pre own (HOther v b) w \<longleftrightarrow> \<not> tracked (hw_vars w v) \<and> \<not> tracked b"
| "hop_pre own HStopPrototypes w \<longleftrightarrow> True"
| "hop_pre own HRegistryGone w \<longleftrightarrow> ps_alive (hw_store w)"

inductive handles_reachable :: "nat set \<Rightarrow> lifecycle \<Rightarrow> nat option \<Rightarrow> hworld \<Rightarrow> bool" for own lc lim where
  init: "m_proto m = ps_init \<Longrightarrow> handles_reachable own lc lim \<lparr>hw_vars = (\<lambda>_. empty_bean), hw_m = m\<rparr>"
| step: "handles_reachable own lc lim w \<Longrightarrow> hop_pre own h w \<Longrightarrow> hop_exec lc lim h w = Some w' \<Longrightarrow>
    handles_reachable own lc lim w'"

lemma hw_inv_intact:
  assumes "hw_inv False {} {} w" "intact w" shows "hw_inv True {} {} w"
proof -
  obtain g where g: "ps_rel (hw_store w) g" "\<And>y. slot_ok False {} {} w y (g y)" and fin: "few (live_handles w)"
    using assms(1) by (auto simp: hw_inv_def)
  have "slot_ok True {} {} w y (g y)" for y
  proof (cases "(False, {} :: nat set, {} :: nat set, w, y, g y)" rule: slot_ok.cases)
    case (3 i L D w' x n d m)
    then have n: "card (refs {} w y) = n" "0 < n" using g(2) [of y] ps_relD(6) [OF g(1), of y n d m] by auto
    then have "refs {} w y \<noteq> {}" by auto
    then obtain v where "tracked (hw_vars w v)" "b_slot (hw_vars w v) = y" by (auto simp: refs_def)
    then have "m \<noteq> None" using assms(2) ps_relD(4) [OF g(1), of y] 3 by (auto simp: intact_def)
    then show ?thesis using g(2) [of y] 3 by auto
  qed (use g(2) [of y] in auto)
  then show ?thesis using g(1) fin by (intro hw_invI [of _ g]) auto
qed

lemma hw_inv_weaken: "hw_inv i L D w \<Longrightarrow> hw_inv False L D w"
proof -
  have "slot_ok i L D w y e \<Longrightarrow> slot_ok False L D w y e" for y e
    by (cases "(i, L, D, w, y, e)" rule: slot_ok.cases) auto
  then show "hw_inv i L D w \<Longrightarrow> hw_inv False L D w" unfolding hw_inv_def by blast
qed

lemma copyAssign_ok:
  assumes keeps: "keeps_handles own lc" and inv: "hw_inv True {} {} w" and dst: "dst \<notin> own" and few: "few (insert dst (live_handles w))"
  shows "\<exists>w'. copyAssign lc dst src w = Some w' \<and> hw_inv True {} {} w'"
proof (cases "dst = src")
  case True
  then show ?thesis using inv by (simp add: copyAssign_def)
next
  case False
  obtain w1 where w1: "releaseVar lc dst w = Some w1" "hw_inv True {dst} {} w1" "hw_vars w1 dst = hw_vars w dst"
    using releaseVar_ok [OF keeps inv, of dst] dst by auto
  have "few (insert dst (live_handles w1))"
  proof (cases "tracked (hw_vars w dst)")
    case True
    then have "insert dst (live_handles w1) = live_handles w1" using w1(3) by (auto simp: live_handles_def)
    then show ?thesis using w1(2) by (simp add: hw_inv_def)
  next
    case False
    then show ?thesis using w1(1) few by (simp add: releaseVar_def)
  qed
  from copy_ok [OF w1(2) _ _ _ _ _ this, of src] show ?thesis using False w1(1) by (auto simp: copyAssign_def)
qed

lemma hop_ok:
  assumes keeps: "keeps_handles own lc" and inv: "hw_inv False {} {} w" and pre: "hop_pre own h w"
  shows "(\<exists>w'. hop_exec lc lim h w = Some w' \<and> hw_inv False {} {} w')
    \<or> (hop_exec lc lim h w = None \<and> ps_slotCount (hw_store w) = 65536 \<and> (\<exists>v d p mem exposed. h = HNew v d p mem exposed))"
proof (cases h)
  case (HCopy dst src)
  have "\<exists>i. hw_inv i {} {} w \<and> (tracked (hw_vars w src) \<longrightarrow> i)" using inv hw_inv_intact [OF inv] pre HCopy by auto
  then obtain i where i: "hw_inv i {} {} w" "tracked (hw_vars w src) \<longrightarrow> i" by blast
  have "hw_inv i {dst} {} w" using hw_inv_limbo [OF i(1)] pre HCopy by simp
  from copy_ok [OF this _ _ _ _ i(2)] show ?thesis using pre HCopy hw_inv_weaken by auto
next
  case (HCast uid dst src)
  have "\<exists>i. hw_inv i {} {} w \<and> (tracked (hw_vars w src) \<longrightarrow> i)" using inv hw_inv_intact [OF inv] pre HCast by auto
  then obtain i where i: "hw_inv i {} {} w" "tracked (hw_vars w src) \<longrightarrow> i" by blast
  have limbo: "hw_inv i {dst} {} w" using hw_inv_limbo [OF i(1)] pre HCast by simp
  show ?thesis
  proof (cases "bean_cast (m_reg (hw_m w)) uid (hw_vars w src)")
    case (Inl e)
    then show ?thesis using HCast inv by (simp add: castConstruct_def)
  next
    case (Inr b)
    have "\<exists>w'. retainInto dst b w = Some w' \<and> hw_inv i {} {} w'"
      by (rule retainInto_ok [OF limbo _ _ _ cast_tracked [OF Inr] i(2)]) (use pre HCast in auto)
    then show ?thesis using HCast Inr hw_inv_weaken by (auto simp: castConstruct_def)
  qed
next
  case (HMove dst src)
  have "hw_inv False {dst} {} w" using hw_inv_limbo [OF inv] pre HMove by simp
  from move_ok [OF this, of src] show ?thesis using pre HMove by auto
next
  case (HCopyAssign dst src)
  then show ?thesis using copyAssign_ok [OF keeps hw_inv_intact [OF inv], of dst src] pre hw_inv_weaken by auto
next
  case (HMoveAssign dst src)
  obtain w1 where w1: "releaseVar lc dst w = Some w1" "hw_inv False {dst} {} w1"
    using releaseVar_ok [OF keeps inv, of dst] pre HMoveAssign by auto
  show ?thesis using move_ok [OF w1(2), of src] w1(1) inv HMoveAssign by (auto simp: moveAssign_def)
next
  case (HDestroy v)
  obtain w1 where w1: "releaseVar lc v w = Some w1" "hw_inv False {v} {} w1"
    using releaseVar_ok [OF keeps inv, of v] pre HDestroy by auto
  show ?thesis using hw_inv_set [OF w1(2), of empty_bean] w1(1) HDestroy by (simp add: destroyHandle_def)
next
  case (HNew v d p mem exposed)
  have "hw_inv False {v} {} w" using hw_inv_limbo [OF inv] pre HNew by simp
  from new_ok [OF this, of lim d p mem exposed] show ?thesis using pre HNew inv by auto
next
  case (HOther v b)
  have "hw_inv False {v} {} w" using hw_inv_limbo [OF inv] pre HOther by simp
  then show ?thesis using hw_inv_set [of False v "{}" "{}" w b] pre HOther by simp
next
  case HStopPrototypes
  then show ?thesis using destroyPrototypes_ok [OF keeps inv] by auto
next
  case HRegistryGone
  obtain g where g: "ps_rel (hw_store w) g" "\<And>y. slot_ok False {} {} w y (g y)" and fin: "few (live_handles w)"
    using inv by (auto simp: hw_inv_def)
  have "hw_inv False {} {} (hw_put (ps_markRegistryDeadAndReleaseHold (hw_store w)) w)"
    using rel_tryDelete [OF g(1)] pre HRegistryGone g(2) fin by (intro hw_invI [of _ g]) auto
  then show ?thesis using HRegistryGone by simp
qed

lemma handles_reachable_inv:
  assumes "handles_reachable own lc lim w" "keeps_handles own lc" shows "hw_inv False {} {} w"
  using assms(1)
proof induction
  case (init m)
  have "ps_rel ps_init Map.empty" by (rule ps_client_rel [OF cl_init])
  then show ?case using init by (intro hw_invI [of _ Map.empty]) (auto simp: refs_def live_handles_def few_def)
next
  case (step w h w')
  then show ?case using hop_ok [OF assms(2) step.IH, of h lim] by auto
qed


text \<open>
  The destruction of beans with handles as members satisfies the hypothesis, to any depth of the
  dependency hierarchy: destroying an instance of level \<open>n\<close> destroys its member handles one after the
  other, and these refer to beans of lower levels, with members of their own.
\<close>

fun destroyMembers :: "lifecycle \<Rightarrow> nat list \<Rightarrow> hworld \<Rightarrow> hworld option" where
  "destroyMembers lc [] w = Some w"
| "destroyMembers lc (v # vs) w = (case destroyHandle lc v w of None \<Rightarrow> None | Some w1 \<Rightarrow> destroyMembers lc vs w1)"

primrec membersLifecycle :: "(nat \<Rightarrow> DescriptorId \<Rightarrow> ptr \<Rightarrow> nat list) \<Rightarrow> nat \<Rightarrow> lifecycle" where
  "membersLifecycle members 0 = (\<lambda>d p w. Some w)"
| "membersLifecycle members (Suc n) = (\<lambda>d p. destroyMembers (membersLifecycle members n) (members n d p))"

lemma destroyMembers_ok:
  assumes lc: "keeps_handles below lc" and L: "L \<inter> (level \<union> below) = {}" "level \<inter> below = {}" and vs: "set vs \<subseteq> level"
    and inv: "hw_inv i L D w"
  shows "\<exists>w'. destroyMembers lc vs w = Some w' \<and> hw_inv i L D w' \<and> (\<forall>u \<in> L. hw_vars w' u = hw_vars w u)"
  using vs inv
proof (induction vs arbitrary: w)
  case Nil
  then show ?case by simp
next
  case (Cons v vs)
  have v: "v \<notin> L" "insert v L \<inter> below = {}" using L Cons.prems(1) by auto
  from releaseVar_ok [OF lc Cons.prems(2) v] obtain w1 where w1: "releaseVar lc v w = Some w1"
      "hw_inv i (insert v L) D w1" "\<forall>u \<in> insert v L. hw_vars w1 u = hw_vars w u" by blast
  have "hw_inv i L D (hw_set v empty_bean w1)" using hw_inv_set [OF w1(2) v(1), of empty_bean] by simp
  from Cons.IH [OF _ this] Cons.prems(1) show ?case using w1 v by (auto simp: destroyHandle_def)
qed

lemma membersLifecycle_keeps:
  assumes "\<And>n d p. set (members n d p) \<subseteq> own n" "\<And>n m. n \<noteq> m \<Longrightarrow> own n \<inter> own m = {}"
  shows "keeps_handles (\<Union>m<n. own m) (membersLifecycle members n)"
proof (induction n)
  case 0
  then show ?case by (simp add: keeps_handles_def)
next
  case (Suc n)
  have "own n \<inter> own m = {}" if "m < n" for m using assms(2) [of n m] that by simp
  then have "own n \<inter> (\<Union>m<n. own m) = {}" by blast
  note step = destroyMembers_ok [OF Suc.IH _ this assms(1)]
  have un: "(\<Union>m<Suc n. own m) = own n \<union> (\<Union>m<n. own m)" by (simp add: lessThan_Suc)
  show ?case unfolding keeps_handles_def un
    by (intro allI impI, unfold membersLifecycle.simps) (rule step)
qed

text \<open>A bean at address 100 that holds the handle variable 50 as a member.\<close>

definition sample_lifecycle :: lifecycle where
  "sample_lifecycle = membersLifecycle (\<lambda>n d p. if n = 0 \<and> p = 100 then [50] else []) 1"

lemma sample_lifecycle_keeps: "keeps_handles {50} sample_lifecycle"
proof -
  have "keeps_handles (\<Union>m<(1::nat). if m = 0 then {50} else {}) sample_lifecycle"
    unfolding sample_lifecycle_def by (rule membersLifecycle_keeps [where own = "\<lambda>m. if m = 0 then {50} else {}"]) auto
  then show ?thesis by (simp add: lessThan_Suc)
qed


end
