(* ===== verification/Reflection.thy ===== *)
theory Reflection
  imports Descriptor_Table
begin

text \<open>
  The compile-time side of a bean: what \<open>std::meta\<close> reports of a user program as data, the annotations
  (\<^verbatim>\<open>api/ctr/Markers.hpp\<close>), and \<^verbatim>\<open>IdentityGen.hpp\<close>: qualified names, the FNV-1a identities and the scan of
  the annotations of an entity. A compile-time error is \<open>None\<close>.
\<close>

unbundle bit_operations_syntax

subsection \<open>Reflected programs\<close>

text \<open>A null name of \<open>named\<close> and \<open>scoped\<close> is \<open>None\<close>.\<close>

datatype annotation =
    AnnSingleton int bool | AnnPrototype int | AnnSession int | AnnThreadLocal int
  | AnnNamed "string option" | AnnScoped "string option" | AnnFactory | AnnPostConstruct | AnnPreDestroy
  | AnnOther string

text \<open>
  An enclosing scope: a namespace (without identifier: unnamed or global), a class (with the display string
  if it is a template specialization), or something else such as a function. A type is a class, with its
  enclosing scopes from the inside out and the template it specializes, or a type that is no class.
\<close>

datatype scope = ScopeNamespace "string option" | ScopeClass "string option" "string option" | ScopeOther

datatype template = TemplBean | TemplUniquePtr | TemplOther string

datatype rtype =
    RClass string "scope list" "(template \<times> rtype list \<times> string) option"
  | ROther string

record param =
  p_type :: rtype
  p_annotations :: "annotation list"

text \<open>
  Members of a class: nested types, constructors (and whether they are special member functions),
  other special member functions, further functions, and data members.
\<close>

datatype member =
    MemType
  | MemCtor bool "param list" "annotation list"
  | MemSpecial "annotation list"
  | MemFun string rtype "param list" "annotation list"
  | MemData string "annotation list"

datatype cls = Cls (cls_type: rtype) (cls_annotations: "annotation list") (cls_bases: "base list") (cls_members: "member list")
  and base = Base (base_public: bool) (base_virtual: bool) (base_class: cls)

fun template_args :: "rtype \<Rightarrow> rtype list option" where
  "template_args (RClass i sc (Some (t, args, d))) = Some args"
| "template_args _ = None"

subsection \<open>Qualified names\<close>

definition isTemplateSpecialization :: "rtype \<Rightarrow> bool" where
  "isTemplateSpecialization t = (case template_args t of None \<Rightarrow> False | Some args \<Rightarrow> length args > 0)"

fun parentInScope :: "scope \<Rightarrow> bool" where
  "parentInScope (ScopeNamespace _) = True"
| "parentInScope (ScopeClass _ _) = True"
| "parentInScope ScopeOther = False"

text \<open>The name a scope contributes, and whether it is already fully qualified.\<close>

fun parentSegment :: "scope \<Rightarrow> string \<times> bool" where
  "parentSegment (ScopeNamespace (Some i)) = (i, False)"
| "parentSegment (ScopeClass (Some i) None) = (i, False)"
| "parentSegment (ScopeClass (Some i) (Some display)) = (display, True)"
| "parentSegment _ = ([], False)"

text \<open>First pass: total length and number of the segments.\<close>

fun countSegments :: "scope list \<Rightarrow> nat \<times> nat \<Rightarrow> nat \<times> nat" where
  "countSegments [] n = n"
| "countSegments (p # ps) (segmentLength, segmentCount) =
     (if \<not> parentInScope p then (segmentLength, segmentCount)
      else let (segment, stopAfterSegment) = parentSegment p
           in if segment = [] then (segmentLength, segmentCount)
              else let n = (segmentLength + length segment, segmentCount + 1)
                   in if stopAfterSegment then n else countSegments ps n)"

text \<open>Second pass: from the end of the buffer to its start. A write outside the buffer is an error.\<close>

fun writeChars :: "string \<Rightarrow> nat \<Rightarrow> string \<Rightarrow> string option" where
  "writeChars buffer i [] = Some buffer"
| "writeChars buffer i (c # cs) = (if i < length buffer then writeChars (buffer[i := c]) (i + 1) cs else None)"

definition writeBefore :: "string \<Rightarrow> nat \<times> string \<Rightarrow> (nat \<times> string) option" where
  "writeBefore segment s =
     (let (writeEnd, buffer) = s
      in if writeEnd < length segment then None
         else map_option (\<lambda>b. (writeEnd - length segment, b)) (writeChars buffer (writeEnd - length segment) segment))"

fun writeSegments :: "scope list \<Rightarrow> nat \<times> string \<Rightarrow> (nat \<times> string) option" where
  "writeSegments [] s = Some s"
| "writeSegments (p # ps) s =
     (if \<not> parentInScope p then Some s
      else let (segment, stopAfterSegment) = parentSegment p
           in if segment = [] then Some s
              else case (if fst s > 0 then writeBefore ''::'' s else Some s) of
                None \<Rightarrow> None
              | Some s1 \<Rightarrow>
                  (case writeBefore segment s1 of
                     None \<Rightarrow> None
                   | Some s2 \<Rightarrow> if stopAfterSegment then Some s2 else writeSegments ps s2))"

fun qualifiedNameOf :: "rtype \<Rightarrow> string option" where
  "qualifiedNameOf (ROther n) = None"
| "qualifiedNameOf (RClass identifier parents spec) =
     (if isTemplateSpecialization (RClass identifier parents spec)
      then (case spec of None \<Rightarrow> None | Some (t, args, display) \<Rightarrow> Some display)
      else (let (segmentLength, segmentCount) = countSegments parents (length identifier, 1);
                totalLength = segmentLength + (if segmentCount > 1 then (segmentCount - 1) * 2 else 0)
            in case writeBefore identifier (totalLength, replicate totalLength CHR 0x00) of
                 None \<Rightarrow> None
               | Some s \<Rightarrow> map_option snd (writeSegments parents s)))"

text \<open>Specification: the segments joined by \<open>::\<close>, outermost first.\<close>

fun enclosing :: "scope list \<Rightarrow> string list" where
  "enclosing [] = []"
| "enclosing (p # ps) =
     (if \<not> parentInScope p \<or> fst (parentSegment p) = [] then []
      else fst (parentSegment p) # (if snd (parentSegment p) then [] else enclosing ps))"

definition qualifier :: "string list \<Rightarrow> string" where
  "qualifier segs = concat (map (\<lambda>s. s @ ''::'') (rev segs))"

lemma qualifier_simps [simp]: "qualifier [] = []" "qualifier (s # ss) = qualifier ss @ s @ ''::''"
  by (simp_all add: qualifier_def)

lemma countSegments_eq:
  "countSegments ps (l, c) = (l + length (concat (enclosing ps)), c + length (enclosing ps))"
  by (induction ps "(l, c)" arbitrary: l c rule: countSegments.induct) (auto simp: Let_def split: prod.splits)

lemma writeChars_eq:
  "i + length cs \<le> length buf \<Longrightarrow> writeChars buf i cs = Some (take i buf @ cs @ drop (i + length cs) buf)"
proof (induction buf i cs rule: writeChars.induct)
  case (2 buf i c cs)
  have "i < length buf" using 2(2) by simp
  then have "take (Suc i) (buf[i := c]) = take i buf @ [c]" by (simp add: take_Suc_conv_app_nth)
  then show ?case using 2 by simp
qed simp

lemma writeBefore_eq:
  assumes "length seg \<le> n" "n \<le> length buf"
  shows "writeBefore seg (n, buf) = Some (n - length seg, take (n - length seg) buf @ seg @ drop n buf)"
  using assms by (simp add: writeBefore_def writeChars_eq)

lemma writeSegments_eq:
  assumes "length (qualifier (enclosing ps)) = n" "n \<le> length buf"
  shows "writeSegments ps (n, buf) = Some (0, qualifier (enclosing ps) @ drop n buf)"
  using assms
proof (induction ps "(n, buf)" arbitrary: n buf rule: writeSegments.induct)
  case (2 p ps n buf)
  show ?case
  proof (cases "\<not> parentInScope p \<or> fst (parentSegment p) = []")
    case True
    then show ?thesis using 2 by (auto simp: Let_def split: prod.splits)
  next
    case False
    obtain seg stop where seg: "parentSegment p = (seg, stop)" by (cases "parentSegment p")
    define rest where "rest = (if stop then [] else enclosing ps)"
    have e: "enclosing (p # ps) = seg # rest" using False by (simp add: seg rest_def)
    have n: "n = length (qualifier rest) + length seg + 2" using 2(2) unfolding e by simp
    let ?b1 = "take (n - 2) buf @ ''::'' @ drop n buf"
    have w1: "writeBefore ''::'' (n, buf) = Some (n - 2, ?b1)" using writeBefore_eq [of "''::''" n buf] n 2(3) by simp
    let ?m = "n - 2 - length seg"
    let ?b2 = "take ?m buf @ seg @ ''::'' @ drop n buf"
    have w2: "writeBefore seg (n - 2, ?b1) = Some (?m, ?b2)"
      using writeBefore_eq [of seg "n - 2" ?b1] n 2(3) by simp
    have m: "?m = length (qualifier rest)" using n by simp
    have d: "drop ?m ?b2 = seg @ ''::'' @ drop n buf" using n 2(3) by simp
    have len: "?m \<le> length ?b2" using n 2(3) by simp
    show ?thesis
    proof (cases stop)
      case True
      then have "rest = []" by (simp add: rest_def)
      then have "?m = 0" using m by simp
      then show ?thesis using False seg True w1 w2 n by (simp add: e \<open>rest = []\<close>)
    next
      case False': False
      have "writeSegments ps (?m, ?b2) = Some (0, qualifier (enclosing ps) @ drop ?m ?b2)"
        by (rule 2(1) [OF _ refl _ _ _ w2]) (use False False' seg w1 n m len in \<open>auto simp: rest_def\<close>)
      then show ?thesis using False seg False' w1 w2 n d by (simp add: e rest_def)
    qed
  qed
qed simp

lemma qualifier_length: "length (qualifier ss) = length (concat ss) + 2 * length ss"
  by (induction ss) auto

lemma qualifiedNameOf_eq:
  assumes "\<not> isTemplateSpecialization (RClass i ps spec)"
  shows "qualifiedNameOf (RClass i ps spec) = Some (qualifier (enclosing ps) @ i)"
proof -
  let ?n = "length (qualifier (enclosing ps))"
  have total: "length i + length (concat (enclosing ps)) + (if 1 + length (enclosing ps) > 1 then (1 + length (enclosing ps) - 1) * 2 else 0)
      = ?n + length i"
    by (simp add: qualifier_length)
  have w1: "writeBefore i (?n + length i, replicate (?n + length i) CHR 0x00) = Some (?n, replicate ?n CHR 0x00 @ i)"
    using writeBefore_eq [of i "?n + length i" "replicate (?n + length i) CHR 0x00"] by simp
  have w2: "writeSegments ps (?n, replicate ?n CHR 0x00 @ i) = Some (0, qualifier (enclosing ps) @ i)"
    using writeSegments_eq [OF refl, of ps "replicate ?n CHR 0x00 @ i"] by simp
  show ?thesis using assms by (simp only: qualifiedNameOf.simps if_False countSegments_eq prod.case Let_def total w1 w2
        option.case option.map snd_conv)
qed

text \<open>The name of a class that is no template specialization is the names of its enclosing
  scopes and its own, outermost first, joined by \<open>::\<close>; the two passes over the enclosing scopes agree, so
  that every write is inside the buffer and fills it exactly. The enclosing scopes end at the first one
  that is unnamed, is a template specialization or is neither a namespace nor a class.\<close>

theorem qualified_name_joins:
  assumes "\<not> isTemplateSpecialization (RClass i ps spec)"
  shows "qualifiedNameOf (RClass i ps spec) = Some (qualifier (enclosing ps) @ i)"
  by (rule qualifiedNameOf_eq [OF assms])

theorem qualified_name_joins_witness:
  "qualifiedNameOf (RClass ''A'' [ScopeClass (Some ''Outer'') None, ScopeNamespace (Some ''app''), ScopeNamespace None] None)
     = Some ''app::Outer::A''"
  using qualified_name_joins [of "''A''" "[ScopeClass (Some ''Outer'') None, ScopeNamespace (Some ''app''), ScopeNamespace None]" None]
  by (simp add: isTemplateSpecialization_def)

text \<open>Names do not tell types apart: an unnamed namespace ends the qualification, so two different
  classes of the same identifier in unnamed namespaces of different namespaces have the same qualified
  name, which is the key of the type table and of the identities.\<close>

theorem unnamed_namespaces_confused:
  "\<exists>a b. a \<noteq> b \<and> qualifiedNameOf a = Some ''Impl'' \<and> qualifiedNameOf b = Some ''Impl''"
  by (intro exI [of _ "RClass ''Impl'' [ScopeNamespace None, ScopeNamespace (Some ''audio''), ScopeNamespace None] None"]
      exI [of _ "RClass ''Impl'' [ScopeNamespace None, ScopeNamespace (Some ''video''), ScopeNamespace None] None"])
    (simp add: isTemplateSpecialization_def writeBefore_def)

subsection \<open>Identities\<close>

definition fnv_offset :: "64 word" where
  "fnv_offset = 14695981039346656037"

definition fnv1a64 :: "string \<Rightarrow> 64 word \<Rightarrow> 64 word" where
  "fnv1a64 data seed = fold (\<lambda>c hash. (hash XOR of_char c) * 1099511628211) data seed"

definition fnv1a64Byte :: "8 word \<Rightarrow> 64 word \<Rightarrow> 64 word" where
  "fnv1a64Byte b seed = (seed XOR ucast b) * 1099511628211"

fun lifetime_code :: "Lifetime \<Rightarrow> 8 word" where
  "lifetime_code Prototype = 0"
| "lifetime_code Singleton = 1"
| "lifetime_code Session = 2"
| "lifetime_code ThreadLocal = 3"

definition computeIdentityForType :: "string \<Rightarrow> string \<Rightarrow> Lifetime \<Rightarrow> Identity" where
  "computeIdentityForType typeName beanName lifetime =
     (let h = fnv1a64Byte 0 fnv_offset;
          h = fnv1a64 typeName h;
          h = fnv1a64 '';'' h;
          h = fnv1a64 beanName h;
          h = fnv1a64 '';'' h
      in unat (fnv1a64Byte (lifetime_code lifetime) h))"

definition computeIdentityForProduct :: "string \<Rightarrow> string \<Rightarrow> string \<Rightarrow> Lifetime \<Rightarrow> Identity" where
  "computeIdentityForProduct producerMethod factoryName beanName lifetime =
     (let h = fnv1a64Byte 1 fnv_offset;
          h = fnv1a64 factoryName h;
          h = fnv1a64 ''::'' h;
          h = fnv1a64 producerMethod h;
          h = fnv1a64 '';'' h;
          h = fnv1a64 beanName h;
          h = fnv1a64 '';'' h
      in unat (fnv1a64Byte (lifetime_code lifetime) h))"

definition computeIdentityForExposedType :: "string \<Rightarrow> string \<Rightarrow> string \<Rightarrow> Lifetime \<Rightarrow> Identity" where
  "computeIdentityForExposedType baseName concreteName beanName lifetime =
     (let h = fnv1a64Byte 2 fnv_offset;
          h = fnv1a64 baseName h;
          h = fnv1a64 '';'' h;
          h = fnv1a64 concreteName h;
          h = fnv1a64 '';'' h;
          h = fnv1a64 beanName h;
          h = fnv1a64 '';'' h
      in unat (fnv1a64Byte (lifetime_code lifetime) h))"

text \<open>Specification: an identity is the hash of one text, which says what the identity stands for.\<close>

datatype identity_key =
    KeyType string string Lifetime
  | KeyProduct string string string Lifetime
  | KeyExposed string string string Lifetime

fun identity_of :: "identity_key \<Rightarrow> Identity" where
  "identity_of (KeyType t n l) = computeIdentityForType t n l"
| "identity_of (KeyProduct m f n l) = computeIdentityForProduct m f n l"
| "identity_of (KeyExposed b c n l) = computeIdentityForExposedType b c n l"

definition byte :: "8 word \<Rightarrow> char" where
  "byte w = char_of (unat w)"

fun encode_key :: "identity_key \<Rightarrow> string" where
  "encode_key (KeyType t n l) = byte 0 # t @ '';'' @ n @ '';'' @ [byte (lifetime_code l)]"
| "encode_key (KeyProduct m f n l) = byte 1 # f @ ''::'' @ m @ '';'' @ n @ '';'' @ [byte (lifetime_code l)]"
| "encode_key (KeyExposed b c n l) = byte 2 # b @ '';'' @ c @ '';'' @ n @ '';'' @ [byte (lifetime_code l)]"

text \<open>Type names hold no semicolon, and a method name is an identifier.\<close>

fun key_wf :: "identity_key \<Rightarrow> bool" where
  "key_wf (KeyType t n l) \<longleftrightarrow> CHR '';'' \<notin> set t"
| "key_wf (KeyProduct m f n l) \<longleftrightarrow> CHR '';'' \<notin> set f \<and> CHR '';'' \<notin> set m \<and> CHR '':'' \<notin> set m"
| "key_wf (KeyExposed b c n l) \<longleftrightarrow> CHR '';'' \<notin> set b \<and> CHR '';'' \<notin> set c"

lemma fnv1a64_append [simp]: "fnv1a64 ys (fnv1a64 xs h) = fnv1a64 (xs @ ys) h"
  by (simp add: fnv1a64_def)

lemma fnv1a64Byte_char: "fnv1a64Byte b h = fnv1a64 [byte b] h"
proof -
  have "unat b < 256" using unsigned_less [of b] by simp
  then have "(of_char (byte b) :: nat) = unat b" by (simp add: byte_def)
  then have "(of_nat (of_char (byte b)) :: 64 word) = of_nat (unat b)" by simp
  moreover have "(of_nat (of_char (byte b)) :: 64 word) = of_char (byte b)" by (cases "byte b") simp
  ultimately have "(of_char (byte b) :: 64 word) = ucast b" by simp
  then show ?thesis by (simp add: fnv1a64_def fnv1a64Byte_def)
qed

lemma byte_eq [simp]: "byte a = byte b \<longleftrightarrow> a = b"
proof -
  have "unat a < 256" "unat b < 256" using unsigned_less [of a] unsigned_less [of b] by simp_all
  then show ?thesis by (simp add: byte_def char_of_eq_iff take_bit_eq_mod word_unat_eq_iff)
qed

lemma lifetime_code_eq [simp]: "lifetime_code a = lifetime_code b \<longleftrightarrow> a = b"
  by (cases a; cases b) simp_all

lemma split_first: "c \<notin> set xs \<Longrightarrow> c \<notin> set xs' \<Longrightarrow> xs @ c # ys = xs' @ c # ys' \<longleftrightarrow> xs = xs' \<and> ys = ys'"
proof (induction xs arbitrary: xs')
  case Nil
  then show ?case by (cases xs') auto
next
  case (Cons x xs)
  then show ?case by (cases xs') auto
qed

lemma split_last: "c \<notin> set ys \<Longrightarrow> c \<notin> set ys' \<Longrightarrow> xs @ c # ys = xs' @ c # ys' \<longleftrightarrow> xs = xs' \<and> ys = ys'"
  using split_first [of c "rev ys" "rev ys'" "rev xs" "rev xs'"] rev_is_rev_conv [of "xs @ c # ys" "xs' @ c # ys'"]
  by auto

lemma product_key_inj:
  assumes "CHR '';'' \<notin> set f" "CHR '';'' \<notin> set f'" "CHR '';'' \<notin> set m" "CHR '';'' \<notin> set m'" "CHR '':'' \<notin> set m" "CHR '':'' \<notin> set m'"
    and "f @ CHR '':'' # CHR '':'' # m @ CHR '';'' # n = f' @ CHR '':'' # CHR '':'' # m' @ CHR '';'' # n'"
  shows "f = f' \<and> m = m' \<and> n = n'"
proof -
  have "(f @ CHR '':'' # CHR '':'' # m) @ CHR '';'' # n = (f' @ CHR '':'' # CHR '':'' # m') @ CHR '';'' # n'"
    using assms(7) by simp
  then have "(f @ [CHR '':'']) @ CHR '':'' # m = (f' @ [CHR '':'']) @ CHR '':'' # m'" "n = n'"
    using assms(1-6) by (subst (asm) split_first; simp)+
  then show ?thesis using assms(5,6) by (subst (asm) split_last; simp)
qed

lemma encode_key_inj:
  assumes "key_wf k" "key_wf k'" shows "encode_key k = encode_key k' \<longleftrightarrow> k = k'"
proof (cases "\<exists>m f n l m' f' n' l'. k = KeyProduct m f n l \<and> k' = KeyProduct m' f' n' l'")
  case True
  then obtain m f n l m' f' n' l' where k: "k = KeyProduct m f n l" "k' = KeyProduct m' f' n' l'" by blast
  show ?thesis
  proof
    assume "encode_key k = encode_key k'"
    then have "f @ CHR '':'' # CHR '':'' # m @ CHR '';'' # n = f' @ CHR '':'' # CHR '':'' # m' @ CHR '';'' # n'" "l = l'"
      using k by simp_all
    moreover from this(1) have "f = f' \<and> m = m' \<and> n = n'"
      using assms k by (intro product_key_inj) simp_all
    ultimately show "k = k'" using k by simp
  qed simp
next
  case False
  then show ?thesis using assms by (cases k; cases k') (auto simp: split_first)
qed

text \<open>C40.  An identity is the FNV-1a hash of a text that determines it: the kind of the entity, its names, its
  bean name and its lifetime, hashed piece by piece, give what hashing their encoding in one piece gives,
  and two well-formed keys have the same encoding only if they are the same. So two different entities
  have the same identity only if the hash function collides.\<close>

theorem identity_determines_key:
  assumes "key_wf k" "key_wf k'"
  shows "identity_of k = unat (fnv1a64 (encode_key k) fnv_offset) \<and> (encode_key k = encode_key k' \<longleftrightarrow> k = k')"
  using encode_key_inj [OF assms]
  by (cases k) (simp_all add: computeIdentityForType_def computeIdentityForProduct_def computeIdentityForExposedType_def
      fnv1a64Byte_char Let_def)

theorem identity_determines_key_witness:
  "encode_key (KeyType ''app::A'' ''x;y'' Singleton) \<noteq> encode_key (KeyType ''app::A'' ''x'' Singleton)
   \<and> identity_of (KeyType ''app::A'' ''x;y'' Singleton) = unat (fnv1a64 (encode_key (KeyType ''app::A'' ''x;y'' Singleton)) fnv_offset)"
  using identity_determines_key [of "KeyType ''app::A'' ''x;y'' Singleton" "KeyType ''app::A'' ''x'' Singleton"] by simp

subsection \<open>Annotations of an entity\<close>

record AnnotationScan =
  an_lifetime :: Lifetime
  an_priority :: int
  an_beanName :: string
  an_lazy :: bool
  an_lifetimeConflict :: bool
  an_hasLifetimeMarker :: bool
  an_emptyNameError :: bool

definition scan_init :: AnnotationScan where
  "scan_init = \<lparr>an_lifetime = Singleton, an_priority = 0, an_beanName = [], an_lazy = True, an_lifetimeConflict = False,
     an_hasLifetimeMarker = False, an_emptyNameError = False\<rparr>"

definition scan_marker :: "Lifetime \<Rightarrow> int \<Rightarrow> AnnotationScan \<Rightarrow> AnnotationScan" where
  "scan_marker lt priority r =
     r\<lparr>an_lifetimeConflict := an_lifetimeConflict r \<or> an_hasLifetimeMarker r, an_hasLifetimeMarker := True,
       an_lifetime := lt, an_priority := priority\<rparr>"

fun scanAnnotation :: "annotation \<Rightarrow> AnnotationScan \<Rightarrow> AnnotationScan" where
  "scanAnnotation (AnnSingleton priority lazy) r = (scan_marker Singleton priority r)\<lparr>an_lazy := lazy\<rparr>"
| "scanAnnotation (AnnPrototype priority) r = scan_marker Prototype priority r"
| "scanAnnotation (AnnSession priority) r = scan_marker Session priority r"
| "scanAnnotation (AnnThreadLocal priority) r = scan_marker ThreadLocal priority r"
| "scanAnnotation (AnnNamed n) r =
     r\<lparr>an_emptyNameError := an_emptyNameError r \<or> n = None \<or> n = Some [], an_beanName := (case n of None \<Rightarrow> [] | Some s \<Rightarrow> s)\<rparr>"
| "scanAnnotation _ r = r"

definition scanAnnotations :: "annotation list \<Rightarrow> AnnotationScan" where
  "scanAnnotations anns = fold scanAnnotation anns scan_init"

text \<open>Specification: the lifetime markers and the names of a list of annotations.\<close>

fun marker_of :: "annotation \<Rightarrow> (Lifetime \<times> int \<times> bool) option" where
  "marker_of (AnnSingleton p lazy) = Some (Singleton, p, lazy)"
| "marker_of (AnnPrototype p) = Some (Prototype, p, True)"
| "marker_of (AnnSession p) = Some (Session, p, True)"
| "marker_of (AnnThreadLocal p) = Some (ThreadLocal, p, True)"
| "marker_of _ = None"

fun name_of :: "annotation \<Rightarrow> string option" where
  "name_of (AnnNamed n) = Some (case n of None \<Rightarrow> [] | Some s \<Rightarrow> s)"
| "name_of _ = None"

definition markers :: "annotation list \<Rightarrow> (Lifetime \<times> int \<times> bool) list" where
  "markers anns = List.map_filter marker_of anns"

definition ann_names :: "annotation list \<Rightarrow> string list" where
  "ann_names anns = List.map_filter name_of anns"

lemma markers_snoc [simp]: "markers [] = []" "markers (xs @ [a]) = markers xs @ (case marker_of a of None \<Rightarrow> [] | Some m \<Rightarrow> [m])"
  by (simp_all add: markers_def map_filter_def split: option.splits)

lemma ann_names_snoc [simp]: "ann_names [] = []" "ann_names (xs @ [a]) = ann_names xs @ (case name_of a of None \<Rightarrow> [] | Some m \<Rightarrow> [m])"
  by (simp_all add: ann_names_def map_filter_def split: option.splits)

lemma scanAnnotations_snoc: "scanAnnotations (xs @ [a]) = scanAnnotation a (scanAnnotations xs)"
  by (simp add: scanAnnotations_def)

lemma scan_flags:
  "an_hasLifetimeMarker (scanAnnotations anns) \<longleftrightarrow> markers anns \<noteq> []"
  "an_lifetimeConflict (scanAnnotations anns) \<longleftrightarrow> 2 \<le> length (markers anns)"
  "an_emptyNameError (scanAnnotations anns) \<longleftrightarrow> [] \<in> set (ann_names anns)"
  "an_beanName (scanAnnotations anns) = (if ann_names anns = [] then [] else last (ann_names anns))"
proof (induction anns rule: rev_induct)
  case Nil
  { case 1 show ?case by (simp add: scanAnnotations_def scan_init_def) }
  { case 2 show ?case by (simp add: scanAnnotations_def scan_init_def) }
  { case 3 show ?case by (simp add: scanAnnotations_def scan_init_def) }
  { case 4 show ?case by (simp add: scanAnnotations_def scan_init_def) }
next
  case (snoc a xs)
  have pos: "Suc 0 \<le> length ys \<longleftrightarrow> ys \<noteq> []" for ys :: "(Lifetime \<times> int \<times> bool) list" by (cases ys) auto
  { case 1 show ?case using snoc by (cases a) (auto simp: scanAnnotations_snoc scan_marker_def) }
  { case 2 show ?case using snoc by (cases a) (auto simp: scanAnnotations_snoc scan_marker_def pos) }
  { case 3 show ?case using snoc by (cases a) (auto simp: scanAnnotations_snoc scan_marker_def split: option.splits) }
  { case 4 show ?case using snoc by (cases a) (auto simp: scanAnnotations_snoc scan_marker_def split: option.splits) }
qed

lemma scan_values:
  "length (markers anns) \<le> 1 \<Longrightarrow>
   (an_lifetime (scanAnnotations anns), an_priority (scanAnnotations anns), an_lazy (scanAnnotations anns)) =
     (if markers anns = [] then (Singleton, 0, True) else hd (markers anns))"
proof (induction anns rule: rev_induct)
  case Nil
  then show ?case by (simp add: scanAnnotations_def scan_init_def)
next
  case (snoc a xs)
  then show ?case by (cases a) (auto simp: scanAnnotations_snoc scan_marker_def)
qed

text \<open>The single pass over the annotations of an entity finds what is there: it reports a conflict exactly
  for two or more lifetime markers and an empty name exactly for a \<open>named\<close> without a name; without a conflict the
  lifetime, priority and laziness are those of the marker, or the defaults of an entity without one, and
  the bean name is that of the last \<open>named\<close>.\<close>

theorem scan_annotations_exact:
  "(an_lifetimeConflict (scanAnnotations anns) \<longleftrightarrow> 2 \<le> length (markers anns))
   \<and> (an_emptyNameError (scanAnnotations anns) \<longleftrightarrow> [] \<in> set (ann_names anns))
   \<and> (an_hasLifetimeMarker (scanAnnotations anns) \<longleftrightarrow> markers anns \<noteq> [])
   \<and> an_beanName (scanAnnotations anns) = (if ann_names anns = [] then [] else last (ann_names anns))
   \<and> (\<not> an_lifetimeConflict (scanAnnotations anns) \<longrightarrow>
        (an_lifetime (scanAnnotations anns), an_priority (scanAnnotations anns), an_lazy (scanAnnotations anns)) =
          (if markers anns = [] then (Singleton, 0, True) else hd (markers anns)))"
  using scan_flags scan_values [of anns] by auto

theorem scan_annotations_exact_witness:
  "\<not> an_lifetimeConflict (scanAnnotations [AnnNamed (Some ''x''), AnnSingleton 3 False])
   \<and> an_lifetime (scanAnnotations [AnnNamed (Some ''x''), AnnSingleton 3 False]) = Singleton
   \<and> \<not> an_lazy (scanAnnotations [AnnNamed (Some ''x''), AnnSingleton 3 False])"
  using scan_annotations_exact [of "[AnnNamed (Some ''x''), AnnSingleton 3 False]"]
  by (simp add: markers_def map_filter_simps)

end
