(* ===== verification/Discovery.thy ===== *)
theory Discovery
  imports Reflection
begin

text \<open>
  Discovery (\<^verbatim>\<open>internal/Discovery.hpp\<close>): from the roots of a \<open>discover<>()\<close> call to the list of annotated types,
  factories and factory products, in declaration order.
\<close>

subsection \<open>Entities\<close>

datatype annotation_type =
    TSingleton | TPrototype | TSession | TThreadLocal | TNamed | TScoped | TFactory | TPostConstruct | TPreDestroy | TOther

fun type_of_annotation :: "annotation \<Rightarrow> annotation_type" where
  "type_of_annotation (AnnSingleton _ _) = TSingleton"
| "type_of_annotation (AnnPrototype _) = TPrototype"
| "type_of_annotation (AnnSession _) = TSession"
| "type_of_annotation (AnnThreadLocal _) = TThreadLocal"
| "type_of_annotation (AnnNamed _) = TNamed"
| "type_of_annotation (AnnScoped _) = TScoped"
| "type_of_annotation AnnFactory = TFactory"
| "type_of_annotation AnnPostConstruct = TPostConstruct"
| "type_of_annotation AnnPreDestroy = TPreDestroy"
| "type_of_annotation (AnnOther _) = TOther"

fun is_type :: "member \<Rightarrow> bool" where
  "is_type MemType = True"
| "is_type _ = False"

fun is_special_member_function :: "member \<Rightarrow> bool" where
  "is_special_member_function (MemCtor special _ _) = special"
| "is_special_member_function (MemSpecial _) = True"
| "is_special_member_function _ = False"

fun is_constructor :: "member \<Rightarrow> bool" where
  "is_constructor (MemCtor sp ps as) \<longleftrightarrow> True"
| "is_constructor _ \<longleftrightarrow> False"

fun annotations_of :: "member \<Rightarrow> annotation list" where
  "annotations_of MemType = []"
| "annotations_of (MemCtor _ _ anns) = anns"
| "annotations_of (MemSpecial anns) = anns"
| "annotations_of (MemFun _ _ _ anns) = anns"
| "annotations_of (MemData _ anns) = anns"

text \<open>What can be a root or a member of a namespace; the flags tell aliases.\<close>

datatype entity = ENamespace bool "entity list" | EClass bool cls | EOther

datatype DiscoveredEntity = EntityAnnotatedType cls | EntityFactory cls | EntityFactoryProduct member cls

subsection \<open>Enumeration\<close>

definition hasAnnotationOfType :: "annotation list \<Rightarrow> annotation_type \<Rightarrow> bool" where
  "hasAnnotationOfType anns markerType = list_ex (\<lambda>a. type_of_annotation a = markerType) anns"

definition hasLifetimeMarker :: "annotation list \<Rightarrow> bool" where
  "hasLifetimeMarker anns \<longleftrightarrow> hasAnnotationOfType anns TSingleton \<or> hasAnnotationOfType anns TPrototype
     \<or> hasAnnotationOfType anns TSession \<or> hasAnnotationOfType anns TThreadLocal"

definition is_product :: "member \<Rightarrow> bool" where
  "is_product m \<longleftrightarrow> \<not> is_type m \<and> \<not> is_special_member_function m \<and> hasLifetimeMarker (annotations_of m)"

definition classifyType :: "cls \<Rightarrow> DiscoveredEntity list \<Rightarrow> DiscoveredEntity list option" where
  "classifyType type result =
     (if hasAnnotationOfType (cls_annotations type) TFactory
      then if hasLifetimeMarker (cls_annotations type) then None
           else Some (fold (\<lambda>m result. if is_product m then result @ [EntityFactoryProduct m type] else result)
                        (cls_members type) (result @ [EntityFactory type]))
      else if hasLifetimeMarker (cls_annotations type) then Some (result @ [EntityAnnotatedType type])
      else Some result)"

text \<open>The loop over the members of a namespace descends into nested namespaces.\<close>

fun processMembers :: "entity list \<Rightarrow> DiscoveredEntity list \<Rightarrow> DiscoveredEntity list option" where
  "processMembers [] result = Some result"
| "processMembers (ENamespace is_alias ms # es) result =
     (if \<not> is_alias
      then case processMembers ms result of None \<Rightarrow> None | Some result' \<Rightarrow> processMembers es result'
      else processMembers es result)"
| "processMembers (EClass is_alias c # es) result =
     (if \<not> is_alias
      then case classifyType c result of None \<Rightarrow> None | Some result' \<Rightarrow> processMembers es result'
      else processMembers es result)"
| "processMembers (EOther # es) result = processMembers es result"

fun processRoot :: "entity \<Rightarrow> DiscoveredEntity list \<Rightarrow> DiscoveredEntity list option" where
  "processRoot (ENamespace is_alias members) result = processMembers members result"
| "processRoot (EClass is_alias c) result = classifyType c result"
| "processRoot EOther result = None"

fun processRoots :: "entity list \<Rightarrow> DiscoveredEntity list \<Rightarrow> DiscoveredEntity list option" where
  "processRoots [] result = Some result"
| "processRoots (r # rs) result = (case processRoot r result of None \<Rightarrow> None | Some result' \<Rightarrow> processRoots rs result')"

definition enumerateDiscovery :: "entity list \<Rightarrow> DiscoveredEntity list option" where
  "enumerateDiscovery roots = processRoots roots []"

subsection \<open>What is discovered\<close>

text \<open>The classes in reach of a root, in declaration order.\<close>

fun classes_of :: "entity \<Rightarrow> cls list" where
  "classes_of (ENamespace is_alias es) = (if is_alias then [] else concat (map classes_of es))"
| "classes_of (EClass is_alias c) = (if is_alias then [] else [c])"
| "classes_of EOther = []"

fun root_classes :: "entity \<Rightarrow> cls list" where
  "root_classes (ENamespace is_alias es) = concat (map classes_of es)"
| "root_classes (EClass is_alias c) = [c]"
| "root_classes EOther = []"

definition rejected :: "cls \<Rightarrow> bool" where
  "rejected c \<longleftrightarrow> hasAnnotationOfType (cls_annotations c) TFactory \<and> hasLifetimeMarker (cls_annotations c)"

definition entities_of :: "cls \<Rightarrow> DiscoveredEntity list" where
  "entities_of c =
     (if hasAnnotationOfType (cls_annotations c) TFactory
      then EntityFactory c # map (\<lambda>m. EntityFactoryProduct m c) (filter is_product (cls_members c))
      else if hasLifetimeMarker (cls_annotations c) then [EntityAnnotatedType c] else [])"

definition entities :: "cls list \<Rightarrow> DiscoveredEntity list option" where
  "entities cs = (if list_ex rejected cs then None else Some (concat (map entities_of cs)))"

lemma fold_products:
  "fold (\<lambda>m result. if is_product m then result @ [EntityFactoryProduct m c] else result) ms acc =
     acc @ map (\<lambda>m. EntityFactoryProduct m c) (filter is_product ms)"
  by (induction ms arbitrary: acc) auto

lemma classify_eq: "classifyType c acc = map_option ((@) acc) (entities [c])"
  by (simp add: classifyType_def entities_def rejected_def entities_of_def fold_products)

lemma entities_append:
  "(case map_option ((@) acc) (entities as) of None \<Rightarrow> None | Some acc' \<Rightarrow> map_option ((@) acc') (entities bs))
     = map_option ((@) acc) (entities (as @ bs))"
  by (auto simp: entities_def split: option.splits)

lemma processMembers_eq: "processMembers es acc = map_option ((@) acc) (entities (concat (map classes_of es)))"
proof (induction es acc rule: processMembers.induct)
  case (1 acc)
  then show ?case by (simp add: entities_def)
next
  case (2 a ms es acc)
  show ?case
  proof (cases a)
    case True
    then show ?thesis using 2 by simp
  next
    case False
    then show ?thesis
      using 2(1) 2(2) entities_append [where acc = acc and as = "concat (map classes_of ms)" and bs = "concat (map classes_of es)"]
      by (cases "entities (concat (map classes_of ms))") simp_all
  qed
next
  case (3 a c es acc)
  show ?case
  proof (cases a)
    case True
    then show ?thesis using 3 by simp
  next
    case False
    then show ?thesis
      using 3(1) entities_append [where acc = acc and as = "[c]" and bs = "concat (map classes_of es)"]
      by (cases "entities [c]") (simp_all add: classify_eq)
  qed
qed simp

lemma processRoot_eq:
  "processRoot r acc = (if r = EOther then None else map_option ((@) acc) (entities (root_classes r)))"
  by (cases r) (simp_all add: processMembers_eq classify_eq)

lemma processRoots_eq:
  "processRoots rs acc = (if EOther \<in> set rs then None else map_option ((@) acc) (entities (concat (map root_classes rs))))"
proof (induction rs arbitrary: acc)
  case Nil
  then show ?case by (simp add: entities_def)
next
  case (Cons r rs)
  then show ?case
    using entities_append [where acc = acc and as = "root_classes r" and bs = "concat (map root_classes rs)"]
    by (cases "entities (root_classes r)") (auto simp: processRoot_eq)
qed

text \<open>C28.  Discovery finds every class of the given namespaces and their nested namespaces once per mention, in
  declaration order: an annotated type itself, a factory followed by its producer methods. It is a
  compile-time error exactly if a root is neither a namespace nor a class or a factory carries a lifetime
  marker. Classes nested in classes and aliases are not visited.\<close>

theorem discovery_exact:
  "enumerateDiscovery roots =
     (if EOther \<in> set roots \<or> list_ex rejected (concat (map root_classes roots)) then None
      else Some (concat (map entities_of (concat (map root_classes roots)))))"
  by (simp add: enumerateDiscovery_def processRoots_eq entities_def)

lemma enumerate_entities:
  "enumerateDiscovery roots = Some es \<Longrightarrow> es = concat (map entities_of (concat (map root_classes roots)))"
  by (simp add: enumerateDiscovery_def processRoots_eq entities_def split: if_splits)

end
