(* ===== verification/Member_Scan.thy ===== *)
theory Member_Scan
  imports Discovery
begin

text \<open>
  The scan of the members of a bean type (\<^verbatim>\<open>scanMembers\<close> and its helpers in \<^verbatim>\<open>DescriptorThunkGen.hpp\<close>): the
  constructor to inject, and the lifecycle hooks of the class and its public bases.
\<close>

subsection \<open>The scan\<close>

fun isBeanType :: "rtype \<Rightarrow> bool" where
  "isBeanType (RClass i sc (Some (t, args, d))) \<longleftrightarrow> length args = 1 \<and> t = TemplBean"
| "isBeanType _ \<longleftrightarrow> False"

text \<open>A hook is the reflection of a member, that is the class and the member.\<close>

type_synonym hook = "rtype \<times> member"

text \<open>The count is a local variable of \<open>scanMembers\<close>.\<close>

record MemberScan =
  msc_ctor :: "param list option"
  msc_postConstruct :: "hook list"
  msc_preDestroy :: "hook list"
  msc_compatibleConstructorConflict :: bool
  msc_compatibleConstructorCount :: nat

definition msc_init :: MemberScan where
  "msc_init = \<lparr>msc_ctor = None, msc_postConstruct = [], msc_preDestroy = [], msc_compatibleConstructorConflict = False,
     msc_compatibleConstructorCount = 0\<rparr>"

definition containsType :: "rtype list \<Rightarrow> rtype \<Rightarrow> bool" where
  "containsType types type = list_ex (\<lambda>current. current = type) types"

definition memberHasAnnotationOfType :: "member \<Rightarrow> annotation_type \<Rightarrow> bool" where
  "memberHasAnnotationOfType m t = list_ex (\<lambda>a. type_of_annotation a = t) (annotations_of m)"

definition compatible_ctor :: "param list \<Rightarrow> bool" where
  "compatible_ctor params \<longleftrightarrow> params = [] \<or> list_all (\<lambda>p. isBeanType (p_type p)) params"

definition scanHooks :: "rtype \<Rightarrow> member \<Rightarrow> MemberScan \<Rightarrow> MemberScan" where
  "scanHooks type m r =
     (if \<not> is_type m \<and> \<not> is_special_member_function m
      then (let r1 = (if memberHasAnnotationOfType m TPostConstruct
                      then r\<lparr>msc_postConstruct := msc_postConstruct r @ [(type, m)]\<rparr> else r)
            in if memberHasAnnotationOfType m TPreDestroy
               then r1\<lparr>msc_preDestroy := msc_preDestroy r1 @ [(type, m)]\<rparr> else r1)
      else r)"

definition scanCtor :: "param list \<Rightarrow> MemberScan \<Rightarrow> MemberScan" where
  "scanCtor params r =
     (if compatible_ctor params
      then (let n = msc_compatibleConstructorCount r + 1
            in r\<lparr>msc_compatibleConstructorCount := n,
                 msc_compatibleConstructorConflict := (if n \<ge> 2 then True else msc_compatibleConstructorConflict r),
                 msc_ctor := Some params\<rparr>)
      else r)"

fun scanMember :: "rtype \<Rightarrow> bool \<Rightarrow> member \<Rightarrow> MemberScan \<Rightarrow> MemberScan" where
  "scanMember type includeConstructors (MemCtor special params anns) r =
     (if includeConstructors then scanCtor params r else scanHooks type (MemCtor special params anns) r)"
| "scanMember type includeConstructors m r = scanHooks type m r"

definition scanMembersOfType :: "rtype \<Rightarrow> bool \<Rightarrow> member list \<Rightarrow> MemberScan \<Rightarrow> MemberScan" where
  "scanMembersOfType type includeConstructors members r = fold (scanMember type includeConstructors) members r"

fun scanBaseHooks :: "cls \<Rightarrow> rtype list \<times> MemberScan \<Rightarrow> rtype list \<times> MemberScan"
and scanBases :: "base list \<Rightarrow> rtype list \<times> MemberScan \<Rightarrow> rtype list \<times> MemberScan" where
  "scanBaseHooks (Cls t anns bases members) s = scanBases bases s"
| "scanBases [] s = s"
| "scanBases (Base is_public is_virtual c # bases) (visitedBaseTypes, r) =
     (if is_public \<and> \<not> containsType visitedBaseTypes (cls_type c)
      then (let (visited, r1) = scanBaseHooks c (visitedBaseTypes @ [cls_type c], r)
            in scanBases bases (visited, scanMembersOfType (cls_type c) False (cls_members c) r1))
      else scanBases bases (visitedBaseTypes, r))"

definition scanMembers :: "cls \<Rightarrow> MemberScan" where
  "scanMembers c = scanMembersOfType (cls_type c) True (cls_members c) (snd (scanBaseHooks c ([], msc_init)))"

text \<open>Both thunks run the hooks one after the other; \<open>preDestroyThunkImpl\<close> takes them in reverse.\<close>

definition postConstructHooks :: "cls \<Rightarrow> hook list" where
  "postConstructHooks c = msc_postConstruct (scanMembers c)"

definition preDestroyHooks :: "cls \<Rightarrow> hook list" where
  "preDestroyHooks c = rev (msc_preDestroy (scanMembers c))"

subsection \<open>The order of the bases\<close>

text \<open>The bases in the order in which their members are scanned, and the visited types.\<close>

fun baseOrder :: "base list \<Rightarrow> rtype list \<Rightarrow> rtype list \<times> cls list" where
  "baseOrder [] visited = (visited, [])"
| "baseOrder (Base pub virt (Cls t anns bases members) # bs) visited =
     (if pub \<and> t \<notin> set visited
      then (let (v1, cs1) = baseOrder bases (visited @ [t]); (v2, cs2) = baseOrder bs v1
            in (v2, cs1 @ Cls t anns bases members # cs2))
      else baseOrder bs visited)"

definition hooks_in :: "annotation_type \<Rightarrow> bool \<Rightarrow> cls \<Rightarrow> hook list" where
  "hooks_in ann own c = map (Pair (cls_type c))
     (filter (\<lambda>m. \<not> is_type m \<and> \<not> is_special_member_function m \<and> memberHasAnnotationOfType m ann
        \<and> (own \<longrightarrow> \<not> is_constructor m)) (cls_members c))"

lemma scanMembersOfType_hooks:
  "msc_postConstruct (scanMembersOfType (cls_type c) own (cls_members c) r) = msc_postConstruct r @ hooks_in TPostConstruct own c"
  "msc_preDestroy (scanMembersOfType (cls_type c) own (cls_members c) r) = msc_preDestroy r @ hooks_in TPreDestroy own c"
proof -
  have "msc_postConstruct (fold (scanMember t own) ms r) = msc_postConstruct r @ map (Pair t)
      (filter (\<lambda>m. \<not> is_type m \<and> \<not> is_special_member_function m \<and> memberHasAnnotationOfType m TPostConstruct
        \<and> (own \<longrightarrow> \<not> is_constructor m)) ms)
    \<and> msc_preDestroy (fold (scanMember t own) ms r) = msc_preDestroy r @ map (Pair t)
      (filter (\<lambda>m. \<not> is_type m \<and> \<not> is_special_member_function m \<and> memberHasAnnotationOfType m TPreDestroy
        \<and> (own \<longrightarrow> \<not> is_constructor m)) ms)" for t ms
  proof (induction ms arbitrary: r)
    case (Cons m ms)
    then show ?case by (cases m) (auto simp: scanHooks_def scanCtor_def Let_def)
  qed simp
  then show "msc_postConstruct (scanMembersOfType (cls_type c) own (cls_members c) r) = msc_postConstruct r @ hooks_in TPostConstruct own c"
    "msc_preDestroy (scanMembersOfType (cls_type c) own (cls_members c) r) = msc_preDestroy r @ hooks_in TPreDestroy own c"
    by (simp_all add: scanMembersOfType_def hooks_in_def)
qed

lemma containsType_eq: "containsType vs t \<longleftrightarrow> t \<in> set vs"
  by (auto simp: containsType_def list_ex_iff)

lemma scanBases_hooks:
  "scanBases bs (v, r) = (v', r') \<Longrightarrow> fst (baseOrder bs v) = v'
    \<and> msc_postConstruct r' = msc_postConstruct r @ concat (map (hooks_in TPostConstruct False) (snd (baseOrder bs v)))
    \<and> msc_preDestroy r' = msc_preDestroy r @ concat (map (hooks_in TPreDestroy False) (snd (baseOrder bs v)))"
proof (induction bs v arbitrary: r v' r' rule: baseOrder.induct)
  case (2 pub virt t anns bases members bs v)
  show ?case
  proof (cases "pub \<and> t \<notin> set v")
    case False
    then show ?thesis using 2 by (auto simp: containsType_eq)
  next
    case True
    let ?c = "Cls t anns bases members"
    obtain v1 r1 where s1: "scanBases bases (v @ [t], r) = (v1, r1)" by (cases "scanBases bases (v @ [t], r)")
    obtain v1' cs1 where o1: "baseOrder bases (v @ [t]) = (v1', cs1)" by (cases "baseOrder bases (v @ [t])")
    have h1: "v1' = v1" "msc_postConstruct r1 = msc_postConstruct r @ concat (map (hooks_in TPostConstruct False) cs1)"
      "msc_preDestroy r1 = msc_preDestroy r @ concat (map (hooks_in TPreDestroy False) cs1)"
      using 2(1) [OF True s1] o1 by auto
    obtain v2 cs2 where o2: "baseOrder bs v1 = (v2, cs2)" by (cases "baseOrder bs v1")
    have "scanBases bs (v1, scanMembersOfType t False members r1) = (v', r')"
      using 2(4) True s1 by (simp add: containsType_eq)
    from 2(2) [OF True _ _ this, of "(v1, cs1)" cs1] show ?thesis
      using True o1 o2 h1 scanMembersOfType_hooks [of ?c False r1] by auto
  qed
qed simp

lemma scanMembers_hooks:
  "postConstructHooks c = concat (map (hooks_in TPostConstruct False) (snd (baseOrder (cls_bases c) []))) @ hooks_in TPostConstruct True c"
  "preDestroyHooks c = rev (concat (map (hooks_in TPreDestroy False) (snd (baseOrder (cls_bases c) []))) @ hooks_in TPreDestroy True c)"
proof -
  obtain v r where s: "scanBases (cls_bases c) ([], msc_init) = (v, r)" by (cases "scanBases (cls_bases c) ([], msc_init)")
  then have "scanBaseHooks c ([], msc_init) = (v, r)" by (cases c) simp
  then show "postConstructHooks c = concat (map (hooks_in TPostConstruct False) (snd (baseOrder (cls_bases c) []))) @ hooks_in TPostConstruct True c"
    "preDestroyHooks c = rev (concat (map (hooks_in TPreDestroy False) (snd (baseOrder (cls_bases c) []))) @ hooks_in TPreDestroy True c)"
    using scanBases_hooks [OF s]
    by (simp_all add: postConstructHooks_def preDestroyHooks_def scanMembers_def scanMembersOfType_hooks msc_init_def)
qed

subsection \<open>Every base once, and before what is derived from it\<close>

definition public_bases :: "base list \<Rightarrow> cls set" where
  "public_bases bs = {b. \<exists>virt. Base True virt b \<in> set bs}"

definition public_base :: "cls \<Rightarrow> cls \<Rightarrow> bool" where
  "public_base b c \<longleftrightarrow> b \<in> public_bases (cls_bases c)"

text \<open>In a program, a type has one definition: reflections of the same type in a hierarchy agree.\<close>

definition one_definition :: "cls \<Rightarrow> bool" where
  "one_definition c \<longleftrightarrow> inj_on cls_type {b. public_base\<^sup>*\<^sup>* b c}"

fun ordered :: "cls set \<Rightarrow> cls list \<Rightarrow> bool" where
  "ordered E [] \<longleftrightarrow> True"
| "ordered E (a # as) \<longleftrightarrow> {b. public_base b a} \<subseteq> E \<and> ordered (insert a E) as"

lemma ordered_append: "ordered E (xs @ ys) \<longleftrightarrow> ordered E xs \<and> ordered (E \<union> set xs) ys"
  by (induction xs arbitrary: E) auto

lemma ordered_nth: "ordered E cs \<Longrightarrow> i < length cs \<Longrightarrow> public_base b (cs ! i) \<Longrightarrow> b \<in> E \<or> (\<exists>j < i. cs ! j = b)"
proof (induction cs arbitrary: E i)
  case (Cons c cs)
  show ?case
  proof (cases i)
    case 0
    then show ?thesis using Cons.prems by auto
  next
    case (Suc k)
    then have "b \<in> insert c E \<or> (\<exists>j < k. cs ! j = b)" using Cons by auto
    then show ?thesis using Suc by (metis Suc_less_eq insertE nth_Cons_0 nth_Cons_Suc zero_less_Suc)
  qed
qed simp

lemma ordered_closed: "ordered E cs \<Longrightarrow> a \<in> set cs \<Longrightarrow> public_base b a \<Longrightarrow> b \<in> E \<union> set cs"
proof -
  assume "ordered E cs" "a \<in> set cs" "public_base b a"
  moreover from this(2) obtain i where "i < length cs" "cs ! i = a" by (auto simp: in_set_conv_nth)
  ultimately show ?thesis using ordered_nth [of E cs i b] by auto
qed

lemma public_bases_Cons: "public_bases (Base p w c # bs) = (if p then insert c (public_bases bs) else public_bases bs)"
  by (auto simp: public_bases_def)

lemma base_smaller: "b \<in> public_bases bs \<Longrightarrow> size b < size_list size bs"
proof (induction bs)
  case (Cons a bs)
  then show ?case by (cases a) (auto simp: public_bases_Cons split: if_splits)
qed (simp add: public_bases_def)

lemma public_base_smaller: "public_base b c \<Longrightarrow> size b < size c"
  using base_smaller [of b "cls_bases c"] by (cases c) (simp add: public_base_def)

lemma baseOrder_ok:
  assumes U: "inj_on cls_type U" "\<And>a b. a \<in> U \<Longrightarrow> public_base b a \<Longrightarrow> b \<in> U" "public_bases bs \<subseteq> U"
    and v: "set v = cls_type ` (E \<union> P)" "E \<subseteq> U" "P \<subseteq> U"
    and closed: "\<And>a b. a \<in> E \<Longrightarrow> public_base b a \<Longrightarrow> b \<in> E"
    and P: "\<And>p b. p \<in> P \<Longrightarrow> b \<in> public_bases bs \<Longrightarrow> size b < size p"
    and run: "baseOrder bs v = (v', cs)"
  shows "set v' = cls_type ` (E \<union> set cs \<union> P) \<and> distinct cs \<and> set cs \<inter> (E \<union> P) = {} \<and> set cs \<subseteq> U
    \<and> public_bases bs \<subseteq> E \<union> set cs \<and> ordered E cs \<and> (\<forall>a \<in> set cs. \<exists>b \<in> public_bases bs. public_base\<^sup>*\<^sup>* a b)"
  using U(3) v closed P run
proof (induction bs v arbitrary: E P v' cs rule: baseOrder.induct)
  case (1 v)
  then show ?case by (simp add: public_bases_def)
next
  case (2 pub virt t anns bases members bs v)
  let ?c = "Cls t anns bases members"
  note U' = 2(4) and v = 2(5) and EU = 2(6) and PU = 2(7) and closed = 2(8) and P = 2(9) and run = 2(10)
  show ?case
  proof (cases "pub \<and> t \<notin> set v")
    case False
    then have run': "baseOrder bs v = (v', cs)" using run by auto
    have sub: "public_bases bs \<subseteq> public_bases (Base pub virt ?c # bs)" by (auto simp: public_bases_Cons)
    have ih: "set v' = cls_type ` (E \<union> set cs \<union> P) \<and> distinct cs \<and> set cs \<inter> (E \<union> P) = {} \<and> set cs \<subseteq> U
      \<and> public_bases bs \<subseteq> E \<union> set cs \<and> ordered E cs \<and> (\<forall>a \<in> set cs. \<exists>b \<in> public_bases bs. public_base\<^sup>*\<^sup>* a b)"
      by (rule 2(3) [OF False _ v EU PU closed _ run']) (use sub U' P in auto)
    have "?c \<in> E" if pub
    proof -
      have "t \<in> cls_type ` (E \<union> P)" using False that v by simp
      then obtain e where e: "e \<in> E \<union> P" "cls_type e = t" by auto
      have "?c \<in> U" using U' that by (simp add: public_bases_Cons)
      then have "e = ?c" using e EU PU inj_onD [OF U(1), of e ?c] by auto
      moreover have "?c \<notin> P" using P [of ?c ?c] that by (auto simp: public_bases_Cons)
      ultimately show "?c \<in> E" using e by auto
    qed
    then show ?thesis using ih by (auto simp: public_bases_Cons)
  next
    case True
    have cU: "?c \<in> U" using U' True by (simp add: public_bases_Cons)
    have fresh: "?c \<notin> E \<union> P" using True v by (metis UnE cls.sel(1) imageI)
    obtain v1 cs1 where o1: "baseOrder bases (v @ [t]) = (v1, cs1)" by (cases "baseOrder bases (v @ [t])")
    obtain cs2 where o2: "baseOrder bs v1 = (v', cs2)" and cs: "cs = cs1 @ ?c # cs2"
      using run True o1 by (auto split: prod.splits)
    have ih1: "set v1 = cls_type ` (E \<union> set cs1 \<union> insert ?c P) \<and> distinct cs1 \<and> set cs1 \<inter> (E \<union> insert ?c P) = {} \<and> set cs1 \<subseteq> U
      \<and> public_bases bases \<subseteq> E \<union> set cs1 \<and> ordered E cs1 \<and> (\<forall>a \<in> set cs1. \<exists>b \<in> public_bases bases. public_base\<^sup>*\<^sup>* a b)"
    proof (rule 2(1) [OF True _ _ _ _ closed _ o1])
      show "public_bases bases \<subseteq> U" using U(2) [OF cU] by (auto simp: public_base_def)
      show "set (v @ [t]) = cls_type ` (E \<union> insert ?c P)" using v by auto
      show "E \<subseteq> U" "insert ?c P \<subseteq> U" using EU PU cU by auto
      fix p b assume pb: "p \<in> insert ?c P" "b \<in> public_bases bases"
      then have "size b < size ?c" using public_base_smaller [of b ?c] by (simp add: public_base_def)
      moreover have "size ?c < size p" if "p \<in> P" using P [OF that, of ?c] True by (simp add: public_bases_Cons)
      ultimately show "size b < size p" using pb(1) by auto
    qed
    let ?E = "insert ?c (E \<union> set cs1)"
    have ih2: "set v' = cls_type ` (?E \<union> set cs2 \<union> P) \<and> distinct cs2 \<and> set cs2 \<inter> (?E \<union> P) = {} \<and> set cs2 \<subseteq> U
      \<and> public_bases bs \<subseteq> ?E \<union> set cs2 \<and> ordered ?E cs2 \<and> (\<forall>a \<in> set cs2. \<exists>b \<in> public_bases bs. public_base\<^sup>*\<^sup>* a b)"
    proof (rule 2(2) [OF True o1 [symmetric] refl _ _ _ PU _ _ o2])
      show "public_bases bs \<subseteq> U" using U' by (auto simp: public_bases_Cons split: if_splits)
      show "set v1 = cls_type ` (?E \<union> P)" using ih1 by auto
      show "?E \<subseteq> U" using EU cU ih1 by auto
      show "b \<in> ?E" if "a \<in> ?E" "public_base b a" for a b
        using that closed ih1 ordered_closed [of E cs1 a b] by (auto simp: public_base_def)
      show "size b < size p" if "p \<in> P" "b \<in> public_bases bs" for p b
        using that P by (auto simp: public_bases_Cons)
    qed
    have "ordered E cs" using ih1 ih2 by (auto simp: cs ordered_append public_base_def)
    moreover have "\<forall>a \<in> set cs. \<exists>b \<in> public_bases (Base pub virt ?c # bs). public_base\<^sup>*\<^sup>* a b"
    proof
      fix a assume "a \<in> set cs"
      then consider "a \<in> set cs1" | "a = ?c" | "a \<in> set cs2" by (auto simp: cs)
      then show "\<exists>b \<in> public_bases (Base pub virt ?c # bs). public_base\<^sup>*\<^sup>* a b"
      proof cases
        case 1
        then obtain b where "b \<in> public_bases bases" "public_base\<^sup>*\<^sup>* a b" using ih1 by blast
        then have "public_base\<^sup>*\<^sup>* a ?c" using rtranclp.rtrancl_into_rtrancl [of public_base a b ?c] by (simp add: public_base_def)
        then show ?thesis using True by (auto simp: public_bases_Cons)
      next
        case 2
        then show ?thesis using True by (auto simp: public_bases_Cons)
      next
        case 3
        then show ?thesis using True ih2 by (auto simp: public_bases_Cons)
      qed
    qed
    ultimately show ?thesis using ih1 ih2 fresh True cU by (auto simp: cs public_bases_Cons)
  qed
qed

text \<open>C27.  Hooks run over the whole hierarchy. For every class there is an order of exactly its public bases, direct and
  inherited, each of them once however often it is inherited, in which a base precedes what is derived from
  it, such that the post-construct thunk runs the hooks of the bases in this order and then those of the
  class, each class in declaration order, and the pre-destroy thunk runs them exactly in reverse.\<close>

theorem hooks_follow_hierarchy:
  assumes "one_definition c"
  shows "\<exists>order. postConstructHooks c = concat (map (hooks_in TPostConstruct False) order) @ hooks_in TPostConstruct True c
    \<and> preDestroyHooks c = rev (concat (map (hooks_in TPreDestroy False) order) @ hooks_in TPreDestroy True c)
    \<and> distinct (map cls_type order) \<and> set order = {b. public_base\<^sup>+\<^sup>+ b c}
    \<and> (\<forall>i < length order. \<forall>b. public_base b (order ! i) \<longrightarrow> (\<exists>j < i. order ! j = b))"
proof -
  let ?U = "{b. public_base\<^sup>*\<^sup>* b c}"
  obtain v cs where run: "baseOrder (cls_bases c) [] = (v, cs)" by (cases "baseOrder (cls_bases c) []")
  have ok: "distinct cs" "set cs \<subseteq> ?U" "public_bases (cls_bases c) \<subseteq> set cs" "ordered {} cs"
    "\<forall>a \<in> set cs. \<exists>b \<in> public_bases (cls_bases c). public_base\<^sup>*\<^sup>* a b"
  proof -
    have "public_base\<^sup>*\<^sup>* b c" if "public_base\<^sup>*\<^sup>* a c" "public_base b a" for a b
      using that by (rule converse_rtranclp_into_rtranclp [rotated])
    moreover have "public_bases (cls_bases c) \<subseteq> ?U" by (auto simp: public_base_def [symmetric])
    ultimately show "distinct cs" "set cs \<subseteq> ?U" "public_bases (cls_bases c) \<subseteq> set cs" "ordered {} cs"
      "\<forall>a \<in> set cs. \<exists>b \<in> public_bases (cls_bases c). public_base\<^sup>*\<^sup>* a b"
      using baseOrder_ok [of ?U "cls_bases c" "[]" "{}" "{}" v cs] assms run by (simp_all add: one_definition_def)
  qed
  have "b \<in> set cs" if "public_base\<^sup>+\<^sup>+ b c" for b
    using that
  proof (induction rule: converse_tranclp_induct)
    case (base b)
    then show ?case using ok(3) by (auto simp: public_base_def)
  next
    case (step b d)
    then show ?case using ordered_closed [OF ok(4), of d b] by simp
  qed
  moreover have "public_base\<^sup>+\<^sup>+ a c" if "a \<in> set cs" for a
    using ok(5) that by (auto simp: public_base_def [symmetric] intro: rtranclp_into_tranclp1)
  ultimately have "set cs = {b. public_base\<^sup>+\<^sup>+ b c}" by blast
  moreover have "distinct (map cls_type cs)"
    using ok(1,2) assms by (auto simp: distinct_map one_definition_def intro: inj_on_subset)
  moreover have "\<forall>i < length cs. \<forall>b. public_base b (cs ! i) \<longrightarrow> (\<exists>j < i. cs ! j = b)"
    using ordered_nth [OF ok(4)] by auto
  ultimately show ?thesis using scanMembers_hooks [of c] run by (intro exI [of _ cs]) simp
qed

text \<open>A virtual diamond in which the shared base and the class have a hook each.\<close>

definition sample_hook :: "string \<Rightarrow> member" where
  "sample_hook n = MemFun n (ROther ''void'') [] [AnnPostConstruct, AnnPreDestroy]"

definition sample_class :: "string \<Rightarrow> base list \<Rightarrow> member list \<Rightarrow> cls" where
  "sample_class n bs ms = Cls (RClass n [ScopeNamespace (Some ''app'')] None) [AnnSingleton 0 True] bs ms"

definition diamond :: cls where
  "diamond = (let v = sample_class ''V'' [] [sample_hook ''open'']
     in sample_class ''D'' [Base True False (sample_class ''A'' [Base True True v] []),
                            Base True False (sample_class ''B'' [Base True True v] [])] [sample_hook ''start''])"

lemma diamond_bases:
  "{b. public_base\<^sup>*\<^sup>* b diamond} \<subseteq> {diamond, sample_class ''A'' [Base True True (sample_class ''V'' [] [sample_hook ''open''])] [],
     sample_class ''B'' [Base True True (sample_class ''V'' [] [sample_hook ''open''])] [], sample_class ''V'' [] [sample_hook ''open'']}"
proof
  fix b assume "b \<in> {b. public_base\<^sup>*\<^sup>* b diamond}"
  then have "public_base\<^sup>*\<^sup>* b diamond" by simp
  then show "b \<in> {diamond, sample_class ''A'' [Base True True (sample_class ''V'' [] [sample_hook ''open''])] [],
     sample_class ''B'' [Base True True (sample_class ''V'' [] [sample_hook ''open''])] [], sample_class ''V'' [] [sample_hook ''open'']}"
    by (induction rule: converse_rtranclp_induct) (auto simp: diamond_def sample_class_def public_base_def public_bases_def Let_def)
qed

lemma diamond_one_definition: "one_definition diamond"
  unfolding one_definition_def
  by (rule inj_on_subset [OF _ diamond_bases]) (auto simp: inj_on_def diamond_def sample_class_def Let_def)

theorem hooks_follow_hierarchy_witness:
  "one_definition diamond \<and> map (\<lambda>h. case snd h of MemFun n r ps as \<Rightarrow> n | _ \<Rightarrow> []) (preDestroyHooks diamond) = [''start'', ''open'']
   \<and> (\<exists>order. distinct (map cls_type order) \<and> set order = {b. public_base\<^sup>+\<^sup>+ b diamond}
        \<and> postConstructHooks diamond = concat (map (hooks_in TPostConstruct False) order) @ hooks_in TPostConstruct True diamond)"
proof -
  have "map (\<lambda>h. case snd h of MemFun n r ps as \<Rightarrow> n | _ \<Rightarrow> []) (preDestroyHooks diamond) = [''start'', ''open'']"
    by (simp add: preDestroyHooks_def scanMembers_def diamond_def sample_class_def sample_hook_def scanMembersOfType_def scanHooks_def
        memberHasAnnotationOfType_def containsType_def msc_init_def Let_def)
  then show ?thesis using hooks_follow_hierarchy [OF diamond_one_definition] diamond_one_definition by blast
qed

subsection \<open>The constructor\<close>

definition compatible_ctors :: "cls \<Rightarrow> param list list" where
  "compatible_ctors c = [ps. MemCtor sp ps as \<leftarrow> cls_members c, compatible_ctor ps]"

lemma scanHooks_ctor [simp]:
  "msc_ctor (scanHooks t m r) = msc_ctor r" "msc_compatibleConstructorCount (scanHooks t m r) = msc_compatibleConstructorCount r"
  "msc_compatibleConstructorConflict (scanHooks t m r) = msc_compatibleConstructorConflict r"
  by (simp_all add: scanHooks_def Let_def)

lemma scanMembersOfType_bases [simp]:
  "msc_ctor (scanMembersOfType t False ms r) = msc_ctor r"
  "msc_compatibleConstructorCount (scanMembersOfType t False ms r) = msc_compatibleConstructorCount r"
  "msc_compatibleConstructorConflict (scanMembersOfType t False ms r) = msc_compatibleConstructorConflict r"
proof -
  have *: "msc_ctor (scanMember t False m r) = msc_ctor r" "msc_compatibleConstructorCount (scanMember t False m r) = msc_compatibleConstructorCount r"
    "msc_compatibleConstructorConflict (scanMember t False m r) = msc_compatibleConstructorConflict r" for m r
    by (cases m; simp)+
  show "msc_ctor (scanMembersOfType t False ms r) = msc_ctor r"
    "msc_compatibleConstructorCount (scanMembersOfType t False ms r) = msc_compatibleConstructorCount r"
    "msc_compatibleConstructorConflict (scanMembersOfType t False ms r) = msc_compatibleConstructorConflict r"
    unfolding scanMembersOfType_def by (induction ms arbitrary: r) (simp_all add: *)
qed

lemma scanBases_ctor:
  "msc_ctor (snd (scanBaseHooks c s)) = msc_ctor (snd s)
   \<and> msc_compatibleConstructorCount (snd (scanBaseHooks c s)) = msc_compatibleConstructorCount (snd s)
   \<and> msc_compatibleConstructorConflict (snd (scanBaseHooks c s)) = msc_compatibleConstructorConflict (snd s)"
  "msc_ctor (snd (scanBases bs s)) = msc_ctor (snd s)
   \<and> msc_compatibleConstructorCount (snd (scanBases bs s)) = msc_compatibleConstructorCount (snd s)
   \<and> msc_compatibleConstructorConflict (snd (scanBases bs s)) = msc_compatibleConstructorConflict (snd s)"
  by (induction c s and bs s rule: scanBaseHooks_scanBases.induct) (auto split: prod.splits)

lemma scan_ctor_fold:
  "msc_ctor (fold (scanMember t True) ms r) = (let ps = [ps. MemCtor sp ps as \<leftarrow> ms, compatible_ctor ps] in if ps = [] then msc_ctor r else Some (last ps))
   \<and> msc_compatibleConstructorCount (fold (scanMember t True) ms r) = msc_compatibleConstructorCount r + length [ps. MemCtor sp ps as \<leftarrow> ms, compatible_ctor ps]
   \<and> ((msc_compatibleConstructorConflict r \<longleftrightarrow> 2 \<le> msc_compatibleConstructorCount r) \<longrightarrow>
        (msc_compatibleConstructorConflict (fold (scanMember t True) ms r) \<longleftrightarrow> 2 \<le> msc_compatibleConstructorCount (fold (scanMember t True) ms r)))"
proof (induction ms arbitrary: r)
  case (Cons m ms)
  show ?case using Cons [of "scanMember t True m r"] by (cases m) (auto simp: scanCtor_def Let_def)
qed (simp add: Let_def)

text \<open>The injected constructor is the only one whose parameters are all beans; several of them are a conflict.\<close>

lemma scan_ctor:
  "msc_compatibleConstructorConflict (scanMembers c) \<longleftrightarrow> 2 \<le> length (compatible_ctors c)"
  "msc_ctor (scanMembers c) = (if compatible_ctors c = [] then None else Some (last (compatible_ctors c)))"
  using scan_ctor_fold [of "cls_type c" "cls_members c" "snd (scanBaseHooks c ([], msc_init))"] scanBases_ctor(1) [of c "([], msc_init)"]
  by (simp_all add: scanMembers_def scanMembersOfType_def compatible_ctors_def msc_init_def Let_def)

end
