(* ===== verification/Descriptor_Gen.thy ===== *)
theory Descriptor_Gen
  imports Member_Scan Registry_Start
begin

text \<open>
  The descriptors a \<open>discover<>()\<close> call contributes (\<^verbatim>\<open>DescriptorBuilderGen.hpp\<close>, \<^verbatim>\<open>ReflectiveDataGen.hpp\<close> and the
  rest of \<^verbatim>\<open>DescriptorThunkGen.hpp\<close>): for annotated types with the aliases of their bases, for factories
  and their products. A failed \<open>static_assert\<close> is \<open>None\<close>.
\<close>

subsection \<open>What the compiler knows\<close>

text \<open>Each instantiation of a thunk template is a function with an address.\<close>

datatype thunk_code =
    NoopConstruct | NoopDestroy | ConstructDefault rtype | ConstructInjected rtype "param list" | DestroyThunk rtype
  | PostConstructThunk cls | PreDestroyThunk cls
  | ConstructProduct rtype cls member | AllocProduct rtype cls member | DeallocProduct rtype

text \<open>The layout of types, their \<open>type_info\<close>, the conversions between a class and its bases, the definition of a
  class, the addresses of thunks and of static metadata.\<close>

record compiler =
  co_sizeof :: "rtype \<Rightarrow> nat"
  co_alignof :: "rtype \<Rightarrow> nat"
  co_typeid :: "rtype \<Rightarrow> type_index"
  co_upcast :: "rtype \<Rightarrow> rtype \<Rightarrow> adjust"
  co_downcast :: "rtype \<Rightarrow> rtype \<Rightarrow> adjust"
  co_class :: "rtype \<Rightarrow> cls"
  co_thunk :: "thunk_code \<Rightarrow> thunk"
  co_static :: "cls \<Rightarrow> nat"

subsection \<open>Parameters of injected functions\<close>

definition no_param_desc :: "string \<Rightarrow> type_index \<Rightarrow> param_desc" where
  "no_param_desc n t = \<lparr>pd_injectedTypeName = n, pd_injectedTypeInfo = t, pd_hasScopedAnnotation = False,
     pd_hasNamedAnnotation = False, pd_targetName = Some [], pd_scopeName = Some []\<rparr>"

fun scanParamAnnotation :: "annotation \<Rightarrow> param_desc \<Rightarrow> param_desc" where
  "scanParamAnnotation (AnnScoped n) p =
     p\<lparr>pd_hasScopedAnnotation := True, pd_scopeName := Some (case n of None \<Rightarrow> [] | Some s \<Rightarrow> s)\<rparr>"
| "scanParamAnnotation (AnnNamed n) p =
     p\<lparr>pd_hasNamedAnnotation := True, pd_targetName := Some (case n of None \<Rightarrow> [] | Some s \<Rightarrow> s)\<rparr>"
| "scanParamAnnotation _ p = p"

text \<open>The \<open>U\<close> of a parameter \<open>Bean<U>\<close>.\<close>

definition bean_arg :: "rtype \<Rightarrow> rtype option" where
  "bean_arg t = (case template_args t of Some (a # as) \<Rightarrow> Some a | _ \<Rightarrow> None)"

definition makeParamDescriptor :: "compiler \<Rightarrow> param \<Rightarrow> param_desc option" where
  "makeParamDescriptor co p =
     (case bean_arg (p_type p) of
        None \<Rightarrow> None
      | Some arg \<Rightarrow> map_option (\<lambda>n. fold scanParamAnnotation (p_annotations p) (no_param_desc n (co_typeid co arg)))
                     (qualifiedNameOf arg))"

fun makeParamDescriptors :: "compiler \<Rightarrow> param list \<Rightarrow> param_desc list option" where
  "makeParamDescriptors co [] = Some []"
| "makeParamDescriptors co (p # ps) =
     (case makeParamDescriptor co p of
        None \<Rightarrow> None
      | Some d \<Rightarrow> map_option ((#) d) (makeParamDescriptors co ps))"

subsection \<open>Annotated types\<close>

definition hasParams :: "MemberScan \<Rightarrow> bool" where
  "hasParams members = (case msc_ctor members of None \<Rightarrow> False | Some ps \<Rightarrow> length ps > 0)"

definition constructFn :: "compiler \<Rightarrow> rtype \<Rightarrow> MemberScan \<Rightarrow> thunk" where
  "constructFn co t members =
     (if hasParams members then co_thunk co (ConstructInjected t (the (msc_ctor members))) else co_thunk co (ConstructDefault t))"

definition postConstructFn :: "compiler \<Rightarrow> cls \<Rightarrow> MemberScan \<Rightarrow> thunk option" where
  "postConstructFn co c members = (if msc_postConstruct members = [] then None else Some (co_thunk co (PostConstructThunk c)))"

definition preDestroyFn :: "compiler \<Rightarrow> cls \<Rightarrow> MemberScan \<Rightarrow> thunk option" where
  "preDestroyFn co c members = (if msc_preDestroy members = [] then None else Some (co_thunk co (PreDestroyThunk c)))"

text \<open>The fields a designated initializer leaves out have their default values.\<close>

definition default_cd :: contributed where
  "default_cd = \<lparr>cd_identity = 0, cd_exposedTypeName = [], cd_concreteTypeName = [], cd_exposedTypeInfo = 0, cd_concreteTypeInfo = 0,
     cd_beanName = [], cd_priority = 0, cd_lazy = True, cd_lifetime = Prototype, cd_origin = AnnotatedType, cd_construct = 0,
     cd_destroy = 0, cd_postConstruct = None, cd_preDestroy = None, cd_size = 0, cd_align = 0,
     cd_factoryMethodIdentity = kNoFactoryMethod, cd_factoryMethodName = None, cd_allocAndConstruct = None, cd_dealloc = None,
     cd_params = [], cd_reflectiveData = None, cd_isExposedAlias = False, cd_aliasOfPrimaryIdentity = kNoFactoryMethod,
     cd_adjustToExposed = None, cd_adjustToConcrete = None\<rparr>"

definition is_method :: "member \<Rightarrow> bool" where
  "is_method m \<longleftrightarrow> \<not> is_type m \<and> \<not> is_special_member_function m \<and> \<not> is_constructor m"

text \<open>\<open>makeReflectiveData\<close> returns null for a class without methods.\<close>

definition reflectiveDataFn :: "compiler \<Rightarrow> cls \<Rightarrow> nat option" where
  "reflectiveDataFn co c = (if length (filter is_method (cls_members c)) = 0 then None else Some (co_static co c))"

definition makeDescriptorForAnnotatedType :: "compiler \<Rightarrow> bool \<Rightarrow> cls \<Rightarrow> contributed option" where
  "makeDescriptorForAnnotatedType co retainMeta c =
     (let t = cls_type c; ann = scanAnnotations (cls_annotations c); members = scanMembers c
      in if an_lifetimeConflict ann \<or> an_emptyNameError ann \<or> msc_compatibleConstructorConflict members then None
         else case qualifiedNameOf t of
           None \<Rightarrow> None
         | Some typeName \<Rightarrow>
             map_option (\<lambda>params. default_cd\<lparr>
                 cd_identity := computeIdentityForType typeName (an_beanName ann) (an_lifetime ann),
                 cd_exposedTypeName := typeName, cd_concreteTypeName := typeName,
                 cd_exposedTypeInfo := co_typeid co t, cd_concreteTypeInfo := co_typeid co t,
                 cd_beanName := an_beanName ann, cd_priority := an_priority ann, cd_lazy := an_lazy ann,
                 cd_lifetime := an_lifetime ann, cd_origin := AnnotatedType,
                 cd_construct := constructFn co t members, cd_destroy := co_thunk co (DestroyThunk t),
                 cd_postConstruct := postConstructFn co c members, cd_preDestroy := preDestroyFn co c members,
                 cd_size := co_sizeof co t, cd_align := co_alignof co t, cd_factoryMethodIdentity := kNoFactoryMethod,
                 cd_params := params,
                 cd_reflectiveData := (if retainMeta then reflectiveDataFn co c else None)\<rparr>)
               (if hasParams members then makeParamDescriptors co (the (msc_ctor members)) else Some []))"

text \<open>One alias for every direct public base.\<close>

definition makeExposedDescriptor :: "compiler \<Rightarrow> cls \<Rightarrow> string \<Rightarrow> base \<Rightarrow> contributed option" where
  "makeExposedDescriptor co c concreteName b =
     (let t = cls_type c; bt = cls_type (base_class b); ann = scanAnnotations (cls_annotations c)
      in map_option (\<lambda>baseName. default_cd\<lparr>
           cd_identity := computeIdentityForExposedType baseName concreteName (an_beanName ann) (an_lifetime ann),
           cd_exposedTypeName := baseName, cd_concreteTypeName := concreteName,
           cd_exposedTypeInfo := co_typeid co bt, cd_concreteTypeInfo := co_typeid co t,
           cd_beanName := an_beanName ann, cd_priority := an_priority ann, cd_lazy := an_lazy ann,
           cd_lifetime := an_lifetime ann, cd_origin := AnnotatedType,
           cd_construct := co_thunk co NoopConstruct, cd_destroy := co_thunk co NoopDestroy,
           cd_postConstruct := None, cd_preDestroy := None, cd_size := 0, cd_align := 1,
           cd_factoryMethodIdentity := kNoFactoryMethod, cd_isExposedAlias := True,
           cd_aliasOfPrimaryIdentity := computeIdentityForType concreteName (an_beanName ann) (an_lifetime ann),
           cd_adjustToExposed := Some (co_upcast co t bt),
           cd_adjustToConcrete := (if base_virtual b then None else Some (co_downcast co t bt))\<rparr>)
         (qualifiedNameOf bt))"

fun makeExposedLoop :: "compiler \<Rightarrow> cls \<Rightarrow> string \<Rightarrow> base list \<Rightarrow> contributed list \<Rightarrow> contributed list option" where
  "makeExposedLoop co c concreteName [] result = Some result"
| "makeExposedLoop co c concreteName (b # bs) result =
     (if base_public b
      then (case makeExposedDescriptor co c concreteName b of
              None \<Rightarrow> None
            | Some cd \<Rightarrow> makeExposedLoop co c concreteName bs (result @ [cd]))
      else makeExposedLoop co c concreteName bs result)"

definition makeExposedDescriptors :: "compiler \<Rightarrow> cls \<Rightarrow> contributed list \<Rightarrow> contributed list option" where
  "makeExposedDescriptors co c result =
     (case qualifiedNameOf (cls_type c) of
        None \<Rightarrow> None
      | Some concreteName \<Rightarrow> makeExposedLoop co c concreteName (cls_bases c) result)"

subsection \<open>Factories and products\<close>

definition makeDescriptorForFactory :: "compiler \<Rightarrow> cls \<Rightarrow> contributed option" where
  "makeDescriptorForFactory co c =
     (let t = cls_type c; members = scanMembers c
      in if msc_compatibleConstructorConflict members then None
         else map_option (\<lambda>typeName. default_cd\<lparr>
                cd_identity := computeIdentityForType typeName [] Singleton,
                cd_exposedTypeName := typeName, cd_concreteTypeName := typeName,
                cd_exposedTypeInfo := co_typeid co t, cd_concreteTypeInfo := co_typeid co t,
                cd_beanName := [], cd_priority := 0, cd_lifetime := Singleton, cd_origin := AnnotatedType,
                cd_construct := constructFn co t members, cd_destroy := co_thunk co (DestroyThunk t),
                cd_postConstruct := postConstructFn co c members, cd_preDestroy := preDestroyFn co c members,
                cd_size := co_sizeof co t, cd_align := co_alignof co t, cd_factoryMethodIdentity := kNoFactoryMethod\<rparr>)
              (qualifiedNameOf t))"

fun isUniquePtrType :: "rtype \<Rightarrow> bool" where
  "isUniquePtrType (RClass i sc (Some (t, args, d))) \<longleftrightarrow> args \<noteq> [] \<and> t = TemplUniquePtr"
| "isUniquePtrType _ \<longleftrightarrow> False"

definition unwrapUniquePtr :: "rtype \<Rightarrow> rtype" where
  "unwrapUniquePtr t = (if isUniquePtrType t then (case template_args t of Some (a # as) \<Rightarrow> a | _ \<Rightarrow> t) else t)"

definition scanMembersIfBean :: "cls \<Rightarrow> bool \<Rightarrow> MemberScan" where
  "scanMembersIfBean c isBean = (if isBean then scanMembers c else msc_init)"

fun makeDescriptorForProduct :: "compiler \<Rightarrow> member \<Rightarrow> cls \<Rightarrow> contributed option" where
  "makeDescriptorForProduct co (MemFun method rawReturn ps anns) factory =
     (let t = unwrapUniquePtr rawReturn; c = co_class co t;
          ann = scanAnnotations anns; productAnn = scanAnnotations (cls_annotations c);
          members = scanMembersIfBean c (an_hasLifetimeMarker productAnn);
          m = MemFun method rawReturn ps anns
      in if an_lifetimeConflict ann \<or> an_emptyNameError ann then None
         else case (qualifiedNameOf t, qualifiedNameOf (cls_type factory)) of
           (Some productName, Some factoryName) \<Rightarrow> Some (default_cd\<lparr>
                cd_identity := computeIdentityForProduct method factoryName (an_beanName ann) (an_lifetime ann),
                cd_exposedTypeName := productName, cd_concreteTypeName := productName,
                cd_exposedTypeInfo := co_typeid co t, cd_concreteTypeInfo := co_typeid co t,
                cd_beanName := an_beanName ann, cd_priority := an_priority ann, cd_lifetime := an_lifetime ann,
                cd_origin := FactoryProduct,
                cd_construct := (if isUniquePtrType rawReturn then co_thunk co NoopConstruct else co_thunk co (ConstructProduct t factory m)),
                cd_destroy := co_thunk co (DestroyThunk t),
                cd_postConstruct := (if an_hasLifetimeMarker productAnn then postConstructFn co c members else None),
                cd_preDestroy := (if an_hasLifetimeMarker productAnn then preDestroyFn co c members else None),
                cd_size := co_sizeof co t, cd_align := co_alignof co t,
                cd_factoryMethodIdentity := computeIdentityForType factoryName [] Singleton,
                cd_factoryMethodName := Some method,
                cd_allocAndConstruct := (if isUniquePtrType rawReturn then Some (co_thunk co (AllocProduct t factory m)) else None),
                cd_dealloc := (if isUniquePtrType rawReturn then Some (co_thunk co (DeallocProduct t)) else None)\<rparr>)
         | _ \<Rightarrow> None)"
| "makeDescriptorForProduct co _ factory = None"

subsection \<open>All descriptors\<close>

definition makeDescriptors :: "compiler \<Rightarrow> bool \<Rightarrow> DiscoveredEntity \<Rightarrow> contributed list \<Rightarrow> contributed list option" where
  "makeDescriptors co retainMeta e result =
     (case e of
        EntityAnnotatedType c \<Rightarrow>
          (case makeDescriptorForAnnotatedType co retainMeta c of
             None \<Rightarrow> None | Some cd \<Rightarrow> makeExposedDescriptors co c (result @ [cd]))
      | EntityFactory c \<Rightarrow> map_option (\<lambda>cd. result @ [cd]) (makeDescriptorForFactory co c)
      | EntityFactoryProduct m c \<Rightarrow> map_option (\<lambda>cd. result @ [cd]) (makeDescriptorForProduct co m c))"

fun makeDescriptorsLoop :: "compiler \<Rightarrow> bool \<Rightarrow> DiscoveredEntity list \<Rightarrow> contributed list \<Rightarrow> contributed list option" where
  "makeDescriptorsLoop co retainMeta [] result = Some result"
| "makeDescriptorsLoop co retainMeta (e # es) result =
     (case makeDescriptors co retainMeta e result of
        None \<Rightarrow> None | Some result' \<Rightarrow> makeDescriptorsLoop co retainMeta es result')"

definition makeAllDescriptors :: "compiler \<Rightarrow> bool \<Rightarrow> entity list \<Rightarrow> contributed list option" where
  "makeAllDescriptors co retainMeta roots =
     (case enumerateDiscovery roots of None \<Rightarrow> None | Some es \<Rightarrow> makeDescriptorsLoop co retainMeta es [])"

text \<open>\<open>submitDiscoveryContribution\<close>: the registry may already be started.\<close>

definition submitDiscoveryContribution :: "compiler \<Rightarrow> bool \<Rightarrow> entity list \<Rightarrow> registry \<Rightarrow> (ctr_error + registry) option" where
  "submitDiscoveryContribution co retainAllMetadata roots r =
     map_option (submitContribution r) (makeAllDescriptors co retainAllMetadata roots)"

subsection \<open>Contributions are closed under their links\<close>

text \<open>What the entries of one contribution refer to is in the same contribution.\<close>

definition alias_linked :: "contributed list \<Rightarrow> contributed \<Rightarrow> bool" where
  "alias_linked cds cd \<longleftrightarrow> (\<exists>p \<in> set cds. \<not> cd_isExposedAlias p \<and> cd_identity p = cd_aliasOfPrimaryIdentity cd
     \<and> cd_concreteTypeName p = cd_concreteTypeName cd \<and> cd_beanName p = cd_beanName cd
     \<and> cd_lifetime p = cd_lifetime cd \<and> cd_priority p = cd_priority cd)"

definition product_linked :: "contributed list \<Rightarrow> contributed \<Rightarrow> bool" where
  "product_linked cds cd \<longleftrightarrow> (\<exists>f \<in> set cds. \<not> cd_isExposedAlias f \<and> cd_identity f = cd_factoryMethodIdentity cd
     \<and> cd_lifetime f = Singleton \<and> cd_beanName f = [])"

definition closed_contribution :: "contributed list \<Rightarrow> bool" where
  "closed_contribution cds \<longleftrightarrow> (\<forall>cd \<in> set cds. (cd_isExposedAlias cd \<longrightarrow> alias_linked cds cd)
     \<and> (cd_factoryMethodIdentity cd \<noteq> kNoFactoryMethod \<longrightarrow> product_linked cds cd))"

lemma linked_mono:
  "set as \<subseteq> set bs \<Longrightarrow> alias_linked as cd \<Longrightarrow> alias_linked bs cd"
  "set as \<subseteq> set bs \<Longrightarrow> product_linked as cd \<Longrightarrow> product_linked bs cd"
  unfolding alias_linked_def product_linked_def by blast+

lemma closed_append:
  assumes "closed_contribution as"
    and "\<And>cd. cd \<in> set bs \<Longrightarrow> (cd_isExposedAlias cd \<longrightarrow> alias_linked (as @ bs) cd)
        \<and> (cd_factoryMethodIdentity cd \<noteq> kNoFactoryMethod \<longrightarrow> product_linked (as @ bs) cd)"
  shows "closed_contribution (as @ bs)"
  using assms linked_mono [of as "as @ bs"] by (auto simp: closed_contribution_def)

lemma annotatedType_fields:
  assumes "makeDescriptorForAnnotatedType co meta c = Some cd"
  shows "\<exists>n. qualifiedNameOf (cls_type c) = Some n \<and> cd_concreteTypeName cd = n \<and> cd_exposedTypeName cd = n
    \<and> cd_identity cd = computeIdentityForType n (an_beanName (scanAnnotations (cls_annotations c))) (an_lifetime (scanAnnotations (cls_annotations c)))
    \<and> cd_beanName cd = an_beanName (scanAnnotations (cls_annotations c)) \<and> cd_lifetime cd = an_lifetime (scanAnnotations (cls_annotations c))
    \<and> cd_priority cd = an_priority (scanAnnotations (cls_annotations c)) \<and> \<not> cd_isExposedAlias cd
    \<and> cd_factoryMethodIdentity cd = kNoFactoryMethod \<and> cd_exposedTypeInfo cd = co_typeid co (cls_type c)
    \<and> cd_concreteTypeInfo cd = co_typeid co (cls_type c) \<and> cd_adjustToExposed cd = None \<and> cd_adjustToConcrete cd = None"
  using assms by (auto simp: makeDescriptorForAnnotatedType_def Let_def default_cd_def split: if_splits option.splits)

lemma exposed_fields:
  assumes "makeExposedDescriptor co c n b = Some cd"
  shows "cd_isExposedAlias cd \<and> cd_concreteTypeName cd = n \<and> qualifiedNameOf (cls_type (base_class b)) = Some (cd_exposedTypeName cd)
    \<and> cd_aliasOfPrimaryIdentity cd = computeIdentityForType n (an_beanName (scanAnnotations (cls_annotations c))) (an_lifetime (scanAnnotations (cls_annotations c)))
    \<and> cd_beanName cd = an_beanName (scanAnnotations (cls_annotations c)) \<and> cd_lifetime cd = an_lifetime (scanAnnotations (cls_annotations c))
    \<and> cd_priority cd = an_priority (scanAnnotations (cls_annotations c)) \<and> cd_factoryMethodIdentity cd = kNoFactoryMethod
    \<and> cd_exposedTypeInfo cd = co_typeid co (cls_type (base_class b)) \<and> cd_concreteTypeInfo cd = co_typeid co (cls_type c)
    \<and> cd_adjustToExposed cd = Some (co_upcast co (cls_type c) (cls_type (base_class b)))
    \<and> cd_adjustToConcrete cd = (if base_virtual b then None else Some (co_downcast co (cls_type c) (cls_type (base_class b))))"
  using assms by (auto simp: makeExposedDescriptor_def Let_def default_cd_def)

lemma exposedLoop_fields:
  assumes "makeExposedLoop co c n bs acc = Some result"
  shows "\<exists>as. result = acc @ as \<and> (\<forall>cd \<in> set as. \<exists>b \<in> set bs. base_public b \<and> makeExposedDescriptor co c n b = Some cd)"
  using assms
proof (induction co c n bs acc arbitrary: result rule: makeExposedLoop.induct)
  case (2 co c n b bs acc)
  show ?case
  proof (cases "base_public b")
    case False
    then show ?thesis using 2 by fastforce
  next
    case True
    then obtain cd where cd: "makeExposedDescriptor co c n b = Some cd" "makeExposedLoop co c n bs (acc @ [cd]) = Some result"
      using 2(3) by (auto split: option.splits)
    from 2(1) [OF True cd] obtain as where "result = acc @ cd # as"
      "\<forall>cd \<in> set as. \<exists>b \<in> set bs. base_public b \<and> makeExposedDescriptor co c n b = Some cd" by auto
    then show ?thesis using True cd(1) by (intro exI [of _ "cd # as"]) auto
  qed
qed simp

lemma product_fields:
  assumes "makeDescriptorForProduct co m f = Some cd"
  shows "\<exists>method ret ps anns fn n. m = MemFun method ret ps anns \<and> qualifiedNameOf (cls_type f) = Some fn
    \<and> cd_factoryMethodIdentity cd = computeIdentityForType fn [] Singleton \<and> \<not> cd_isExposedAlias cd
    \<and> cd_identity cd = computeIdentityForProduct method fn (an_beanName (scanAnnotations anns)) (an_lifetime (scanAnnotations anns))
    \<and> qualifiedNameOf (unwrapUniquePtr ret) = Some n \<and> cd_exposedTypeName cd = n \<and> cd_concreteTypeName cd = n
    \<and> cd_exposedTypeInfo cd = co_typeid co (unwrapUniquePtr ret) \<and> cd_concreteTypeInfo cd = co_typeid co (unwrapUniquePtr ret)
    \<and> cd_lazy cd \<and> cd_params cd = [] \<and> cd_lifetime cd = an_lifetime (scanAnnotations anns) \<and> cd_beanName cd = an_beanName (scanAnnotations anns)"
  using assms by (cases "(co, m, f)" rule: makeDescriptorForProduct.cases)
    (auto simp: Let_def default_cd_def split: if_splits option.splits prod.splits)

lemma factory_fields:
  assumes "makeDescriptorForFactory co c = Some cd"
  shows "\<exists>n. qualifiedNameOf (cls_type c) = Some n \<and> cd_identity cd = computeIdentityForType n [] Singleton
    \<and> \<not> cd_isExposedAlias cd \<and> cd_factoryMethodIdentity cd = kNoFactoryMethod \<and> cd_lifetime cd = Singleton \<and> cd_beanName cd = []
    \<and> cd_exposedTypeName cd = n \<and> cd_concreteTypeName cd = n \<and> cd_params cd = []
    \<and> cd_exposedTypeInfo cd = co_typeid co (cls_type c) \<and> cd_concreteTypeInfo cd = co_typeid co (cls_type c)"
  using assms by (auto simp: makeDescriptorForFactory_def Let_def default_cd_def split: if_splits)

lemma makeDescriptors_extends:
  assumes "makeDescriptors co meta e acc = Some result" shows "set acc \<subseteq> set result"
  using assms by (auto simp: makeDescriptors_def makeExposedDescriptors_def split: DiscoveredEntity.splits option.splits dest: exposedLoop_fields)

lemma loop_append:
  "makeDescriptorsLoop co meta (xs @ ys) acc =
     (case makeDescriptorsLoop co meta xs acc of None \<Rightarrow> None | Some acc' \<Rightarrow> makeDescriptorsLoop co meta ys acc')"
  by (induction co meta xs acc rule: makeDescriptorsLoop.induct) (auto split: option.splits)

lemma annotatedType_closed:
  assumes "closed_contribution acc" "makeDescriptors co meta (EntityAnnotatedType c) acc = Some result"
  shows "closed_contribution result"
proof -
  obtain cd n where cd: "makeDescriptorForAnnotatedType co meta c = Some cd" "qualifiedNameOf (cls_type c) = Some n"
      "makeExposedLoop co c n (cls_bases c) (acc @ [cd]) = Some result"
    using assms(2) by (auto simp: makeDescriptors_def makeExposedDescriptors_def split: option.splits)
  obtain as where as: "result = acc @ cd # as"
      "\<forall>a \<in> set as. \<exists>b \<in> set (cls_bases c). base_public b \<and> makeExposedDescriptor co c n b = Some a"
    using exposedLoop_fields [OF cd(3)] by auto
  have "alias_linked (acc @ cd # as) a \<and> cd_factoryMethodIdentity a = kNoFactoryMethod" if "a \<in> set as" for a
    using as(2) that annotatedType_fields [OF cd(1)] cd(2) exposed_fields
    unfolding alias_linked_def by (fastforce intro: bexI [of _ cd])
  then show ?thesis unfolding as(1) using annotatedType_fields [OF cd(1)] by (intro closed_append [OF assms(1)]) auto
qed

lemma products_closed:
  assumes "makeDescriptorsLoop co meta (map (\<lambda>m. EntityFactoryProduct m c) ms) acc = Some result"
    and "closed_contribution acc" "\<exists>f \<in> set acc. makeDescriptorForFactory co c = Some f"
  shows "closed_contribution result"
  using assms
proof (induction ms arbitrary: acc)
  case (Cons m ms)
  then obtain cd where cd: "makeDescriptorForProduct co m c = Some cd"
      "makeDescriptorsLoop co meta (map (\<lambda>m. EntityFactoryProduct m c) ms) (acc @ [cd]) = Some result"
    by (auto simp: makeDescriptors_def split: option.splits)
  obtain f where f: "f \<in> set acc" "makeDescriptorForFactory co c = Some f" using Cons.prems(3) by blast
  have "product_linked (acc @ [cd]) cd \<and> \<not> cd_isExposedAlias cd"
    using product_fields [OF cd(1)] factory_fields [OF f(2)] f(1) unfolding product_linked_def by (fastforce intro: bexI [of _ f])
  then have "closed_contribution (acc @ [cd])" by (intro closed_append [OF Cons.prems(2)]) auto
  then show ?case using Cons.IH [OF cd(2)] f by auto
qed simp

lemma entities_closed:
  assumes "makeDescriptorsLoop co meta (entities_of c) acc = Some result" "closed_contribution acc"
  shows "closed_contribution result"
proof -
  have fac: "closed_contribution (acc @ [f])" if "makeDescriptorForFactory co c = Some f" for f
    using factory_fields [OF that] by (intro closed_append [OF assms(2)]) auto
  show ?thesis
    using assms fac products_closed [of co meta c _ "acc @ [f]" result for f] annotatedType_closed [OF assms(2), of co meta c]
    by (auto simp: entities_of_def makeDescriptors_def split: if_splits option.splits)
qed

lemma loop_closed:
  "makeDescriptorsLoop co meta (concat (map entities_of cs)) acc = Some result \<Longrightarrow> closed_contribution acc \<Longrightarrow> closed_contribution result"
  by (induction cs arbitrary: acc) (auto simp: loop_append entities_closed split: option.splits)

lemma generated_closed: "makeAllDescriptors co meta roots = Some cds \<Longrightarrow> closed_contribution cds"
  using loop_closed [of co meta "concat (map root_classes roots)" "[]" cds]
  by (auto simp: makeAllDescriptors_def closed_contribution_def dest!: enumerate_entities split: option.splits)

subsection \<open>What the descriptor of a product leaves out\<close>

text \<open>The descriptor of a factory product is lazy even if its producer method is marked eager, and neither a product nor a
  factory carries its parameters, so the graph validation of \<open>start()\<close> never checks them. The identity of a
  product depends on the name of its producer method but not on its parameters or return type: of two
  overloads with the same annotations, \<open>start()\<close> silently drops one if they produce the same type and fails
  with an identity collision otherwise.\<close>

theorem product_descriptor_gaps:
  assumes "makeDescriptorForProduct co (MemFun m ret ps anns) f = Some cd"
    and "makeDescriptorForProduct co (MemFun m ret' ps' anns) f = Some cd'"
    and "makeDescriptorForFactory co f = Some fcd"
  shows "cd_lazy cd \<and> cd_params cd = [] \<and> cd_params fcd = []
    \<and> merge_spec [] [cd, cd'] = (if cd_exposedTypeName cd = cd_exposedTypeName cd' then Some [cd] else None)"
  using product_fields [OF assms(1)] product_fields [OF assms(2)] factory_fields [OF assms(3)]
  by (auto simp: same_bean_def)

definition sample_compiler :: compiler where
  "sample_compiler = \<lparr>co_sizeof = (\<lambda>_. 8), co_alignof = (\<lambda>_. 8), co_typeid = (\<lambda>t. name_code (the (qualifiedNameOf t))),
     co_upcast = (\<lambda>_ _ p. p + 8), co_downcast = (\<lambda>_ _ p. p - 8), co_class = (\<lambda>t. Cls t [] [] []), co_thunk = (\<lambda>_. 1), co_static = (\<lambda>_. 0)\<rparr>"

definition app_type :: "string \<Rightarrow> rtype" where
  "app_type n = RClass n [ScopeNamespace (Some ''app''), ScopeNamespace None] None"

lemma app_type [simp]: "qualifiedNameOf (app_type n) = Some (''app::'' @ n)" "isUniquePtrType (app_type n) = False"
  "app_type n = app_type m \<longleftrightarrow> n = m"
  by (simp_all add: app_type_def qualifiedNameOf_eq isTemplateSpecialization_def del: qualifiedNameOf.simps)

lemmas gen_eval =
  makeAllDescriptors_def enumerateDiscovery_def classifyType_def hasAnnotationOfType_def hasLifetimeMarker_def is_product_def
  makeDescriptors_def makeDescriptorForAnnotatedType_def makeExposedDescriptors_def makeExposedDescriptor_def makeDescriptorForFactory_def
  scanAnnotations_def scan_init_def scan_marker_def scanMembers_def scanMembersOfType_def scanHooks_def scanCtor_def compatible_ctor_def
  memberHasAnnotationOfType_def containsType_def msc_init_def hasParams_def constructFn_def postConstructFn_def preDestroyFn_def
  scanMembersIfBean_def unwrapUniquePtr_def default_cd_def Let_def sample_compiler_def

text \<open>Two overloads of an eager producer method that make the same type.\<close>

theorem product_descriptor_gaps_witness:
  "\<exists>cd cd'. makeDescriptorForProduct sample_compiler (MemFun ''make'' (app_type ''Thing'') [] [AnnSingleton 0 False])
        (Cls (app_type ''Maker'') [AnnFactory] [] []) = Some cd
     \<and> makeDescriptorForProduct sample_compiler (MemFun ''make'' (app_type ''Thing'') [\<lparr>p_type = app_type ''A'', p_annotations = []\<rparr>] [AnnSingleton 0 False])
        (Cls (app_type ''Maker'') [AnnFactory] [] []) = Some cd'
     \<and> \<not> an_lazy (scanAnnotations [AnnSingleton 0 False]) \<and> cd_lazy cd \<and> merge_spec [] [cd, cd'] = Some [cd]"
proof -
  let ?f = "Cls (app_type ''Maker'') [AnnFactory] [] []" and ?anns = "[AnnSingleton 0 False]" and ?t = "app_type ''Thing''"
    and ?ps = "[\<lparr>p_type = app_type ''A'', p_annotations = []\<rparr>]"
  have "\<exists>cd cd' fcd. makeDescriptorForProduct sample_compiler (MemFun ''make'' ?t [] ?anns) ?f = Some cd
      \<and> makeDescriptorForProduct sample_compiler (MemFun ''make'' ?t ?ps ?anns) ?f = Some cd'
      \<and> makeDescriptorForFactory sample_compiler ?f = Some fcd \<and> cd_exposedTypeName cd = cd_exposedTypeName cd'"
    by (simp add: gen_eval)
  moreover have "\<not> an_lazy (scanAnnotations ?anns)" by (simp add: scanAnnotations_def)
  ultimately show ?thesis using product_descriptor_gaps by (metis (no_types, lifting))
qed

end
