(* ===== verification/Bean_Metadata.thy ===== *)
theory Bean_Metadata
  imports Descriptor_Gen Bean_Casts
begin

text \<open>
  Reflective metadata of beans: the static method records that \<^verbatim>\<open>ReflectiveDataGen.hpp\<close> generates, and the views
  that \<^verbatim>\<open>api/ctr/BeanMetadata.hpp\<close> gives of them.
\<close>

subsection \<open>Generation\<close>

record BeanMethodRecord =
  bmr_name :: string
  bmr_isPostConstruct :: bool
  bmr_isPreDestroy :: bool
  bmr_paramCount :: nat
  bmr_params :: "type_index list option"

record BeanReflectiveData =
  brd_methods :: "BeanMethodRecord list"
  brd_methodCount :: nat

definition retainedParameterType :: "rtype \<Rightarrow> rtype" where
  "retainedParameterType t = (if isBeanType t then (case bean_arg t of Some a \<Rightarrow> a | None \<Rightarrow> t) else t)"

definition makeMethodParameterRecords :: "compiler \<Rightarrow> param list \<Rightarrow> type_index list" where
  "makeMethodParameterRecords co ps = map (\<lambda>p. co_typeid co (retainedParameterType (p_type p))) ps"

text \<open>\<open>parameters_of\<close> throws for a data member.\<close>

fun retainedParameters :: "member \<Rightarrow> param list option" where
  "retainedParameters (MemFun _ _ ps _) = Some ps"
| "retainedParameters _ = None"

fun member_name :: "member \<Rightarrow> string" where
  "member_name (MemFun n _ _ _) = n"
| "member_name (MemData n _) = n"
| "member_name _ = []"

definition methodRecord :: "compiler \<Rightarrow> member \<Rightarrow> BeanMethodRecord" where
  "methodRecord co m =
     (let params = map_option (makeMethodParameterRecords co) (retainedParameters m)
      in \<lparr>bmr_name = member_name m, bmr_isPostConstruct = memberHasAnnotationOfType m TPostConstruct,
          bmr_isPreDestroy = memberHasAnnotationOfType m TPreDestroy,
          bmr_paramCount = (case params of None \<Rightarrow> 0 | Some ps \<Rightarrow> length ps), bmr_params = params\<rparr>)"

definition no_record :: BeanMethodRecord where
  "no_record = \<lparr>bmr_name = [], bmr_isPostConstruct = False, bmr_isPreDestroy = False, bmr_paramCount = 0, bmr_params = None\<rparr>"

text \<open>First the number of methods, then an array of that size, filled from the front.\<close>

definition countMethods :: "member list \<Rightarrow> nat" where
  "countMethods ms = fold (\<lambda>m n. if is_method m then n + 1 else n) ms 0"

fun fillRecords :: "compiler \<Rightarrow> member list \<Rightarrow> BeanMethodRecord list \<Rightarrow> nat \<Rightarrow> BeanMethodRecord list option" where
  "fillRecords co [] arr idx = Some arr"
| "fillRecords co (m # ms) arr idx =
     (if is_method m
      then if idx < length arr then fillRecords co ms (arr[idx := methodRecord co m]) (idx + 1) else None
      else fillRecords co ms arr idx)"

definition makeReflectiveData :: "compiler \<Rightarrow> cls \<Rightarrow> BeanReflectiveData option" where
  "makeReflectiveData co c =
     (let kCount = countMethods (cls_members c)
      in if kCount = 0 then None
         else map_option (\<lambda>arr. \<lparr>brd_methods = arr, brd_methodCount = kCount\<rparr>)
                (fillRecords co (cls_members c) (replicate kCount no_record) 0))"

subsection \<open>Views\<close>

text \<open>The annotation type \<open>A\<close> of the views; only the two hooks match anything.\<close>

fun hasAnnotation :: "annotation_type \<Rightarrow> BeanMethodRecord \<Rightarrow> bool" where
  "hasAnnotation TPostConstruct r = bmr_isPostConstruct r"
| "hasAnnotation TPreDestroy r = bmr_isPreDestroy r"
| "hasAnnotation _ r = False"

definition parameters :: "BeanMethodRecord \<Rightarrow> type_index list" where
  "parameters r = (case bmr_params r of None \<Rightarrow> [] | Some ps \<Rightarrow> take (bmr_paramCount r) ps)"

text \<open>The iterator of \<open>FilteredMethodsRange\<close>, an index into the array; reading past the array is an error.\<close>

function advance :: "annotation_type \<Rightarrow> BeanMethodRecord list \<Rightarrow> nat \<Rightarrow> nat \<Rightarrow> nat option" where
  "advance a arr ptr fin =
     (if ptr = fin then Some ptr
      else if ptr < length arr then (if hasAnnotation a (arr ! ptr) then Some ptr else advance a arr (ptr + 1) fin)
      else None)"
  by pat_completeness auto
termination by (relation "measure (\<lambda>(a, arr, ptr, fin). length arr - ptr)") auto

declare advance.simps [simp del]

lemma advance_ge: "advance a arr ptr fin = Some q \<Longrightarrow> ptr \<le> q"
  by (induction a arr ptr fin rule: advance.induct) (force simp: advance.simps split: if_splits)

text \<open>The range-based loop over a filtered range: the records it visits.\<close>

function visit :: "annotation_type \<Rightarrow> BeanMethodRecord list \<Rightarrow> nat \<Rightarrow> nat \<Rightarrow> BeanMethodRecord list option" where
  "visit a arr ptr fin =
     (if ptr = fin then Some []
      else if ptr < length arr
      then (case advance a arr (ptr + 1) fin of
              None \<Rightarrow> None
            | Some q \<Rightarrow> map_option ((#) (arr ! ptr)) (visit a arr q fin))
      else None)"
  by pat_completeness auto
termination
  by (relation "measure (\<lambda>(a, arr, ptr, fin). length arr - ptr)") (auto dest: advance_ge)

declare visit.simps [simp del]

definition annotatedWith :: "annotation_type \<Rightarrow> BeanReflectiveData \<Rightarrow> BeanMethodRecord list option" where
  "annotatedWith a d =
     (case advance a (brd_methods d) 0 (brd_methodCount d) of
        None \<Rightarrow> None
      | Some q \<Rightarrow> visit a (brd_methods d) q (brd_methodCount d))"

text \<open>\<open>empty()\<close> compares the iterators of \<open>begin()\<close> and \<open>end()\<close>.\<close>

definition filtered_empty :: "annotation_type \<Rightarrow> BeanReflectiveData \<Rightarrow> bool option" where
  "filtered_empty a d = map_option (\<lambda>q. q = brd_methodCount d) (advance a (brd_methods d) 0 (brd_methodCount d))"

text \<open>The accessors of \<open>BeanMetadata\<close>; \<open>statics\<close> is the static data by address, \<open>void\<close> is \<open>typeid(void)\<close>.\<close>

definition observedType :: "type_index \<Rightarrow> bean_metadata \<Rightarrow> type_index" where
  "observedType void m = (case bm_observedTypeGetter m of None \<Rightarrow> void | Some t \<Rightarrow> t)"

definition exactType :: "type_index \<Rightarrow> bean_metadata \<Rightarrow> type_index" where
  "exactType void m = (case bm_exactTypeGetter m of None \<Rightarrow> void | Some t \<Rightarrow> t)"

definition factoryMethod :: "bean_metadata \<Rightarrow> string" where
  "factoryMethod m = (case bm_factoryMethodName m of None \<Rightarrow> [] | Some n \<Rightarrow> n)"

definition methods :: "(nat \<Rightarrow> BeanReflectiveData) \<Rightarrow> bean_metadata \<Rightarrow> BeanReflectiveData" where
  "methods statics m =
     (case bm_reflective m of None \<Rightarrow> \<lparr>brd_methods = [], brd_methodCount = 0\<rparr> | Some a \<Rightarrow> statics a)"

subsection \<open>Filtered iteration is a filter\<close>

lemma advance_eq:
  "ptr \<le> length arr \<Longrightarrow> advance a arr ptr (length arr) = Some (ptr + length (takeWhile (\<lambda>r. \<not> hasAnnotation a r) (drop ptr arr)))"
proof (induction a arr ptr "length arr" rule: advance.induct)
  case (1 a arr ptr)
  show ?case
  proof (cases "ptr = length arr")
    case True
    then show ?thesis by (simp add: advance.simps)
  next
    case False
    then have lt: "ptr < length arr" using 1(2) by simp
    then have "drop ptr arr = arr ! ptr # drop (Suc ptr) arr" by (simp add: Cons_nth_drop_Suc)
    then show ?thesis using 1 False lt by (subst advance.simps) auto
  qed
qed

lemma filter_dropWhile: "filter P (dropWhile (\<lambda>x. \<not> P x) xs) = filter P xs"
  by (induction xs) auto

lemma visit_eq:
  "ptr \<le> length arr \<Longrightarrow> (ptr < length arr \<longrightarrow> hasAnnotation a (arr ! ptr)) \<Longrightarrow>
   visit a arr ptr (length arr) = Some (filter (hasAnnotation a) (drop ptr arr))"
proof (induction a arr ptr "length arr" rule: visit.induct)
  case (1 a arr ptr)
  show ?case
  proof (cases "ptr = length arr")
    case True
    then show ?thesis by (simp add: visit.simps)
  next
    case False
    then have lt: "ptr < length arr" using 1(2) by simp
    let ?w = "takeWhile (\<lambda>r. \<not> hasAnnotation a r) (drop (Suc ptr) arr)"
    let ?q = "Suc ptr + length ?w"
    have adv: "advance a arr (ptr + 1) (length arr) = Some ?q" using advance_eq [of "Suc ptr" arr a] lt by simp
    have rest: "drop ?q arr = dropWhile (\<lambda>r. \<not> hasAnnotation a r) (drop (Suc ptr) arr)"
      by (simp add: dropWhile_eq_drop add.commute)
    have "?q \<le> length arr" using length_takeWhile_le [of "\<lambda>r. \<not> hasAnnotation a r" "drop (Suc ptr) arr"] lt by simp
    moreover have "hasAnnotation a (arr ! ?q)" if "?q < length arr"
    proof -
      have "drop ?q arr \<noteq> []" using that by simp
      then have "hasAnnotation a (hd (drop ?q arr))" unfolding rest by (metis (mono_tags, lifting) hd_dropWhile)
      then show ?thesis using that by (simp add: hd_drop_conv_nth)
    qed
    ultimately have "visit a arr ?q (length arr) = Some (filter (hasAnnotation a) (drop ?q arr))"
      using 1(1) [OF False lt adv] by blast
    moreover have "drop ptr arr = arr ! ptr # drop (Suc ptr) arr" using lt by (simp add: Cons_nth_drop_Suc)
    ultimately show ?thesis using False lt adv 1(3) rest by (subst visit.simps) (simp add: filter_dropWhile)
  qed
qed

lemma annotatedWith_eq:
  assumes "brd_methodCount d = length (brd_methods d)"
  shows "annotatedWith a d = Some (filter (hasAnnotation a) (brd_methods d))"
    "filtered_empty a d = Some (filter (hasAnnotation a) (brd_methods d) = [])"
proof -
  let ?arr = "brd_methods d" and ?w = "takeWhile (\<lambda>r. \<not> hasAnnotation a r) (brd_methods d)"
  have adv: "advance a ?arr 0 (length ?arr) = Some (length ?w)" using advance_eq [of 0 ?arr a] by simp
  have le: "length ?w \<le> length ?arr" by (rule length_takeWhile_le)
  have "hasAnnotation a (?arr ! length ?w)" if "length ?w < length ?arr" using nth_length_takeWhile [OF that] by simp
  then have v: "visit a ?arr (length ?w) (length ?arr) = Some (filter (hasAnnotation a) (drop (length ?w) ?arr))"
    using visit_eq [OF le] by blast
  have "drop (length ?w) ?arr = dropWhile (\<lambda>r. \<not> hasAnnotation a r) ?arr" by (simp add: dropWhile_eq_drop)
  then have f: "filter (hasAnnotation a) (drop (length ?w) ?arr) = filter (hasAnnotation a) ?arr" by (simp add: filter_dropWhile)
  then show "annotatedWith a d = Some (filter (hasAnnotation a) ?arr)"
    using adv v by (simp add: annotatedWith_def assms)
  have "length ?w = length ?arr \<longleftrightarrow> ?w = ?arr" by (metis takeWhile_eq_take take_all order_refl)
  then have "length ?w = length ?arr \<longleftrightarrow> filter (hasAnnotation a) ?arr = []" by (auto simp: takeWhile_eq_all_conv filter_empty_conv)
  then show "filtered_empty a d = Some (filter (hasAnnotation a) ?arr = [])" using adv by (simp add: filtered_empty_def assms)
qed

subsection \<open>The records of a class\<close>

lemma countMethods_eq: "countMethods ms = length (filter is_method ms)"
proof -
  have "fold (\<lambda>m n. if is_method m then n + 1 else n) ms k = k + length (filter is_method ms)" for k
    by (induction ms arbitrary: k) auto
  then show ?thesis by (simp add: countMethods_def)
qed

lemma fillRecords_eq:
  "length arr = idx + length (filter is_method ms) \<Longrightarrow>
   fillRecords co ms arr idx = Some (take idx arr @ map (methodRecord co) (filter is_method ms))"
proof (induction co ms arr idx rule: fillRecords.induct)
  case (2 co m ms arr idx)
  then show ?case by (auto simp: take_Suc_conv_app_nth)
qed simp

lemma makeReflectiveData_eq:
  "makeReflectiveData co c =
     (let rs = map (methodRecord co) (filter is_method (cls_members c))
      in if rs = [] then None else Some \<lparr>brd_methods = rs, brd_methodCount = length rs\<rparr>)"
  using fillRecords_eq [of "replicate (countMethods (cls_members c)) no_record" 0 "cls_members c" co]
  by (auto simp: makeReflectiveData_def Let_def countMethods_eq)

lemma methodRecord_hook:
  "hasAnnotation TPostConstruct (methodRecord co m) = memberHasAnnotationOfType m TPostConstruct"
  "hasAnnotation TPreDestroy (methodRecord co m) = memberHasAnnotationOfType m TPreDestroy"
  by (simp_all add: methodRecord_def Let_def)

lemma hooks_methods: "map snd (hooks_in ann True c) = filter (\<lambda>m. memberHasAnnotationOfType m ann) (filter is_method (cls_members c))"
proof -
  have "(\<lambda>m. \<not> is_type m \<and> \<not> is_special_member_function m \<and> memberHasAnnotationOfType m ann \<and> (True \<longrightarrow> \<not> is_constructor m))
      = (\<lambda>m. is_method m \<and> memberHasAnnotationOfType m ann)"
    by (auto simp: is_method_def)
  then show ?thesis by (simp add: hooks_in_def comp_def)
qed

text \<open>Metadata shows the hooks that run. For every bean whose descriptor carries the generated metadata, the loop over
  \<open>methods().annotatedWith<A>()\<close> stays inside the array of records, ends, and visits, in declaration order, exactly the
  records of the methods of the bean's own class that the post-construct, respectively pre-destroy thunk
  runs; for any other annotation it visits none; \<open>empty()\<close> tells whether it visits any.\<close>

theorem metadata_lists_hooks:
  assumes "makeReflectiveData co c = Some d" "methods statics m = d"
  shows "annotatedWith TPostConstruct (methods statics m) = Some (map (methodRecord co \<circ> snd) (hooks_in TPostConstruct True c))
    \<and> annotatedWith TPreDestroy (methods statics m) = Some (map (methodRecord co \<circ> snd) (hooks_in TPreDestroy True c))
    \<and> (a \<noteq> TPostConstruct \<and> a \<noteq> TPreDestroy \<longrightarrow> annotatedWith a (methods statics m) = Some [])
    \<and> filtered_empty a (methods statics m) = map_option (\<lambda>rs. rs = []) (annotatedWith a (methods statics m))"
proof -
  have d: "brd_methods d = map (methodRecord co) (filter is_method (cls_members c))" "brd_methodCount d = length (brd_methods d)"
    using assms(1) by (auto simp: makeReflectiveData_eq Let_def split: if_splits)
  have hooks: "filter (hasAnnotation t) (brd_methods d) = map (methodRecord co \<circ> snd) (hooks_in t True c)"
    if "\<And>m. hasAnnotation t (methodRecord co m) = memberHasAnnotationOfType m t" for t
  proof -
    have "filter (hasAnnotation t) (brd_methods d) = map (methodRecord co) (filter (\<lambda>m. memberHasAnnotationOfType m t) (filter is_method (cls_members c)))"
      unfolding d(1) by (simp only: filter_map comp_def that)
    then show ?thesis by (simp only: hooks_methods [symmetric] map_map)
  qed
  have none: "filter (hasAnnotation a) (brd_methods d) = []" if "a \<noteq> TPostConstruct" "a \<noteq> TPreDestroy"
    using that by (cases a) simp_all
  show ?thesis
    unfolding assms(2) annotatedWith_eq [OF d(2)] using hooks [OF methodRecord_hook(1)] hooks [OF methodRecord_hook(2)] none by simp
qed

theorem metadata_lists_hooks_witness:
  "\<exists>d. makeReflectiveData sample_compiler diamond = Some d
     \<and> annotatedWith TPreDestroy (methods (\<lambda>_. d) \<lparr>bm_observedTypeGetter = None, bm_exactTypeGetter = None, bm_nameStr = [],
          bm_factoryMethodName = None, bm_lifetime = Singleton, bm_origin = AnnotatedType, bm_reflective = Some 0\<rparr>)
        = Some [methodRecord sample_compiler (sample_hook ''start'')]"
proof -
  let ?m = "\<lparr>bm_observedTypeGetter = None, bm_exactTypeGetter = None, bm_nameStr = [],
     bm_factoryMethodName = None, bm_lifetime = Singleton, bm_origin = AnnotatedType, bm_reflective = Some 0\<rparr>"
  have "\<exists>d. makeReflectiveData sample_compiler diamond = Some d"
    by (simp add: makeReflectiveData_eq diamond_def sample_class_def sample_hook_def is_method_def Let_def)
  then obtain d where d: "makeReflectiveData sample_compiler diamond = Some d" by blast
  have "methods (\<lambda>_. d) ?m = d" by (simp add: methods_def)
  moreover have "hooks_in TPreDestroy True diamond = [(cls_type diamond, sample_hook ''start'')]"
    by (simp add: hooks_in_def diamond_def sample_class_def sample_hook_def memberHasAnnotationOfType_def Let_def)
  ultimately show ?thesis using metadata_lists_hooks [OF d, of "\<lambda>_. d" ?m] d by simp
qed

end
