(* ===== verification/Contexts.thy ===== *)
theory Contexts
  imports Registry_Tables "HOL-Library.AList"
begin

text \<open>
  The two kinds of context (\<^verbatim>\<open>api/ctr/BeanContext.hpp\<close>, \<^verbatim>\<open>api/ctr/ScopedContext.hpp\<close>, \<^verbatim>\<open>ContextLifecycleImpl.hpp\<close>):
  starting and stopping the root and its scopes, the scopes by key, default names, user data, and
  the process-wide table of root contexts.
\<close>

subsection \<open>State\<close>

text \<open>\<open>deferredListeners_\<close> and the user data stand beside the part of a scope that resolution works on.\<close>

record scoped_context =
  sx_scope :: scoped
  sx_deferred :: "lentry list"
  sx_userData :: "ptr option"
  sx_userDataType :: type_index

text \<open>A root context with the registry and the scopes it owns; \<open>m_scope\<close> is empty between calls. \<open>cx_next\<close> is the
  address of the next scope object.\<close>

record root_context =
  cx_self :: ptr
  cx_key :: string
  cx_m :: mstate
  cx_scopes :: "(string \<times> scoped_context) list"
  cx_scopeTable :: scope_table
  cx_deferred :: "lentry list"
  cx_next :: ptr

type_synonym 'a ccomp = "(root_context, 'a) stateful"

text \<open>A call on the root, and a call on one of its scopes. Both work on the shared registry.\<close>

definition onRoot :: "'a comp \<Rightarrow> 'a ccomp" where
  "onRoot m c = (case m (cx_m c) of (o1, s) \<Rightarrow> (o1, c\<lparr>cx_m := s\<rparr>))"

definition scopeOf :: "root_context \<Rightarrow> string \<Rightarrow> scoped_context option" where
  "scopeOf c key = map_of (cx_scopes c) key"

definition setScope :: "string \<Rightarrow> scoped_context \<Rightarrow> root_context \<Rightarrow> root_context" where
  "setScope key sx c = c\<lparr>cx_scopes := AList.update key sx (cx_scopes c)\<rparr>"

definition onScope :: "string \<Rightarrow> 'a comp \<Rightarrow> 'a ccomp" where
  "onScope key m c =
     (case scopeOf c key of
        None \<Rightarrow> (Abort, c)
      | Some sx \<Rightarrow>
          (case m ((cx_m c)\<lparr>m_scope := Some (sx_scope sx)\<rparr>) of (o1, s) \<Rightarrow>
             (o1, setScope key (sx\<lparr>sx_scope := (case m_scope s of None \<Rightarrow> sx_scope sx | Some sc \<Rightarrow> sc)\<rparr>)
                    (c\<lparr>cx_m := s\<lparr>m_scope := None\<rparr>\<rparr>))))"

definition inContext :: "string option \<Rightarrow> 'a comp \<Rightarrow> 'a ccomp" where
  "inContext w m = (case w of None \<Rightarrow> onRoot m | Some key \<Rightarrow> onScope key m)"

subsection \<open>Scopes\<close>

definition new_scope :: "ptr \<Rightarrow> NameId \<Rightarrow> type_index \<Rightarrow> scoped_context" where
  "new_scope p n tvoid = \<lparr>sx_scope = \<lparr>sc_self = p, sc_scopeNameId = n, sc_sessionStore = ses_init, sc_scopeState = Stopped,
      sc_scopedDefaults = [], sc_hasAnyScopedDefault = False, sc_pendingRuntimeSessions = []\<rparr>,
     sx_deferred = [], sx_userData = None, sx_userDataType = tvoid\<rparr>"

text \<open>The scope of a key, created at the first request; it stays in the map when its registration throws.\<close>

definition resolveScope :: "type_index \<Rightarrow> string \<Rightarrow> ptr ccomp" where
  "resolveScope tvoid key c =
     (case scopeOf c key of
        Some sx \<Rightarrow> (Ret (sc_self (sx_scope sx)), c)
      | None \<Rightarrow>
          (let p = cx_next c; (n, r) = internNameSafe (m_reg (cx_m c)) key;
               c1 = c\<lparr>cx_m := (cx_m c)\<lparr>m_reg := r\<rparr>, cx_scopes := cx_scopes c @ [(key, new_scope p n tvoid)], cx_next := p + 1\<rparr>
           in case registerScope n p (cx_scopeTable c) of
                Inl e \<Rightarrow> (Exc e, c1)
              | Inr t \<Rightarrow> (Ret p, c1\<lparr>cx_scopeTable := t\<rparr>)))"

text \<open>The session bindings made while the scope was stopped enter its store, each with its two dispatches.\<close>

fun startPending :: "user_code \<Rightarrow> resolver \<Rightarrow> NameId \<Rightarrow> (DescriptorId \<times> ptr) list \<Rightarrow> unit comp" where
  "startPending u res scopeName [] = retM ()"
| "startPending u res scopeName ((d, inst) # psbs) = readM (\<lambda>s.
     let ty = c_exposedType (dtb_coldAt (r_descriptors (m_reg s)) d)
     in if dtb_size (r_descriptors (m_reg s)) \<le> d then abortM
        else bindM (tryUpdM (sessionStore (d_sessionSlot (dtb_at (r_descriptors (m_reg s)) d)) d inst)) (\<lambda>_.
             bindM (dispatchM u res phaseInitialized ty scopeName) (\<lambda>_.
             bindM (dispatchM u res phaseCreated ty scopeName) (\<lambda>_.
             startPending u res scopeName psbs))))"

definition scope_start :: "user_code \<Rightarrow> resolver \<Rightarrow> unit comp" where
  "scope_start u res = readM (\<lambda>s. case m_scope s of
       None \<Rightarrow> abortM
     | Some sc \<Rightarrow>
         if \<not> r_started (m_reg s) then throwM (ContextStateError NotStarted)
         else if sc_scopeState sc = Running then retM ()
         else if sc_scopeState sc = Stopping then throwM (ContextStateError ScopeStopping)
         else bindM (updScope (\<lambda>sc. sc\<lparr>sc_sessionStore := ses_resize (sc_sessionStore sc) (r_sessionSlotCount (m_reg s))\<rparr>)) (\<lambda>_.
              bindM (startPending u res (sc_scopeNameId sc) (sc_pendingRuntimeSessions sc)) (\<lambda>_.
              updScope (\<lambda>sc. sc\<lparr>sc_pendingRuntimeSessions := [], sc_scopeState := Running\<rparr>))))"

definition scope_stop :: "user_code \<Rightarrow> resolver \<Rightarrow> (DescriptorId \<Rightarrow> bool) \<Rightarrow> unit comp" where
  "scope_stop u res pushThrows = readM (\<lambda>s. case m_scope s of
       None \<Rightarrow> abortM
     | Some sc \<Rightarrow> if sc_scopeState sc \<noteq> Running then retM () else stopScope u res pushThrows False)"

definition scope_restart :: "user_code \<Rightarrow> resolver \<Rightarrow> (DescriptorId \<Rightarrow> bool) \<Rightarrow> unit comp" where
  "scope_restart u res pushThrows =
     bindM (readM (\<lambda>s. case m_scope s of
         None \<Rightarrow> abortM
       | Some sc \<Rightarrow> if sc_scopeState sc = Running then stopScope u res pushThrows True else scope_stop u res pushThrows))
       (\<lambda>_. scope_start u res)"

text \<open>The destructor of a scope destroys the bindings that never became session beans.\<close>

fun destroyPendingSessions :: "(DescriptorId \<times> ptr) list \<Rightarrow> unit comp" where
  "destroyPendingSessions [] = retM ()"
| "destroyPendingSessions ((d, inst) # psbs) = readM (\<lambda>s.
     let cold = dtb_coldAt (r_descriptors (m_reg s)) d
     in if dtb_size (r_descriptors (m_reg s)) \<le> d then abortM
        else bindM (logM (EvDestroy (c_destroy cold) inst)) (\<lambda>_.
             bindM (deallocM cold inst) (\<lambda>_. destroyPendingSessions psbs)))"

definition scope_destructor :: "unit comp" where
  "scope_destructor = readM (\<lambda>s. case m_scope s of None \<Rightarrow> abortM | Some sc \<Rightarrow> destroyPendingSessions (sc_pendingRuntimeSessions sc))"

subsection \<open>User data of a scope\<close>

definition userData_set :: "type_index \<Rightarrow> ptr \<Rightarrow> scoped_context \<Rightarrow> scoped_context" where
  "userData_set ty value sx = sx\<lparr>sx_userData := Some value, sx_userDataType := ty\<rparr>"

definition userData_clear :: "type_index \<Rightarrow> scoped_context \<Rightarrow> scoped_context" where
  "userData_clear tvoid sx = sx\<lparr>sx_userData := None, sx_userDataType := tvoid\<rparr>"

definition userData_get :: "type_index \<Rightarrow> scoped_context \<Rightarrow> ptr option" where
  "userData_get ty sx = (if sx_userData sx = None then None else if ty \<noteq> sx_userDataType sx then None else sx_userData sx)"

subsection \<open>The root context\<close>

definition startRegistry :: "type_index \<times> nat \<Rightarrow> ptr \<Rightarrow> unit comp" where
  "startRegistry bc self s =
     (case registry_start bc (m_reg s) self of
        None \<Rightarrow> (Abort, s)
      | Some (Some e, r) \<Rightarrow> (Exc e, s\<lparr>m_reg := r\<rparr>)
      | Some (None, r) \<Rightarrow> (Ret (), s\<lparr>m_reg := r\<rparr>))"

definition flushDeferred :: "lentry list \<Rightarrow> unit comp" where
  "flushDeferred ds = tryUpdM (\<lambda>s. map_option (\<lambda>l. s\<lparr>m_listeners := lc_store l\<rparr>)
     (lc_flushDeferredListeners \<lparr>lc_store = m_listeners s, lc_deferred = ds, lc_started = True\<rparr>))"

definition flushScope :: "string \<Rightarrow> unit ccomp" where
  "flushScope key = readM (\<lambda>c. case scopeOf c key of
       None \<Rightarrow> abortM
     | Some sx \<Rightarrow> bindM (onRoot (flushDeferred (sx_deferred sx))) (\<lambda>_. updM (setScope key (sx\<lparr>sx_deferred := []\<rparr>))))"

text \<open>\<open>order\<close>: the keys in the order in which the hash map enumerates them.\<close>

fun flushScopes :: "string list \<Rightarrow> unit ccomp" where
  "flushScopes [] = retM ()"
| "flushScopes (key # order) = bindM (flushScope key) (\<lambda>_. flushScopes order)"

definition context_start :: "type_index \<times> nat \<Rightarrow> user_code \<Rightarrow> resolver \<Rightarrow> string list \<Rightarrow> unit ccomp" where
  "context_start bc u res order =
     catchM
       (readM (\<lambda>c. bindM (onRoot (startRegistry bc (cx_self c))) (\<lambda>_.
        bindM (onRoot (flushDeferred (cx_deferred c))) (\<lambda>_.
        bindM (updM (\<lambda>c. c\<lparr>cx_deferred := []\<rparr>)) (\<lambda>_.
        bindM (flushScopes order) (\<lambda>_.
        onRoot (bindM (dispatchBeanContextStartLifecycle u res) (\<lambda>_.
                bindM (dispatchBoundSingletonLifecycle u res) (\<lambda>_.
                bindM (materializeEagerSingletons res) (\<lambda>_.
                updReg completeStart))))))))))
       (onRoot (rollbackFailedStart u res))"

fun stopScopes :: "user_code \<Rightarrow> resolver \<Rightarrow> (DescriptorId \<Rightarrow> bool) \<Rightarrow> string list \<Rightarrow> unit ccomp" where
  "stopScopes u res pushThrows [] = retM ()"
| "stopScopes u res pushThrows (key # order) =
     bindM (onScope key (scope_stop u res pushThrows)) (\<lambda>_. stopScopes u res pushThrows order)"

text \<open>\<open>tlReversed\<close> as in \<open>registry_stop\<close>.\<close>

definition context_stop :: "user_code \<Rightarrow> resolver \<Rightarrow> (DescriptorId \<Rightarrow> bool) \<Rightarrow> string list \<Rightarrow> (DescriptorId \<times> ptr) list \<Rightarrow> unit ccomp" where
  "context_stop u res pushThrows order tlReversed =
     bindM (stopScopes u res pushThrows order) (\<lambda>_. onRoot (registry_stop u res tlReversed))"

text \<open>Discovery is refused on a scope and after \<open>start()\<close>.\<close>

definition assertCanDiscover :: "string option \<Rightarrow> unit comp" where
  "assertCanDiscover w = readM (\<lambda>s.
     if w \<noteq> None then throwM (ContextStateError DiscoverOnScope)
     else if r_started (m_reg s) then throwM (ContextStateError AlreadyStarted) else retM ())"

subsection \<open>Resolution\<close>

text \<open>The template argument \<open>T\<close> is its \<open>type_info\<close>; a null name is \<open>None\<close>.\<close>

definition context_resolve :: "resolver \<Rightarrow> type_index \<Rightarrow> handle comp" where
  "context_resolve res ty = readM (\<lambda>s. res (ReqResolve (ti_lookupByTypeIndex (r_types (m_reg s)) ty) kUnnamed))"

definition context_resolveNamed :: "resolver \<Rightarrow> type_index \<Rightarrow> string option \<Rightarrow> handle comp" where
  "context_resolveNamed res ty name = readM (\<lambda>s.
     let nameId = ni_lookup (r_names (m_reg s)) (case name of None \<Rightarrow> [] | Some n \<Rightarrow> n)
     in if nameId = kInvalidNameId then throwM (ResolutionError UnknownName)
        else res (ReqResolve (ti_lookupByTypeIndex (r_types (m_reg s)) ty) nameId))"

subsection \<open>Default names\<close>

definition setDefault :: "registry \<Rightarrow> TypeId \<Rightarrow> NameId \<Rightarrow> registry" where
  "setDefault r t n = r\<lparr>r_defaults := dt_setDefault (r_defaults r) t n, r_hasAnyDefault := r_hasAnyDefault r \<or> n \<noteq> kUnnamed\<rparr>"

definition setScopedDefault :: "nat \<Rightarrow> TypeId \<Rightarrow> NameId \<Rightarrow> scoped \<Rightarrow> scoped" where
  "setScopedDefault slots t n sc =
     (let d = (if dt_size (sc_scopedDefaults sc) = 0 then dt_resize slots else sc_scopedDefaults sc)
      in sc\<lparr>sc_scopedDefaults := dt_setDefault d t n, sc_hasAnyScopedDefault := True\<rparr>)"

text \<open>\<open>m_scope\<close> is the \<open>asScope_\<close> of the context the call is made on.\<close>

definition defaultNamed :: "type_index \<Rightarrow> string \<Rightarrow> unit comp" where
  "defaultNamed ty name = readM (\<lambda>s.
     if \<not> r_started (m_reg s) then throwM (ContextStateError NotStarted)
     else if name = [] then throwM (ConfigurationError EmptyName)
     else (let t = ti_lookupByTypeIndex (r_types (m_reg s)) ty; slots = dt_size (r_defaults (m_reg s))
           in if slots \<le> t then throwM (ConfigurationError NoDefaultsSlot)
              else (let (n, r) = internNameSafe (m_reg s) name
                    in case m_scope s of
                         None \<Rightarrow> updM (\<lambda>s. s\<lparr>m_reg := setDefault r t n\<rparr>)
                       | Some sc \<Rightarrow> updM (\<lambda>s. s\<lparr>m_reg := r, m_scope := Some (setScopedDefault slots t n sc)\<rparr>))))"

definition defaultNamed_clear :: "type_index \<Rightarrow> unit comp" where
  "defaultNamed_clear ty = readM (\<lambda>s.
     if \<not> r_started (m_reg s) then throwM (ContextStateError NotStarted)
     else (let t = ti_lookupByTypeIndex (r_types (m_reg s)) ty
           in if dt_size (r_defaults (m_reg s)) \<le> t then retM ()
              else case m_scope s of
                None \<Rightarrow> updReg (\<lambda>r. setDefault r t kUnnamed)
              | Some sc \<Rightarrow>
                  if dt_size (sc_scopedDefaults sc) \<noteq> 0
                  then updScope (\<lambda>sc. sc\<lparr>sc_scopedDefaults := dt_setDefault (sc_scopedDefaults sc) t kUnnamed\<rparr>)
                  else retM ()))"

subsection \<open>The table of root contexts\<close>

definition new_context :: "string \<Rightarrow> ptr \<Rightarrow> nat \<Rightarrow> nat \<Rightarrow> tl_data \<Rightarrow> root_context" where
  "new_context key self registryId token tld = \<lparr>cx_self = self, cx_key = key,
     cx_m = \<lparr>m_reg = registry_init, m_listeners = ls_init, m_proto = ps_init, m_tl = tld, m_registryId = registryId,
       m_token = token, m_scope = None, m_stack = [], m_log = [], m_next = 1\<rparr>,
     cx_scopes = [], cx_scopeTable = (\<lambda>_. None), cx_deferred = [], cx_next = self + 1\<rparr>"

type_synonym context_table = "(string \<times> root_context) list"

definition resolveContext :: "string \<Rightarrow> ptr \<Rightarrow> nat \<Rightarrow> nat \<Rightarrow> tl_data \<Rightarrow> context_table \<Rightarrow> root_context \<times> context_table" where
  "resolveContext key self registryId token tld t =
     (case map_of t key of
        Some c \<Rightarrow> (c, t)
      | None \<Rightarrow> (let c = new_context key self registryId token tld in (c, t @ [(key, c)])))"

definition eraseContext :: "root_context \<Rightarrow> context_table \<Rightarrow> context_table" where
  "eraseContext c t = AList.delete (cx_key c) t"

end
