(* ===== verification/Context_Scopes.thy ===== *)
theory Context_Scopes
  imports Contexts
begin

text \<open>
  What calls on a context keep: names keep their ids and scopes their identity, so that a handle that
  refers to a scope by its name finds the scope that \<open>resolveScope\<close> returns for it; and user data is
  read only at the type it was set with.
\<close>

subsection \<open>What no call changes\<close>

text \<open>Names keep their ids, as long as the table has room; a scope keeps its address and its name.\<close>

definition names_grow :: "name_interning \<Rightarrow> name_interning \<Rightarrow> bool" where
  "names_grow a b \<longleftrightarrow> length (ni_idToName a) \<le> length (ni_idToName b)
     \<and> (0 < ni_room b \<and> ni_inv a \<longrightarrow> ni_inv b \<and> (\<forall>nm i. ni_known a nm = Some i \<longrightarrow> ni_known b nm = Some i))"

definition scope_id :: "scoped \<Rightarrow> ptr \<times> NameId" where
  "scope_id sc = (sc_self sc, sc_scopeNameId sc)"

definition names_frame :: "mstate \<Rightarrow> mstate \<Rightarrow> bool" where
  "names_frame s s' \<longleftrightarrow> names_grow (r_names (m_reg s)) (r_names (m_reg s'))
     \<and> map_option scope_id (m_scope s') = map_option scope_id (m_scope s)"

lemma names_grow_refl [simp]: "names_grow a a"
  by (simp add: names_grow_def)

lemma names_grow_room: "names_grow a b \<Longrightarrow> 0 < ni_room b \<Longrightarrow> 0 < ni_room a"
  by (auto simp: names_grow_def ni_room_def)

lemma names_grow_trans: "names_grow a b \<Longrightarrow> names_grow b c \<Longrightarrow> names_grow a c"
  using names_grow_room [of b c] unfolding names_grow_def by auto

lemma names_grow_intern [simp]: "names_grow a (snd (ni_intern a nm))"
proof -
  have len: "length (ni_idToName a) \<le> length (ni_idToName (snd (ni_intern a nm)))"
    by (auto simp: ni_intern_def Let_def split: option.splits)
  then have "0 < ni_room a" if "0 < ni_room (snd (ni_intern a nm))" using that by (auto simp: ni_room_def)
  then show ?thesis using len nin.invar_intern [of a nm] nin.known_stable [of a] by (auto simp: names_grow_def)
qed

lemma names_grow_internSafe [simp]: "names_grow (r_names r) (r_names (snd (internNameSafe r nm)))"
  by (simp add: internNameSafe_names)

lemma scope_id_simps [simp]:
  "scope_id (sc\<lparr>sc_sessionStore := st\<rparr>) = scope_id sc" "scope_id (sc\<lparr>sc_scopeState := x\<rparr>) = scope_id sc"
  "scope_id (sc\<lparr>sc_pendingRuntimeSessions := ps\<rparr>) = scope_id sc" "scope_id (setScopedDefault k t n sc) = scope_id sc"
  "scope_id (sc\<lparr>sc_scopedDefaults := ds\<rparr>) = scope_id sc"
  by (simp_all add: scope_id_def setScopedDefault_def Let_def)

text \<open>The teardown of beans keeps a relation that ignores the log, the contents of the session store and the state of
  the scope, and that allows hiding the scope.\<close>

locale destruction_frame = resolution_frame R
  for R :: "mstate \<Rightarrow> mstate \<Rightarrow> bool" +
  assumes R_anyLog: "R s (s\<lparr>m_log := l\<rparr>)"
    and R_sessions: "R s (s\<lparr>m_scope := map_option (\<lambda>sc. sc\<lparr>sc_sessionStore := g sc, sc_scopeState := h sc\<rparr>) (m_scope s)\<rparr>)"
    and R_hide: "R (s\<lparr>m_scope := None\<rparr>) s' \<Longrightarrow> R s (s'\<lparr>m_scope := m_scope s\<rparr>)"
begin

lemma t_noexcept: "keeps R m \<Longrightarrow> keeps R (noexceptM m)"
  by (fastforce simp: keeps_def ends_def noexceptM_def split: prod.splits outcome.splits)

lemma t_withoutScope: "keeps R m \<Longrightarrow> keeps R (withoutScope m)"
  using R_hide by (fastforce simp: keeps_def ends_def withoutScope_def split: prod.splits)

lemma t_log: "keeps R (logM ev)"
  unfolding logM_def by (rule r_upd) (rule R_anyLog)

lemmas t_basic = r_ret r_throw r_abort r_bind r_catch r_read r_onProto r_dispatch run_keeps r_thunk t_log

lemma t_preDestroy: "keeps R (preDestroyM u (run u f) cold mem)"
  unfolding preDestroyM_def by (auto intro!: t_basic split: option.splits)

lemma t_destroySteps: "keeps R (destroySteps u (run u f) cold mem emitter)"
  unfolding destroySteps_def Let_def by (auto intro!: t_basic t_preDestroy)

lemma t_dealloc: "keeps R (deallocM cold mem)"
  unfolding deallocM_def by (auto intro!: t_basic)

lemma t_destruction: "keeps R (executeDestructionLifecycle u (run u f) d mem emitter)"
  unfolding executeDestructionLifecycle_def Let_def
  by (auto intro!: t_basic t_noexcept t_withoutScope t_destroySteps t_dealloc)

lemma t_take: "keeps R (takeSlotMeta slot)"
  using R_proto by (auto simp: keeps_def ends_def takeSlotMeta_def split: prod.splits)

lemma t_destroySingletons: "keeps R (destroySingletons u (run u f) ds)"
  by (induction ds) (auto intro!: t_basic t_destruction split: option.splits)

lemma t_destroyPrototypes: "keeps R (destroyPrototypes u (run u f) n)"
  by (induction n) (auto intro!: t_basic t_take t_destruction split: option.splits)

lemma R_store: "R s (s\<lparr>m_scope := map_option (\<lambda>sc. sc\<lparr>sc_sessionStore := g sc\<rparr>) (m_scope s)\<rparr>)"
  using R_sessions [where s = s and g = g and h = sc_scopeState] by simp

lemma t_tryStore:
  assumes "\<And>s sc s'. m_scope s = Some sc \<Longrightarrow> f s = Some s' \<Longrightarrow> \<exists>st. s' = s\<lparr>m_scope := Some (sc\<lparr>sc_sessionStore := st\<rparr>)\<rparr>"
    "\<And>s. m_scope s = None \<Longrightarrow> f s = None"
  shows "keeps R (tryUpdM f)"
proof (rule r_try)
  fix s s' assume f: "f s = Some s'"
  then obtain sc where sc: "m_scope s = Some sc" using assms(2) by (cases "m_scope s") auto
  with assms(1) f obtain st where "s' = s\<lparr>m_scope := Some (sc\<lparr>sc_sessionStore := st\<rparr>)\<rparr>" by blast
  then show "R s s'" using R_store [of s "\<lambda>_. st"] sc by simp
qed

lemma t_sessionStore: "keeps R (tryUpdM (sessionStore slot d mem))"
  by (rule t_tryStore) (auto simp: sessionStore_def)

lemma t_destroySession: "keeps R (destroySession u (run u f) pt dfr nm ds)"
proof (induction ds)
  case (Cons d ds)
  have upd: "keeps R (updM (\<lambda>s. s\<lparr>m_scope := map_option (\<lambda>sc. sc\<lparr>sc_sessionStore := g sc\<rparr>) (m_scope s)\<rparr>))" for g
    by (rule r_upd) (rule R_store)
  have null: "keeps R (tryUpdM (\<lambda>s. case m_scope s of None \<Rightarrow> None
      | Some sc \<Rightarrow> map_option (\<lambda>st. s\<lparr>m_scope := Some (sc\<lparr>sc_sessionStore := st\<rparr>)\<rparr>) (ses_nullSlot (sc_sessionStore sc) slot)))" for slot
    by (rule t_tryStore) auto
  show ?case unfolding destroySession.simps Let_def
    by (intro r_bind r_read Cons)
       (auto intro!: t_basic t_noexcept t_withoutScope t_destroySteps t_destruction upd null split: option.splits)
qed (simp add: r_ret)

lemma t_stopScope: "keeps R (stopScope u (run u f) pt dfr)"
proof -
  have "keeps R (updScope (\<lambda>sc. sc\<lparr>sc_scopeState := x\<rparr>))" for x
    unfolding updScope_def using R_sessions [where g = sc_sessionStore and h = "\<lambda>_. x"] by (intro r_upd) simp
  moreover have "keeps R (updScope (\<lambda>sc. sc\<lparr>sc_sessionStore := g sc, sc_scopeState := x\<rparr>))" for x g
    unfolding updScope_def using R_sessions [where g = g and h = "\<lambda>_. x"] by (intro r_upd) simp
  ultimately show ?thesis unfolding stopScope_def by (auto intro!: t_basic t_destroySession split: option.splits)
qed

lemma t_scope_stop: "keeps R (scope_stop u (run u f) pt)"
  unfolding scope_stop_def by (auto intro!: t_basic t_stopScope split: option.splits)

end

interpretation nf: destruction_frame names_frame
proof (unfold_locales, goal_cases)
  case (2 s s' s'')
  then show ?case using names_grow_trans unfolding names_frame_def by auto
next
  case (7 d sc s s' slot mem s'')
  then show ?case by (auto simp: names_frame_def claimed_def releaseClaim_def sessionStore_def split: option.splits)
next
  case (9 s g h)
  show ?case by (cases "m_scope s") (simp_all add: names_frame_def scope_id_def)
qed (auto simp: names_frame_def claimed_def releaseClaim_def singletonStore_def)

lemma nf_scope: "(\<And>sc. scope_id (g sc) = scope_id sc) \<Longrightarrow> keeps names_frame (updScope g)"
  unfolding updScope_def by (rule nf.r_upd) (simp add: names_frame_def option.map_comp comp_def)

lemma nf_reg: "(\<And>r. r_names (g r) = r_names r) \<Longrightarrow> keeps names_frame (updReg g)"
  unfolding updReg_def by (rule nf.r_upd) (simp add: names_frame_def)

lemma nf_startPending: "keeps names_frame (startPending u (run u f) nm psbs)"
proof (induction psbs)
  case (Cons p psbs)
  then show ?case by (cases p) (auto simp: Let_def intro!: nf.t_basic nf.t_sessionStore)
qed (simp add: nf.r_ret)

lemma nf_scope_calls:
  "keeps names_frame (scope_start u (run u f))" "keeps names_frame (scope_stop u (run u f) pt)"
  "keeps names_frame (scope_restart u (run u f) pt)"
proof -
  show start: "keeps names_frame (scope_start u (run u f))"
    unfolding scope_start_def by (auto intro!: nf.t_basic nf_scope nf_startPending split: option.splits)
  show stop: "keeps names_frame (scope_stop u (run u f) pt)" by (rule nf.t_scope_stop)
  show "keeps names_frame (scope_restart u (run u f) pt)"
    unfolding scope_restart_def by (auto intro!: nf.t_basic start stop nf.t_stopScope split: option.splits)
qed

lemma nf_stopOwned: "keeps names_frame (stopRegistryOwnedBeans u (run u f))"
  unfolding stopRegistryOwnedBeans_def by (auto intro!: nf.t_basic nf_reg nf.t_destroySingletons nf.t_destroyPrototypes)

lemma nf_destroyAll: "keeps names_frame (destroyAll u (run u f) xs)"
  by (induction xs) (auto intro!: nf.t_basic nf.t_destruction)

lemma nf_registry_stop: "keeps names_frame (registry_stop u (run u f) tls)"
proof -
  have "keeps names_frame (updM (\<lambda>s. s\<lparr>m_listeners := g s\<rparr>))" for g by (rule nf.r_upd) (simp add: names_frame_def)
  then show ?thesis unfolding registry_stop_def by (auto intro!: nf.t_basic nf_stopOwned nf_destroyAll)
qed

lemma nf_rollback: "keeps names_frame (rollbackFailedStart u (run u f))"
  unfolding rollbackFailedStart_def by (auto intro!: nf.t_basic nf_reg nf_stopOwned)

lemma nf_flush: "keeps names_frame (flushDeferred ds)"
  unfolding flushDeferred_def by (rule nf.r_try) (auto simp: names_frame_def)

lemma nf_materializeAll: "keeps names_frame (materializeAll (run u f) ds)"
  by (induction ds) (auto intro!: nf.t_basic)

lemma nf_dispatchBound: "keeps names_frame (dispatchBound u (run u f) bs)"
  by (induction bs) (auto intro!: nf.t_basic)

lemma nf_afterStart: "keeps names_frame (dispatchBeanContextStartLifecycle u (run u f))"
  "keeps names_frame (dispatchBoundSingletonLifecycle u (run u f))" "keeps names_frame (materializeEagerSingletons (run u f))"
  unfolding dispatchBeanContextStartLifecycle_def dispatchBoundSingletonLifecycle_def materializeEagerSingletons_def Let_def
  by (auto intro!: nf.t_basic nf_reg nf_dispatchBound nf.t_withoutScope nf_materializeAll)

lemma nf_resolve: "keeps names_frame (context_resolve (run u f) ty)" "keeps names_frame (context_resolveNamed (run u f) ty nm)"
  unfolding context_resolve_def context_resolveNamed_def Let_def by (auto intro!: nf.t_basic)

lemma nf_defaults: "keeps names_frame (defaultNamed ty nm)" "keeps names_frame (defaultNamed_clear ty)"
proof -
  have "names_frame s (s\<lparr>m_reg := r, m_scope := Some (setScopedDefault k t n sc)\<rparr>)"
    if "internNameSafe (m_reg s) nm = (n, r)" "m_scope s = Some sc" for s r k t n sc
    using that names_grow_internSafe [of "m_reg s" nm] by (simp add: names_frame_def)
  moreover have "names_frame s (s\<lparr>m_reg := setDefault r t n\<rparr>)" if "internNameSafe (m_reg s) nm = (n, r)" for s r t n
    using that names_grow_internSafe [of "m_reg s" nm] by (simp add: names_frame_def setDefault_def)
  ultimately show "keeps names_frame (defaultNamed ty nm)"
    by (auto simp: keeps_def defaultNamed_def Let_def nf.R_refl split: if_splits option.splits prod.splits)
  show "keeps names_frame (defaultNamed_clear ty)"
    unfolding defaultNamed_clear_def Let_def by (auto intro!: nf.t_basic nf_reg nf_scope simp: setDefault_def split: option.splits)
qed

lemma append_runtime_names: "append_runtime r d cold = (i, r') \<Longrightarrow> r_names r' = r_names r"
  by (auto simp: append_runtime_def Let_def split: prod.splits)

lemma boundTypeId_names: "boundTypeId r pb = (t, r') \<Longrightarrow> r_names r' = r_names r"
  by (auto simp: boundTypeId_def Let_def split: prod.splits if_splits)

lemma bindStarted_names: "bindStarted pb r = Some (o1, r') \<Longrightarrow> r_names r' = r_names r"
  by (auto simp: bindStarted_def republish_def Let_def split: prod.splits if_splits dest!: append_runtime_names boundTypeId_names)

lemma bindPending_names: "bindPending pb r = (o1, r') \<Longrightarrow> r_names r' = r_names r"
  by (auto simp: bindPending_def split: if_splits)

lemma newSession_names: "newSessionDescriptor pb r t = (d, r') \<Longrightarrow> r_names r' = r_names r"
  by (auto simp: newSessionDescriptor_def republish_def Let_def split: prod.splits if_splits dest!: append_runtime_names)

lemma bindSession_core_names:
  assumes "bindSession_core pb r sc = Some (o1, r', sc')"
  shows "r_names r' = r_names r \<and> scope_id sc' = scope_id sc"
proof -
  obtain t1 r1 where 1: "(if r_started r then boundTypeId r pb
      else (let (t, ty) = ti_internByName (r_types r) (pb_typeName pb) (pb_typeInfo pb) in (t, r\<lparr>r_types := ty\<rparr>))) = (t1, r1)"
    (is "?first = _") by (cases ?first)
  obtain d r2 where 2: "(case findSessionDescriptor r1 t1 (pb_nameId pb) (pb_priority pb) of Some d \<Rightarrow> (d, r1)
      | None \<Rightarrow> newSessionDescriptor pb r1 t1) = (d, r2)" (is "?second = _") by (cases ?second)
  have "r_names r1 = r_names r" using 1 by (auto simp: Let_def dest: boundTypeId_names split: if_splits prod.splits)
  moreover have "r_names r2 = r_names r1" using 2 by (auto dest: newSession_names split: option.splits)
  ultimately show ?thesis using assms unfolding bindSession_core_def 1 unfolding Let_def prod.case 2 by (auto split: if_splits)
qed

lemma ends_upd [simp]: "ends (bindM (updM g) k) s s' \<longleftrightarrow> ends (k ()) (g s) s'"
  by (simp add: ends_def bind_upd)

lemma nf_bindings: "keeps names_frame (context_bindSingleton u (run u f) b nm pb)" "keeps names_frame (bindSession u (run u f) b nm pb)"
proof -
  have set: "names_frame s (s\<lparr>m_reg := r\<rparr>)" if "r_names r = r_names (m_reg s)" for s r
    using that by (simp add: names_frame_def)
  have intern: "names_frame s (s\<lparr>m_reg := r\<rparr>)" if "internNameSafe (m_reg s) x = (n, r)" for s x n r
    using that names_grow_internSafe [of "m_reg s" x] by (simp add: names_frame_def)
  have reg: "keeps names_frame (registry_bindSingleton u (run u f) b pb)" for pb
  proof -
    have ret: "keeps names_frame (bindM (dispatchM u (run u f) phaseInitialized t kNoScope)
        (\<lambda>_. bindM (dispatchM u (run u f) phaseCreated t kNoScope) (\<lambda>_. retM h)))" for t and h :: "handle option"
      by (intro nf.t_basic)
    have step: "names_frame s s'" if "ends (bindM (setReg r) k) s s'" "r_names r = r_names (m_reg s)" "keeps names_frame (k ())"
      for s s' r and k :: "unit \<Rightarrow> handle option comp"
    proof -
      have "ends (k ()) (s\<lparr>m_reg := r\<rparr>) s'" using that(1) by (simp add: setReg_def)
      then show ?thesis by (rule nf.R_trans [OF set [OF that(2)] keepsD [OF that(3)]])
    qed
    have "names_frame s s'" if e: "ends (registry_bindSingleton u (run u f) b pb) s s'" for s s'
      using e unfolding registry_bindSingleton_def
      by (auto simp: nf.R_refl split: if_splits option.splits sum.splits prod.splits
          dest!: bindStarted_names bindPending_names step intro: nf.r_throw nf.r_ret ret)
    then show ?thesis by (simp add: keeps_def)
  qed
  show "keeps names_frame (context_bindSingleton u (run u f) b nm pb)"
    unfolding keeps_def
  proof (intro allI impI)
    fix s s' assume e: "ends (context_bindSingleton u (run u f) b nm pb) s s'"
    obtain n r where i: "internNameSafe (m_reg s) (case nm of None \<Rightarrow> [] | Some x \<Rightarrow> x) = (n, r)" by (cases "internNameSafe (m_reg s) (case nm of None \<Rightarrow> [] | Some x \<Rightarrow> x)")
    have "ends (bindM (registry_bindSingleton u (run u f) b (pb\<lparr>pb_nameId := n\<rparr>)) (\<lambda>_. retM ())) (s\<lparr>m_reg := r\<rparr>) s'"
      using e by (simp add: context_bindSingleton_def setReg_def Let_def i)
    then have "names_frame (s\<lparr>m_reg := r\<rparr>) s'" by (rule keepsD [OF nf.r_bind [OF reg nf.r_ret]])
    with intern [OF i] show "names_frame s s'" by (rule nf.R_trans)
  qed
  show "keeps names_frame (bindSession u (run u f) b nm pb)"
    unfolding keeps_def
  proof (intro allI impI)
    fix s s' assume e: "ends (bindSession u (run u f) b nm pb) s s'"
    obtain n r where i: "internNameSafe (m_reg s) (case nm of None \<Rightarrow> [] | Some x \<Rightarrow> x) = (n, r)" by (cases "internNameSafe (m_reg s) (case nm of None \<Rightarrow> [] | Some x \<Rightarrow> x)")
    have upd: "names_frame s (s\<lparr>m_reg := r', m_scope := Some sc'\<rparr>)"
      if "bindSession_core (pb\<lparr>pb_nameId := n\<rparr>) r sc = Some (o1, r', sc')" "m_scope s = Some sc" for o1 r' sc' sc
      using bindSession_core_names [OF that(1)] that(2) intern [OF i] by (simp add: names_frame_def)
    have disp: "keeps names_frame (bindM (dispatchM u (run u f) phaseInitialized t x) (\<lambda>_. dispatchM u (run u f) phaseCreated t x))" for t x
      by (intro nf.t_basic)
    show "names_frame s s'" using e unfolding bindSession_def
      by (auto simp: i nf.R_refl Let_def split: if_splits option.splits prod.splits sum.splits
          intro: upd nf.R_trans [OF upd] keepsD [OF disp])
  qed
qed

text \<open>The phases of \<open>start()\<close> before the last one only add to the tables.\<close>

definition linked :: "registry \<Rightarrow> registry \<Rightarrow> bool" where
  "linked r r' \<longleftrightarrow> names_grow (r_names r) (r_names r') \<and> r_singletons r' = r_singletons r \<and> r_started r' = r_started r"

lemma linked_refl [simp]: "linked r r"
  by (simp add: linked_def)

lemma linked_trans: "linked r r' \<Longrightarrow> linked r' r'' \<Longrightarrow> linked r r''"
  by (auto simp: linked_def intro: names_grow_trans)

lemma linked_merge: "linked (ms_reg ms) (ms_reg (snd (merge_loop ms cds)))"
proof (induction ms cds rule: merge_loop.induct)
  case (2 ms cd cds)
  have "linked (ms_reg ms) (ms_reg (merge_new ms cd))"
    by (auto simp: linked_def merge_new_def Let_def split: prod.splits) (metis names_grow_intern snd_conv)
  then show ?case using 2 by (auto split: option.splits intro: linked_trans)
qed simp

lemma linked_append: "append_runtime r d cold = (i, r') \<Longrightarrow> linked r r'"
  by (auto simp: append_runtime_def linked_def Let_def split: prod.splits)

lemma linked_bind: "linked r (fst (snd (bind_pending r bound pbs)))"
proof (induction pbs arbitrary: r bound)
  case (Cons pb pbs)
  have ty: "linked r (r\<lparr>r_types := ty\<rparr>)" for ty by (simp add: linked_def)
  show ?case using ty linked_trans [OF linked_trans [OF ty linked_append] Cons] by (auto simp: Let_def split: prod.splits)
qed (simp add: linked_def)

lemma linked_factories: "linked r (snd (link_factories im r ls))"
proof (induction im r ls rule: link_factories.induct)
  case (2 im r beanId fid ls)
  then show ?case by (auto simp: linked_def split: option.splits)
qed (simp add: linked_def)

lemma linked_aliases: "linked r (snd (link_aliases im r ls))"
proof (induction im r ls rule: link_aliases.induct)
  case (2 im r aliasId pid ls)
  then show ?case by (auto simp: linked_def split: option.splits)
qed (simp add: linked_def)

lemma start_link_linked: "linked r (fst (snd (start_link r)))"
proof -
  obtain e ms where m: "merge_loop (merge_init r) (concat (r_pending r)) = (e, ms)" by (cases "merge_loop (merge_init r) (concat (r_pending r))")
  obtain e1 r1 bound where b: "bind_pending (ms_reg ms) [] (r_pendingRuntimeSingletons r) = (e1, r1, bound)"
    by (cases "bind_pending (ms_reg ms) [] (r_pendingRuntimeSingletons r)") auto
  obtain e2 r2 where f: "link_factories (ms_identityMap ms) (r1\<lparr>r_pendingRuntimeSingletons := []\<rparr>) (ms_factoryLinks ms) = (e2, r2)"
    by (cases "link_factories (ms_identityMap ms) (r1\<lparr>r_pendingRuntimeSingletons := []\<rparr>) (ms_factoryLinks ms)") auto
  have l1: "linked r (ms_reg ms)" using linked_merge [of "merge_init r" "concat (r_pending r)"] unfolding m by (simp add: merge_init_def)
  have l2: "linked r r1" using linked_trans [OF l1 linked_bind] b by (metis fst_conv snd_conv)
  have "linked (r1\<lparr>r_pendingRuntimeSingletons := []\<rparr>) r2" using linked_factories f by (metis snd_conv)
  then have l3: "linked r r2" using l2 by (auto simp: linked_def intro: names_grow_trans)
  have "linked r (snd (link_aliases (ms_identityMap ms) r2 (ms_aliasLinks ms)))" by (rule linked_trans [OF l3 linked_aliases])
  then show ?thesis using l1 l2 l3 unfolding start_link_def m prod.case
    by (auto simp: b f split: option.splits prod.splits)
qed

lemma start_finish_names: "start_finish bc r ctx bound = Some r' \<Longrightarrow> r_names r' = r_names r"
proof -
  have st: "store_bound r bs = Some r' \<Longrightarrow> r_names r' = r_names r" for r r' bs
    by (induction r bs rule: store_bound.induct) (auto split: option.splits)
  have as: "r_names (assign_session_slots r) = r_names r" for r by (simp add: assign_session_slots_def split: prod.splits)
  have rg: "registerContextBean bc r ctx = Some r' \<Longrightarrow> r_names r' = r_names r" for r r'
    by (auto simp: registerContextBean_def Let_def split: prod.splits option.splits)
  show "start_finish bc r ctx bound = Some r' \<Longrightarrow> r_names r' = r_names r"
    by (auto simp: start_finish_def Let_def as split: option.splits dest!: rg st)
qed

lemma registry_start_frame:
  assumes "registry_start bc r ctx = Some (e, r')"
  shows "names_grow (r_names r) (r_names r')" "e \<noteq> None \<Longrightarrow> r_singletons r' = r_singletons r \<and> \<not> r_started r'"
proof -
  obtain e1 r3 bound where sl: "start_link r = (e1, r3, bound)" by (cases "start_link r") auto
  have l: "linked r r3" using start_link_linked [of r] by (simp add: sl)
  show "names_grow (r_names r) (r_names r')"
    using assms l unfolding registry_start_def sl
    by (auto simp: Let_def linked_def split: if_splits option.splits dest!: start_finish_names)
  show "e \<noteq> None \<Longrightarrow> r_singletons r' = r_singletons r \<and> \<not> r_started r'"
    using assms l unfolding registry_start_def sl by (auto simp: Let_def linked_def split: if_splits option.splits)
qed

lemma nf_startRegistry: "keeps names_frame (startRegistry bc self)"
  unfolding keeps_def ends_def startRegistry_def
  by (auto simp: names_frame_def split: option.splits dest!: registry_start_frame(1))

subsection \<open>Calls on a context\<close>

text \<open>What the calls depend on besides the context: user code and fuel, failing allocations, the type of
  \<^verbatim>\<open>ctr::BeanContext\<close> and of \<open>void\<close>. A call on the root has no key.\<close>

record env =
  ev_user :: user_code
  ev_fuel :: nat
  ev_pushThrows :: "DescriptorId \<Rightarrow> bool"
  ev_beanContext :: "type_index \<times> nat"
  ev_void :: type_index

datatype ctx_op =
    OpStart "string list"
  | OpResolveScope string
  | OpScopeStart string
  | OpScopeStop string
  | OpScopeRestart string
  | OpResolve "string option" type_index
  | OpResolveNamed "string option" type_index "string option"
  | OpDefaultNamed "string option" type_index string
  | OpDefaultClear "string option" type_index
  | OpBindSingleton "string option" bool "string option" pending_singleton
  | OpBindSession string bool "string option" pending_singleton
  | OpUserData string type_index ptr
  | OpUserDataClear string

definition onUserData :: "string \<Rightarrow> (scoped_context \<Rightarrow> scoped_context) \<Rightarrow> unit ccomp" where
  "onUserData key g = tryUpdM (\<lambda>c. map_option (\<lambda>sx. setScope key (g sx) c) (scopeOf c key))"

definition discard :: "('s, 'a) stateful \<Rightarrow> ('s, unit) stateful" where
  "discard m = bindM m (\<lambda>_. retM ())"

lemma ends_discard [simp]: "ends (discard m) s s' \<longleftrightarrow> ends m s s'"
  by (auto simp: ends_def discard_def bindM_def retM_def split: prod.splits outcome.splits)

fun ctx_call :: "env \<Rightarrow> ctx_op \<Rightarrow> unit ccomp" where
  "ctx_call ev (OpStart order) = context_start (ev_beanContext ev) (ev_user ev) (run (ev_user ev) (ev_fuel ev)) order"
| "ctx_call ev (OpResolveScope key) = discard (resolveScope (ev_void ev) key)"
| "ctx_call ev (OpScopeStart key) = onScope key (scope_start (ev_user ev) (run (ev_user ev) (ev_fuel ev)))"
| "ctx_call ev (OpScopeStop key) = onScope key (scope_stop (ev_user ev) (run (ev_user ev) (ev_fuel ev)) (ev_pushThrows ev))"
| "ctx_call ev (OpScopeRestart key) = onScope key (scope_restart (ev_user ev) (run (ev_user ev) (ev_fuel ev)) (ev_pushThrows ev))"
| "ctx_call ev (OpResolve w ty) = discard (inContext w (context_resolve (run (ev_user ev) (ev_fuel ev)) ty))"
| "ctx_call ev (OpResolveNamed w ty nm) = discard (inContext w (context_resolveNamed (run (ev_user ev) (ev_fuel ev)) ty nm))"
| "ctx_call ev (OpDefaultNamed w ty nm) = inContext w (defaultNamed ty nm)"
| "ctx_call ev (OpDefaultClear w ty) = inContext w (defaultNamed_clear ty)"
| "ctx_call ev (OpBindSingleton w b nm pb) = inContext w (context_bindSingleton (ev_user ev) (run (ev_user ev) (ev_fuel ev)) b nm pb)"
| "ctx_call ev (OpBindSession key b nm pb) = onScope key (bindSession (ev_user ev) (run (ev_user ev) (ev_fuel ev)) b nm pb)"
| "ctx_call ev (OpUserData key ty p) = onUserData key (userData_set ty p)"
| "ctx_call ev (OpUserDataClear key) = onUserData key (userData_clear (ev_void ev))"

text \<open>A sequence of calls, each of which returns or throws.\<close>

fun ctx_run :: "env \<Rightarrow> ctx_op list \<Rightarrow> root_context \<Rightarrow> root_context option" where
  "ctx_run ev [] c = Some c"
| "ctx_run ev (op # ops) c =
     (case ctx_call ev op c of
        (Ret _, c') \<Rightarrow> ctx_run ev ops c'
      | (Exc _, c') \<Rightarrow> ctx_run ev ops c'
      | _ \<Rightarrow> None)"

lemma ctx_runE:
  assumes "ctx_run ev (op # ops) c = Some c''"
  obtains c' where "ends (ctx_call ev op) c c'" "ctx_run ev ops c' = Some c''"
  using assms by (auto simp: ends_def split: prod.splits outcome.splits)

text \<open>Everything but the creation of a scope leaves the scopes, their identity and the scope table as they are.\<close>

definition scope_ids :: "root_context \<Rightarrow> (string \<times> ptr \<times> NameId) list" where
  "scope_ids c = map (\<lambda>(k, sx). (k, scope_id (sx_scope sx))) (cx_scopes c)"

definition ctx_frame :: "root_context \<Rightarrow> root_context \<Rightarrow> bool" where
  "ctx_frame c c' \<longleftrightarrow> scope_ids c' = scope_ids c \<and> cx_scopeTable c' = cx_scopeTable c \<and> cx_next c' = cx_next c
     \<and> names_grow (r_names (m_reg (cx_m c))) (r_names (m_reg (cx_m c')))"

interpretation cf: state_frame ctx_frame
  by unfold_locales (auto simp: ctx_frame_def intro: names_grow_trans)

lemma map_update_same:
  assumes "map_of xs k = Some x" "g y = g x"
  shows "map (\<lambda>(k, x). (k, g x)) (AList.update k y xs) = map (\<lambda>(k, x). (k, g x)) xs"
  using assms by (induction xs) auto

lemma scope_ids_set: "scopeOf c key = Some sx \<Longrightarrow> scope_id (sx_scope sx') = scope_id (sx_scope sx) \<Longrightarrow>
    scope_ids (setScope key sx' c) = scope_ids c"
  unfolding scope_ids_def setScope_def scopeOf_def using map_update_same [where g = "scope_id \<circ> sx_scope"] by simp

lemma cf_root: "keeps names_frame m \<Longrightarrow> keeps ctx_frame (onRoot m)"
  by (fastforce simp: keeps_def ends_def onRoot_def ctx_frame_def names_frame_def scope_ids_def split: prod.splits)

lemma onScope_endsE:
  assumes "ends (onScope key m) c c'"
  obtains sx s where "scopeOf c key = Some sx" "ends m ((cx_m c)\<lparr>m_scope := Some (sx_scope sx)\<rparr>) s"
    "c' = setScope key (sx\<lparr>sx_scope := (case m_scope s of None \<Rightarrow> sx_scope sx | Some sc \<Rightarrow> sc)\<rparr>) (c\<lparr>cx_m := s\<lparr>m_scope := None\<rparr>\<rparr>)"
  using assms by (auto simp: ends_def onScope_def split: option.splits prod.splits)

lemma cf_scope:
  assumes "keeps names_frame m"
  shows "keeps ctx_frame (onScope key m)"
  unfolding keeps_def
proof (intro allI impI)
  fix c c' assume "ends (onScope key m) c c'"
  then show "ctx_frame c c'"
  proof (rule onScope_endsE)
    fix sx s assume 1: "scopeOf c key = Some sx" "ends m ((cx_m c)\<lparr>m_scope := Some (sx_scope sx)\<rparr>) s"
      "c' = setScope key (sx\<lparr>sx_scope := (case m_scope s of None \<Rightarrow> sx_scope sx | Some sc \<Rightarrow> sc)\<rparr>) (c\<lparr>cx_m := s\<lparr>m_scope := None\<rparr>\<rparr>)"
    have f: "names_frame ((cx_m c)\<lparr>m_scope := Some (sx_scope sx)\<rparr>) s" by (rule keepsD [OF assms 1(2)])
    have "scope_ids c' = scope_ids (c\<lparr>cx_m := s\<lparr>m_scope := None\<rparr>\<rparr>)" unfolding 1(3)
      using f 1(1) by (intro scope_ids_set [of _ _ sx]) (auto simp: scopeOf_def names_frame_def split: option.splits)
    then show ?thesis using f by (auto simp: ctx_frame_def names_frame_def 1(3) setScope_def scope_ids_def)
  qed
qed

lemma cf_in: "keeps names_frame m \<Longrightarrow> keeps ctx_frame (inContext w m)"
  by (cases w) (simp_all add: inContext_def cf_root cf_scope)

lemma cf_flushScope: "keeps ctx_frame (flushScope key)"
  unfolding keeps_def
proof (intro allI impI)
  fix c c' assume e: "ends (flushScope key) c c'"
  then obtain sx where sx: "scopeOf c key = Some sx" by (auto simp: flushScope_def split: option.splits)
  with e have "ends (bindM (onRoot (flushDeferred (sx_deferred sx))) (\<lambda>_. updM (setScope key (sx\<lparr>sx_deferred := []\<rparr>)))) c c'"
    by (simp add: flushScope_def)
  from ends_bind [OF this] show "ctx_frame c c'"
  proof (elim disjE exE conjE)
    fix x assume "onRoot (flushDeferred (sx_deferred sx)) c = (Exc x, c')"
    then show ?thesis by (rule keeps_Exc [OF cf_root [OF nf_flush]])
  next
    fix a c1 assume 1: "onRoot (flushDeferred (sx_deferred sx)) c = (Ret a, c1)" "ends (updM (setScope key (sx\<lparr>sx_deferred := []\<rparr>))) c1 c'"
    have "scopeOf c1 key = Some sx" using 1(1) sx by (auto simp: onRoot_def scopeOf_def split: prod.splits)
    then have "ctx_frame c1 c'" using 1(2) scope_ids_set [of c1 key sx "sx\<lparr>sx_deferred := []\<rparr>"] by (simp add: ctx_frame_def setScope_def)
    with keeps_Ret [OF cf_root [OF nf_flush] 1(1)] show ?thesis by (rule cf.R_trans)
  qed
qed

lemma cf_flushScopes: "keeps ctx_frame (flushScopes order)"
  by (induction order) (simp_all add: cf.r_ret cf.r_bind cf_flushScope)

lemma cf_start: "keeps ctx_frame (context_start bc u (run u f) order)"
proof -
  have clear: "keeps ctx_frame (updM (\<lambda>c. c\<lparr>cx_deferred := []\<rparr>))" by (rule cf.r_upd) (simp add: ctx_frame_def scope_ids_def)
  have complete: "keeps names_frame (updReg completeStart)" by (rule nf_reg) (simp add: completeStart_def)
  show ?thesis unfolding context_start_def
    by (intro cf.r_catch cf.r_read cf.r_bind cf_root nf_startRegistry nf_flush clear cf_flushScopes nf.r_bind nf_afterStart complete nf_rollback)
qed

lemma cf_userData: "(\<And>sx. sx_scope (g sx) = sx_scope sx) \<Longrightarrow> keeps ctx_frame (onUserData key g)"
  unfolding onUserData_def by (rule cf.r_try) (auto simp: ctx_frame_def scope_ids_set, simp_all add: setScope_def)

lemma cf_call:
  assumes "\<And>key. op \<noteq> OpResolveScope key"
  shows "keeps ctx_frame (ctx_call ev op)"
  using assms
  by (cases op) (auto simp: discard_def userData_set_def userData_clear_def
      intro!: cf_start cf.r_bind cf.r_ret cf_in cf_scope nf_scope_calls nf_resolve nf_defaults nf_bindings cf_userData)

subsection \<open>Scopes and their names\<close>

definition scopes_ok :: "root_context \<Rightarrow> bool" where
  "scopes_ok c \<longleftrightarrow> ni_inv (r_names (m_reg (cx_m c)))
     \<and> (\<forall>(k, p, n) \<in> set (scope_ids c). ni_known (r_names (m_reg (cx_m c))) k = Some n \<and> p < cx_next c
          \<and> (n < 65536 \<longrightarrow> findScope (cx_scopeTable c) n = Some p))
     \<and> (\<forall>n p. findScope (cx_scopeTable c) n = Some p \<longrightarrow> (\<exists>k. (k, p, n) \<in> set (scope_ids c)))
     \<and> distinct (map (\<lambda>(k, p, n). p) (scope_ids c))"

text \<open>As long as ids for names are left.\<close>

definition ctx_inv :: "root_context \<Rightarrow> bool" where
  "ctx_inv c \<longleftrightarrow> distinct (map fst (scope_ids c)) \<and> (0 < ni_room (r_names (m_reg (cx_m c))) \<longrightarrow> scopes_ok c)"

lemma ctx_inv_frame:
  assumes "ctx_frame c c'" "ctx_inv c"
  shows "ctx_inv c'"
proof -
  have "scopes_ok c'" if "0 < ni_room (r_names (m_reg (cx_m c')))"
    using assms that names_grow_room [of "r_names (m_reg (cx_m c))" "r_names (m_reg (cx_m c'))"]
    unfolding ctx_frame_def ctx_inv_def scopes_ok_def names_grow_def by fastforce
  then show ?thesis using assms by (simp add: ctx_inv_def ctx_frame_def)
qed

lemma ctx_inv_resolveScope:
  assumes inv: "ctx_inv c" and e: "ends (resolveScope tv key) c c'"
  shows "ctx_inv c'"
proof (cases "scopeOf c key")
  case (Some sx)
  then show ?thesis using assms by (auto simp: resolveScope_def ends_def)
next
  case None
  let ?names = "r_names (m_reg (cx_m c))"
  obtain n r where i: "internNameSafe (m_reg (cx_m c)) key = (n, r)" by (cases "internNameSafe (m_reg (cx_m c)) key")
  have names: "r_names r = snd (ni_intern ?names key)" "n = fst (ni_intern ?names key)"
    using internNameSafe_names [of "m_reg (cx_m c)" key] by (simp_all add: i)
  have new: "key \<notin> fst ` set (scope_ids c)"
    using None by (force simp: scopeOf_def scope_ids_def map_of_eq_None_iff)
  have ids: "scope_ids c' = scope_ids c @ [(key, cx_next c, n)]" and nx: "cx_next c' = cx_next c + 1"
    and reg: "r_names (m_reg (cx_m c')) = r_names r"
    using e None by (auto simp: resolveScope_def ends_def i Let_def scope_ids_def new_scope_def scope_id_def split: sum.splits)
  have table: "findScope (cx_scopeTable c') m = (if m = n \<and> n < 65536 then Some (cx_next c) else findScope (cx_scopeTable c) m)" for m
  proof (cases "registerScope n (cx_next c) (cx_scopeTable c)")
    case (Inl x)
    then have "\<not> n < 65536" using registerScope_fails_iff [of n "cx_next c" "cx_scopeTable c"] by auto
    moreover have "cx_scopeTable c' = cx_scopeTable c" using e None Inl by (auto simp: resolveScope_def ends_def i Let_def)
    ultimately show ?thesis by simp
  next
    case (Inr t)
    then have "n < 65536" using registerScope_fails_iff [of n "cx_next c" "cx_scopeTable c"] by fastforce
    moreover have "cx_scopeTable c' = t" using e None Inr by (auto simp: resolveScope_def ends_def i Let_def)
    ultimately show ?thesis using findScope_register [OF Inr, of m] by simp
  qed
  have "scopes_ok c'" if room: "0 < ni_room (r_names (m_reg (cx_m c')))"
  proof -
    have ok: "scopes_ok c" using inv room names_grow_room [OF names_grow_intern, of ?names key] by (simp add: ctx_inv_def reg names(1))
    have ni: "ni_inv ?names" "0 < ni_room ?names"
      using ok room names_grow_room [OF names_grow_intern, of ?names key] by (simp_all add: scopes_ok_def reg names(1))
    have ni': "ni_inv (r_names r)" unfolding names(1) by (rule nin.invar_intern [OF ni])
    have known: "ni_known (r_names r) key = Some n" unfolding names by (rule nin.known_intern [OF ni(1)])
    have old: "ni_known (r_names r) k = Some m" if "(k, p, m) \<in> set (scope_ids c)" for k p m
      using ok that nin.known_stable [OF ni(1)] unfolding names(1) scopes_ok_def by fastforce
    have fresh: "m \<noteq> n" if "(k, p, m) \<in> set (scope_ids c)" for k p m
      using nin.known_inj [OF ni' old [OF that], of key] known new that by force
    have lt: "p < cx_next c" if "(k, p, m) \<in> set (scope_ids c)" for k p m using ok that by (fastforce simp: scopes_ok_def)
    show ?thesis unfolding scopes_ok_def reg ids nx
    proof (intro conjI)
      show "ni_inv (r_names r)" by (rule ni')
      show "\<forall>(k, p, m) \<in> set (scope_ids c @ [(key, cx_next c, n)]). ni_known (r_names r) k = Some m \<and> p < cx_next c + 1
          \<and> (m < 65536 \<longrightarrow> findScope (cx_scopeTable c') m = Some p)"
        using ok known old fresh lt by (fastforce simp: table scopes_ok_def)
      show "\<forall>m p. findScope (cx_scopeTable c') m = Some p \<longrightarrow> (\<exists>k. (k, p, m) \<in> set (scope_ids c @ [(key, cx_next c, n)]))"
        using ok by (fastforce simp: table scopes_ok_def split: if_splits)
      have "distinct (map (\<lambda>(k, p, n). p) (scope_ids c))" using ok by (simp add: scopes_ok_def)
      then show "distinct (map (\<lambda>(k, p, n). p) (scope_ids c @ [(key, cx_next c, n)]))" using lt by fastforce
    qed
  qed
  then show ?thesis using inv new by (simp add: ctx_inv_def ids)
qed

lemma ctx_inv_call:
  assumes "ctx_inv c" "ends (ctx_call ev op) c c'"
  shows "ctx_inv c'"
proof (cases "\<exists>key. op = OpResolveScope key")
  case True
  then obtain key where "op = OpResolveScope key" by blast
  then have "ends (resolveScope (ev_void ev) key) c c'"
    using assms(2) by simp
  with assms(1) show ?thesis by (rule ctx_inv_resolveScope)
next
  case False
  then show ?thesis using ctx_inv_frame [OF keepsD [OF cf_call assms(2)] assms(1)] by blast
qed

lemma ctx_inv_new: "ctx_inv (new_context key self rid tok tld)"
  by (auto simp: ctx_inv_def scopes_ok_def new_context_def scope_ids_def registry_init_def ni_inv_init findScope_def Let_def)

lemma ctx_inv_run: "ctx_inv c \<Longrightarrow> ctx_run ev ops c = Some c' \<Longrightarrow> ctx_inv c'"
proof (induction ops arbitrary: c)
  case (Cons op ops)
  from Cons.prems(2) show ?case by (rule ctx_runE) (use Cons ctx_inv_call in blast)
qed simp

lemma scope_ids_iff:
  assumes "distinct (map fst (scope_ids c))"
  shows "(k, p, n) \<in> set (scope_ids c) \<longleftrightarrow> (\<exists>sx. scopeOf c k = Some sx \<and> scope_id (sx_scope sx) = (p, n))"
proof -
  have "distinct (map fst (cx_scopes c))" using assms by (simp add: scope_ids_def comp_def case_prod_unfold)
  then show ?thesis by (auto simp: scope_ids_def scopeOf_def dest: map_of_is_SomeI map_of_SomeD intro!: image_eqI)
qed


subsection \<open>User data\<close>

definition user_data :: "root_context \<Rightarrow> (string \<times> ptr option \<times> type_index) list" where
  "user_data c = map (\<lambda>(k, sx). (k, sx_userData sx, sx_userDataType sx)) (cx_scopes c)"

definition user_frame :: "root_context \<Rightarrow> root_context \<Rightarrow> bool" where
  "user_frame c c' \<longleftrightarrow> user_data c' = user_data c"

interpretation uf: state_frame user_frame
  by unfold_locales (simp_all add: user_frame_def)

lemma user_data_set: "scopeOf c key = Some sx \<Longrightarrow> sx_userData sx' = sx_userData sx \<Longrightarrow> sx_userDataType sx' = sx_userDataType sx \<Longrightarrow>
    user_data (setScope key sx' c) = user_data c"
  unfolding user_data_def setScope_def scopeOf_def
  using map_update_same [of "cx_scopes c" key sx "\<lambda>sx. (sx_userData sx, sx_userDataType sx)" sx'] by simp

lemma uf_root: "keeps user_frame (onRoot m)"
  by (auto simp: keeps_def ends_def onRoot_def user_frame_def user_data_def split: prod.splits)

lemma uf_scope: "keeps user_frame (onScope key m)"
  unfolding keeps_def user_frame_def
proof (intro allI impI)
  fix c c' assume "ends (onScope key m) c c'"
  then show "user_data c' = user_data c"
  proof (rule onScope_endsE)
    fix sx s assume 1: "scopeOf c key = Some sx"
      "c' = setScope key (sx\<lparr>sx_scope := (case m_scope s of None \<Rightarrow> sx_scope sx | Some sc \<Rightarrow> sc)\<rparr>) (c\<lparr>cx_m := s\<lparr>m_scope := None\<rparr>\<rparr>)"
    have "user_data c' = user_data (c\<lparr>cx_m := s\<lparr>m_scope := None\<rparr>\<rparr>)" unfolding 1(2)
      using 1(1) by (intro user_data_set [of _ _ sx]) (simp_all add: scopeOf_def)
    then show ?thesis by (simp add: user_data_def)
  qed
qed

lemma uf_in: "keeps user_frame (inContext w m)"
  by (cases w) (simp_all add: inContext_def uf_root uf_scope)

lemma uf_flushScope: "keeps user_frame (flushScope key)"
proof -
  have "user_frame c c'" if e: "ends (flushScope key) c c'" for c c'
  proof -
    from e obtain sx where sx: "scopeOf c key = Some sx" by (auto simp: flushScope_def split: option.splits)
    with e have "ends (bindM (onRoot (flushDeferred (sx_deferred sx))) (\<lambda>_. updM (setScope key (sx\<lparr>sx_deferred := []\<rparr>)))) c c'"
      by (simp add: flushScope_def)
    from ends_bind [OF this] show ?thesis
    proof (elim disjE exE conjE)
      fix a c1 assume 1: "onRoot (flushDeferred (sx_deferred sx)) c = (Ret a, c1)" "ends (updM (setScope key (sx\<lparr>sx_deferred := []\<rparr>))) c1 c'"
      have "scopeOf c1 key = Some sx" "user_data c1 = user_data c"
        using 1(1) sx by (auto simp: onRoot_def scopeOf_def user_data_def split: prod.splits)
      then show ?thesis using 1(2) user_data_set [of c1 key sx "sx\<lparr>sx_deferred := []\<rparr>"] by (simp add: user_frame_def)
    qed (rule keeps_Exc [OF uf_root])
  qed
  then show ?thesis by (simp add: keeps_def)
qed

lemma uf_start: "keeps user_frame (context_start bc u res order)"
proof -
  have "keeps user_frame (updM (\<lambda>c. c\<lparr>cx_deferred := []\<rparr>))" by (rule uf.r_upd) (simp add: user_frame_def user_data_def)
  moreover have "keeps user_frame (flushScopes ks)" for ks
    by (induction ks) (simp_all add: uf.r_ret uf.r_bind uf_flushScope)
  ultimately show ?thesis unfolding context_start_def by (intro uf.r_catch uf.r_read uf.r_bind uf_root)
qed

text \<open>What the calls on a scope set last.\<close>

fun user_data_after :: "string \<Rightarrow> ctx_op \<Rightarrow> (type_index \<times> ptr) option \<Rightarrow> (type_index \<times> ptr) option" where
  "user_data_after key (OpUserData k t p) acc = (if k = key then Some (t, p) else acc)"
| "user_data_after key (OpUserDataClear k) acc = (if k = key then None else acc)"
| "user_data_after key _ acc = acc"

definition holds_user_data :: "root_context \<Rightarrow> string \<Rightarrow> (type_index \<times> ptr) option \<Rightarrow> bool" where
  "holds_user_data c key acc \<longleftrightarrow> (case scopeOf c key of
       None \<Rightarrow> acc = None
     | Some sx \<Rightarrow> (case acc of None \<Rightarrow> sx_userData sx = None | Some (t, p) \<Rightarrow> sx_userData sx = Some p \<and> sx_userDataType sx = t))"

lemma scope_user_data:
  "map_of (user_data c) key = map_option (\<lambda>sx. (sx_userData sx, sx_userDataType sx)) (scopeOf c key)"
proof -
  have "map_of (map (\<lambda>(k, sx). (k, sx_userData sx, sx_userDataType sx)) xs) key
      = map_option (\<lambda>sx. (sx_userData sx, sx_userDataType sx)) (map_of xs key)" for xs by (induction xs) auto
  then show ?thesis by (simp add: user_data_def scopeOf_def)
qed

lemma holds_frame: "user_frame c c' \<Longrightarrow> holds_user_data c' key acc = holds_user_data c key acc"
  using scope_user_data [of c key] scope_user_data [of c' key]
  by (auto simp: holds_user_data_def user_frame_def split: option.splits)

lemma scopeOf_set: "scopeOf (setScope k sx c) key = (if key = k then Some sx else scopeOf c key)"
  by (simp add: scopeOf_def setScope_def update_conv')

lemma holds_call:
  assumes "holds_user_data c key acc" "ends (ctx_call ev op) c c'"
  shows "holds_user_data c' key (user_data_after key op acc)"
proof -
  have ud: "holds_user_data c' key (user_data_after key op acc)" if "ends (onUserData k g) c c'"
    "\<And>sx. holds_user_data (setScope k (g sx) c) key (user_data_after key op acc)" for k g
    using that by (auto simp: onUserData_def)
  have new: "holds_user_data c' key acc" if "ends (resolveScope tv k) c c'" for tv k
  proof (cases "scopeOf c k")
    case None
    then have "scopeOf c' x = (if x = k then Some (new_scope (cx_next c) (fst (internNameSafe (m_reg (cx_m c)) k)) tv) else scopeOf c x)" for x
      using that by (auto simp: ends_def resolveScope_def Let_def scopeOf_def map_add_def split: prod.splits sum.splits option.splits)
    then show ?thesis using assms(1) None by (auto simp: holds_user_data_def new_scope_def split: option.splits)
  qed (use that assms(1) in \<open>auto simp: ends_def resolveScope_def\<close>)
  have frame: "holds_user_data c' key acc" if "keeps user_frame (ctx_call ev op)"
    using holds_frame [OF keepsD [OF that assms(2)]] assms(1) by simp
  show ?thesis
  proof (cases op)
    case (OpUserData k t p)
    then show ?thesis using assms by (intro ud [of k "userData_set t p"]) (auto simp: holds_user_data_def scopeOf_set userData_set_def)
  next
    case (OpUserDataClear k)
    then show ?thesis using assms by (intro ud [of k "userData_clear (ev_void ev)"]) (auto simp: holds_user_data_def scopeOf_set userData_clear_def)
  next
    case (OpResolveScope k)
    then show ?thesis using assms(2) new by simp
  qed (use frame in \<open>simp_all add: uf_start uf_scope uf_in discard_def uf.r_bind uf.r_ret\<close>)
qed

lemma holds_run:
  "ctx_run ev ops c = Some c' \<Longrightarrow> holds_user_data c key acc \<Longrightarrow> holds_user_data c' key (fold (user_data_after key) ops acc)"
proof (induction ops arbitrary: c acc)
  case (Cons op ops)
  from Cons.prems(1) show ?case by (rule ctx_runE) (use Cons holds_call in auto)
qed simp

text \<open>C20.  User data of a scope is read only at its own type. After any sequence of calls on the context, \<open>userData<T>()\<close>
  returns exactly the object that was set last on this scope if it was set as a \<open>T\<close>, and nothing
  otherwise; starting, stopping and using the scopes does not touch it. So if every object is set at its type, the
  reference that is returned has the type it is read at.\<close>

theorem user_data_typed:
  assumes run: "ctx_run ev ops (new_context root self rid tok tld) = Some c" and sx: "scopeOf c key = Some sx"
    and typed: "\<forall>k t p. OpUserData k t p \<in> set ops \<longrightarrow> type_of p = t"
  shows "userData_get ty sx = (case fold (user_data_after key) ops None of
       None \<Rightarrow> None | Some (t, p) \<Rightarrow> if t = ty then Some p else None)
    \<and> (\<forall>p. userData_get ty sx = Some p \<longrightarrow> type_of p = ty)"
proof -
  have "holds_user_data c key (fold (user_data_after key) ops None)"
    by (rule holds_run [OF run]) (simp add: holds_user_data_def new_context_def scopeOf_def)
  then have get: "userData_get ty sx = (case fold (user_data_after key) ops None of
       None \<Rightarrow> None | Some (t, p) \<Rightarrow> if t = ty then Some p else None)"
    using sx by (auto simp: holds_user_data_def userData_get_def split: option.splits)
  have "fold (user_data_after key) xs acc = Some (t, p) \<Longrightarrow> acc = Some (t, p) \<or> (\<exists>k. OpUserData k t p \<in> set xs)" for xs acc t p
  proof (induction xs arbitrary: acc)
    case (Cons x xs)
    from Cons.IH [of "user_data_after key x acc"] Cons.prems show ?case by (cases x) (auto split: if_splits)
  qed simp
  then have "type_of p = t" if "fold (user_data_after key) ops None = Some (t, p)" for t p using typed that by blast
  with get show ?thesis by (auto split: option.splits if_splits)
qed

subsection \<open>Concrete instances\<close>

definition sample_env :: env where
  "sample_env = \<lparr>ev_user = idle_user, ev_fuel = 4, ev_pushThrows = (\<lambda>_. False), ev_beanContext = (name_code beanContextName, 8), ev_void = 0\<rparr>"

definition sample_context :: root_context where
  "sample_context = new_context ''main'' 10 1 1 tl_init"

definition two_scopes :: "ctx_op list" where
  "two_scopes = [OpResolveScope ''a'', OpUserData ''a'' 7 100, OpResolveScope ''b'', OpScopeStart ''b'', OpUserData ''b'' 8 101, OpUserDataClear ''a'',
     OpUserData ''a'' 8 102]"

lemmas scopes_eval = two_scopes_def sample_context_def sample_env_def new_context_def resolveScope_def scopeOf_def discard_def bindM_def retM_def
  internNameSafe_def ni_intern_def registry_init_def ni_init_def registerScope_def kScopeChunkSize_def kScopeTopCapacity_def onScope_def
  scope_start_def readM_def throwM_def new_scope_def onUserData_def tryUpdM_def setScope_def userData_set_def userData_clear_def u32_def

lemma two_scopes_run:
  obtains c sa sb where "ctx_run sample_env two_scopes sample_context = Some c" "scopeOf c ''a'' = Some sa" "scopeOf c ''b'' = Some sb"
    "0 < ni_room (r_names (m_reg (cx_m c)))" "sc_scopeNameId (sx_scope sa) = 1" "sc_scopeNameId (sx_scope sb) = 2"
    "sc_self (sx_scope sa) = 11" "sc_self (sx_scope sb) = 12"
proof -
  have "\<exists>c sa sb. ctx_run sample_env two_scopes sample_context = Some c \<and> scopeOf c ''a'' = Some sa \<and> scopeOf c ''b'' = Some sb
    \<and> 0 < ni_room (r_names (m_reg (cx_m c))) \<and> sc_scopeNameId (sx_scope sa) = 1 \<and> sc_scopeNameId (sx_scope sb) = 2
    \<and> sc_self (sx_scope sa) = 11 \<and> sc_self (sx_scope sb) = 12"
    by (simp add: scopes_eval) (simp add: ni_room_def sentinel_defs)
  then show thesis using that by blast
qed


theorem user_data_typed_witness:
  "\<exists>c sa. ctx_run sample_env two_scopes sample_context = Some c \<and> scopeOf c ''a'' = Some sa
     \<and> userData_get 8 sa = Some 102 \<and> userData_get 7 sa = None"
proof (rule two_scopes_run)
  fix c sa sb assume 1: "ctx_run sample_env two_scopes sample_context = Some c" "scopeOf c ''a'' = Some sa"
  let ?type_of = "\<lambda>p. if p = (100 :: ptr) then 7 else (8 :: type_index)"
  have "\<forall>k t p. OpUserData k t p \<in> set two_scopes \<longrightarrow> ?type_of p = t" by (auto simp: two_scopes_def)
  note typed = user_data_typed [OF 1(1) [unfolded sample_context_def] 1(2) this]
  show ?thesis using typed [of 8] typed [of 7] 1 by (simp add: two_scopes_def)
qed

end
