(* ===== verification/Context_Defaults.thy ===== *)
theory Context_Defaults
  imports Context_Scopes
begin

text \<open>
  Runtime default names (\<open>defaultNamed<T>\<close>): what a request without a name resolves to in a root context
  and in its scopes.
\<close>

subsection \<open>The default of a context and the name a request uses\<close>

definition contextState :: "root_context \<Rightarrow> string option \<Rightarrow> mstate" where
  "contextState c w = (cx_m c)\<lparr>m_scope := (case w of None \<Rightarrow> None | Some key \<Rightarrow> map_option sx_scope (scopeOf c key))\<rparr>"

definition own_default :: "root_context \<Rightarrow> string option \<Rightarrow> TypeId \<Rightarrow> NameId" where
  "own_default c w t = (case w of
       None \<Rightarrow> dt_getDefault (r_defaults (m_reg (cx_m c))) t
     | Some key \<Rightarrow> (case scopeOf c key of None \<Rightarrow> kUnnamed | Some sx \<Rightarrow> dt_getDefault (sc_scopedDefaults (sx_scope sx)) t))"

text \<open>The flags \<open>hasAnyDefault_\<close> and \<open>hasAnyScopedDefault_\<close> are set when a default exists; a scoped table is either unused or
  as large as the one of the registry.\<close>

definition scope_defaults_ok :: "nat \<Rightarrow> scoped \<Rightarrow> bool" where
  "scope_defaults_ok m sc \<longleftrightarrow> (sc_hasAnyScopedDefault sc \<or> (\<forall>t. dt_getDefault (sc_scopedDefaults sc) t = kUnnamed))
     \<and> (dt_size (sc_scopedDefaults sc) = 0 \<or> dt_size (sc_scopedDefaults sc) = m)"

definition defaults_ok :: "root_context \<Rightarrow> bool" where
  "defaults_ok c \<longleftrightarrow> m_scope (cx_m c) = None
     \<and> (r_hasAnyDefault (m_reg (cx_m c)) \<or> (\<forall>t. dt_getDefault (r_defaults (m_reg (cx_m c))) t = kUnnamed))
     \<and> (\<forall>key sx. scopeOf c key = Some sx \<longrightarrow> scope_defaults_ok (dt_size (r_defaults (m_reg (cx_m c)))) (sx_scope sx))"

definition is_context :: "root_context \<Rightarrow> string option \<Rightarrow> bool" where
  "is_context c w \<longleftrightarrow> (case w of None \<Rightarrow> True | Some key \<Rightarrow> scopeOf c key \<noteq> None)"

lemma effective_default:
  assumes ok: "defaults_ok c" and w: "is_context c w"
  shows "effectiveName (contextState c w) t kUnnamed =
    (if own_default c w t \<noteq> kUnnamed then own_default c w t else own_default c None t)"
proof -
  let ?d = "dt_getDefault (r_defaults (m_reg (cx_m c))) t"
  have root: "r_hasAnyDefault (m_reg (cx_m c)) \<or> ?d = kUnnamed" using ok by (auto simp: defaults_ok_def)
  show ?thesis
  proof (cases w)
    case None
    then show ?thesis using root by (auto simp: effectiveName_def contextState_def own_default_def)
  next
    case (Some key)
    then obtain sx where sx: "scopeOf c key = Some sx" using w by (auto simp: is_context_def)
    then have "sc_hasAnyScopedDefault (sx_scope sx) \<or> dt_getDefault (sc_scopedDefaults (sx_scope sx)) t = kUnnamed"
      using ok by (auto simp: defaults_ok_def scope_defaults_ok_def)
    then show ?thesis using root sx by (auto simp: effectiveName_def contextState_def own_default_def Some)
  qed
qed

lemma inContext_run:
  assumes "m_scope (cx_m c) = None" "is_context c w" "m (contextState c w) = (o1, s)"
  shows "inContext w m c = (o1, case w of None \<Rightarrow> c\<lparr>cx_m := s\<rparr>
     | Some key \<Rightarrow> setScope key ((the (scopeOf c key))\<lparr>sx_scope := (case m_scope s of None \<Rightarrow> sx_scope (the (scopeOf c key)) | Some sc \<Rightarrow> sc)\<rparr>)
                    (c\<lparr>cx_m := s\<lparr>m_scope := None\<rparr>\<rparr>))"
proof (cases w)
  case None
  then have "contextState c w = cx_m c" using assms(1) by (simp add: contextState_def)
  then show ?thesis using assms(3) None by (simp add: inContext_def onRoot_def)
next
  case (Some key)
  then obtain sx where "scopeOf c key = Some sx" using assms(2) by (auto simp: is_context_def)
  then show ?thesis using assms(3) Some by (auto simp: inContext_def onScope_def contextState_def split: option.split)
qed

lemma inContext_cong:
  assumes "m_scope (cx_m c) = None" "is_context c w" "m (contextState c w) = m' (contextState c w)"
  shows "inContext w m c = inContext w m' c"
proof -
  obtain o1 s where "m (contextState c w) = (o1, s)" by (cases "m (contextState c w)")
  moreover from this have "m' (contextState c w) = (o1, s)" using assms(3) by simp
  ultimately show ?thesis using inContext_run [OF assms(1,2), of m o1 s] inContext_run [OF assms(1,2), of m' o1 s] by (simp only:)
qed

text \<open>An unnamed request is the request for the name in effect.\<close>

lemma resolve_effective:
  "n \<noteq> kUnnamed \<Longrightarrow> effectiveName s t kUnnamed = n \<Longrightarrow> registry_resolve u res t kUnnamed s = registry_resolve u res t n s"
  by (simp add: registry_resolve_def readM_def effectiveName_def)

lemma context_resolve_default:
  assumes "m_scope (cx_m c) = None" "is_context c w" and n: "ni_lookup (r_names (m_reg (cx_m c))) name = n" "n \<noteq> kUnnamed" "n \<noteq> kInvalidNameId"
    and eff: "effectiveName (contextState c w) (ti_lookupByTypeIndex (r_types (m_reg (cx_m c))) ty) kUnnamed = n"
  shows "inContext w (context_resolve (run u (Suc f)) ty) c = inContext w (context_resolveNamed (run u (Suc f)) ty (Some name)) c"
proof -
  let ?s = "contextState c w"
  have reg: "m_reg ?s = m_reg (cx_m c)" by (simp add: contextState_def)
  show ?thesis
    using resolve_effective [OF n(2) eff] n
    by (intro inContext_cong assms) (simp add: context_resolve_def context_resolveNamed_def readM_def reg Let_def)
qed

lemma lookup_interned:
  assumes "ni_inv ni" "name \<noteq> []" "0 < ni_room ni"
  shows "ni_lookup (snd (ni_intern ni name)) name = fst (ni_intern ni name)" "fst (ni_intern ni name) \<noteq> kUnnamed"
    "fst (ni_intern ni name) \<noteq> kInvalidNameId"
proof -
  have k: "ni_known (snd (ni_intern ni name)) name = Some (fst (ni_intern ni name))" by (rule nin.known_intern [OF assms(1)])
  have inv: "ni_inv (snd (ni_intern ni name))" by (rule nin.invar_intern [OF assms(1,3)])
  show "ni_lookup (snd (ni_intern ni name)) name = fst (ni_intern ni name)" using k assms(2) by (simp add: ni_lookup_def ni_known_def)
  have i: "fst (ni_intern ni name) < length (ni_idToName (snd (ni_intern ni name)))"
      "ni_idToName (snd (ni_intern ni name)) ! fst (ni_intern ni name) = name"
    using k inv assms(2) by (simp_all add: ni_known_def ni_inv_def)
  have b: "ni_idToName (snd (ni_intern ni name)) ! 0 = []" "length (ni_idToName (snd (ni_intern ni name))) \<le> kInvalidNameId - 2"
    using inv by (simp_all add: ni_inv_def)
  show "fst (ni_intern ni name) \<noteq> kUnnamed" using i(2) b(1) assms(2) by (metis kUnnamed_def)
  show "fst (ni_intern ni name) \<noteq> kInvalidNameId" using i(1) b(2) by linarith
qed

text \<open>C17.  Default names. Setting a default name for a registered type in the root or in a scope of a started context
  makes an unnamed request there the same as the request for that name; it changes the default
  of this context and this type only, and every request without a name uses the default of its own
  context or, without one, that of the root.\<close>

theorem default_name_in_effect:
  assumes ok: "defaults_ok c" and w: "is_context c w" and started: "r_started (m_reg (cx_m c))"
    and ni: "ni_inv (r_names (m_reg (cx_m c)))" "0 < ni_room (r_names (m_reg (cx_m c)))" and name: "name \<noteq> []"
    and slot: "ti_lookupByTypeIndex (r_types (m_reg (cx_m c))) ty = t" "t < dt_size (r_defaults (m_reg (cx_m c)))"
    and call: "inContext w (defaultNamed ty name) c = (o1, c')"
  shows "o1 = Ret () \<and> defaults_ok c'
    \<and> inContext w (context_resolve (run u (Suc f)) ty) c' = inContext w (context_resolveNamed (run u (Suc f)) ty (Some name)) c'
    \<and> (\<forall>w' t'. own_default c' w' t' = (if w' = w \<and> t' = t then ni_lookup (r_names (m_reg (cx_m c'))) name else own_default c w' t'))
    \<and> (\<forall>w' t'. is_context c' w' \<longrightarrow> effectiveName (contextState c' w') t' kUnnamed =
          (if own_default c' w' t' \<noteq> kUnnamed then own_default c' w' t' else own_default c' None t'))"
proof -
  let ?r = "m_reg (cx_m c)"
  obtain n r where i: "internNameSafe ?r name = (n, r)" by (cases "internNameSafe ?r name")
  have r: "r = ?r\<lparr>r_names := r_names r\<rparr>" using i name by (auto simp: internNameSafe_def Let_def split: prod.splits)
  have names: "r_names r = snd (ni_intern (r_names ?r) name)" "n = fst (ni_intern (r_names ?r) name)"
    using internNameSafe_names [of ?r name] by (simp_all add: i)
  have n: "ni_lookup (r_names r) name = n" "n \<noteq> kUnnamed" "n \<noteq> kInvalidNameId"
    using lookup_interned [OF ni(1) name ni(2)] by (simp_all add: names)
  have m: "m_scope (cx_m c) = None" using ok by (simp add: defaults_ok_def)
  have fields: "r_started r" "r_types r = r_types ?r" "r_defaults r = r_defaults ?r" "r_hasAnyDefault r = r_hasAnyDefault ?r"
    using started by (subst r, simp)+
  have eff: "\<forall>w' t'. is_context c' w' \<longrightarrow> effectiveName (contextState c' w') t' kUnnamed =
          (if own_default c' w' t' \<noteq> kUnnamed then own_default c' w' t' else own_default c' None t')" if "defaults_ok c'"
    using effective_default [OF that] by blast
  have "o1 = Ret () \<and> defaults_ok c' \<and> is_context c' w \<and> r_names (m_reg (cx_m c')) = r_names r \<and> r_types (m_reg (cx_m c')) = r_types ?r
    \<and> (\<forall>w' t'. own_default c' w' t' = (if w' = w \<and> t' = t then n else own_default c w' t'))"
  proof (cases w)
    case None
    have st: "contextState c None = cx_m c" using m by (simp add: contextState_def)
    have "defaultNamed ty name (cx_m c) = (Ret (), (cx_m c)\<lparr>m_reg := setDefault r t n\<rparr>)"
      using started name slot m by (simp add: defaultNamed_def readM_def Let_def i updM_def)
    then have "o1 = Ret ()" and c': "c' = c\<lparr>cx_m := (cx_m c)\<lparr>m_reg := setDefault r t n\<rparr>\<rparr>"
      using inContext_run [OF m w, of "defaultNamed ty name"] call by (simp_all add: None st)
    moreover have "defaults_ok c'" using ok fields n(2)
      by (auto simp: c' defaults_ok_def setDefault_def scopeOf_def dt_size_set)
    ultimately show ?thesis using slot fields dt_get_set [of t "r_defaults ?r"]
      by (auto simp: None is_context_def own_default_def setDefault_def scopeOf_def split: option.splits)
  next
    case (Some key)
    then obtain sx where sx: "scopeOf c key = Some sx" using w by (auto simp: is_context_def)
    let ?sc = "setScopedDefault (dt_size (r_defaults ?r)) t n (sx_scope sx)"
    have "defaultNamed ty name (contextState c w) = (Ret (), (contextState c w)\<lparr>m_reg := r, m_scope := Some ?sc\<rparr>)"
      using started name slot sx by (simp add: defaultNamed_def readM_def Let_def i updM_def contextState_def Some)
    then have "o1 = Ret ()" and c': "c' = setScope key (sx\<lparr>sx_scope := ?sc\<rparr>) (c\<lparr>cx_m := (cx_m c)\<lparr>m_reg := r, m_scope := None\<rparr>\<rparr>)"
      using inContext_run [OF m w, of "defaultNamed ty name"] call by (simp_all add: Some sx contextState_def)
    have size: "scope_defaults_ok (dt_size (r_defaults ?r)) (sx_scope sx)" using ok sx by (simp add: defaults_ok_def)
    have get: "dt_getDefault (sc_scopedDefaults ?sc) t' = (if t' = t then n else dt_getDefault (sc_scopedDefaults (sx_scope sx)) t')" for t'
      using size slot(2) dt_get_set [of t "dt_resize (dt_size (r_defaults ?r))" n t'] dt_get_set [of t "sc_scopedDefaults (sx_scope sx)" n t']
      by (auto simp: setScopedDefault_def Let_def scope_defaults_ok_def dt_size_def dt_resize_def dt_getDefault_def)
    have so: "scopeOf c' k = (if k = key then Some (sx\<lparr>sx_scope := ?sc\<rparr>) else scopeOf c k)" for k
      unfolding c' scopeOf_set by (simp add: scopeOf_def)
    have reg: "m_reg (cx_m c') = r" "m_scope (cx_m c') = None" by (simp_all add: c' setScope_def)
    have "scope_defaults_ok (dt_size (r_defaults ?r)) ?sc"
      using size by (auto simp: scope_defaults_ok_def setScopedDefault_def Let_def dt_size_def dt_resize_def dt_setDefault_def)
    then have "defaults_ok c'" using ok by (auto simp: defaults_ok_def so reg fields)
    moreover have "own_default c' w' t' = (if w' = w \<and> t' = t then n else own_default c w' t')" for w' t'
      using get sx by (auto simp: own_default_def so reg fields Some split: option.splits)
    ultimately show ?thesis using \<open>o1 = Ret ()\<close> by (simp add: reg fields is_context_def so Some)
  qed
  note * = this
  have lk: "ni_lookup (r_names (m_reg (cx_m c'))) name = n" using * n(1) by simp
  have "effectiveName (contextState c' w) t kUnnamed = n" using * eff n(2) by simp
  then have "inContext w (context_resolve (run u (Suc f)) ty) c' = inContext w (context_resolveNamed (run u (Suc f)) ty (Some name)) c'"
    using * slot(1) by (intro context_resolve_default [OF _ _ lk n(2,3)]) (simp_all add: defaults_ok_def)
  then show ?thesis using * eff lk by simp
qed

definition started_sample :: root_context where
  "started_sample = sample_context\<lparr>cx_m := (cx_m sample_context)\<lparr>m_reg := registry_init\<lparr>r_started := True,
     r_types := snd (ti_internByName ti_init ''app::A'' 5), r_defaults := dt_resize 1\<rparr>\<rparr>,
     cx_scopes := [(''a'', new_scope 11 1 0), (''b'', new_scope 12 2 0)]\<rparr>"

theorem default_name_in_effect_witness:
  "\<exists>c'. inContext (Some ''a'') (defaultNamed 5 ''fast'') started_sample = (Ret (), c')
     \<and> inContext (Some ''a'') (context_resolve (run idle_user 4) 5) c' = inContext (Some ''a'') (context_resolveNamed (run idle_user 4) 5 (Some ''fast'')) c'
     \<and> own_default c' (Some ''b'') 0 = kUnnamed \<and> own_default c' None 0 = kUnnamed"
proof -
  obtain o1 c' where call: "inContext (Some ''a'') (defaultNamed 5 ''fast'') started_sample = (o1, c')"
    by (cases "inContext (Some ''a'') (defaultNamed 5 ''fast'') started_sample")
  have t: "ti_lookupByTypeIndex (r_types (m_reg (cx_m started_sample))) 5 = 0"
    by (simp add: started_sample_def sample_context_def new_context_def ti_lookupByTypeIndex_def ti_internByName_def ti_init_def Let_def u32_def emplace_def)
  have ok: "defaults_ok started_sample"
    by (auto simp: defaults_ok_def started_sample_def sample_context_def new_context_def scopeOf_def scope_defaults_ok_def new_scope_def
        dt_getDefault_def dt_resize_def dt_size_def kUnnamed_def less_Suc0 not_le split: if_splits)
  have own: "own_default started_sample (Some ''b'') 0 = kUnnamed" "own_default started_sample None 0 = kUnnamed"
    by (simp_all add: own_default_def started_sample_def sample_context_def new_context_def scopeOf_def new_scope_def dt_getDefault_def dt_resize_def)
  have "is_context started_sample (Some ''a'')" "r_started (m_reg (cx_m started_sample))" "ni_inv (r_names (m_reg (cx_m started_sample)))"
    "0 < ni_room (r_names (m_reg (cx_m started_sample)))" "0 < dt_size (r_defaults (m_reg (cx_m started_sample)))"
    by (simp_all add: is_context_def started_sample_def sample_context_def new_context_def scopeOf_def registry_init_def
        ni_inv_init [unfolded ni_init_def] ni_room_def ni_init_def dt_size_def dt_resize_def sentinel_defs)
  from default_name_in_effect [OF ok this(1-4) _ t this(5) call, of idle_user 3]
  show ?thesis using call own by (auto simp: numeral_eq_Suc)
qed

end
