(* ===== verification/Context_Lifecycle.thy ===== *)
theory Context_Lifecycle
  imports Context_Scopes
begin

text \<open>
  The start and the stop of a whole context: the order in which \<open>BeanContext::stop\<close> ends the scopes and the
  registry, and a \<open>BeanContext::start\<close> that either completes or leaves no bean behind.
\<close>

subsection \<open>User code that only observes\<close>

text \<open>Computations that return after some logging and the destruction of \<open>ds\<close>.\<close>

definition logs :: "ptr list \<Rightarrow> unit comp \<Rightarrow> bool" where
  "logs ds m \<longleftrightarrow> (\<forall>s. \<exists>evs. m s = (Ret (), s\<lparr>m_log := m_log s @ evs\<rparr>) \<and> destroyed evs = ds)"

lemma logsE:
  assumes "logs ds m"
  obtains evs where "m s = (Ret (), s\<lparr>m_log := m_log s @ evs\<rparr>)" "destroyed evs = ds"
  using assms by (auto simp: logs_def)

lemma l_ret: "logs [] (retM ())"
proof -
  have "retM () s = (Ret (), s\<lparr>m_log := m_log s @ []\<rparr>) \<and> destroyed [] = []" for s :: mstate by (simp add: retM_def)
  then show ?thesis unfolding logs_def by blast
qed

lemma l_log: "logs (destroyed [ev]) (logM ev)"
  by (auto simp: logs_def logM_def updM_def)

lemma l_bind:
  assumes "logs ds m" "logs es (k ())"
  shows "logs (ds @ es) (bindM m k)"
  unfolding logs_def
proof
  fix s
  obtain evs where 1: "m s = (Ret (), s\<lparr>m_log := m_log s @ evs\<rparr>)" "destroyed evs = ds" by (rule logsE [OF assms(1)])
  obtain evs2 where "k () (s\<lparr>m_log := m_log s @ evs\<rparr>) = (Ret (), s\<lparr>m_log := m_log s @ evs\<rparr>\<lparr>m_log := m_log (s\<lparr>m_log := m_log s @ evs\<rparr>) @ evs2\<rparr>)"
    "destroyed evs2 = es" by (rule logsE [OF assms(2)])
  then have "bindM m k s = (Ret (), s\<lparr>m_log := m_log s @ (evs @ evs2)\<rparr>) \<and> destroyed (evs @ evs2) = ds @ es"
    using 1 by (simp add: bindM_def)
  then show "\<exists>evs. bindM m k s = (Ret (), s\<lparr>m_log := m_log s @ evs\<rparr>) \<and> destroyed evs = ds @ es" by blast
qed

lemma l_read: "(\<And>s. logs ds (f s)) \<Longrightarrow> logs ds (readM f)"
  by (simp add: logs_def readM_def)

lemma l_hidden:
  assumes "logs ds m"
  shows "logs ds (noexceptM (withoutScope m))"
  unfolding logs_def
proof
  fix s
  obtain evs where "m (s\<lparr>m_scope := None\<rparr>) = (Ret (), s\<lparr>m_scope := None\<rparr>\<lparr>m_log := m_log (s\<lparr>m_scope := None\<rparr>) @ evs\<rparr>)" "destroyed evs = ds"
    by (rule logsE [OF assms])
  then show "\<exists>evs. noexceptM (withoutScope m) s = (Ret (), s\<lparr>m_log := m_log s @ evs\<rparr>) \<and> destroyed evs = ds"
    by (auto simp: noexceptM_def withoutScope_def)
qed

lemma l_callAll:
  assumes "harmless u"
  shows "logs [] (callAll u res cs)"
proof (induction cs)
  case (Cons c cs)
  have "logs [] (run_actions res (u_callback u c))" using assms l_ret by (simp add: harmless_def)
  from l_bind [OF l_log [of "EvCallback c"] l_bind [OF this Cons]] show ?case by simp
qed (simp add: l_ret)

lemma l_dispatch: "harmless u \<Longrightarrow> logs [] (dispatchM u res ph ty sc)"
  unfolding dispatchM_def by (rule l_read) (auto intro: l_ret l_callAll split: option.splits)

lemma l_preDestroy:
  assumes "harmless u"
  shows "logs [] (preDestroyM u res cold mem)"
proof (cases "c_preDestroy cold")
  case (Some th)
  have "logs (destroyed [EvPreDestroy th mem] @ []) (bindM (logM (EvPreDestroy th mem)) (\<lambda>_. retM ()))"
    by (intro l_bind l_log l_ret)
  then show ?thesis using assms Some by (simp add: preDestroyM_def runThunk_def harmless_def)
qed (simp add: preDestroyM_def l_ret)

lemma l_destroySteps:
  assumes "harmless u"
  shows "logs [mem] (destroySteps u res cold mem emitter)"
proof -
  have destroy: "logs [mem] (logM (EvDestroy (c_destroy cold) mem))" using l_log [of "EvDestroy (c_destroy cold) mem"] by simp
  have disp: "logs [] (if b then dispatchM u res ph ty emitter else retM ())" for b ph ty using l_dispatch [OF assms] l_ret by simp
  have "logs ([] @ [] @ [] @ [mem])
      (bindM (if b then dispatchM u res phasePreDestroy (c_exposedType cold) emitter else retM ()) (\<lambda>_.
       bindM (preDestroyM u res cold mem) (\<lambda>_.
       bindM (if c then dispatchM u res phaseDestroyed (c_exposedType cold) emitter else retM ()) (\<lambda>_.
       logM (EvDestroy (c_destroy cold) mem)))))" for b c
    by (intro l_bind disp l_preDestroy destroy assms)
  moreover have "logs ([] @ [mem]) (bindM (preDestroyM u res cold mem) (\<lambda>_. logM (EvDestroy (c_destroy cold) mem)))"
    by (intro l_bind l_preDestroy destroy assms)
  ultimately show ?thesis unfolding destroySteps_def Let_def by (intro l_read) simp
qed

lemma l_destruction:
  assumes "harmless u" "d < dtb_size (r_descriptors (m_reg s))"
  obtains evs where "executeDestructionLifecycle u res d mem emitter s = (Ret (), s\<lparr>m_log := m_log s @ evs\<rparr>)"
proof -
  let ?cold = "dtb_coldAt (r_descriptors (m_reg s)) d"
  have "logs [] (deallocM ?cold mem)" using l_log [of "EvFree mem _"] l_ret by (simp add: deallocM_def)
  then have "logs ([mem] @ []) (bindM (destroySteps u res ?cold mem emitter) (\<lambda>_. deallocM ?cold mem))"
    by (intro l_bind l_destroySteps assms)
  from l_hidden [OF this] obtain evs where
    "noexceptM (withoutScope (bindM (destroySteps u res ?cold mem emitter) (\<lambda>_. deallocM ?cold mem))) s = (Ret (), s\<lparr>m_log := m_log s @ evs\<rparr>)"
    by (rule logsE)
  then show thesis using that assms(2) by (simp add: executeDestructionLifecycle_def readM_def Let_def)
qed

text \<open>With such user code the loop of \<open>stopScope\<close> returns and changes nothing but the log and the store of the scope.\<close>

lemma nullSlot_defined: "ses_find st k \<noteq> None \<Longrightarrow> ses_wf st \<Longrightarrow> \<exists>st'. ses_nullSlot st k = Some st'"
  by (auto simp: ses_find_def ses_wf_def ses_nullSlot_def split: if_splits option.splits)

lemma destroySession_returns:
  assumes "harmless u" "m_scope s = Some sc" "ses_wf (sc_sessionStore sc)" "\<forall>d \<in> set ds. d < dtb_size (r_descriptors (m_reg s))"
  shows "\<exists>l st. destroySession u res pt dfr nm ds s = (Ret (), s\<lparr>m_log := l, m_scope := Some (sc\<lparr>sc_sessionStore := st\<rparr>)\<rparr>)"
  using assms(2-)
proof (induction ds arbitrary: s sc)
  case Nil
  have "s = s\<lparr>m_log := m_log s, m_scope := Some (sc\<lparr>sc_sessionStore := sc_sessionStore sc\<rparr>)\<rparr>" using Nil(1) by simp
  then show ?case by (simp only: destroySession.simps retM_def) blast
next
  case (Cons d ds)
  let ?slot = "d_sessionSlot (dtb_at (r_descriptors (m_reg s)) d)" and ?cold = "dtb_coldAt (r_descriptors (m_reg s)) d"
  have d: "d < dtb_size (r_descriptors (m_reg s))" using Cons.prems(3) by simp
  show ?case
  proof (cases "sessionFind s ?slot")
    case None
    have skip: "bindM (retM ()) k s = k () s" for k :: "unit \<Rightarrow> unit comp" by (simp add: bindM_def retM_def)
    show ?thesis using Cons d None by (simp add: bind_read Let_def skip)
  next
    case (Some mem)
    define blk where "blk = \<lparr>rb_descId = d, rb_memory = mem, rb_dealloc = c_dealloc ?cold, rb_size = c_size ?cold, rb_align = c_align ?cold\<rparr>"
    define st where "st = (if dfr then ses_retireDeallocation (sc_sessionStore sc) (pt d) blk else sc_sessionStore sc)"
    define bean :: "unit comp" where "bean = (if dfr
       then bindM (noexceptM (withoutScope (destroySteps u res ?cold mem nm))) (\<lambda>_.
            updM (\<lambda>s. s\<lparr>m_scope := map_option (\<lambda>sc. sc\<lparr>sc_sessionStore := ses_retireDeallocation (sc_sessionStore sc) (pt d) blk\<rparr>) (m_scope s)\<rparr>))
       else executeDestructionLifecycle u res d mem nm)"
    obtain l where l: "bean s = (Ret (), s\<lparr>m_log := l, m_scope := Some (sc\<lparr>sc_sessionStore := st\<rparr>)\<rparr>)"
    proof (cases dfr)
      case True
      obtain evs where "noexceptM (withoutScope (destroySteps u res ?cold mem nm)) s = (Ret (), s\<lparr>m_log := m_log s @ evs\<rparr>)"
        using l_hidden [OF l_destroySteps [OF assms(1)]] by (rule logsE)
      then show thesis using that [of "m_log s @ evs"] True Cons.prems(1) by (simp add: bean_def st_def bindM_def updM_def)
    next
      case False
      obtain evs where "executeDestructionLifecycle u res d mem nm s = (Ret (), s\<lparr>m_log := m_log s @ evs\<rparr>)"
        by (rule l_destruction [OF assms(1) d])
      moreover have "s\<lparr>m_log := m_log s @ evs\<rparr> = s\<lparr>m_log := m_log s @ evs, m_scope := Some (sc\<lparr>sc_sessionStore := sc_sessionStore sc\<rparr>)\<rparr>"
        using Cons.prems(1) by simp
      ultimately show thesis using that [of "m_log s @ evs"] False by (simp add: bean_def st_def)
    qed
    have "ses_find st ?slot \<noteq> None" "ses_wf st" using Some Cons.prems(1,2) by (auto simp: st_def sessionFind_def)
    then obtain st' where st': "ses_nullSlot st ?slot = Some st'" "ses_wf st'" using nullSlot_defined nullSlot_find(1) by blast
    have "destroySession u res pt dfr nm (d # ds) s = bindM bean (\<lambda>_. bindM (tryUpdM (\<lambda>s. case m_scope s of None \<Rightarrow> None
         | Some sc \<Rightarrow> map_option (\<lambda>st. s\<lparr>m_scope := Some (sc\<lparr>sc_sessionStore := st\<rparr>)\<rparr>) (ses_nullSlot (sc_sessionStore sc) ?slot)))
         (\<lambda>_. destroySession u res pt dfr nm ds)) s"
      using d Some by (cases dfr) (simp_all add: bind_read bind_assoc Let_def bean_def blk_def)
    also have "\<dots> = destroySession u res pt dfr nm ds (s\<lparr>m_log := l, m_scope := Some (sc\<lparr>sc_sessionStore := st'\<rparr>)\<rparr>)"
      by (simp add: bindM_def l tryUpdM_def st'(1))
    finally have "destroySession u res pt dfr nm (d # ds) s
        = destroySession u res pt dfr nm ds (s\<lparr>m_log := l, m_scope := Some (sc\<lparr>sc_sessionStore := st'\<rparr>)\<rparr>)" .
    then show ?thesis using Cons.IH [of "s\<lparr>m_log := l, m_scope := Some (sc\<lparr>sc_sessionStore := st'\<rparr>)\<rparr>" "sc\<lparr>sc_sessionStore := st'\<rparr>"]
        Cons.prems(3) st'(2) by simp
  qed
qed

subsection \<open>The scopes\<close>

text \<open>The store of a running scope is indexed by the slots of descriptors of the table.\<close>

definition sessions_ok :: "mstate \<Rightarrow> scoped \<Rightarrow> bool" where
  "sessions_ok s sc \<longleftrightarrow> (\<exists>D. ses_inv (session_slot s) D (sc_sessionStore sc) \<and> inj_on (session_slot s) D
     \<and> D \<subseteq> {..<dtb_size (r_descriptors (m_reg s))})"

definition scope_beans :: "mstate \<Rightarrow> scoped \<Rightarrow> ptr list" where
  "scope_beans s sc = (if sc_scopeState sc = Running
     then map (\<lambda>d. the (ses_find (sc_sessionStore sc) (session_slot s d))) (rev (ses_insertionOrder (sc_sessionStore sc))) else [])"

lemma session_slot_cong: "r_descriptors (m_reg s') = r_descriptors (m_reg s) \<Longrightarrow> session_slot s' = session_slot s"
  by (simp add: session_slot_def fun_eq_iff)

lemma scope_cong:
  assumes "r_descriptors (m_reg s') = r_descriptors (m_reg s)"
  shows "sessions_ok s' sc = sessions_ok s sc" "scope_beans s' sc = scope_beans s sc"
  using session_slot_cong [OF assms] assms by (simp_all add: sessions_ok_def scope_beans_def)

lemma scope_stop_returns:
  assumes "harmless u" "m_scope s = Some sc" "sessions_ok s sc"
  shows "\<exists>l x. scope_stop u res pt s = (Ret (), s\<lparr>m_log := l, m_scope := Some x\<rparr>)"
proof (cases "sc_scopeState sc = Running")
  case True
  let ?sc = "sc\<lparr>sc_scopeState := Stopping\<rparr>" and ?ds = "rev (ses_insertionOrder (sc_sessionStore sc))"
  let ?s = "s\<lparr>m_scope := Some ?sc\<rparr>"
  from assms(3) obtain D where D: "ses_inv (session_slot s) D (sc_sessionStore sc)" "D \<subseteq> {..<dtb_size (r_descriptors (m_reg s))}"
    by (auto simp: sessions_ok_def)
  then have "\<forall>d \<in> set ?ds. d < dtb_size (r_descriptors (m_reg ?s))" by (auto simp: ses_inv_def)
  moreover have "ses_wf (sc_sessionStore ?sc)" using ses_inv_wf [OF D(1)] by simp
  ultimately obtain l st where "destroySession u res pt False (sc_scopeNameId sc) ?ds ?s = (Ret (), ?s\<lparr>m_log := l, m_scope := Some (?sc\<lparr>sc_sessionStore := st\<rparr>)\<rparr>)"
    using destroySession_returns [OF assms(1), where s = ?s and sc = ?sc and ds = ?ds and res = res and pt = pt and dfr = False and nm = "sc_scopeNameId sc"]
    by auto
  then show ?thesis using assms(2) True
    by (simp add: scope_stop_def stopScope_def readM_def updScope_def bind_upd) (auto simp: bindM_def updM_def)
next
  case False
  then have "scope_stop u res pt s = (Ret (), s)" using assms(2) by (simp add: scope_stop_def readM_def retM_def)
  moreover have "s = s\<lparr>m_log := m_log s, m_scope := Some sc\<rparr>" using assms(2) by simp
  ultimately show ?thesis by metis
qed

text \<open>What the teardown of a scope leaves alone in the registry.\<close>

interpretation rf: destruction_frame "\<lambda>s s'. reg_frame (m_reg s) (m_reg s')"
proof (unfold_locales, goal_cases)
  case (2 s s' s'')
  then show ?case by (rule reg_frame_trans)
next
  case (5 d sc s s')
  then show ?case by (intro reg_frame_release [where s' = s' and ss = "r_singletons (m_reg s')"]) (simp_all add: singleton_frame_refl)
next
  case (6 d s s' mem s'')
  then obtain ss where "ss_store (r_singletons (m_reg s')) d mem = Some ss" "s'' = s'\<lparr>m_reg := (m_reg s')\<lparr>r_singletons := ss\<rparr>\<rparr>"
    by (auto simp: singletonStore_def)
  then show ?case using 6(1,2) by (intro reg_frame_release [where s' = s' and ss = ss]) (simp_all add: singleton_frame_store)
next
  case (7 d sc s s' slot mem s'')
  then have "m_reg s'' = m_reg s'" by (auto simp: sessionStore_def split: option.splits)
  then show ?case using 7(1,2)
    by (intro reg_frame_release [where s' = s' and ss = "r_singletons (m_reg s')"]) (simp_all add: singleton_frame_refl)
qed (simp_all add: reg_frame_refl)

lemma scope_stop_run:
  assumes run: "scope_stop u (run u f) pt s = (Ret (), s')" and sc: "m_scope s = Some sc" "sc_scopeState sc = Running \<longrightarrow> sessions_ok s sc"
  shows "reg_frame (m_reg s) (m_reg s') \<and> destroyed (m_log s') = destroyed (m_log s) @ scope_beans s sc
    \<and> (\<exists>sc'. m_scope s' = Some sc' \<and> sc_scopeState sc' \<noteq> Running
         \<and> (sc_scopeState sc = Running \<longrightarrow> (\<forall>k. ses_find (sc_sessionStore sc') k = None)))"
proof (cases "sc_scopeState sc = Running")
  case True
  then obtain D where D: "ses_inv (session_slot s) D (sc_sessionStore sc)" "inj_on (session_slot s) D" using sc(2) by (auto simp: sessions_ok_def)
  have "stopScope u (run u f) pt False s = (Ret (), s')" using run sc(1) True by (simp add: scope_stop_def readM_def)
  from stopScope_run [OF sc(1) D this] keeps_Ret [OF rf.t_scope_stop run] True show ?thesis by (auto simp: scope_beans_def)
next
  case False
  then have "s' = s" using run sc(1) by (simp add: scope_stop_def readM_def retM_def)
  then show ?thesis using False sc(1) by (auto simp: scope_beans_def reg_frame_refl)
qed

definition scopes_sound :: "root_context \<Rightarrow> bool" where
  "scopes_sound c \<longleftrightarrow> (\<forall>key sx. scopeOf c key = Some sx \<and> sc_scopeState (sx_scope sx) = Running \<longrightarrow> sessions_ok (cx_m c) (sx_scope sx))"

definition beansOf :: "root_context \<Rightarrow> string \<Rightarrow> ptr list" where
  "beansOf c key = (case scopeOf c key of None \<Rightarrow> [] | Some sx \<Rightarrow> scope_beans (cx_m c) (sx_scope sx))"

text \<open>After the call: not running, and no instance left if it was running.\<close>

definition ended :: "root_context \<Rightarrow> root_context \<Rightarrow> string \<Rightarrow> bool" where
  "ended c c' key \<longleftrightarrow> (\<exists>sx sx'. scopeOf c key = Some sx \<and> scopeOf c' key = Some sx' \<and> sc_scopeState (sx_scope sx') \<noteq> Running
     \<and> (sc_scopeState (sx_scope sx) = Running \<longrightarrow> (\<forall>k. ses_find (sc_sessionStore (sx_scope sx')) k = None)))"

lemma stop_one_run:
  assumes run: "onScope key (scope_stop u (run u f) pt) c = (Ret (), c')" and ok: "scopes_sound c"
  shows "reg_frame (m_reg (cx_m c)) (m_reg (cx_m c')) \<and> destroyed (m_log (cx_m c')) = destroyed (m_log (cx_m c)) @ beansOf c key
    \<and> ended c c' key \<and> (\<forall>k. k \<noteq> key \<longrightarrow> scopeOf c' k = scopeOf c k)"
proof -
  obtain sx where sx: "scopeOf c key = Some sx" using run by (auto simp: onScope_def split: option.splits)
  let ?s = "(cx_m c)\<lparr>m_scope := Some (sx_scope sx)\<rparr>"
  obtain s where s: "scope_stop u (run u f) pt ?s = (Ret (), s)"
    "c' = setScope key (sx\<lparr>sx_scope := (case m_scope s of None \<Rightarrow> sx_scope sx | Some sc \<Rightarrow> sc)\<rparr>) (c\<lparr>cx_m := s\<lparr>m_scope := None\<rparr>\<rparr>)"
    using run sx by (auto simp: onScope_def split: prod.splits)
  have cong: "sessions_ok ?s = sessions_ok (cx_m c)" "scope_beans ?s = scope_beans (cx_m c)" using scope_cong [of ?s "cx_m c"] by auto
  have "sc_scopeState (sx_scope sx) = Running \<longrightarrow> sessions_ok ?s (sx_scope sx)" using ok sx by (auto simp: scopes_sound_def cong)
  from scope_stop_run [OF s(1) _ this] sx show ?thesis
    by (auto simp: s(2) scopeOf_set cong beansOf_def ended_def) (auto simp: setScope_def scopeOf_def)
qed

lemma reg_frame_fields:
  assumes "reg_frame r r'"
  shows "r_descriptors r' = r_descriptors r" "r_started r' = r_started r" "singleton_frame (r_singletons r) (r_singletons r')"
  using assms by (auto simp: reg_frame_def)

lemma stopScopes_run:
  assumes "stopScopes u (run u f) pt order c = (Ret (), c')" "distinct order" "scopes_sound c"
  shows "reg_frame (m_reg (cx_m c)) (m_reg (cx_m c'))
    \<and> destroyed (m_log (cx_m c')) = destroyed (m_log (cx_m c)) @ concat (map (beansOf c) order)
    \<and> (\<forall>key \<in> set order. ended c c' key) \<and> (\<forall>k. k \<notin> set order \<longrightarrow> scopeOf c' k = scopeOf c k)"
  using assms
proof (induction order arbitrary: c)
  case Nil
  then show ?case by (simp add: retM_def reg_frame_refl)
next
  case (Cons key order)
  from Cons.prems(1) obtain c1 where 1: "onScope key (scope_stop u (run u f) pt) c = (Ret (), c1)" "stopScopes u (run u f) pt order c1 = (Ret (), c')"
    by (auto elim!: bind_RetE)
  note h = stop_one_run [OF 1(1) Cons.prems(3)]
  have dt: "r_descriptors (m_reg (cx_m c1)) = r_descriptors (m_reg (cx_m c))" using h reg_frame_fields(1) by blast
  have "\<not> (scopeOf c1 key = Some sx \<and> sc_scopeState (sx_scope sx) = Running)" for sx using h by (auto simp: ended_def)
  then have "scopes_sound c1" using Cons.prems(3) h unfolding scopes_sound_def scope_cong(1) [OF dt] by metis
  note ih = Cons.IH [OF 1(2) _ this]
  have same: "scopeOf c1 k = scopeOf c k" if "k \<in> set order" for k using h that Cons.prems(2) by auto
  then have beans: "concat (map (beansOf c1) order) = concat (map (beansOf c) order)"
    by (intro arg_cong [of _ _ concat] map_cong) (simp_all add: beansOf_def scope_cong(2) [OF dt] split: option.split)
  have "ended c c' k" if "k \<in> set order" for k
  proof -
    have "ended c1 c' k" using ih Cons.prems(2) that by simp
    then show ?thesis by (simp only: ended_def same [OF that])
  qed
  moreover have "ended c c' key"
  proof -
    have "scopeOf c' key = scopeOf c1 key" using ih Cons.prems(2) by auto
    then show ?thesis using h by (simp add: ended_def)
  qed
  moreover have "reg_frame (m_reg (cx_m c)) (m_reg (cx_m c'))" using h ih Cons.prems(2) reg_frame_trans by auto
  moreover have "destroyed (m_log (cx_m c')) = destroyed (m_log (cx_m c)) @ concat (map (beansOf c) (key # order))"
    using h ih Cons.prems(2) beans by simp
  moreover have "scopeOf c' k = scopeOf c k" if "k \<notin> set (key # order)" for k using h ih Cons.prems(2) that by simp
  ultimately show ?case by auto
qed

lemma stopScopes_returns:
  assumes "harmless u" "\<forall>key \<in> set order. scopeOf c key \<noteq> None" "scopes_sound c" "distinct order"
  shows "\<exists>c'. stopScopes u (run u f) pt order c = (Ret (), c') \<and> m_reg (cx_m c') = m_reg (cx_m c) \<and> m_proto (cx_m c') = m_proto (cx_m c)"
  using assms(2-)
proof (induction order arbitrary: c)
  case Nil
  then show ?case by (simp add: retM_def)
next
  case (Cons key order)
  then obtain sx where sx: "scopeOf c key = Some sx" by auto
  let ?s = "(cx_m c)\<lparr>m_scope := Some (sx_scope sx)\<rparr>"
  have cong: "sessions_ok ?s = sessions_ok (cx_m c)" using scope_cong [of ?s "cx_m c"] by auto
  obtain l x where "scope_stop u (run u f) pt ?s = (Ret (), ?s\<lparr>m_log := l, m_scope := Some x\<rparr>)"
  proof (cases "sc_scopeState (sx_scope sx) = Running")
    case True
    then have "sessions_ok ?s (sx_scope sx)" using Cons.prems(2) sx by (auto simp: scopes_sound_def cong)
    with scope_stop_returns [OF assms(1), where s = ?s and sc = "sx_scope sx" and res = "run u f" and pt = pt] that show thesis by auto
  next
    case False
    then have "scope_stop u (run u f) pt ?s = (Ret (), ?s\<lparr>m_log := m_log ?s, m_scope := Some (sx_scope sx)\<rparr>)"
      by (simp add: scope_stop_def readM_def retM_def)
    with that show thesis by blast
  qed
  then obtain c1 where c1: "onScope key (scope_stop u (run u f) pt) c = (Ret (), c1)" "m_reg (cx_m c1) = m_reg (cx_m c)" "m_proto (cx_m c1) = m_proto (cx_m c)"
    using sx by (auto simp: onScope_def setScope_def)
  note h = stop_one_run [OF c1(1) Cons.prems(2)]
  have "\<not> (scopeOf c1 key = Some y \<and> sc_scopeState (sx_scope y) = Running)" for y using h by (auto simp: ended_def)
  then have "scopes_sound c1" using Cons.prems(2) h unfolding scopes_sound_def scope_cong(1) [OF arg_cong [OF c1(2), of r_descriptors]] by metis
  moreover have "\<forall>k \<in> set order. scopeOf c1 k \<noteq> None" using h Cons.prems(1,3) by auto
  ultimately obtain c' where "stopScopes u (run u f) pt order c1 = (Ret (), c') \<and> m_reg (cx_m c') = m_reg (cx_m c1) \<and> m_proto (cx_m c') = m_proto (cx_m c1)"
    using Cons.IH Cons.prems(3) by auto
  then show ?case using c1 by (simp add: bindM_def)
qed

subsection \<open>The registry and the whole context\<close>

lemma destroyAll_run:
  assumes "\<not> r_started (m_reg s)"
  shows "(\<exists>evs. destroyAll u (run u (Suc f)) xs s = (Ret (), s\<lparr>m_log := m_log s @ evs\<rparr>) \<and> destroyed evs = map snd xs)
     \<or> (\<exists>s'. destroyAll u (run u (Suc f)) xs s = (Abort, s')) \<and> \<not> (harmless u \<and> (\<forall>(d, mem) \<in> set xs. d < dtb_size (r_descriptors (m_reg s))))"
  using assms
proof (induction xs arbitrary: s)
  case Nil
  have "retM () s = (Ret (), s\<lparr>m_log := m_log s @ []\<rparr>) \<and> destroyed [] = map snd []" by (simp add: retM_def)
  then show ?case unfolding destroyAll.simps by blast
next
  case (Cons x xs)
  obtain d mem where x: "x = (d, mem)" by (cases x)
  show ?case
  proof (rule destruction_run [OF Cons.prems, where u = u and f = f and d = d and mem = mem and emitter = kNoScope])
    fix s' assume "executeDestructionLifecycle u (run u (Suc f)) d mem kNoScope s = (Abort, s')"
      "\<not> (harmless u \<and> d < dtb_size (r_descriptors (m_reg s)))"
    then show ?thesis by (auto simp: bindM_def x)
  next
    fix evs assume e: "executeDestructionLifecycle u (run u (Suc f)) d mem kNoScope s = (Ret (), s\<lparr>m_log := m_log s @ evs\<rparr>)" "destroyed evs = [mem]"
    have "\<not> r_started (m_reg (s\<lparr>m_log := m_log s @ evs\<rparr>))" using Cons.prems by simp
    from Cons.IH [OF this] show ?thesis
    proof (elim disjE exE conjE)
      fix evs2 assume 2: "destroyAll u (run u (Suc f)) xs (s\<lparr>m_log := m_log s @ evs\<rparr>) =
          (Ret (), s\<lparr>m_log := m_log s @ evs, m_log := m_log (s\<lparr>m_log := m_log s @ evs\<rparr>) @ evs2\<rparr>)" "destroyed evs2 = map snd xs"
      then have "destroyAll u (run u (Suc f)) (x # xs) s = (Ret (), s\<lparr>m_log := m_log s @ (evs @ evs2)\<rparr>)" "destroyed (evs @ evs2) = map snd (x # xs)"
        by (simp_all add: bindM_def e x)
      then show ?thesis by blast
    qed (auto simp: bindM_def e x)
  qed
qed

text \<open>Every instance and every thread-local bean collected belongs to a descriptor of the table.\<close>

definition owners_known :: "mstate \<Rightarrow> (DescriptorId \<times> ptr) list \<Rightarrow> bool" where
  "owners_known s tls \<longleftrightarrow> proto_in_range s
     \<and> (\<forall>d \<in> set (ss_insertionOrder (r_singletons (m_reg s))). d < dtb_size (r_descriptors (m_reg s)))
     \<and> (\<forall>(d, mem) \<in> set tls. d < dtb_size (r_descriptors (m_reg s)))"

definition registryBeans :: "mstate \<Rightarrow> ptr list" where
  "registryBeans s = map (\<lambda>d. the (ss_find (r_singletons (m_reg s)) d)) (rev (ss_insertionOrder (r_singletons (m_reg s))))
     @ List.map_filter (ps_memoryAt (m_proto s)) (rev [0..<ps_slotCount (m_proto s)])"

definition registryEmpty :: "mstate \<Rightarrow> bool" where
  "registryEmpty s \<longleftrightarrow> \<not> r_started (m_reg s) \<and> (\<forall>d. ss_find (r_singletons (m_reg s)) d = None) \<and> (\<forall>i. ps_memoryAt (m_proto s) i = None)"

text \<open>No teardown changes the descriptors.\<close>

interpretation df: destruction_frame "\<lambda>s s'. r_descriptors (m_reg s') = r_descriptors (m_reg s)"
  by unfold_locales (auto simp: claimed_def releaseClaim_def singletonStore_def sessionStore_def split: option.splits)

lemma df_stopOwned: "keeps (\<lambda>s s'. r_descriptors (m_reg s') = r_descriptors (m_reg s)) (stopRegistryOwnedBeans u (run u f))"
proof -
  have "keeps (\<lambda>s s'. r_descriptors (m_reg s') = r_descriptors (m_reg s)) (updReg g)"
    if "\<And>r. r_descriptors (g r) = r_descriptors r" for g
    unfolding updReg_def by (rule df.r_upd) (simp add: that)
  then show ?thesis
    unfolding stopRegistryOwnedBeans_def by (auto intro!: df.t_basic df.t_destroySingletons df.t_destroyPrototypes)
qed

lemma registry_stop_run:
  assumes "r_started (m_reg s)" "ss_inv (r_singletons (m_reg s))" "registry_stop u (run u (Suc f)) tls s = (o1, s')"
  shows "(o1 = Abort \<and> \<not> (harmless u \<and> owners_known s tls))
    \<or> (o1 = Ret () \<and> destroyed (m_log s') = destroyed (m_log s) @ registryBeans s @ map snd tls \<and> registryEmpty s')"
proof -
  obtain o2 s1 where s1: "stopRegistryOwnedBeans u (run u (Suc f)) s = (o2, s1)" by (cases "stopRegistryOwnedBeans u (run u (Suc f)) s")
  from stop_owned_run [OF assms(1,2) s1] show ?thesis
  proof (elim disjE conjE exE)
    assume "o2 = Abort" "\<not> (harmless u \<and> proto_in_range s
        \<and> (\<forall>d \<in> set (ss_insertionOrder (r_singletons (m_reg s))). d < dtb_size (r_descriptors (m_reg s))))"
    then show ?thesis using assms(3) s1 by (auto simp: registry_stop_def bindM_def owners_known_def)
  next
    fix evs assume 1: "o2 = Ret True" "m_log s1 = m_log s @ evs"
      "destroyed evs = map (\<lambda>d. the (ss_find (r_singletons (m_reg s)) d)) (rev (ss_insertionOrder (r_singletons (m_reg s))))
          @ List.map_filter (ps_memoryAt (m_proto s)) (rev [0..<ps_slotCount (m_proto s)])"
      "\<not> r_started (m_reg s1)" "\<forall>d. ss_find (r_singletons (m_reg s1)) d = None" "\<forall>i. ps_memoryAt (m_proto s1) i = None"
    have dt: "r_descriptors (m_reg s1) = r_descriptors (m_reg s)" using keeps_Ret [OF df_stopOwned s1 [unfolded 1(1)]] .
    from destroyAll_run [OF 1(4), of u f tls] show ?thesis
    proof (elim disjE exE conjE)
      fix evs2 assume "destroyAll u (run u (Suc f)) tls s1 = (Ret (), s1\<lparr>m_log := m_log s1 @ evs2\<rparr>)" "destroyed evs2 = map snd tls"
      then show ?thesis using assms(3) 1 s1 by (auto simp: registry_stop_def bindM_def updM_def registryBeans_def registryEmpty_def)
    next
      fix s2 assume "destroyAll u (run u (Suc f)) tls s1 = (Abort, s2)" "\<not> (harmless u \<and> (\<forall>(d, mem) \<in> set tls. d < dtb_size (r_descriptors (m_reg s1))))"
      then show ?thesis using assms(3) 1 s1 dt by (auto simp: registry_stop_def bindM_def owners_known_def)
    qed
  qed
qed


subsection \<open>Concrete instances\<close>

text \<open>A running scope with a session bean (500) and two singletons, 601 created before 600.\<close>

definition running_mstate :: mstate where
  "running_mstate = sample_mstate\<lparr>m_reg := (m_reg sample_mstate)\<lparr>
     r_descriptors := \<lparr>dtb_entries = [(sample_hot 0)\<lparr>d_lifetime := Session, d_sessionSlot := 0\<rparr>, sample_hot 1, sample_hot 2],
       dtb_coldEntries = [sample_cold 0, sample_cold 1, sample_cold 2], dtb_lifetimes = [Session, Singleton, Singleton]\<rparr>,
     r_singletons := \<lparr>ss_instancesBase = Some 0, ss_instancesSize = 3, ss_frozenBase = None, ss_frozenSize = 0,
       ss_graveyard = [[None, Some 600, Some 601]], ss_insertionOrder = [2, 1]\<rparr>\<rparr>\<rparr>"

definition running_context :: root_context where
  "running_context = (new_context ''main'' 10 1 1 tl_init)\<lparr>cx_m := running_mstate,
     cx_scopes := [(''a'', (new_scope 77 5 0)\<lparr>sx_scope := sample_scope\<rparr>)]\<rparr>"


end
