(* ===== verification/Discovered_Start.thy ===== *)
theory Discovered_Start
  imports Descriptor_Gen Materialization
begin

text \<open>
  From discovery to resolution: a registry that is started with generated contributions has well-formed links
  between aliases and primaries and between products and factories, which is what the theorems
  about resolution ask of it.
\<close>

subsection \<open>Links through the phases of \<open>start\<close>\<close>

definition primaries_wf :: "desc_table \<Rightarrow> bool" where
  "primaries_wf dt \<longleftrightarrow> (\<forall>i < dtb_size dt. d_primaryDescriptor (dtb_at dt i) = kInvalidDescriptorId
     \<or> (d_primaryDescriptor (dtb_at dt i) < dtb_size dt
        \<and> d_primaryDescriptor (dtb_at dt (d_primaryDescriptor (dtb_at dt i))) = d_primaryDescriptor (dtb_at dt i)
        \<and> d_lifetime (dtb_at dt (d_primaryDescriptor (dtb_at dt i))) = d_lifetime (dtb_at dt i)))"

lemma primaries_wf_aliases:
  assumes "primaries_wf (r_descriptors r)" "dtb_inv (r_descriptors r)" shows "aliases_wf r"
  unfolding aliases_wf_def
proof (intro allI impI)
  fix d assume d: "d < dtb_size (r_descriptors r)"
  let ?p = "d_primaryDescriptor (dtb_at (r_descriptors r) d)"
  show "primaryOf r (primaryOf r d) = primaryOf r d
      \<and> dtb_lifetimeOf (r_descriptors r) (primaryOf r d) = dtb_lifetimeOf (r_descriptors r) d"
  proof (cases "?p = d \<or> ?p = kInvalidDescriptorId")
    case True
    then have "primaryOf r d = d" by (auto simp: primaryOf_def Let_def)
    then show ?thesis by simp
  next
    case False
    then have p: "?p < dtb_size (r_descriptors r)" "d_primaryDescriptor (dtb_at (r_descriptors r) ?p) = ?p"
      "d_lifetime (dtb_at (r_descriptors r) ?p) = d_lifetime (dtb_at (r_descriptors r) d)"
      using assms(1) d by (auto simp: primaries_wf_def)
    have "primaryOf r d = ?p" using False by (simp add: primaryOf_def Let_def)
    then show ?thesis using p d assms(2) by (simp add: primaryOf_def Let_def dtb_lifetimeOf_at)
  qed
qed

lemma merge_primaries: "merge_rel tinfo P ms kept \<Longrightarrow> primaries_wf (r_descriptors (ms_reg ms))"
  by (auto simp: merge_rel_def primaries_wf_def linked_hot_def hot_of_def)

lemma append_primaries:
  fixes d :: descriptor and cold :: descriptor_cold
  assumes wf: "primaries_wf (r_descriptors r)" and inv: "dtb_inv (r_descriptors r)"
    and small: "dtb_size (r_descriptors r) < kInvalidDescriptorId"
  defines "r' \<equiv> snd (append_runtime r d cold)"
  shows "primaries_wf (r_descriptors r')" "dtb_inv (r_descriptors r')"
    "dtb_size (r_descriptors r') = Suc (dtb_size (r_descriptors r))"
    "\<forall>i < dtb_size (r_descriptors r). dtb_at (r_descriptors r') i = dtb_at (r_descriptors r) i"
proof -
  let ?n = "dtb_size (r_descriptors r)" and ?dt = "snd (dtb_append (r_descriptors r) d cold)"
  have i: "fst (dtb_append (r_descriptors r) d cold) = ?n" using small by (simp add: dtb_append_def dtb_size_def sentinel_defs)
  have dt: "r_descriptors r' = dtb_atMutable ?dt ?n (\<lambda>d. d\<lparr>d_primaryDescriptor := ?n\<rparr>)"
    by (simp add: r'_def append_runtime_def split_beta i)
  have at: "dtb_at (r_descriptors r') j = (if j = ?n then d\<lparr>d_primaryDescriptor := ?n\<rparr> else dtb_at (r_descriptors r) j)"
    if "j \<le> ?n" for j
    using that by (simp add: dt dtb_mutable_at dtb_append_at [OF inv])
  show "dtb_inv (r_descriptors r')" unfolding dt by (intro dtb_atMutable_inv dtb_append_inv inv) simp
  show size: "dtb_size (r_descriptors r') = Suc ?n" by (simp add: dt)
  show "\<forall>i < ?n. dtb_at (r_descriptors r') i = dtb_at (r_descriptors r) i" using at by simp
  show "primaries_wf (r_descriptors r')"
    unfolding primaries_wf_def size
  proof (intro allI impI)
    fix j assume "j < Suc ?n"
    then show "d_primaryDescriptor (dtb_at (r_descriptors r') j) = kInvalidDescriptorId
       \<or> (d_primaryDescriptor (dtb_at (r_descriptors r') j) < Suc ?n
        \<and> d_primaryDescriptor (dtb_at (r_descriptors r') (d_primaryDescriptor (dtb_at (r_descriptors r') j)))
            = d_primaryDescriptor (dtb_at (r_descriptors r') j)
        \<and> d_lifetime (dtb_at (r_descriptors r') (d_primaryDescriptor (dtb_at (r_descriptors r') j))) = d_lifetime (dtb_at (r_descriptors r') j))"
      using wf at by (cases "j = ?n") (auto simp: primaries_wf_def less_Suc_eq)
  qed
qed

lemma bind_pending_primaries:
  assumes "primaries_wf (r_descriptors r)" "dtb_inv (r_descriptors r)"
    and "dtb_size (r_descriptors r) + length pbs \<le> kInvalidDescriptorId"
  shows "primaries_wf (r_descriptors (fst (snd (bind_pending r bound pbs))))
    \<and> dtb_inv (r_descriptors (fst (snd (bind_pending r bound pbs))))
    \<and> dtb_size (r_descriptors r) \<le> dtb_size (r_descriptors (fst (snd (bind_pending r bound pbs))))
    \<and> dtb_size (r_descriptors (fst (snd (bind_pending r bound pbs)))) \<le> dtb_size (r_descriptors r) + length pbs
    \<and> (\<forall>i < dtb_size (r_descriptors r). dtb_at (r_descriptors (fst (snd (bind_pending r bound pbs)))) i = dtb_at (r_descriptors r) i)"
  using assms
proof (induction r bound pbs rule: bind_pending.induct)
  case (2 r bound pb pbs)
  let ?in = "ti_internByName (r_types r) (pb_typeName pb) (pb_typeInfo pb)"
  let ?r1 = "r\<lparr>r_types := snd ?in\<rparr>"
  let ?app = "append_runtime ?r1 (runtime_hot Singleton (pb_priority pb) kInvalidSessionSlot)
    (runtime_cold (fst ?in) (pb_nameId pb) (Some (pb_destroy pb)) (pb_preDestroy pb) (pb_dealloc pb)
       (pb_size pb) (pb_align pb) (pb_typeInfo pb) (pb_typeName pb))"
  show ?case
  proof (cases "candidateKeyExists ?r1 (fst ?in) (pb_nameId pb) (pb_priority pb)")
    case True
    then show ?thesis using 2 by (simp add: split_beta Let_def)
  next
    case False
    have app: "primaries_wf (r_descriptors (snd ?app))" "dtb_inv (r_descriptors (snd ?app))"
      "dtb_size (r_descriptors (snd ?app)) = Suc (dtb_size (r_descriptors r))"
      "\<forall>i < dtb_size (r_descriptors r). dtb_at (r_descriptors (snd ?app)) i = dtb_at (r_descriptors r) i"
      using append_primaries [of ?r1] "2.prems" by simp_all
    have step: "bind_pending r bound (pb # pbs) = bind_pending (snd ?app) (bound @ [(fst ?app, pb_instance pb, fst ?in)]) pbs"
      using False by (simp add: split_beta Let_def)
    have "dtb_size (r_descriptors (snd ?app)) + length pbs \<le> kInvalidDescriptorId" using "2.prems"(3) app(3) by simp
    from "2.IH" [OF refl prod.collapse refl False refl prod.collapse app(1,2) this] show ?thesis
      unfolding step using app(3,4) by auto
  qed
qed simp

lemma link_factories_at:
  "dtb_at (r_descriptors (snd (link_factories im r ls))) i = dtb_at (r_descriptors r) i"
  "dtb_size (r_descriptors (snd (link_factories im r ls))) = dtb_size (r_descriptors r)"
  "dtb_inv (r_descriptors r) \<Longrightarrow> dtb_inv (r_descriptors (snd (link_factories im r ls)))"
  by (induction im r ls rule: link_factories.induct) (auto simp: dtb_mutable_at dtb_coldAtMutable_inv split: option.splits)

lemma link_found:
  "(\<forall>(i, x) \<in> set ls. im x \<noteq> None) \<Longrightarrow> fst (link_factories im r ls) = None"
  "(\<forall>(i, x) \<in> set ls. im x \<noteq> None) \<Longrightarrow> fst (link_aliases im r ls) = None"
  by (induction im r ls rule: link_factories.induct; force) (induction im r ls rule: link_aliases.induct; force)

text \<open>Linking an alias: the alias points nowhere yet, and its primary is no alias.\<close>

lemma link_alias_primaries:
  assumes wf: "primaries_wf dt" and a: "a < dtb_size dt" "a \<noteq> kInvalidDescriptorId" "d_primaryDescriptor (dtb_at dt a) = kInvalidDescriptorId"
    and p: "p < dtb_size dt" "d_primaryDescriptor (dtb_at dt p) = p" "d_lifetime (dtb_at dt p) = d_lifetime (dtb_at dt a)"
  shows "primaries_wf (dtb_atMutable dt a (\<lambda>d. d\<lparr>d_primaryDescriptor := p\<rparr>))"
proof -
  let ?dt = "dtb_atMutable dt a (\<lambda>d. d\<lparr>d_primaryDescriptor := p\<rparr>)"
  have at: "dtb_at ?dt j = (if j = a then (dtb_at dt a)\<lparr>d_primaryDescriptor := p\<rparr> else dtb_at dt j)" for j
    using a(1) by (simp add: dtb_mutable_at)
  have pa: "p \<noteq> a" using a(2,3) p(2) by auto
  show ?thesis
    unfolding primaries_wf_def
  proof (intro allI impI)
    fix i assume "i < dtb_size ?dt"
    then have i: "i < dtb_size dt" by simp
    show "d_primaryDescriptor (dtb_at ?dt i) = kInvalidDescriptorId
       \<or> (d_primaryDescriptor (dtb_at ?dt i) < dtb_size ?dt
        \<and> d_primaryDescriptor (dtb_at ?dt (d_primaryDescriptor (dtb_at ?dt i))) = d_primaryDescriptor (dtb_at ?dt i)
        \<and> d_lifetime (dtb_at ?dt (d_primaryDescriptor (dtb_at ?dt i))) = d_lifetime (dtb_at ?dt i))"
    proof (cases "i = a")
      case True
      then show ?thesis using p pa by (simp add: at)
    next
      case False
      then show ?thesis using wf i a(2,3) by (auto simp: primaries_wf_def at)
    qed
  qed
qed

lemma link_aliases_primaries:
  assumes "primaries_wf (r_descriptors r)" "dtb_inv (r_descriptors r)" "distinct (map fst ls)"
    and "\<forall>(a, x) \<in> set ls. a < dtb_size (r_descriptors r) \<and> a \<noteq> kInvalidDescriptorId
       \<and> d_primaryDescriptor (dtb_at (r_descriptors r) a) = kInvalidDescriptorId
       \<and> (\<forall>p. im x = Some p \<longrightarrow> p < dtb_size (r_descriptors r) \<and> d_primaryDescriptor (dtb_at (r_descriptors r) p) = p
            \<and> d_lifetime (dtb_at (r_descriptors r) p) = d_lifetime (dtb_at (r_descriptors r) a))"
  shows "primaries_wf (r_descriptors (snd (link_aliases im r ls))) \<and> dtb_inv (r_descriptors (snd (link_aliases im r ls)))
    \<and> dtb_size (r_descriptors (snd (link_aliases im r ls))) = dtb_size (r_descriptors r)"
  using assms
proof (induction im r ls rule: link_aliases.induct)
  case (2 im r a x ls)
  show ?case
  proof (cases "im x")
    case None
    then show ?thesis using 2 by simp
  next
    case (Some p)
    let ?dt = "dtb_atMutable (r_descriptors r) a (\<lambda>d. d\<lparr>d_primaryDescriptor := p\<rparr>)"
    have a: "a < dtb_size (r_descriptors r)" "a \<noteq> kInvalidDescriptorId"
      "d_primaryDescriptor (dtb_at (r_descriptors r) a) = kInvalidDescriptorId"
      and p: "p < dtb_size (r_descriptors r)" "d_primaryDescriptor (dtb_at (r_descriptors r) p) = p"
        "d_lifetime (dtb_at (r_descriptors r) p) = d_lifetime (dtb_at (r_descriptors r) a)"
      using "2.prems"(4) Some by auto
    have at: "dtb_at ?dt j = (if j = a then (dtb_at (r_descriptors r) a)\<lparr>d_primaryDescriptor := p\<rparr> else dtb_at (r_descriptors r) j)" for j
      using a(1) by (simp add: dtb_mutable_at)
    have keep: "\<forall>(b, y) \<in> set ls. b < dtb_size ?dt \<and> b \<noteq> kInvalidDescriptorId
       \<and> d_primaryDescriptor (dtb_at ?dt b) = kInvalidDescriptorId
       \<and> (\<forall>q. im y = Some q \<longrightarrow> q < dtb_size ?dt \<and> d_primaryDescriptor (dtb_at ?dt q) = q
            \<and> d_lifetime (dtb_at ?dt q) = d_lifetime (dtb_at ?dt b))"
    proof (intro ballI, clarify)
      fix b y assume "(b, y) \<in> set ls"
      then have "b \<noteq> a" "b < dtb_size (r_descriptors r)" "b \<noteq> kInvalidDescriptorId"
        "d_primaryDescriptor (dtb_at (r_descriptors r) b) = kInvalidDescriptorId"
        "\<And>q. im y = Some q \<Longrightarrow> q < dtb_size (r_descriptors r) \<and> d_primaryDescriptor (dtb_at (r_descriptors r) q) = q
          \<and> d_lifetime (dtb_at (r_descriptors r) q) = d_lifetime (dtb_at (r_descriptors r) b)"
        using "2.prems"(3,4) by (auto simp: image_iff)
      moreover have "q \<noteq> a" if "d_primaryDescriptor (dtb_at (r_descriptors r) q) = q" for q using that a(2,3) by auto
      ultimately show "b < dtb_size ?dt \<and> b \<noteq> kInvalidDescriptorId
         \<and> d_primaryDescriptor (dtb_at ?dt b) = kInvalidDescriptorId
         \<and> (\<forall>q. im y = Some q \<longrightarrow> q < dtb_size ?dt \<and> d_primaryDescriptor (dtb_at ?dt q) = q
              \<and> d_lifetime (dtb_at ?dt q) = d_lifetime (dtb_at ?dt b))"
        by (simp add: at)
    qed
    from "2.IH" [OF Some, simplified, OF link_alias_primaries [OF "2.prems"(1) a p]] show ?thesis
      using Some "2.prems"(2,3) keep by (simp add: dtb_atMutable_inv)
  qed
qed simp

lemma finish_primaries:
  assumes wf: "primaries_wf (r_descriptors r)" and inv: "dtb_inv (r_descriptors r)"
    and run: "start_finish bc r ctx bound = Some r'"
  shows "primaries_wf (r_descriptors r')" "dtb_inv (r_descriptors r')"
proof -
  obtain r1 r2 where r1: "registerContextBean bc r ctx = Some r1" and r2: "store_bound (assign_session_slots r1) bound = Some r2"
    and r': "r_descriptors r' = r_descriptors r2"
    using run by (auto simp: start_finish_def Let_def split: option.splits)
  have stored: "store_bound x bs = Some y \<Longrightarrow> r_descriptors y = r_descriptors x" for x bs y
    by (induction x bs rule: store_bound.induct) (auto split: option.splits)
  obtain hot cold where d1: "r_descriptors r1 = snd (dtb_append (r_descriptors r) hot cold)" and hot: "d_primaryDescriptor hot = kInvalidDescriptorId"
    using r1 by (auto simp: registerContextBean_def runtime_hot_def Let_def split_beta split: option.splits)
  let ?n = "dtb_size (r_descriptors r)"
  have inv1: "dtb_inv (r_descriptors r1)" unfolding d1 by (intro dtb_append_inv inv)
  have size1: "dtb_size (r_descriptors r1) = Suc ?n" by (simp add: d1)
  have at1: "dtb_at (r_descriptors r1) j = (if j = ?n then hot else dtb_at (r_descriptors r) j)" if "j \<le> ?n" for j
    using that by (simp add: d1 dtb_append_at [OF inv])
  have size2: "dtb_size (r_descriptors r') = Suc ?n" using stored [OF r2] size1 by (simp add: r' assign_session_slots_dtb)
  have at2: "d_primaryDescriptor (dtb_at (r_descriptors r') j) = d_primaryDescriptor (dtb_at (r_descriptors r1) j)
      \<and> d_lifetime (dtb_at (r_descriptors r') j) = d_lifetime (dtb_at (r_descriptors r1) j)" if "j < Suc ?n" for j
    using that stored [OF r2] size1 by (simp add: r' assign_session_slots_at)
  show "dtb_inv (r_descriptors r')" using stored [OF r2] inv1 by (simp add: r' assign_session_slots_dtb)
  show "primaries_wf (r_descriptors r')"
    unfolding primaries_wf_def size2
  proof (intro allI impI)
    fix j assume j: "j < Suc ?n"
    let ?p = "d_primaryDescriptor (dtb_at (r_descriptors r') j)"
    show "?p = kInvalidDescriptorId \<or> (?p < Suc ?n \<and> d_primaryDescriptor (dtb_at (r_descriptors r') ?p) = ?p
        \<and> d_lifetime (dtb_at (r_descriptors r') ?p) = d_lifetime (dtb_at (r_descriptors r') j))"
    proof (cases "j = ?n")
      case True
      then show ?thesis using at1 [of j] at2 [OF j] hot by simp
    next
      case False
      then have j': "j < ?n" using j by simp
      have eq: "?p = d_primaryDescriptor (dtb_at (r_descriptors r) j)" using at2 [OF j] at1 [of j] j' by simp
      from wf j' consider "?p = kInvalidDescriptorId"
        | "?p < ?n" "d_primaryDescriptor (dtb_at (r_descriptors r) ?p) = ?p"
          "d_lifetime (dtb_at (r_descriptors r) ?p) = d_lifetime (dtb_at (r_descriptors r) j)"
        unfolding primaries_wf_def eq by blast
      then show ?thesis
      proof cases
        case 2
        then show ?thesis using at2 [of ?p] at1 [of ?p] at2 [OF j] at1 [of j] j' by simp
      qed simp
    qed
  qed
qed

subsection \<open>Closed contributions\<close>

text \<open>No alias has the hash of a bean.\<close>

definition kinds_apart :: "contributed list \<Rightarrow> bool" where
  "kinds_apart cds \<longleftrightarrow> (\<forall>a \<in> set cds. \<forall>b \<in> set cds. cd_identity a = cd_identity b \<longrightarrow> cd_isExposedAlias a = cd_isExposedAlias b)"

lemma closed_concat: "\<forall>cds \<in> set css. closed_contribution cds \<Longrightarrow> closed_contribution (concat css)"
proof -
  assume c: "\<forall>cds \<in> set css. closed_contribution cds"
  show ?thesis
    unfolding closed_contribution_def
  proof
    fix cd assume "cd \<in> set (concat css)"
    then obtain cds where cds: "cds \<in> set css" "cd \<in> set cds" by auto
    then have "set cds \<subseteq> set (concat css)" by auto
    then show "(cd_isExposedAlias cd \<longrightarrow> alias_linked (concat css) cd)
        \<and> (cd_factoryMethodIdentity cd \<noteq> kNoFactoryMethod \<longrightarrow> product_linked (concat css) cd)"
      using c cds linked_mono [of cds "concat css" cd] by (auto simp: closed_contribution_def)
  qed
qed

lemma kept_identity:
  assumes sp: "merge_spec [] cds = Some kept" and rel: "merge_rel tinfo P ms kept" and q: "q \<in> set cds"
  shows "\<exists>p < length kept. ms_identityMap ms (cd_identity q) = Some p \<and> same_bean (kept ! p) q \<and> kept ! p \<in> set cds
    \<and> cd_identity (kept ! p) = cd_identity q"
proof -
  obtain k where k: "k \<in> set kept" "cd_identity k = cd_identity q" "same_bean k q"
    using merge_spec_Some [OF sp] q by auto
  then obtain p where p: "p < length kept" "kept ! p = k" by (auto simp: in_set_conv_nth)
  then have "ms_identityMap ms (cd_identity q) = Some p" using rel k(2) by (auto simp: merge_rel_def)
  then show ?thesis using p k merge_spec_Some [OF sp] by auto
qed

lemma closed_links:
  assumes cl: "closed_contribution cds" "kinds_apart cds" and sp: "merge_spec [] cds = Some kept" and rel: "merge_rel tinfo P ms kept"
  shows "\<forall>(i, x) \<in> set (ms_factoryLinks ms). ms_identityMap ms x \<noteq> None"
    and "\<forall>(i, x) \<in> set (ms_aliasLinks ms). i < length kept \<and> cd_isExposedAlias (kept ! i)
      \<and> (\<exists>p < length kept. ms_identityMap ms x = Some p \<and> \<not> cd_isExposedAlias (kept ! p) \<and> cd_lifetime (kept ! p) = cd_lifetime (kept ! i))"
proof -
  have sub: "set kept \<subseteq> set cds" using merge_spec_Some [OF sp] by auto
  show "\<forall>(i, x) \<in> set (ms_factoryLinks ms). ms_identityMap ms x \<noteq> None"
  proof (clarify)
    fix i x assume "(i, x) \<in> set (ms_factoryLinks ms)"
    then have i: "i < length kept" "x = cd_factoryMethodIdentity (kept ! i)" "x \<noteq> kNoFactoryMethod"
      using rel by (auto simp: merge_rel_def factory_link_def split: if_splits)
    then obtain f where "f \<in> set cds" "cd_identity f = x"
      using cl(1) sub nth_mem [OF i(1)] by (force simp: closed_contribution_def product_linked_def)
    then show "\<exists>y. ms_identityMap ms x = Some y" using kept_identity [OF sp rel, of f] by auto
  qed
  show "\<forall>(i, x) \<in> set (ms_aliasLinks ms). i < length kept \<and> cd_isExposedAlias (kept ! i)
      \<and> (\<exists>p < length kept. ms_identityMap ms x = Some p \<and> \<not> cd_isExposedAlias (kept ! p) \<and> cd_lifetime (kept ! p) = cd_lifetime (kept ! i))"
  proof (clarify)
    fix i x assume "(i, x) \<in> set (ms_aliasLinks ms)"
    then have i: "i < length kept" "x = cd_aliasOfPrimaryIdentity (kept ! i)" "cd_isExposedAlias (kept ! i)"
      using rel by (auto simp: merge_rel_def alias_link_def split: if_splits)
    then obtain q where q: "q \<in> set cds" "cd_identity q = x" "\<not> cd_isExposedAlias q" "cd_lifetime q = cd_lifetime (kept ! i)"
      using cl(1) sub nth_mem [OF i(1)] unfolding closed_contribution_def alias_linked_def by blast
    obtain p where p: "p < length kept" "ms_identityMap ms x = Some p" "same_bean (kept ! p) q" "kept ! p \<in> set cds" "cd_identity (kept ! p) = x"
      using kept_identity [OF sp rel q(1)] q(2) by auto
    then have "cd_isExposedAlias (kept ! p) = cd_isExposedAlias q" using cl(2) q(1,2) unfolding kinds_apart_def by blast
    then have "\<not> cd_isExposedAlias (kept ! p)" using q(3) by simp
    then show "i < length kept \<and> cd_isExposedAlias (kept ! i)
      \<and> (\<exists>p < length kept. ms_identityMap ms x = Some p \<and> \<not> cd_isExposedAlias (kept ! p) \<and> cd_lifetime (kept ! p) = cd_lifetime (kept ! i))"
      using i p q(4) by (auto simp: same_bean_def)
  qed
qed

lemma alias_links_distinct: "merge_rel tinfo P ms kept \<Longrightarrow> distinct (map fst (ms_aliasLinks ms))"
proof -
  have "distinct (map fst (concat (map (\<lambda>i. alias_link i (kept ! i)) xs)))" if "distinct xs" for xs
    using that by (induction xs) (auto simp: alias_link_def)
  then show "merge_rel tinfo P ms kept \<Longrightarrow> distinct (map fst (ms_aliasLinks ms))" by (simp add: merge_rel_def)
qed

lemma bind_pending_error: "fst (bind_pending r bound pbs) \<in> {None, Some (ConfigurationError BindingCollision)}"
  by (induction pbs arbitrary: r bound) (simp_all add: Let_def split_beta)

lemma start_link_primaries:
  assumes ok: "reg_ok tinfo P r" and size: "dtb_size (r_descriptors r) = 0"
    and room: "reg_room r (length (concat (r_pending r)) + (length (r_pendingRuntimeSingletons r) + m))"
    and cds: "\<forall>cd \<in> set (concat (r_pending r)). cd_wf tinfo P cd"
    and cl: "closed_contribution (concat (r_pending r))" "kinds_apart (concat (r_pending r))"
    and run: "start_link r = (e, r3, bound)"
  shows "e \<in> {None, Some (ConfigurationError IdentityCollision), Some (ConfigurationError BindingCollision)}
    \<and> (e = None \<longrightarrow> primaries_wf (r_descriptors r3) \<and> dtb_inv (r_descriptors r3))"
proof -
  let ?cds = "concat (r_pending r)" and ?pbs = "r_pendingRuntimeSingletons r"
  obtain e0 ms where ml: "merge_loop (merge_init r) ?cds = (e0, ms)" by (cases "merge_loop (merge_init r) ?cds")
  note ref = merge_loop_refines [OF merge_init_rel [OF ok size], of ?cds "length ?pbs + m"]
  show ?thesis
  proof (cases e0)
    case (Some e1)
    then have "e1 = ConfigurationError IdentityCollision" using ref ml room cds by (auto split: option.splits)
    then show ?thesis using run Some ml by (auto simp: start_link_def)
  next
    case None
    then obtain kept where kept: "merge_spec [] ?cds = Some kept" "merge_rel tinfo P ms kept" "reg_room (ms_reg ms) (length ?pbs + m)"
      using ref ml room cds by (auto split: option.splits)
    obtain e1 r1 b1 where bp: "bind_pending (ms_reg ms) [] ?pbs = (e1, r1, b1)" by (cases "bind_pending (ms_reg ms) [] ?pbs") auto
    have e1: "e1 \<in> {None, Some (ConfigurationError BindingCollision)}" using bind_pending_error [of "ms_reg ms" "[]" ?pbs] bp by simp
    have inv0: "dtb_inv (r_descriptors (ms_reg ms))" and n: "dtb_size (r_descriptors (ms_reg ms)) = length kept"
      and at0: "\<And>i. i < length kept \<Longrightarrow> dtb_at (r_descriptors (ms_reg ms)) i = linked_hot (kept ! i) i"
      using kept(2) by (auto simp: merge_rel_def reg_ok_def)
    have small: "length kept + length ?pbs \<le> kInvalidDescriptorId" using kept(3) n by (simp add: reg_room_def)
    have b: "primaries_wf (r_descriptors r1)" "dtb_inv (r_descriptors r1)" "length kept \<le> dtb_size (r_descriptors r1)"
      "\<And>i. i < length kept \<Longrightarrow> dtb_at (r_descriptors r1) i = linked_hot (kept ! i) i"
      using bind_pending_primaries [OF merge_primaries [OF kept(2)] inv0, of ?pbs "[]"] small bp n at0 by auto
    let ?im = "ms_identityMap ms" and ?r1 = "r1\<lparr>r_pendingRuntimeSingletons := []\<rparr>"
    note links = closed_links [OF cl kept(1,2)]
    obtain r2 where lf: "link_factories ?im ?r1 (ms_factoryLinks ms) = (None, r2)"
      using link_found(1) [OF links(1), of ?r1] by (cases "link_factories ?im ?r1 (ms_factoryLinks ms)") simp
    have f: "\<And>i. dtb_at (r_descriptors r2) i = dtb_at (r_descriptors r1) i" "dtb_size (r_descriptors r2) = dtb_size (r_descriptors r1)"
      "dtb_inv (r_descriptors r2)"
      using link_factories_at [where im = ?im and r = ?r1 and ls = "ms_factoryLinks ms"] lf b(2) by simp_all
    have wf2: "primaries_wf (r_descriptors r2)" using b(1) by (simp add: primaries_wf_def f)
    have "\<forall>(i, x) \<in> set (ms_aliasLinks ms). ?im x \<noteq> None" using links(2) by fastforce
    then obtain r3' where la: "link_aliases ?im r2 (ms_aliasLinks ms) = (None, r3')"
      using link_found(2) [of "ms_aliasLinks ms" ?im r2] by (cases "link_aliases ?im r2 (ms_aliasLinks ms)") simp
    have pre: "\<forall>(a, x) \<in> set (ms_aliasLinks ms). a < dtb_size (r_descriptors r2) \<and> a \<noteq> kInvalidDescriptorId
       \<and> d_primaryDescriptor (dtb_at (r_descriptors r2) a) = kInvalidDescriptorId
       \<and> (\<forall>p. ?im x = Some p \<longrightarrow> p < dtb_size (r_descriptors r2) \<and> d_primaryDescriptor (dtb_at (r_descriptors r2) p) = p
            \<and> d_lifetime (dtb_at (r_descriptors r2) p) = d_lifetime (dtb_at (r_descriptors r2) a))"
    proof (clarify)
      fix a x assume "(a, x) \<in> set (ms_aliasLinks ms)"
      then obtain p where a: "a < length kept" "cd_isExposedAlias (kept ! a)" and p: "p < length kept" "?im x = Some p"
          "\<not> cd_isExposedAlias (kept ! p)" "cd_lifetime (kept ! p) = cd_lifetime (kept ! a)"
        using links(2) by blast
      then show "a < dtb_size (r_descriptors r2) \<and> a \<noteq> kInvalidDescriptorId
       \<and> d_primaryDescriptor (dtb_at (r_descriptors r2) a) = kInvalidDescriptorId
       \<and> (\<forall>p. ?im x = Some p \<longrightarrow> p < dtb_size (r_descriptors r2) \<and> d_primaryDescriptor (dtb_at (r_descriptors r2) p) = p
            \<and> d_lifetime (dtb_at (r_descriptors r2) p) = d_lifetime (dtb_at (r_descriptors r2) a))"
        using b(3,4) small by (auto simp: f linked_hot_def hot_of_def)
    qed
    from link_aliases_primaries [OF wf2 f(3) alias_links_distinct [OF kept(2)] pre] la
    have "primaries_wf (r_descriptors r3')" "dtb_inv (r_descriptors r3')" by simp_all
    then show ?thesis using run None ml bp e1 lf la by (auto simp: start_link_def split: option.splits)
  qed
qed

lemma merge_spec_length: "merge_spec acc cds = Some kept \<Longrightarrow> length kept \<le> length acc + length cds"
  by (induction acc cds rule: merge_spec.induct) (fastforce split: option.splits if_splits)+

lemma generated_start:
  assumes st: "startable tinfo bc r" and gen: "\<forall>cds \<in> set (r_pending r). \<exists>co meta roots. makeAllDescriptors co meta roots = Some cds"
    and apart: "kinds_apart (concat (r_pending r))"
  shows "\<exists>e r'. registry_start bc r ctx = Some (e, r')
    \<and> e \<noteq> Some (ConfigurationError FactoryNotFound) \<and> e \<noteq> Some (ConfigurationError PrimaryNotFound)
    \<and> (e = None \<longrightarrow> aliases_wf r' \<and> started_ok tinfo ctx r'
         \<and> dtb_size (r_descriptors r') \<le> length (concat (r_pending r)) + length (r_pendingRuntimeSingletons r) + 1)"
proof -
  let ?P = "\<lambda>nm. nm \<noteq> beanContextName"
  obtain e r' where run: "registry_start bc r ctx = Some (e, r')" and ok: "e = None \<longrightarrow> started_ok tinfo ctx r'
      \<and> (\<exists>kept. merge_spec [] (concat (r_pending r)) = Some kept
           \<and> dtb_size (r_descriptors r') = length kept + length (r_pendingRuntimeSingletons r) + 1)"
    using registry_start_ok [OF st, of ctx] by blast
  obtain e1 r3 bound where sl: "start_link r = (e1, r3, bound)" by (cases "start_link r") auto
  have cl: "closed_contribution (concat (r_pending r))" using gen generated_closed by (intro closed_concat) blast
  have l: "e1 \<in> {None, Some (ConfigurationError IdentityCollision), Some (ConfigurationError BindingCollision)}"
    "e1 = None \<longrightarrow> primaries_wf (r_descriptors r3) \<and> dtb_inv (r_descriptors r3)"
    using start_link_primaries [of tinfo ?P r 1, OF _ _ _ _ cl apart sl] st by (auto simp: startable_def)
  have graph: "first_error xs \<noteq> Some x" if "Some x \<notin> set xs" for xs x using that by (induction xs rule: first_error.induct) auto
  have param: "param_error r4 lt p \<noteq> Some (ConfigurationError FactoryNotFound)" "param_error r4 lt p \<noteq> Some (ConfigurationError PrimaryNotFound)" for r4 lt p
    by (auto simp: param_error_def Let_def split: if_splits option.splits list.splits)
  have some: "Some x \<notin> set (concat (map (\<lambda>cd. map (param_error r4 (cd_lifetime cd)) (cd_params cd)) (concat (r_pending r4))))"
    if "\<And>lt p. param_error r4 lt p \<noteq> Some x" for r4 x
    using that [symmetric] by auto
  have err: "graph_error r4 \<noteq> Some (ConfigurationError FactoryNotFound)" "graph_error r4 \<noteq> Some (ConfigurationError PrimaryNotFound)" for r4
    unfolding graph_error_def by (rule graph [OF some [OF param(1)]]) (rule graph [OF some [OF param(2)]])
  have start: "registry_start bc r ctx = (case e1 of Some e \<Rightarrow> Some (Some e, r3) | None \<Rightarrow>
      (let r4 = r3\<lparr>r_index := tix_sortAllCandidates (prio r3) (r_index r3)\<rparr>
       in if duplicate_producer r4 then Some (Some (ConfigurationError DuplicateProducer), r4)
          else case graph_error r4 of Some e \<Rightarrow> Some (Some e, r4)
            | None \<Rightarrow> map_option (\<lambda>r5. (None, r5)) (start_finish bc r4 ctx bound)))"
    using st by (simp add: registry_start_def startable_def sl split: option.splits)
  have "e \<noteq> Some (ConfigurationError FactoryNotFound) \<and> e \<noteq> Some (ConfigurationError PrimaryNotFound)"
    using run l(1) err unfolding start by (auto simp: Let_def split: option.splits if_splits)
  moreover have "aliases_wf r'" if "e = None"
  proof -
    have "e1 = None" using run that unfolding start by (auto split: option.splits)
    then have "start_finish bc (r3\<lparr>r_index := tix_sortAllCandidates (prio r3) (r_index r3)\<rparr>) ctx bound = Some r'"
      using run that unfolding start by (auto simp: Let_def split: option.splits if_splits)
    from finish_primaries [OF _ _ this] l(2) \<open>e1 = None\<close> show "aliases_wf r'" by (intro primaries_wf_aliases) simp_all
  qed
  moreover have "started_ok tinfo ctx r'
      \<and> dtb_size (r_descriptors r') \<le> length (concat (r_pending r)) + length (r_pendingRuntimeSingletons r) + 1" if "e = None"
    using ok that merge_spec_length by fastforce
  ultimately show ?thesis using run by (intro exI [of _ e] exI [of _ r']) blast
qed

text \<open>C14.  What is discovered can be started and resolved. If every contribution was generated by \<open>discover<>()\<close>, whatever
  the user's program, and no alias has the hash of a bean, then \<open>start()\<close> never reports a missing factory
  or primary; after a successful start every alias leads in one step to a bean of its own lifetime, and
  every resolution from the root ends, whatever constructors, hooks and listeners resolve or throw.\<close>

theorem discovered_start_ready:
  assumes st: "startable tinfo bc r" and gen: "\<forall>cds \<in> set (r_pending r). \<exists>co meta roots. makeAllDescriptors co meta roots = Some cds"
    and apart: "kinds_apart (concat (r_pending r))"
  shows "\<exists>e r'. registry_start bc r ctx = Some (e, r')
    \<and> e \<noteq> Some (ConfigurationError FactoryNotFound) \<and> e \<noteq> Some (ConfigurationError PrimaryNotFound)
    \<and> (e = None \<longrightarrow> aliases_wf r'
         \<and> (\<forall>u f req s. m_reg s = r' \<and> m_scope s = None \<and> 2 * dtb_size (r_descriptors r') + 2 \<le> f \<longrightarrow> fst (run u f req s) \<noteq> Fuel))"
proof -
  obtain e r' where run: "registry_start bc r ctx = Some (e, r')" "e \<noteq> Some (ConfigurationError FactoryNotFound)"
      "e \<noteq> Some (ConfigurationError PrimaryNotFound)" and ok: "e = None \<longrightarrow> aliases_wf r' \<and> started_ok tinfo ctx r'"
    using generated_start [OF st gen apart, of ctx] by blast
  have "fst (run u f req s) \<noteq> Fuel"
    if "e = None" "m_reg s = r'" "m_scope s = None" "2 * dtb_size (r_descriptors r') + 2 \<le> f" for u f req s
  proof -
    have "mstate_ok s" using that ok by (simp add: mstate_ok_def started_ok_def)
    from goodD [OF run_fuel(1) this idle_bound] that show ?thesis by auto
  qed
  then show ?thesis using run ok by (intro exI [of _ e] exI [of _ r']) blast
qed

subsection \<open>A concrete program\<close>

text \<open>A namespace with a service that implements an interface, and a factory with one producer method.\<close>

definition app_roots :: "entity list" where
  "app_roots = [ENamespace False
     [EClass False (Cls (app_type ''Service'') [AnnSingleton 0 True]
        [Base True False (Cls (app_type ''Api'') [] [] [])] [MemCtor True [] []]),
      EClass False (Cls (app_type ''Maker'') [AnnFactory] []
        [MemFun ''make'' (app_type ''Thing'') [] [AnnSingleton 0 False]])]]"

lemmas hash_eval =
  computeIdentityForType_def computeIdentityForProduct_def computeIdentityForExposedType_def Let_def fnv1a64_def fnv1a64Byte_def
  fnv_offset_def of_char_def

lemma app_hashes:
  "computeIdentityForType ''app::Service'' [] Singleton \<noteq> computeIdentityForExposedType ''app::Api'' ''app::Service'' [] Singleton"
  "computeIdentityForType ''app::Maker'' [] Singleton \<noteq> computeIdentityForExposedType ''app::Api'' ''app::Service'' [] Singleton"
  "computeIdentityForProduct ''make'' ''app::Maker'' [] Singleton \<noteq> computeIdentityForExposedType ''app::Api'' ''app::Service'' [] Singleton"
  by (simp_all add: hash_eval)

lemma app_generated:
  "\<exists>service api maker thing. makeAllDescriptors sample_compiler False app_roots = Some [service, api, maker, thing]
     \<and> map cd_exposedTypeName [service, api, maker, thing] = [''app::Service'', ''app::Api'', ''app::Maker'', ''app::Thing'']
     \<and> map cd_isExposedAlias [service, api, maker, thing] = [False, True, False, False]
     \<and> kinds_apart [service, api, maker, thing] \<and> (\<forall>cd \<in> set [service, api, maker, thing]. cd_wf name_code (\<lambda>nm. nm \<noteq> beanContextName) cd)
     \<and> cd_lazy thing"
  using app_hashes app_hashes [symmetric]
  by (simp add: app_roots_def gen_eval kinds_apart_def cd_wf_def beanContextName_def)

theorem discovered_start_ready_witness:
  "\<exists>cds e r'. makeAllDescriptors sample_compiler False app_roots = Some cds
     \<and> registry_start (name_code beanContextName, 8) (registry_init\<lparr>r_pending := [cds]\<rparr>) 5 = Some (e, r')
     \<and> e \<noteq> Some (ConfigurationError FactoryNotFound) \<and> e \<noteq> Some (ConfigurationError PrimaryNotFound)"
proof -
  obtain service api maker thing where cds: "makeAllDescriptors sample_compiler False app_roots = Some [service, api, maker, thing]"
      "kinds_apart [service, api, maker, thing]" "\<forall>cd \<in> set [service, api, maker, thing]. cd_wf name_code (\<lambda>nm. nm \<noteq> beanContextName) cd"
    using app_generated by blast
  let ?r = "registry_init\<lparr>r_pending := [[service, api, maker, thing]]\<rparr>"
  have ok: "reg_ok name_code P ?r" for P
    using reg_init_ok [OF name_code_inj, of P] by (simp add: reg_ok_def keyed_def)
  have room: "reg_room ?r (length (concat (r_pending ?r)) + (length (r_pendingRuntimeSingletons ?r) + 1))"
    using registry_init_room [of 5] by (simp add: reg_room_def registry_init_def)
  have "startable name_code (name_code beanContextName, 8) ?r"
    using ok room cds(3) by (simp add: startable_def) (simp add: registry_init_def ss_init_def)
  from discovered_start_ready [OF this, of 5] cds(1,2) show ?thesis by fastforce
qed

end
