(* ===== verification/Context_Start.thy ===== *)
theory Context_Start
  imports Context_Lifecycle Discovered_Start
begin

text \<open>
  \<open>BeanContext::start\<close> of a discovered program either completes, with every eager singleton constructed, or
  throws and leaves no bean behind.
\<close>

subsection \<open>Computations that keep a property and do not exhaust the fuel\<close>

definition safe :: "('s \<Rightarrow> bool) \<Rightarrow> ('s, 'a) stateful \<Rightarrow> bool" where
  "safe P m \<longleftrightarrow> (\<forall>s. P s \<longrightarrow> fst (m s) \<noteq> Fuel \<and> (\<forall>s'. ends m s s' \<longrightarrow> P s'))"

lemma safeD:
  assumes "safe P m" "P s"
  shows "fst (m s) \<noteq> Fuel" "m s = (Ret a, s') \<Longrightarrow> P s'" "m s = (Exc e, s') \<Longrightarrow> P s'"
  using assms unfolding safe_def ends_def by blast+

lemma s_ret: "safe P (retM a)"
  by (simp add: safe_def ends_def retM_def)

lemma s_upd: "(\<And>s. P s \<Longrightarrow> P (f s)) \<Longrightarrow> safe P (updM f)"
  by (simp add: safe_def ends_def updM_def)

lemma s_try: "(\<And>s s'. P s \<Longrightarrow> f s = Some s' \<Longrightarrow> P s') \<Longrightarrow> safe P (tryUpdM f)"
  by (auto simp: safe_def ends_def tryUpdM_def split: option.splits)

lemma s_read: "(\<And>s. safe P (f s)) \<Longrightarrow> safe P (readM f)"
  unfolding safe_def ends_def readM_def by blast

lemma s_bind:
  assumes m: "safe P m" and k: "\<And>a. safe P (k a)"
  shows "safe P (bindM m k)"
  unfolding safe_def
proof (intro allI impI conjI)
  fix s assume s: "P s"
  show "fst (bindM m k s) \<noteq> Fuel"
  proof (rule bind_fuel)
    show "fst (m s) \<noteq> Fuel" by (rule safeD(1) [OF m s])
    fix a s' assume "m s = (Ret a, s')"
    then have "P s'" by (rule safeD(2) [OF m s])
    then show "fst (k a s') \<noteq> Fuel" by (rule safeD(1) [OF k])
  qed
  fix s' assume "ends (bindM m k) s s'"
  from ends_bind [OF this] show "P s'"
  proof (elim disjE exE conjE)
    fix a s1 assume "m s = (Ret a, s1)" and e: "ends (k a) s1 s'"
    then have "P s1" by (intro safeD(2) [OF m s])
    then show "P s'" using k [of a] e unfolding safe_def by blast
  qed (rule safeD(3) [OF m s])
qed

text \<open>The registry is started with the descriptors \<open>dt\<close>, and no scope is active.\<close>

definition underway :: "desc_table \<Rightarrow> mstate \<Rightarrow> bool" where
  "underway dt s \<longleftrightarrow> mstate_ok s \<and> m_scope s = None \<and> r_started (m_reg s) \<and> r_descriptors (m_reg s) = dt"

lemma s_good:
  assumes "good (dtb_size dt) m"
  shows "safe (underway dt) m"
  unfolding safe_def
proof (intro allI impI conjI)
  fix s assume s: "underway dt s"
  then have ok: "mstate_ok s" "card (idle s) \<le> dtb_size dt" using idle_bound [of s] by (auto simp: underway_def)
  show "fst (m s) \<noteq> Fuel" by (rule goodD [OF assms ok])
  fix s' assume "ends m s s'"
  then have fr: "frame s s'" by (rule keepsD [OF good_keeps [OF assms]])
  have "r_started (m_reg s') = r_started (m_reg s)" using fr reg_frame_fields(2) by (simp add: frame_def)
  moreover have "m_scope s' = None" using fr s by (simp add: frame_def scope_frame_def underway_def)
  ultimately show "underway dt s'" using s frame_ok(1) [OF fr ok(1)] frame_reg(1) [OF fr] by (simp add: underway_def)
qed

lemma s_withoutScope:
  assumes "safe (underway dt) m"
  shows "safe (underway dt) (withoutScope m)"
proof -
  have eq: "withoutScope m s = (fst (m s), (snd (m s))\<lparr>m_scope := None\<rparr>)" if "underway dt s" for s
  proof -
    have upd: "s\<lparr>m_scope := None\<rparr> = s" and none: "m_scope s = None" using that by (simp_all add: underway_def)
    show ?thesis unfolding withoutScope_def upd none by (simp add: split_beta)
  qed
  show ?thesis unfolding safe_def
  proof (intro allI impI conjI)
    fix s assume s: "underway dt s"
    show "fst (withoutScope m s) \<noteq> Fuel" using safeD(1) [OF assms s] by (simp add: eq [OF s])
    fix s' assume "ends (withoutScope m) s s'"
    then have "ends m s (snd (m s))" "s' = (snd (m s))\<lparr>m_scope := None\<rparr>" by (auto simp: ends_def eq [OF s] prod_eq_iff)
    moreover from this have "underway dt (snd (m s))" using assms s unfolding safe_def by blast
    ultimately show "underway dt s'" by (simp add: underway_def mstate_ok_def)
  qed
qed

lemma s_reg: "(\<And>r. r_started (g r) = r_started r \<and> r_descriptors (g r) = r_descriptors r \<and> r_singletons (g r) = r_singletons r) \<Longrightarrow>
    safe (underway dt) (updReg g)"
  unfolding updReg_def by (rule s_upd) (auto simp: underway_def mstate_ok_def aliases_wf_def primaryOf_def)

lemma s_flush: "safe (underway dt) (flushDeferred ds)"
  unfolding flushDeferred_def by (rule s_try) (auto simp: underway_def mstate_ok_def)

lemma s_dispatch:
  assumes "2 * dtb_size dt + 2 \<le> f"
  shows "safe (underway dt) (dispatchM u (run u f) ph ty sc)"
  by (intro s_good g_dispatch run_fuel(1) assms)

lemma s_afterStart:
  assumes f: "2 * dtb_size dt + 2 \<le> f"
  shows "safe (underway dt) (dispatchBeanContextStartLifecycle u (run u f))" "safe (underway dt) (dispatchBoundSingletonLifecycle u (run u f))"
    "safe (underway dt) (materializeEagerSingletons (run u f))" "safe (underway dt) (updReg completeStart)"
proof -
  show "safe (underway dt) (dispatchBeanContextStartLifecycle u (run u f))"
    unfolding dispatchBeanContextStartLifecycle_def Let_def by (auto intro!: s_read s_bind s_ret s_reg s_dispatch f)
  have bound: "safe (underway dt) (dispatchBound u (run u f) bs)" for bs
    by (induction bs) (auto intro!: s_bind s_ret s_dispatch f)
  show "safe (underway dt) (dispatchBoundSingletonLifecycle u (run u f))"
    unfolding dispatchBoundSingletonLifecycle_def by (auto intro!: s_read s_bind s_reg bound)
  show "safe (underway dt) (materializeEagerSingletons (run u f))"
    unfolding materializeEagerSingletons_def by (intro s_withoutScope s_read s_good g_materializeAll run_fuel(1) f)
  show "safe (underway dt) (updReg completeStart)" by (rule s_reg) (simp add: completeStart_def)
qed

text \<open>The same on the context.\<close>

lemma s_root:
  assumes "safe P m"
  shows "safe (\<lambda>c. P (cx_m c)) (onRoot m)"
  unfolding safe_def
proof (intro allI impI conjI)
  have eq: "onRoot m c = (fst (m (cx_m c)), c\<lparr>cx_m := snd (m (cx_m c))\<rparr>)" for c :: root_context by (simp add: onRoot_def split: prod.splits)
  fix c :: root_context assume c: "P (cx_m c)"
  show "fst (onRoot m c) \<noteq> Fuel" using safeD(1) [OF assms c] by (simp add: eq)
  fix c' assume "ends (onRoot m) c c'"
  then have "ends m (cx_m c) (cx_m c')" by (auto simp: ends_def eq prod_eq_iff)
  then show "P (cx_m c')" using assms c unfolding safe_def by blast
qed

lemma s_flushScope: "safe (\<lambda>c. underway dt (cx_m c)) (flushScope key)"
proof -
  have "safe (\<lambda>c. underway dt (cx_m c)) (bindM (onRoot (flushDeferred ds)) (\<lambda>_. updM (setScope key sx)))" for ds sx
    by (intro s_bind s_root s_flush s_upd) (simp add: setScope_def)
  moreover have "safe (\<lambda>c. underway dt (cx_m c)) (abortM :: unit ccomp)" by (simp add: safe_def ends_def abortM_def)
  ultimately show ?thesis unfolding flushScope_def by (intro s_read) (simp split: option.split)
qed

lemma s_flushScopes: "safe (\<lambda>c. underway dt (cx_m c)) (flushScopes order)"
  by (induction order) (simp_all add: s_ret s_bind s_flushScope)

subsection \<open>Rollback\<close>

text \<open>\<open>rollbackFailedStart\<close> empties the registry, unless a hook or listener of the teardown throws.\<close>

lemma rollback_run:
  assumes ok: "r_started (m_reg s) \<longrightarrow> ss_inv (r_singletons (m_reg s))" "\<not> r_started (m_reg s) \<longrightarrow> registryEmpty s"
    and run: "rollbackFailedStart u (run u (Suc f)) s = (o1, s')"
  shows "o1 = Abort \<or> (o1 = Ret () \<and> registryEmpty s')"
proof -
  let ?s = "s\<lparr>m_reg := (m_reg s)\<lparr>r_startLifecyclePending := [], r_materializing := []\<rparr>\<rparr>"
  obtain o2 s1 where s1: "stopRegistryOwnedBeans u (run u (Suc f)) ?s = (o2, s1)" by (cases "stopRegistryOwnedBeans u (run u (Suc f)) ?s")
  have rb: "o2 = Ret b \<Longrightarrow> o1 = Ret () \<and> s' = s1" "o2 = Abort \<Longrightarrow> o1 = Abort" for b
    using run s1 by (auto simp: rollbackFailedStart_def updReg_def bindM_def updM_def retM_def)
  show ?thesis
  proof (cases "r_started (m_reg s)")
    case True
    then have "r_started (m_reg ?s)" "ss_inv (r_singletons (m_reg ?s))" using ok(1) by simp_all
    from stop_owned_run [OF this s1] rb show ?thesis by (auto simp: registryEmpty_def)
  next
    case False
    then have "o2 = Ret False" "s1 = ?s" using s1 by (simp_all add: stopRegistryOwnedBeans_def readM_def retM_def)
    then show ?thesis using ok(2) False rb(1) by (simp add: registryEmpty_def)
  qed
qed

subsection \<open>The start of a context\<close>

text \<open>What follows once the registry is started.\<close>

definition afterStart :: "user_code \<Rightarrow> resolver \<Rightarrow> lentry list \<Rightarrow> string list \<Rightarrow> unit ccomp" where
  "afterStart u res ds order =
     bindM (onRoot (flushDeferred ds)) (\<lambda>_.
     bindM (updM (\<lambda>c. c\<lparr>cx_deferred := []\<rparr>)) (\<lambda>_.
     bindM (flushScopes order) (\<lambda>_.
     onRoot (bindM (dispatchBeanContextStartLifecycle u res) (\<lambda>_.
             bindM (dispatchBoundSingletonLifecycle u res) (\<lambda>_.
             bindM (materializeEagerSingletons res) (\<lambda>_.
             updReg completeStart)))))))"

lemma afterStart_safe:
  assumes "2 * dtb_size dt + 2 \<le> f"
  shows "safe (\<lambda>c. underway dt (cx_m c)) (afterStart u (run u f) ds order)"
  unfolding afterStart_def by (intro s_bind s_root s_flush s_flushScopes s_afterStart [OF assms] s_upd) simp

definition eagerDone :: "registry \<Rightarrow> bool" where
  "eagerDone r \<longleftrightarrow> (\<forall>d < dtb_size (r_descriptors r). is_eager r d \<longrightarrow> ss_find (r_singletons r) d \<noteq> None)"

lemma afterStart_Ret:
  assumes f: "2 * dtb_size dt + 2 \<le> f" and c: "underway dt (cx_m c)" "dtb_inv dt" and run: "afterStart u (run u f) ds order c = (Ret (), c')"
  shows "eagerDone (m_reg (cx_m c')) \<and> r_pending (m_reg (cx_m c')) = []"
proof -
  define tail where "tail = bindM (dispatchBeanContextStartLifecycle u (run u f)) (\<lambda>_.
             bindM (dispatchBoundSingletonLifecycle u (run u f)) (\<lambda>_.
             bindM (materializeEagerSingletons (run u f)) (\<lambda>_. updReg completeStart)))"
  define pre where "pre = bindM (onRoot (flushDeferred ds)) (\<lambda>_. bindM (updM (\<lambda>c. c\<lparr>cx_deferred := []\<rparr>)) (\<lambda>_. flushScopes order))"
  have "bindM pre (\<lambda>_. onRoot tail) c = (Ret (), c')"
    using run by (simp add: pre_def tail_def afterStart_def bind_assoc)
  then obtain a c1 where c1: "pre c = (Ret a, c1)" "onRoot tail c1 = (Ret (), c')" by (rule bind_RetE)
  have "safe (\<lambda>c. underway dt (cx_m c)) pre"
    unfolding pre_def by (intro s_bind s_root s_flush s_flushScopes s_upd) simp
  then have u1: "underway dt (cx_m c1)" using c(1) c1(1) by (rule safeD(2))
  obtain s' where s': "tail (cx_m c1) = (Ret (), s')" "c' = c1\<lparr>cx_m := s'\<rparr>" using c1(2) by (auto simp: onRoot_def split: prod.splits)
  from s'(1) obtain a2 s2 where 2: "dispatchBeanContextStartLifecycle u (run u f) (cx_m c1) = (Ret a2, s2)"
    "bindM (dispatchBoundSingletonLifecycle u (run u f)) (\<lambda>_. bindM (materializeEagerSingletons (run u f)) (\<lambda>_. updReg completeStart)) s2 = (Ret (), s')"
    unfolding tail_def by (rule bind_RetE)
  from 2(2) obtain a3 s3 where 3: "dispatchBoundSingletonLifecycle u (run u f) s2 = (Ret a3, s3)"
    "bindM (materializeEagerSingletons (run u f)) (\<lambda>_. updReg completeStart) s3 = (Ret (), s')" by (rule bind_RetE)
  from 3(2) obtain a4 s4 where 4: "materializeEagerSingletons (run u f) s3 = (Ret a4, s4)" "updReg completeStart s4 = (Ret (), s')" by (rule bind_RetE)
  have u3: "underway dt s3" using safeD(2) [OF s_afterStart(2) [OF f] safeD(2) [OF s_afterStart(1) [OF f] u1 2(1)] 3(1)] .
  have u4: "underway dt s4" using safeD(2) [OF s_afterStart(3) [OF f] u3 4(1)] .
  have s3: "mstate_ok s3" "dtb_inv (r_descriptors (m_reg s3))" "2 * dtb_size (r_descriptors (m_reg s3)) + 2 \<le> f"
    using u3 c(2) f by (simp_all add: underway_def)
  have "is_eager (m_reg s4) d = is_eager (m_reg s3) d" for d using u3 u4 by (simp add: is_eager_def underway_def)
  then have "eagerDone (m_reg s4)" using eager_run [OF s3 4(1)] u3 u4 by (auto simp: eagerDone_def underway_def)
  moreover have "s' = s4\<lparr>m_reg := completeStart (m_reg s4)\<rparr>" using 4(2) by (simp add: updReg_def updM_def)
  ultimately show ?thesis by (simp add: s'(2) eagerDone_def completeStart_def is_eager_def)
qed

text \<open>C5.  The start of a context is all or nothing. Let every contribution be generated by \<open>discover<>()\<close>, no alias have the
  hash of a bean, and the context be new. Then \<open>start()\<close> ends, whatever listeners, constructors and hooks do.
  If it returns, the registry is started and every eager singleton is constructed. If
  it throws, the registry is stopped and holds no singleton and no prototype.\<close>

theorem context_start_all_or_nothing:
  assumes st: "startable tinfo bc (m_reg (cx_m c))" and new: "registryEmpty (cx_m c)" "m_scope (cx_m c) = None"
    and gen: "\<forall>cds \<in> set (r_pending (m_reg (cx_m c))). \<exists>co meta roots. makeAllDescriptors co meta roots = Some cds"
    and apart: "kinds_apart (concat (r_pending (m_reg (cx_m c))))"
    and fuel: "2 * (length (concat (r_pending (m_reg (cx_m c)))) + length (r_pendingRuntimeSingletons (m_reg (cx_m c))) + 1) + 2 \<le> f"
    and run: "context_start bc u (run u f) order c = (o1, c')"
  shows "o1 \<noteq> Fuel
    \<and> (o1 = Ret () \<longrightarrow> r_started (m_reg (cx_m c')) \<and> r_pending (m_reg (cx_m c')) = [] \<and> eagerDone (m_reg (cx_m c')))
    \<and> (\<forall>e. o1 = Exc e \<longrightarrow> registryEmpty (cx_m c'))"
proof -
  obtain f' where f': "f = Suc f'" using fuel by (cases f) auto
  let ?m = "bindM (onRoot (startRegistry bc (cx_self c))) (\<lambda>_. afterStart u (run u f) (cx_deferred c) order)"
  have cs: "catchM ?m (onRoot (rollbackFailedStart u (run u f))) c = (o1, c')"
    using run by (simp add: context_start_def afterStart_def readM_def catchM_def)
  obtain e r' where r': "registry_start bc (m_reg (cx_m c)) (cx_self c) = Some (e, r')"
    and ok: "e = None \<longrightarrow> aliases_wf r' \<and> started_ok tinfo (cx_self c) r'
       \<and> dtb_size (r_descriptors r') \<le> length (concat (r_pending (m_reg (cx_m c)))) + length (r_pendingRuntimeSingletons (m_reg (cx_m c))) + 1"
    using generated_start [OF st gen apart, of "cx_self c"] by blast
  let ?c1 = "c\<lparr>cx_m := (cx_m c)\<lparr>m_reg := r'\<rparr>\<rparr>"
  have rollback: "o1 = Abort \<or> ((\<exists>e. o1 = Exc e) \<and> registryEmpty (cx_m c'))"
    if m: "?m c = (Exc x, c2)" and c2: "r_started (m_reg (cx_m c2)) \<longrightarrow> ss_inv (r_singletons (m_reg (cx_m c2)))"
      "\<not> r_started (m_reg (cx_m c2)) \<longrightarrow> registryEmpty (cx_m c2)" for x c2
  proof -
    obtain o2 s2 where s2: "rollbackFailedStart u (run u f) (cx_m c2) = (o2, s2)" by (cases "rollbackFailedStart u (run u f) (cx_m c2)")
    have rb: "onRoot (rollbackFailedStart u (run u f)) c2 = (o2, c2\<lparr>cx_m := s2\<rparr>)" by (simp add: onRoot_def s2)
    from rollback_run [OF c2 s2 [unfolded f']] show ?thesis
    proof (elim disjE conjE)
      assume "o2 = Abort"
      then show ?thesis using cs m rb by (simp add: catchM_def bindM_def)
    next
      assume "o2 = Ret ()" "registryEmpty s2"
      then show ?thesis using cs m rb by (auto simp: catchM_def bindM_def throwM_def)
    qed
  qed
  show ?thesis
  proof (cases e)
    case (Some x)
    have "r_singletons r' = r_singletons (m_reg (cx_m c)) \<and> \<not> r_started r'" using registry_start_frame(2) [OF r'] Some by simp
    then have "\<not> r_started (m_reg (cx_m ?c1))" "registryEmpty (cx_m ?c1)" using new(1) by (simp_all add: registryEmpty_def)
    moreover have "?m c = (Exc x, ?c1)" using r' Some by (simp add: bindM_def onRoot_def startRegistry_def)
    ultimately show ?thesis using rollback by fastforce
  next
    case None
    have started: "aliases_wf r'" "r_started r'" "ss_inv (r_singletons r')" "dtb_inv (r_descriptors r')"
      "2 * dtb_size (r_descriptors r') + 2 \<le> f"
      using ok None fuel by (simp_all add: started_ok_def reg_ok_def)
    have u1: "underway (r_descriptors r') (cx_m ?c1)" using started new(2) by (simp add: underway_def mstate_ok_def)
    have m: "?m c = afterStart u (run u f) (cx_deferred c) order ?c1"
      using r' None by (simp add: bindM_def onRoot_def startRegistry_def)
    obtain o2 c2 where c2: "afterStart u (run u f) (cx_deferred c) order ?c1 = (o2, c2)"
      by (cases "afterStart u (run u f) (cx_deferred c) order ?c1")
    note sf = safeD [where P = "\<lambda>c. underway (r_descriptors r') (cx_m c)", OF afterStart_safe [OF started(5)] u1]
    show ?thesis
    proof (cases o2)
      case (Ret a)
      then have "o1 = Ret ()" "c' = c2" using cs m c2 by (simp_all add: catchM_def)
      moreover have "r_started (m_reg (cx_m c2))" using sf(2) c2 Ret by (simp add: underway_def)
      moreover have "eagerDone (m_reg (cx_m c2)) \<and> r_pending (m_reg (cx_m c2)) = []"
        using afterStart_Ret [OF started(5) u1 started(4)] c2 Ret by simp
      ultimately show ?thesis by simp
    next
      case (Exc x)
      then have u2: "underway (r_descriptors r') (cx_m c2)" using sf(3) c2 by blast
      have "?m c = (Exc x, c2)" using m c2 Exc by simp
      then show ?thesis using rollback u2 by (fastforce simp: underway_def mstate_ok_def)
    next
      case Fuel
      then show ?thesis using sf(1) c2 by (metis fst_conv)
    qed (use cs m c2 in \<open>simp_all add: catchM_def\<close>)
  qed
qed

subsection \<open>A concrete program\<close>

theorem context_start_all_or_nothing_witness:
  "\<exists>cds o1 c'. makeAllDescriptors sample_compiler False app_roots = Some cds \<and> length cds = 4
     \<and> context_start (name_code beanContextName, 8) sample_user (run sample_user 12) [] ((new_context ''main'' 10 1 1 tl_init)\<lparr>cx_m :=
          cx_m (new_context ''main'' 10 1 1 tl_init)\<lparr>m_reg := registry_init\<lparr>r_pending := [cds]\<rparr>\<rparr>\<rparr>) = (o1, c')
     \<and> o1 \<noteq> Fuel \<and> (o1 = Ret () \<longrightarrow> eagerDone (m_reg (cx_m c'))) \<and> (\<forall>e. o1 = Exc e \<longrightarrow> registryEmpty (cx_m c'))"
proof -
  obtain service api maker thing where cds: "makeAllDescriptors sample_compiler False app_roots = Some [service, api, maker, thing]"
      "kinds_apart [service, api, maker, thing]" "\<forall>cd \<in> set [service, api, maker, thing]. cd_wf name_code (\<lambda>nm. nm \<noteq> beanContextName) cd"
    using app_generated by blast
  let ?r = "registry_init\<lparr>r_pending := [[service, api, maker, thing]]\<rparr>" and ?new = "new_context ''main'' 10 1 1 tl_init"
  let ?c = "?new\<lparr>cx_m := (cx_m ?new)\<lparr>m_reg := ?r\<rparr>\<rparr>"
  have "reg_ok name_code P ?r" for P using reg_init_ok [OF name_code_inj, of P] by (simp add: reg_ok_def keyed_def)
  moreover have "reg_room ?r (length (concat (r_pending ?r)) + (length (r_pendingRuntimeSingletons ?r) + 1))"
    using registry_init_room [of 5] by (simp add: reg_room_def registry_init_def)
  ultimately have st: "startable name_code (name_code beanContextName, 8) (m_reg (cx_m ?c))"
    using cds(3) by (simp add: startable_def) (simp add: registry_init_def ss_init_def)
  have new: "registryEmpty (cx_m ?c)" "m_scope (cx_m ?c) = None"
    by (simp_all add: registryEmpty_def new_context_def registry_init_def ss_init_def ss_find_def ps_init_def ps_memoryAt_def)
  obtain o1 c' where run: "context_start (name_code beanContextName, 8) sample_user (run sample_user 12) [] ?c = (o1, c')"
    by (cases "context_start (name_code beanContextName, 8) sample_user (run sample_user 12) [] ?c")
  have "\<forall>cds \<in> set (r_pending (m_reg (cx_m ?c))). \<exists>co meta roots. makeAllDescriptors co meta roots = Some cds" using cds(1) by auto
  moreover have "kinds_apart (concat (r_pending (m_reg (cx_m ?c))))" using cds(2) by simp
  moreover have "2 * (length (concat (r_pending (m_reg (cx_m ?c)))) + length (r_pendingRuntimeSingletons (m_reg (cx_m ?c))) + 1) + 2 \<le> 12"
    by (simp add: registry_init_def)
  ultimately show ?thesis using context_start_all_or_nothing [OF st new _ _ _ run] cds(1) run
    by (intro exI [of _ "[service, api, maker, thing]"] exI [of _ o1] exI [of _ c']) simp
qed

end
