(* ===== verification/Bean_Access.thy ===== *)
theory Bean_Access
  imports Bean_Casts Context_Scopes
begin

text \<open>
  Dereferencing a handle (\<^verbatim>\<open>Bean::operator->\<close>): direct, through the scope a handle names
  (\<^verbatim>\<open>proxyResolve_\<close>), and through the store of the calling thread (\<^verbatim>\<open>threadLocalResolve_\<close>).
\<close>

subsection \<open>Operations\<close>

text \<open>The key of the scope object at an address.\<close>

definition scopeAt :: "root_context \<Rightarrow> ptr \<Rightarrow> (string \<times> scoped_context) option" where
  "scopeAt c p = find (\<lambda>(key, sx). sc_self (sx_scope sx) = p) (cx_scopes c)"

definition proxyResolve :: "user_code \<Rightarrow> resolver \<Rightarrow> bean \<Rightarrow> ptr option ccomp" where
  "proxyResolve u res b = readM (\<lambda>c.
     case findScope (cx_scopeTable c) (b_scopeNameId b) of
       None \<Rightarrow> retM None
     | Some p \<Rightarrow>
         (case scopeAt c p of
            None \<Rightarrow> abortM
          | Some (key, sx) \<Rightarrow>
              let r = m_reg (cx_m c); descId = b_descId b; primaryId = primaryOf r descId;
                  desc = dtb_at (r_descriptors r) descId; slot = d_sessionSlot (dtb_at (r_descriptors r) primaryId)
              in if sc_scopeState (sx_scope sx) = Stopped then retM None
                 else if dtb_size (r_descriptors r) \<le> descId \<or> dtb_size (r_descriptors r) \<le> primaryId then abortM
                 else case ses_find (sc_sessionStore (sx_scope sx)) slot of
                   Some instance \<Rightarrow> retM (Some (adjusted desc instance))
                 | None \<Rightarrow>
                     if sc_scopeState (sx_scope sx) = Stopping then retM None
                     else onScope key (bindM (materializeSessionInstance u res descId (sx_scope sx))
                            (\<lambda>instance. retM (Some (adjusted desc instance))))))"

definition threadLocalResolve :: "user_code \<Rightarrow> resolver \<Rightarrow> bean \<Rightarrow> ptr option ccomp" where
  "threadLocalResolve u res b = onRoot (readM (\<lambda>s.
     let descId = b_descId b; primaryId = primaryOf (m_reg s) descId; desc = dtb_at (r_descriptors (m_reg s)) descId
     in if dtb_size (r_descriptors (m_reg s)) \<le> descId then abortM
        else bindM (tlFind primaryId) (\<lambda>q. case q of
          Some instance \<Rightarrow> retM (Some (adjusted desc instance))
        | None \<Rightarrow> bindM (materializeThreadLocalInstance u res descId) (\<lambda>instance. retM (Some (adjusted desc instance))))))"

definition bean_arrow :: "user_code \<Rightarrow> resolver \<Rightarrow> bean \<Rightarrow> ptr option ccomp" where
  "bean_arrow u res b =
     (if b_object b \<noteq> None then retM (b_object b)
      else if b_registry b = None then retM None
      else if b_scopeNameId b = kThreadLocalSentinel then threadLocalResolve u res b
      else proxyResolve u res b)"

subsection \<open>A session bean stays the same while its scope runs\<close>

text \<open>Session descriptors have slots of their own.\<close>

definition slots_distinct :: "registry \<Rightarrow> bool" where
  "slots_distinct r \<longleftrightarrow> (\<forall>d < dtb_size (r_descriptors r). \<forall>e < dtb_size (r_descriptors r).
     d_lifetime (dtb_at (r_descriptors r) d) = Session \<and> e \<noteq> d
       \<longrightarrow> d_sessionSlot (dtb_at (r_descriptors r) e) \<noteq> d_sessionSlot (dtb_at (r_descriptors r) d))"

text \<open>No store is overwritten, and the slot of a bean under construction stays empty.\<close>

definition kept :: "mstate \<Rightarrow> mstate \<Rightarrow> bool" where
  "kept s s' \<longleftrightarrow> (\<forall>k v. sessionFind s k = Some v \<longrightarrow> sessionFind s' k = Some v)
     \<and> (\<forall>d \<in> set (m_stack s). d < dtb_size (r_descriptors (m_reg s)) \<and> d_lifetime (dtb_at (r_descriptors (m_reg s)) d) = Session
          \<and> sessionFind s (session_slot s d) = None \<longrightarrow> sessionFind s' (session_slot s d) = None)"

definition sessions_fixed :: "mstate \<Rightarrow> mstate \<Rightarrow> bool" where
  "sessions_fixed s s' \<longleftrightarrow> frame s s' \<and> (slots_distinct (m_reg s) \<and> mstate_ok s \<longrightarrow> kept s s')"

lemma slots_distinct_cong: "r_descriptors r' = r_descriptors r \<Longrightarrow> slots_distinct r' = slots_distinct r"
  by (simp add: slots_distinct_def)

lemma sessionFind_cong: "m_scope s' = m_scope s \<Longrightarrow> sessionFind s' k = sessionFind s k"
  by (simp add: sessionFind_def)

lemma sessionFind_same [simp]:
  "sessionFind (claimed d sc s) k = sessionFind s k" "sessionFind (releaseClaim d sc s) k = sessionFind s k"
  by (simp_all add: sessionFind_def claimed_def releaseClaim_def)

lemma sessionStore_find:
  assumes "sessionStore slot d mem s = Some s'" "mstate_ok s"
  shows "sessionFind s' k = (if k = slot then Some mem else sessionFind s k)"
  using assms by (auto simp: sessionStore_def sessionFind_def mstate_ok_def ses_store_wf(2) split: option.splits)

lemma kept_trans:
  assumes fr: "frame s s'" and k: "kept s s'" "kept s' s''"
  shows "kept s s''"
proof -
  have eq: "r_descriptors (m_reg s') = r_descriptors (m_reg s)" "m_stack s' = m_stack s" "session_slot s' = session_slot s"
    using fr frame_reg(1) [OF fr] by (simp_all add: frame_def session_slot_def fun_eq_iff)
  show ?thesis using k unfolding kept_def eq by blast
qed

lemma fixed_cong:
  assumes "slots_distinct (m_reg s)" "mstate_ok s"
  shows "slots_distinct (m_reg (claimed d sc s))" "mstate_ok (claimed d sc s)"
  using assms construct_claimed_ok by (simp_all add: claimed_def slots_distinct_def)

lemma kept_claimed:
  assumes "kept (claimed d sc s) s'"
  shows "kept s (releaseClaim d sc s')"
    "d < dtb_size (r_descriptors (m_reg s)) \<Longrightarrow> d_lifetime (dtb_at (r_descriptors (m_reg s)) d) = Session \<Longrightarrow>
       sessionFind s (session_slot s d) = None \<Longrightarrow> sessionFind s' (session_slot s d) = None"
proof -
  have eq: "r_descriptors (m_reg (claimed d sc s)) = r_descriptors (m_reg s)" "set (m_stack (claimed d sc s)) = insert d (set (m_stack s))"
    "session_slot (claimed d sc s) = session_slot s"
    by (simp_all add: claimed_def session_slot_def fun_eq_iff)
  note k = assms [unfolded kept_def eq sessionFind_same]
  show "kept s (releaseClaim d sc s')" using k unfolding kept_def sessionFind_same by blast
  show "d < dtb_size (r_descriptors (m_reg s)) \<Longrightarrow> d_lifetime (dtb_at (r_descriptors (m_reg s)) d) = Session \<Longrightarrow>
       sessionFind s (session_slot s d) = None \<Longrightarrow> sessionFind s' (session_slot s d) = None" using k by blast
qed

lemma kept_scope: "m_scope s'' = m_scope s' \<Longrightarrow> kept s s'' = kept s s'"
  by (simp add: kept_def sessionFind_def)

interpretation vf: resolution_frame sessions_fixed
proof (unfold_locales, goal_cases)
  case (1 s)
  show ?case by (simp add: sessions_fixed_def fr.R_refl kept_def)
next
  case (2 s s' s'')
  have fr: "frame s s'" "frame s' s''" using 2 by (simp_all add: sessions_fixed_def)
  have "slots_distinct (m_reg s') = slots_distinct (m_reg s)" by (rule slots_distinct_cong [OF frame_reg(1) [OF fr(1)]])
  then show ?case using 2 fr.R_trans [OF fr] kept_trans [OF fr(1)] frame_ok(1) [OF fr(1)] unfolding sessions_fixed_def by blast
next
  case (3 evs s x ps tld)
  then show ?case using fr.R_local [OF 3] by (simp add: sessions_fixed_def kept_def sessionFind_def)
next
  case (4 d s s')
  let ?s = "s\<lparr>m_stack := d # m_stack s\<rparr>"
  have "slots_distinct (m_reg ?s) = slots_distinct (m_reg s)" "mstate_ok ?s = mstate_ok s" "session_slot ?s = session_slot s"
    "\<And>k. sessionFind ?s k = sessionFind s k" "\<And>k. sessionFind (s'\<lparr>m_stack := tl (m_stack s')\<rparr>) k = sessionFind s' k"
    by (simp_all add: mstate_ok_def session_slot_def sessionFind_def fun_eq_iff)
  then show ?case using 4 fr.R_guard [OF 4(1)] by (auto simp: sessions_fixed_def kept_def)
next
  case (5 d sc s s')
  have "frame (claimed d sc s) s'" using 5(2) by (simp add: sessions_fixed_def)
  from fr.R_claim_fail [OF 5(1) this] show ?case using 5(2) fixed_cong kept_claimed(1) unfolding sessions_fixed_def by blast
next
  case (6 d s s' mem s'')
  have "frame (claimed d None s) s'" using 6(2) by (simp add: sessions_fixed_def)
  note fr = fr.R_claim_singleton [OF 6(1) this 6(3)]
  have "m_scope s'' = m_scope s'" using 6(3) by (auto simp: singletonStore_def)
  then have "kept (claimed d None s) s'' = kept (claimed d None s) s'" by (rule kept_scope)
  then show ?case using 6(2) fr fixed_cong kept_claimed(1) unfolding sessions_fixed_def by blast
next
  case (7 d sc s s' slot mem s'')
  have fr: "frame (claimed d sc s) s'" using 7(2) by (simp add: sessions_fixed_def)
  have "kept s (releaseClaim d sc s'')" if ok: "slots_distinct (m_reg s)" "mstate_ok s"
  proof -
    have k: "kept (claimed d sc s) s'" using 7(2) fixed_cong [OF ok] unfolding sessions_fixed_def by blast
    note k1 = kept_claimed(1) [OF k, unfolded kept_def sessionFind_same]
    have "mstate_ok s'" by (rule frame_ok(1) [OF fr fixed_cong(2) [OF ok]])
    note st = sessionStore_find [OF 7(3) this]
    have slot: "slot = session_slot s d" using 7(6) by (simp add: session_slot_def)
    show ?thesis unfolding kept_def sessionFind_same st
    proof (intro conjI allI impI ballI)
      show "(if j = slot then Some mem else sessionFind s' j) = Some v" if "sessionFind s j = Some v" for j v
        using k1 that 7(7) by auto
      fix e assume e: "e \<in> set (m_stack s)" "e < dtb_size (r_descriptors (m_reg s)) \<and> d_lifetime (dtb_at (r_descriptors (m_reg s)) e) = Session
          \<and> sessionFind s (session_slot s e) = None"
      have "session_slot s e \<noteq> slot" using ok(1) e 7(4,5) unfolding slots_distinct_def slot session_slot_def by metis
      then show "(if session_slot s e = slot then Some mem else sessionFind s' (session_slot s e)) = None" using k1 e by auto
    qed
  qed
  then show ?case using frame_claim_session [OF 7(1) fr 7(3)] by (simp add: sessions_fixed_def)
qed

lemma session_instance_stored:
  assumes run: "materializeSessionInstance u (run u f) d scope s = (Ret inst, s')"
    and ok: "mstate_ok s" "slots_distinct (m_reg s)"
  shows "frame s s'" "sessionFind s' (session_slot s (primaryOf (m_reg s) d)) = Some inst"
proof -
  let ?p = "primaryOf (m_reg s) d"
  let ?slot = "session_slot s ?p" and ?cold = "dtb_coldAt (r_descriptors (m_reg s)) ?p"
  show fr: "frame s s'" by (rule keeps_Ret [OF fr.r_session [OF fr.run_keeps] run])
  have "sessionFind s ?slot = Some inst \<and> s' = s \<or>
      claimAndMaterialize u (run u f) ?p (Some (sc_self scope)) ?cold True (\<lambda>s. sessionFind s ?slot) (sessionStore ?slot ?p) (sc_scopeNameId scope) s = (Ret inst, s')"
    using run by (auto simp: materializeSessionInstance_def readM_def Let_def session_slot_def abortM_def throwM_def retM_def split: if_splits option.splits)
  then show "sessionFind s' ?slot = Some inst"
  proof (elim disjE conjE)
    assume "claimAndMaterialize u (run u f) ?p (Some (sc_self scope)) ?cold True (\<lambda>s. sessionFind s ?slot) (sessionStore ?slot ?p) (sc_scopeNameId scope) s = (Ret inst, s')"
    then show ?thesis
    proof (cases rule: claim_RetE)
      case (2 s1 s2)
      let ?s2 = "releaseClaim ?p (Some (sc_self scope)) s2"
      have fr1: "frame (claimed ?p (Some (sc_self scope)) s) s1" by (rule keeps_Ret [OF fr.r_construct [OF fr.run_keeps] 2(1)])
      have ok1: "mstate_ok s1" by (rule frame_ok(1) [OF fr1 construct_claimed_ok [OF ok(1)]])
      have fr2: "frame s ?s2" by (rule frame_claim_session [OF 2(6) fr1 2(2)])
      have ok2: "mstate_ok ?s2" "slots_distinct (m_reg ?s2)"
        using frame_ok(1) [OF fr2 ok(1)] slots_distinct_cong [OF frame_reg(1) [OF fr2]] ok(2) by simp_all
      have "sessions_fixed ?s2 s'" by (rule keeps_Ret [OF vf.r_created [OF vf.run_keeps] 2(3)])
      then have "kept ?s2 s'" using ok2 by (simp add: sessions_fixed_def)
      moreover have "sessionFind ?s2 ?slot = Some inst" using sessionStore_find [OF 2(2) ok1, of ?slot] by simp
      ultimately show ?thesis unfolding kept_def by blast
    qed simp
  qed simp
qed

subsection \<open>Reading through a handle\<close>

lemma scopeAt_self:
  assumes ids: "distinct (map fst (scope_ids c))" "distinct (map (\<lambda>(k, p, n). p) (scope_ids c))" and sx: "scopeOf c key = Some sx"
  shows "scopeAt c (sc_self (sx_scope sx)) = Some (key, sx)"
proof -
  have d: "distinct (map (\<lambda>(k, sx). sc_self (sx_scope sx)) (cx_scopes c))"
    using ids(2) by (simp add: scope_ids_def comp_def case_prod_unfold scope_id_def)
  have mem: "(key, sx) \<in> set (cx_scopes c)" using sx by (simp add: scopeOf_def map_of_SomeD)
  have "find (\<lambda>(k, x). sc_self (sx_scope x) = sc_self (sx_scope sx)) xs = Some (key, sx)"
    if "distinct (map (\<lambda>(k, sx). sc_self (sx_scope sx)) xs)" "(key, sx) \<in> set xs" for xs
    using that by (induction xs) (force simp: image_iff)+
  then show ?thesis using d mem by (simp add: scopeAt_def)
qed

text \<open>A handle to a scope, its descriptor and its primary.\<close>

lemma arrow_proxy:
  assumes n: "n < 65536" "d < 2 ^ 32" and c: "findScope (cx_scopeTable c) n = Some p" "scopeAt c p = Some (key, sx)"
    and d: "d < dtb_size (r_descriptors (m_reg (cx_m c)))" "primaryOf (m_reg (cx_m c)) d < dtb_size (r_descriptors (m_reg (cx_m c)))"
  shows "bean_arrow u res (makeProxy n d) c =
    (let desc = dtb_at (r_descriptors (m_reg (cx_m c))) d
     in if sc_scopeState (sx_scope sx) = Stopped then (Ret None, c)
        else case ses_find (sc_sessionStore (sx_scope sx)) (session_slot (cx_m c) (primaryOf (m_reg (cx_m c)) d)) of
          Some inst \<Rightarrow> (Ret (Some (adjusted desc inst)), c)
        | None \<Rightarrow> if sc_scopeState (sx_scope sx) = Stopping then (Ret None, c)
            else onScope key (bindM (materializeSessionInstance u res d (sx_scope sx)) (\<lambda>inst. retM (Some (adjusted desc inst)))) c)"
proof -
  have bits: "b_scopeNameId (makeProxy n d) = n" "b_descId (makeProxy n d) = d"
    using n by (simp_all add: b_scopeNameId_def b_descId_def makeProxy_def lo32_pack hi32_pack)
  have "n \<noteq> kThreadLocalSentinel" using n by (simp add: sentinel_defs)
  then have "bean_arrow u res (makeProxy n d) c = proxyResolve u res (makeProxy n d) c"
    by (simp add: bean_arrow_def bits) (simp add: makeProxy_def)
  then show ?thesis using c d
    by (simp add: proxyResolve_def readM_def bits Let_def session_slot_def retM_def split: option.split)
qed

text \<open>C16.  A handle to a session bean follows its scope. In every state with the invariant of the context (which all calls keep), dereferencing a
  handle that names a scope gives null without any effect if the scope is stopped; it gives the stored bean, adjusted to the
  exposed type, without any effect if there is one; and on a running scope without the bean it creates the
  bean, stores it in that scope and returns it, so that the next access returns the same object and changes nothing.\<close>

theorem session_handle_follows_scope:
  fixes u :: user_code and f :: nat
  assumes inv: "ctx_inv c" "0 < ni_room (r_names (m_reg (cx_m c)))"
    and sx: "scopeOf c key = Some sx" "sc_scopeNameId (sx_scope sx) < 65536"
    and ok: "mstate_ok ((cx_m c)\<lparr>m_scope := Some (sx_scope sx)\<rparr>)" "slots_distinct (m_reg (cx_m c))"
    and d: "d < dtb_size (r_descriptors (m_reg (cx_m c)))" "d < 2 ^ 32"
      "primaryOf (m_reg (cx_m c)) d < dtb_size (r_descriptors (m_reg (cx_m c)))"
  defines "b \<equiv> makeProxy (sc_scopeNameId (sx_scope sx)) d"
    and "desc \<equiv> dtb_at (r_descriptors (m_reg (cx_m c))) d"
    and "slot \<equiv> session_slot (cx_m c) (primaryOf (m_reg (cx_m c)) d)"
    and "access \<equiv> bean_arrow u (run u f)"
  shows "(sc_scopeState (sx_scope sx) = Stopped \<longrightarrow> access b c = (Ret None, c))
    \<and> (sc_scopeState (sx_scope sx) \<noteq> Stopped \<longrightarrow> (\<forall>inst. ses_find (sc_sessionStore (sx_scope sx)) slot = Some inst \<longrightarrow>
          access b c = (Ret (Some (adjusted desc inst)), c)))
    \<and> (\<forall>q c'. sc_scopeState (sx_scope sx) = Running \<and> access b c = (Ret q, c') \<longrightarrow>
          (\<exists>inst sx'. q = Some (adjusted desc inst) \<and> scopeOf c' key = Some sx' \<and> ses_find (sc_sessionStore (sx_scope sx')) slot = Some inst)
          \<and> access b c' = (Ret q, c'))"
proof -
  have so: "scopes_ok c" and dist: "distinct (map fst (scope_ids c))" using inv by (simp_all add: ctx_inv_def)
  then have selfs: "distinct (map (\<lambda>(k, p, n). p) (scope_ids c))" by (simp add: scopes_ok_def)
  let ?n = "sc_scopeNameId (sx_scope sx)" and ?p = "sc_self (sx_scope sx)"
  have "(key, ?p, ?n) \<in> set (scope_ids c)" using sx(1) by (simp add: scope_ids_iff [OF dist] scope_id_def)
  then have fs: "findScope (cx_scopeTable c) ?n = Some ?p" using so sx(2) by (fastforce simp: scopes_ok_def)
  note arrow = arrow_proxy [OF sx(2) d(2) fs scopeAt_self [OF dist selfs sx(1)] d(1,3), of u "run u f",
      folded b_def desc_def slot_def access_def, unfolded Let_def]
  have again: "(\<exists>inst sx'. q = Some (adjusted desc inst) \<and> scopeOf c' key = Some sx' \<and> ses_find (sc_sessionStore (sx_scope sx')) slot = Some inst)
          \<and> access b c' = (Ret q, c')" if running: "sc_scopeState (sx_scope sx) = Running" and acc: "access b c = (Ret q, c')" for q c'
  proof (cases "ses_find (sc_sessionStore (sx_scope sx)) slot")
    case (Some inst)
    then show ?thesis using arrow running acc sx(1) by auto
  next
    case None
    let ?s = "(cx_m c)\<lparr>m_scope := Some (sx_scope sx)\<rparr>"
    have m: "onScope key (bindM (materializeSessionInstance u (run u f) d (sx_scope sx)) (\<lambda>inst. retM (Some (adjusted desc inst)))) c = (Ret q, c')"
      using arrow running acc None by simp
    then obtain s where s: "bindM (materializeSessionInstance u (run u f) d (sx_scope sx)) (\<lambda>inst. retM (Some (adjusted desc inst))) ?s = (Ret q, s)"
      "c' = setScope key (sx\<lparr>sx_scope := (case m_scope s of None \<Rightarrow> sx_scope sx | Some sc \<Rightarrow> sc)\<rparr>) (c\<lparr>cx_m := s\<lparr>m_scope := None\<rparr>\<rparr>)"
      using sx(1) by (auto simp: onScope_def split: prod.splits)
    obtain inst where inst: "materializeSessionInstance u (run u f) d (sx_scope sx) ?s = (Ret inst, s)" "q = Some (adjusted desc inst)"
      using s(1) by (auto simp: retM_def elim!: bind_RetE)
    have "slots_distinct (m_reg ?s)" using ok(2) by simp
    note st = session_instance_stored [OF inst(1) ok(1) this]
    obtain ses where ses: "m_scope s = Some ((sx_scope sx)\<lparr>sc_sessionStore := ses\<rparr>)"
      using st(1) by (auto simp: frame_def scope_frame_def)
    have slot: "session_slot ?s (primaryOf (m_reg ?s) d) = slot" by (simp add: slot_def session_slot_def)
    have find: "ses_find ses slot = Some inst" using st(2) ses unfolding slot by (simp add: sessionFind_def)
    have dt: "r_descriptors (m_reg s) = r_descriptors (m_reg (cx_m c))" "primaryOf (m_reg s) = primaryOf (m_reg (cx_m c))"
      using frame_reg [OF st(1)] by simp_all
    let ?sx = "sx\<lparr>sx_scope := (sx_scope sx)\<lparr>sc_sessionStore := ses\<rparr>\<rparr>"
    have c': "c' = setScope key ?sx (c\<lparr>cx_m := s\<lparr>m_scope := None\<rparr>\<rparr>)" using s(2) ses by simp
    have sx': "scopeOf c' key = Some ?sx" unfolding c' by (simp add: scopeOf_set)
    have "keeps names_frame (bindM (materializeSessionInstance u (run u f) d (sx_scope sx)) (\<lambda>inst. retM (Some (adjusted desc inst))))"
      by (intro nf.r_bind nf.r_session nf.run_keeps nf.r_ret)
    then have fr: "ctx_frame c c'" using m by (intro keeps_Ret [OF cf_scope])
    have fs': "findScope (cx_scopeTable c') ?n = Some ?p" and ids: "scope_ids c' = scope_ids c" using fr fs by (simp_all add: ctx_frame_def)
    have "scopeAt c' ?p = Some (key, ?sx)" using scopeAt_self [of c' key ?sx] dist selfs sx' by (simp add: ids)
    moreover have "r_descriptors (m_reg (cx_m c')) = r_descriptors (m_reg (cx_m c))" "primaryOf (m_reg (cx_m c')) = primaryOf (m_reg (cx_m c))"
      "session_slot (cx_m c') = session_slot (cx_m c)"
      using dt by (simp_all add: c' setScope_def session_slot_def fun_eq_iff)
    ultimately have "access b c' = (Ret q, c')"
      using arrow_proxy [of ?n d c' ?p key ?sx u "run u f"] sx(2) d fs' find running inst(2)
      by (simp add: access_def b_def desc_def slot_def Let_def)
    then show ?thesis using sx' find inst(2) by simp
  qed
  show ?thesis using arrow again by simp
qed

subsection \<open>A concrete instance\<close>

text \<open>The scopes of \<open>two_scopes\<close>, the second one running with a bean of a session descriptor whose interface lies at offset 16.\<close>

definition session_table :: desc_table where
  "session_table = \<lparr>dtb_entries = [(sample_hot 0)\<lparr>d_lifetime := Session, d_sessionSlot := 0\<rparr>], dtb_coldEntries = [sample_cold 0],
     dtb_lifetimes = [Session]\<rparr>"

definition one_session :: session_store where
  "one_session = \<lparr>ses_instancesBase = Some 0, ses_instancesSize = 1, ses_graveyard = [[Some 500]], ses_insertionOrder = [0],
     ses_retiredBlocks = [], ses_freed = []\<rparr>"

theorem session_handle_follows_scope_witness:
  "\<exists>c. bean_arrow idle_user (run idle_user 4) (makeProxy 2 0) c = (Ret (Some 516), c)
     \<and> bean_arrow idle_user (run idle_user 4) (makeProxy 1 0) c = (Ret None, c)"
proof (rule two_scopes_run)
  fix c sa sb assume run: "ctx_run sample_env two_scopes sample_context = Some c" and s: "scopeOf c ''a'' = Some sa" "scopeOf c ''b'' = Some sb"
    and room: "0 < ni_room (r_names (m_reg (cx_m c)))" and n: "sc_scopeNameId (sx_scope sa) = 1" "sc_scopeNameId (sx_scope sb) = 2"
  let ?a = "sa\<lparr>sx_scope := (sx_scope sa)\<lparr>sc_sessionStore := one_session, sc_scopeState := Stopped\<rparr>\<rparr>"
  let ?b = "sb\<lparr>sx_scope := (sx_scope sb)\<lparr>sc_sessionStore := one_session, sc_scopeState := Running\<rparr>\<rparr>"
  let ?m = "(cx_m c)\<lparr>m_reg := (m_reg (cx_m c))\<lparr>r_descriptors := session_table, r_singletons := ss_init\<rparr>\<rparr>"
  define c1 where "c1 = setScope ''a'' ?a (c\<lparr>cx_m := ?m\<rparr>)"
  define c2 where "c2 = setScope ''b'' ?b c1"
  have "scope_ids c1 = scope_ids c"
    using scope_ids_set [of "c\<lparr>cx_m := ?m\<rparr>" "''a''" sa ?a] s(1) by (simp add: c1_def scopeOf_def) (simp add: scope_ids_def)
  moreover have "scope_ids c2 = scope_ids c1"
    using scope_ids_set [of c1 "''b''" sb ?b] s(2) by (simp add: c2_def) (simp add: c1_def scopeOf_set, simp add: scopeOf_def)
  ultimately have "ctx_frame c c2" by (simp add: ctx_frame_def c2_def c1_def setScope_def)
  then have inv: "ctx_inv c2" using ctx_inv_frame ctx_inv_run [OF ctx_inv_new run [unfolded sample_context_def]] by blast
  have m: "cx_m c2 = ?m" by (simp add: c2_def c1_def setScope_def)
  have r: "0 < ni_room (r_names (m_reg (cx_m c2)))" using room by (simp add: m)
  have sc: "scopeOf c2 ''a'' = Some ?a" "scopeOf c2 ''b'' = Some ?b" by (simp_all add: c2_def c1_def scopeOf_set)
  have wf: "aliases_wf (m_reg (cx_m c2))" "primaryOf (m_reg (cx_m c2)) 0 = 0" "dtb_size (r_descriptors (m_reg (cx_m c2))) = 1"
    "session_slot (cx_m c2) 0 = 0" "slots_distinct (m_reg (cx_m c2))"
    by (auto simp: m aliases_wf_def primaryOf_def session_table_def dtb_size_def dtb_at_def dtb_lifetimeOf_def session_slot_def slots_distinct_def sample_hot_def Let_def)
  have "ses_wf one_session" by (simp add: ses_wf_def one_session_def)
  moreover have "ss_inv ss_init" by (simp add: ss_inv_def ss_init_def ss_find_def)
  ultimately have ok: "mstate_ok ((cx_m c2)\<lparr>m_scope := Some (sx_scope ?a)\<rparr>)" "mstate_ok ((cx_m c2)\<lparr>m_scope := Some (sx_scope ?b)\<rparr>)"
    using wf(1) by (simp_all add: mstate_ok_def m)
  have adj: "adjusted (dtb_at (r_descriptors (m_reg (cx_m c2))) 0) 500 = 516"
    by (simp add: m adjusted_def session_table_def dtb_at_def sample_hot_def)
  have find: "ses_find one_session 0 = Some 500" by (simp add: ses_find_def one_session_def)
  have d: "0 < dtb_size (r_descriptors (m_reg (cx_m c2)))" "(0 :: nat) < 2 ^ 32"
    "primaryOf (m_reg (cx_m c2)) 0 < dtb_size (r_descriptors (m_reg (cx_m c2)))" by (simp_all add: wf)
  have na: "sc_scopeNameId (sx_scope ?a) < 65536" and nb: "sc_scopeNameId (sx_scope ?b) < 65536" using n by simp_all
  note a = session_handle_follows_scope [OF inv r sc(1) na ok(1) wf(5) d, of idle_user 4]
  note b = session_handle_follows_scope [OF inv r sc(2) nb ok(2) wf(5) d, of idle_user 4]
  have "bean_arrow idle_user (run idle_user 4) (makeProxy 1 0) c2 = (Ret None, c2)" using conjunct1 [OF a] n by simp
  moreover have "bean_arrow idle_user (run idle_user 4) (makeProxy 2 0) c2 = (Ret (Some 516), c2)"
    using conjunct1 [OF conjunct2 [OF b]] n find wf(2,4) adj by simp
  ultimately show ?thesis by blast
qed

end
