(* ===== verification/Any_Bean.thy ===== *)
theory Any_Bean
  imports Bean_Casts
begin

text \<open>
  The operations of \<^verbatim>\<open>AnyBean\<close> in \<^verbatim>\<open>HandleInlineImpl.hpp\<close>, which are written a second time for the erased handle, and
  their agreement with those of \<^verbatim>\<open>Bean<T>\<close> in \<open>Bean_Casts\<close>: a listener that gets an \<^verbatim>\<open>AnyBean\<close> sees what a holder of
  the \<^verbatim>\<open>Bean<T>\<close> sees.
\<close>

subsection \<open>Operations\<close>

definition any_eq :: "bean \<Rightarrow> bean \<Rightarrow> bool" where
  "any_eq a b \<longleftrightarrow> b_object a = b_object b \<and> b_bits a = b_bits b \<and> b_registry a = b_registry b"

definition any_context :: "scope_table \<Rightarrow> registry \<Rightarrow> bean \<Rightarrow> ptr option" where
  "any_context scopes r b =
     (if b_object b = None
      then (case findScope scopes (b_scopeNameId b) of Some sc \<Rightarrow> Some sc | None \<Rightarrow> r_root r)
      else r_root r)"

definition any_exact :: "registry \<Rightarrow> TypeId \<Rightarrow> bean \<Rightarrow> bool" where
  "any_exact r uid b =
     (if b_registry b = None then False
      else if uid = kInvalidTypeId then False
      else c_concreteType (dtb_coldAt (r_descriptors r) (b_descId b)) = uid)"

definition any_target :: "registry \<Rightarrow> TypeId \<Rightarrow> bean \<Rightarrow> cast_target" where
  "any_target r uid b = (if b_registry b = None then no_target else resolveCastTarget r uid (b_object b) (b_descId b))"

definition any_compatible :: "registry \<Rightarrow> TypeId \<Rightarrow> bean \<Rightarrow> bool" where
  "any_compatible r uid b = ct_compatible (any_target r uid b)"

definition any_cast :: "registry \<Rightarrow> TypeId \<Rightarrow> bean \<Rightarrow> ctr_error + bean" where
  "any_cast r uid b =
     (let t = any_target r uid b
      in if \<not> ct_compatible t then Inl (ResolutionError IncompatibleCast)
         else if \<not> ct_castable t then Inl (ResolutionError VirtualBaseCast)
         else if ct_kind t = CastProxy
         then Inr \<lparr>b_object = None, b_bits = pack (lo32 (b_bits b)) (ct_descId t), b_registry = b_registry b\<rparr>
         else if ct_kind t = SameExposed
         then Inr \<lparr>b_object = ct_object t, b_bits = b_bits b, b_registry = b_registry b\<rparr>
         else Inr \<lparr>b_object = ct_object t, b_bits = pack (b_slot b) (ct_descId t), b_registry = b_registry b\<rparr>)"

definition any_tryCast :: "registry \<Rightarrow> TypeId \<Rightarrow> bean \<Rightarrow> bean option" where
  "any_tryCast r uid b =
     (let t = any_target r uid b
      in if \<not> ct_castable t then None
         else if ct_kind t = CastProxy
         then Some \<lparr>b_object = None, b_bits = pack (lo32 (b_bits b)) (ct_descId t), b_registry = b_registry b\<rparr>
         else if ct_kind t = SameExposed
         then Some \<lparr>b_object = ct_object t, b_bits = b_bits b, b_registry = b_registry b\<rparr>
         else Some \<lparr>b_object = ct_object t, b_bits = pack (b_slot b) (ct_descId t), b_registry = b_registry b\<rparr>)"

definition any_metadata :: "registry \<Rightarrow> bean \<Rightarrow> bean_metadata" where
  "any_metadata r b =
     (if b_registry b \<noteq> None
      then (let d = dtb_at (r_descriptors r) (b_descId b); cold = dtb_coldAt (r_descriptors r) (b_descId b)
            in \<lparr>bm_observedTypeGetter = c_observedTypeGetter cold, bm_exactTypeGetter = c_exactTypeGetter cold,
                bm_nameStr = (case c_nameStr cold of None \<Rightarrow> [] | Some n \<Rightarrow> n), bm_factoryMethodName = c_factoryMethodName cold,
                bm_lifetime = d_lifetime d, bm_origin = c_origin cold, bm_reflective = c_reflectiveData cold\<rparr>)
      else \<lparr>bm_observedTypeGetter = None, bm_exactTypeGetter = None, bm_nameStr = [], bm_factoryMethodName = Some [],
            bm_lifetime = Singleton, bm_origin = AnnotatedType, bm_reflective = None\<rparr>)"

subsection \<open>Agreement\<close>

theorem any_bean_agrees:
  "any_eq a b = bean_eq a b" "any_context scopes r b = bean_context scopes r b" "any_exact r uid b = bean_exact r uid b"
  "any_compatible r uid b = bean_compatible r uid b" "any_cast r uid b = bean_cast r uid b"
  "any_tryCast r uid b = bean_tryCast r uid b" "any_metadata r b = metadata r b"
  by (simp_all add: any_eq_def bean_eq_def any_context_def bean_context_def any_exact_def bean_exact_def any_compatible_def
    bean_compatible_def any_target_def bean_target_def any_cast_def bean_cast_def any_tryCast_def bean_tryCast_def
    any_metadata_def metadata_def cast_result_def Let_def)

end
