(* ===== verification/Injection.thy ===== *)
theory Injection
  imports Descriptor_Gen Registry_Tables
begin

text \<open>
  What the generated thunks pass to constructors, hooks and producer methods (\<^verbatim>\<open>injectParam\<close> of
  \<^verbatim>\<open>DescriptorThunkGen.hpp\<close>): a resolved handle, or for a \<open>scoped\<close> parameter a deferred one. Every
  parameter has its own static caches of name ids.
\<close>

subsection \<open>Parameters and caches\<close>

text \<open>The first annotation counts. A name is a C string, \<open>None\<close> for a null pointer.\<close>

fun scopedAnnotation :: "annotation list \<Rightarrow> string option option" where
  "scopedAnnotation [] = None"
| "scopedAnnotation (AnnScoped n # as) = Some n"
| "scopedAnnotation (_ # as) = scopedAnnotation as"

fun namedAnnotation :: "annotation list \<Rightarrow> string option option" where
  "namedAnnotation [] = None"
| "namedAnnotation (AnnNamed n # as) = Some n"
| "namedAnnotation (_ # as) = namedAnnotation as"

definition view :: "string option \<Rightarrow> string" where
  "view n = (case n of None \<Rightarrow> [] | Some s \<Rightarrow> s)"

text \<open>The static variables of one instantiation: registry id in the upper, name id in the lower half.\<close>

record site =
  si_scopeCache :: "64 word"
  si_candidateCache :: "64 word"
  si_nameCache :: "64 word"

definition site_init :: site where
  "site_init = \<lparr>si_scopeCache = 0, si_candidateCache = 0, si_nameCache = 0\<rparr>"

definition lookupNameCached :: "nat \<Rightarrow> registry \<Rightarrow> string \<Rightarrow> 64 word \<Rightarrow> (ctr_error + NameId) \<times> 64 word" where
  "lookupNameCached rid r name cache =
     (if hi32 cache = rid then (Inr (lo32 cache), cache)
      else (let nid = ni_lookup (r_names r) name
            in if nid = kInvalidNameId then (Inl (ResolutionError UnknownName), cache) else (Inr nid, pack nid rid)))"

subsection \<open>Injection\<close>

definition deferredTarget :: "registry \<Rightarrow> type_index \<Rightarrow> NameId \<Rightarrow> ctr_error + DescriptorId" where
  "deferredTarget r ty name =
     (let t = ti_lookupByTypeIndex (r_types r) ty
      in if t = kInvalidTypeId then Inl (ResolutionError UnknownType)
         else case tix_candidatesFor (r_index r) t name of
           None \<Rightarrow> Inl (ResolutionError NoCandidate)
         | Some cs \<Rightarrow>
             if cs = [] then Inl (ResolutionError NoCandidate)
             else if 2 \<le> length cs \<and> prio r (cs ! 0) = prio r (cs ! 1) then Inl (ResolutionError AmbiguousCandidates)
             else Inr (cs ! 0))"

definition injectScoped :: "type_index \<Rightarrow> string option \<Rightarrow> string option option \<Rightarrow> mstate \<times> site \<Rightarrow> handle outcome \<times> mstate \<times> site" where
  "injectScoped ty scopeName named = (\<lambda>(s, st).
     let (n, r, cache) = internScopeNameCached (m_registryId s) (view scopeName) (m_reg s) (si_scopeCache st);
         (cn, cache2) = (case named of None \<Rightarrow> (Inr kUnnamed, si_candidateCache st)
            | Some nm \<Rightarrow> lookupNameCached (m_registryId s) r (view nm) (si_candidateCache st));
         s1 = s\<lparr>m_reg := r\<rparr>; st1 = st\<lparr>si_scopeCache := cache, si_candidateCache := cache2\<rparr>
     in case cn of
          Inl e \<Rightarrow> (Exc e, s1, st1)
        | Inr candidateName \<Rightarrow>
            (case deferredTarget r ty candidateName of
               Inl e \<Rightarrow> (Exc e, s1, st1)
             | Inr d \<Rightarrow> (Ret (Proxy n d), s1, st1)))"

definition injectNamed :: "resolver \<Rightarrow> type_index \<Rightarrow> string option \<Rightarrow> mstate \<times> site \<Rightarrow> handle outcome \<times> mstate \<times> site" where
  "injectNamed res ty name = (\<lambda>(s, st).
     case lookupNameCached (m_registryId s) (m_reg s) (view name) (si_nameCache st) of
       (Inl e, cache) \<Rightarrow> (Exc e, s, st\<lparr>si_nameCache := cache\<rparr>)
     | (Inr nid, cache) \<Rightarrow>
         (case res (ReqResolve (ti_lookupByTypeIndex (r_types (m_reg s)) ty) nid) s of
            (o1, s1) \<Rightarrow> (o1, s1, st\<lparr>si_nameCache := cache\<rparr>)))"

text \<open>A parameter that is no \<open>Bean<U>\<close> is rejected by the compiler.\<close>

definition injectParam :: "compiler \<Rightarrow> resolver \<Rightarrow> param \<Rightarrow> mstate \<times> site \<Rightarrow> handle outcome \<times> mstate \<times> site" where
  "injectParam co res p = (\<lambda>(s, st).
     case bean_arg (p_type p) of
       None \<Rightarrow> (Abort, s, st)
     | Some arg \<Rightarrow>
         (case scopedAnnotation (p_annotations p) of
            Some scopeName \<Rightarrow> injectScoped (co_typeid co arg) scopeName (namedAnnotation (p_annotations p)) (s, st)
          | None \<Rightarrow>
              (case namedAnnotation (p_annotations p) of
                 Some name \<Rightarrow> injectNamed res (co_typeid co arg) name (s, st)
               | None \<Rightarrow>
                   (case res (ReqResolve (ti_lookupByTypeIndex (r_types (m_reg s)) (co_typeid co arg)) kUnnamed) s of
                      (o1, s1) \<Rightarrow> (o1, s1, st)))))"

text \<open>All arguments of a call, in the order in which the compiler evaluates them.\<close>

fun injectArgs :: "compiler \<Rightarrow> resolver \<Rightarrow> param list \<Rightarrow> mstate \<times> site list \<Rightarrow> handle list outcome \<times> mstate \<times> site list" where
  "injectArgs co res [] (s, sts) = (Ret [], s, sts)"
| "injectArgs co res (p # ps) (s, []) = (Abort, s, [])"
| "injectArgs co res (p # ps) (s, st # sts) =
     (case injectParam co res p (s, st) of
        (Ret h, s1, st1) \<Rightarrow>
          (case injectArgs co res ps (s1, sts) of
             (Ret hs, s2, sts2) \<Rightarrow> (Ret (h # hs), s2, st1 # sts2)
           | (Exc e, s2, sts2) \<Rightarrow> (Exc e, s2, st1 # sts2)
           | (Abort, s2, sts2) \<Rightarrow> (Abort, s2, st1 # sts2)
           | (Blocked, s2, sts2) \<Rightarrow> (Blocked, s2, st1 # sts2)
           | (Fuel, s2, sts2) \<Rightarrow> (Fuel, s2, st1 # sts2))
      | (Exc e, s1, st1) \<Rightarrow> (Exc e, s1, st1 # sts)
      | (Abort, s1, st1) \<Rightarrow> (Abort, s1, st1 # sts)
      | (Blocked, s1, st1) \<Rightarrow> (Blocked, s1, st1 # sts)
      | (Fuel, s1, st1) \<Rightarrow> (Fuel, s1, st1 # sts))"

subsection \<open>Injection without caches\<close>

text \<open>What a parameter means: intern the scope, look up the name and select.\<close>

definition lookupName :: "registry \<Rightarrow> string option option \<Rightarrow> ctr_error + NameId" where
  "lookupName r named = (case named of
       None \<Rightarrow> Inr kUnnamed
     | Some nm \<Rightarrow> if ni_lookup (r_names r) (view nm) = kInvalidNameId then Inl (ResolutionError UnknownName) else Inr (ni_lookup (r_names r) (view nm)))"

definition inject_direct :: "compiler \<Rightarrow> resolver \<Rightarrow> rtype \<Rightarrow> annotation list \<Rightarrow> handle comp" where
  "inject_direct co res arg as s =
     (case scopedAnnotation as of
        None \<Rightarrow>
          (case lookupName (m_reg s) (namedAnnotation as) of
             Inl e \<Rightarrow> (Exc e, s)
           | Inr n \<Rightarrow> res (ReqResolve (ti_lookupByTypeIndex (r_types (m_reg s)) (co_typeid co arg)) n) s)
      | Some scopeName \<Rightarrow>
          (let (n, r) = internNameSafe (m_reg s) (view scopeName); s1 = s\<lparr>m_reg := r\<rparr>; t = ti_lookupByTypeIndex (r_types r) (co_typeid co arg)
           in case lookupName r (namedAnnotation as) of
                Inl e \<Rightarrow> (Exc e, s1)
              | Inr cn \<Rightarrow>
                  if t = kInvalidTypeId then (Exc (ResolutionError UnknownType), s1)
                  else case resolve_select (r_index r) (prio r) t cn of
                    Inl e \<Rightarrow> (Exc e, s1)
                  | Inr d \<Rightarrow> (Ret (Proxy n d), s1)))"

subsection \<open>The caches do not show\<close>

definition cache_ok :: "nat \<Rightarrow> name_interning \<Rightarrow> string \<Rightarrow> 64 word \<Rightarrow> bool" where
  "cache_ok rid ni nm cache \<longleftrightarrow> (hi32 cache = rid \<longrightarrow> ni_known ni nm = Some (lo32 cache))"

lemma cache_ok_pack:
  assumes "ni_inv ni" "ni_known ni nm = Some i" "rid < 2 ^ 32"
  shows "cache_ok rid ni nm (pack i rid)"
proof -
  have "i < 2 ^ 32" using ni_inv_id_bound [OF assms(1,2)] by (simp add: sentinel_defs)
  then show ?thesis using assms(2) by (simp add: cache_ok_def)
qed

lemma lookup_found: "ni_inv ni \<Longrightarrow> ni_lookup ni nm \<noteq> kInvalidNameId \<longleftrightarrow> ni_known ni nm = Some (ni_lookup ni nm)"
  using ni_inv_id_bound [of ni nm] by (auto simp: ni_lookup_known sentinel_defs split: option.splits)

lemma lookup_cached:
  assumes "ni_inv (r_names r)" "rid < 2 ^ 32" "cache_ok rid (r_names r) nm cache"
    and run: "lookupNameCached rid r nm cache = (o1, cache')"
  shows "o1 = (if ni_lookup (r_names r) nm = kInvalidNameId then Inl (ResolutionError UnknownName) else Inr (ni_lookup (r_names r) nm))"
    "cache_ok rid (r_names r) nm cache'"
proof -
  have hit: "ni_lookup (r_names r) nm = lo32 cache \<and> lo32 cache \<noteq> kInvalidNameId" if "hi32 cache = rid"
  proof -
    have "ni_known (r_names r) nm = Some (lo32 cache)" using assms(3) that by (simp add: cache_ok_def)
    then show ?thesis using ni_inv_id_bound [OF assms(1), of nm] by (auto simp: ni_lookup_known)
  qed
  show "o1 = (if ni_lookup (r_names r) nm = kInvalidNameId then Inl (ResolutionError UnknownName) else Inr (ni_lookup (r_names r) nm))"
    using run hit by (auto simp: lookupNameCached_def Let_def split: if_splits)
  show "cache_ok rid (r_names r) nm cache'"
    using run assms(3) cache_ok_pack [OF assms(1) _ assms(2), of nm] lookup_found [OF assms(1), of nm]
    by (auto simp: lookupNameCached_def Let_def split: if_splits)
qed

lemma scope_cached:
  assumes ni: "ni_inv (r_names r)" "0 < ni_room (r_names r)" "rid < 2 ^ 32" and ok: "cache_ok rid (r_names r) nm cache"
    and run: "internScopeNameCached rid nm r cache = (n, r', cache')"
  shows "(n, r') = internNameSafe r nm" "cache_ok rid (r_names r') nm cache'"
proof -
  have same: "internNameSafe r nm = (i, r)" if "ni_known (r_names r) nm = Some i" for i
    using nin.intern_known [OF ni(1) that] that by (auto simp: internNameSafe_def ni_known_def)
  show "(n, r') = internNameSafe r nm"
    using run ok same by (auto simp: internScopeNameCached_def internNameSafe_def cache_ok_def Let_def split: if_splits prod.splits)
  have known: "ni_known (r_names (snd (internNameSafe r nm))) nm = Some (fst (internNameSafe r nm))"
    using nin.known_intern [OF ni(1), of nm] by (simp add: internNameSafe_names)
  have inv: "ni_inv (r_names (snd (internNameSafe r nm)))" using nin.invar_intern [OF ni(1,2)] by (simp add: internNameSafe_names)
  show "cache_ok rid (r_names r') nm cache'"
    using run ok cache_ok_pack [OF inv known ni(3)]
    by (auto simp: internScopeNameCached_def Let_def split: if_splits prod.splits)
qed

lemma cache_ok_intern:
  assumes "ni_inv (r_names r)" "cache_ok rid (r_names r) nm cache"
  shows "cache_ok rid (r_names (snd (internNameSafe r x))) nm cache"
  using assms nin.known_stable [OF assms(1)] by (simp add: cache_ok_def internNameSafe_names)

lemma deferred_selects:
  assumes "tix_ready (prio r) (r_index r)"
  shows "deferredTarget r ty n = (let t = ti_lookupByTypeIndex (r_types r) ty
     in if t = kInvalidTypeId then Inl (ResolutionError UnknownType) else resolve_select (r_index r) (prio r) t n)"
proof -
  let ?t = "ti_lookupByTypeIndex (r_types r) ty"
  show ?thesis
  proof (cases "tix_entryFor (r_index r) ?t n")
    case None
    then have "tix_cands (r_index r) ?t n = []" using tix_ready_cands [OF assms] by simp
    then show ?thesis using resolve_select_refines [OF assms, of ?t n] None
      by (simp add: deferredTarget_def Let_def tix_candidatesFor_def select_spec_def)
  next
    case (Some e)
    have cs: "tix_cands (r_index r) ?t n = ne_candidates e" using tix_ready_cands [OF assms] Some by simp
    have "desc_by (prio r) (ne_candidates e)" using assms Some by (auto simp: tix_ready_def ne_truthful_def)
    moreover have "ne_candidates e \<noteq> []"
      using assms Some by (auto simp: tix_ready_def tix_wf_def tix_entryFor_tbl split: option.splits)
    ultimately show ?thesis
      using resolve_select_refines [OF assms, of ?t n] select_spec_sorted [of "ne_candidates e" "prio r"] Some
      by (simp add: deferredTarget_def Let_def tix_candidatesFor_def cs)
  qed
qed

text \<open>What the static caches of a parameter hold is right for the registry they name.\<close>

definition site_ok :: "nat \<Rightarrow> name_interning \<Rightarrow> annotation list \<Rightarrow> site \<Rightarrow> bool" where
  "site_ok rid ni as st \<longleftrightarrow> (\<forall>n. scopedAnnotation as = Some n \<longrightarrow> cache_ok rid ni (view n) (si_scopeCache st))
     \<and> (\<forall>n. namedAnnotation as = Some n \<longrightarrow> cache_ok rid ni (view n) (si_candidateCache st) \<and> cache_ok rid ni (view n) (si_nameCache st))"

lemma site_ok_init: "0 < rid \<Longrightarrow> site_ok rid ni as site_init"
  by (simp add: site_ok_def site_init_def cache_ok_def hi32_def)

lemma names_internSafe:
  "prio (snd (internNameSafe r nm)) = prio r" "r_index (snd (internNameSafe r nm)) = r_index r" "r_types (snd (internNameSafe r nm)) = r_types r"
  by (auto simp: internNameSafe_def prio_def fun_eq_iff Let_def split: prod.splits)

lemma scoped_direct:
  assumes ready: "tix_ready (prio (m_reg s)) (r_index (m_reg s))" and ni: "ni_inv (r_names (m_reg s))" "0 < ni_room (r_names (m_reg s))"
    and rid: "m_registryId s < 2 ^ 32" and ok: "site_ok (m_registryId s) (r_names (m_reg s)) as st"
    and sc: "scopedAnnotation as = Some nm" and run: "injectScoped (co_typeid co arg) nm (namedAnnotation as) (s, st) = (o1, s', st')"
  shows "inject_direct co res arg as s = (o1, s')" "site_ok (m_registryId s') (r_names (m_reg s')) as st'"
proof -
  obtain n r cache where i: "internScopeNameCached (m_registryId s) (view nm) (m_reg s) (si_scopeCache st) = (n, r, cache)"
    by (cases "internScopeNameCached (m_registryId s) (view nm) (m_reg s) (si_scopeCache st)")
  have "cache_ok (m_registryId s) (r_names (m_reg s)) (view nm) (si_scopeCache st)" using ok sc by (simp add: site_ok_def)
  note c = scope_cached [OF ni rid this i]
  have r: "r = snd (internNameSafe (m_reg s) (view nm))" using c(1) by (metis snd_conv)
  have inv: "ni_inv (r_names r)" using nin.invar_intern [OF ni] by (simp add: r internNameSafe_names)
  have ready': "tix_ready (prio r) (r_index r)" using ready by (simp add: r names_internSafe)
  obtain cn cache2 where l: "(case namedAnnotation as of None \<Rightarrow> (Inr kUnnamed, si_candidateCache st)
      | Some x \<Rightarrow> lookupNameCached (m_registryId s) r (view x) (si_candidateCache st)) = (cn, cache2)" (is "?l = _") by (cases ?l)
  have stable: "cache_ok (m_registryId s) (r_names r) x y" if "cache_ok (m_registryId s) (r_names (m_reg s)) x y" for x y
    unfolding r by (rule cache_ok_intern [OF ni(1) that])
  have cn: "cn = lookupName r (namedAnnotation as)" "\<forall>x. namedAnnotation as = Some x \<longrightarrow> cache_ok (m_registryId s) (r_names r) (view x) cache2"
  proof -
    have "cn = lookupName r (namedAnnotation as) \<and> (\<forall>x. namedAnnotation as = Some x \<longrightarrow> cache_ok (m_registryId s) (r_names r) (view x) cache2)"
    proof (cases "namedAnnotation as")
      case None
      then show ?thesis using l by (simp add: lookupName_def)
    next
      case (Some x)
      then have "cache_ok (m_registryId s) (r_names r) (view x) (si_candidateCache st)" using ok stable by (simp add: site_ok_def)
      from lookup_cached [OF inv rid this] l Some show ?thesis by (simp add: lookupName_def)
    qed
    then show "cn = lookupName r (namedAnnotation as)" "\<forall>x. namedAnnotation as = Some x \<longrightarrow> cache_ok (m_registryId s) (r_names r) (view x) cache2"
      by simp_all
  qed
  let ?s1 = "s\<lparr>m_reg := r\<rparr>" and ?st1 = "st\<lparr>si_scopeCache := cache, si_candidateCache := cache2\<rparr>"
  have fin: "(o1, s', st') = (case cn of Inl e \<Rightarrow> (Exc e, ?s1, ?st1) | Inr x \<Rightarrow>
      (case deferredTarget r (co_typeid co arg) x of Inl e \<Rightarrow> (Exc e, ?s1, ?st1) | Inr d \<Rightarrow> (Ret (Proxy n d), ?s1, ?st1)))"
    using run by (simp add: injectScoped_def i l Let_def)
  then have s': "s' = ?s1" "st' = ?st1" by (auto split: sum.splits)
  show "inject_direct co res arg as s = (o1, s')"
    using fin by (auto simp: inject_direct_def sc Let_def c(1) [symmetric] cn(1) [symmetric] deferred_selects [OF ready'] split: sum.splits if_splits)
  have "m_registryId s' = m_registryId s" "r_names (m_reg s') = r_names r" by (simp_all add: s'(1))
  moreover have "cache_ok (m_registryId s) (r_names r) (view x) (si_nameCache st)" if "namedAnnotation as = Some x" for x
    using ok that stable by (simp add: site_ok_def)
  ultimately show "site_ok (m_registryId s') (r_names (m_reg s')) as st'"
    using c(2) cn(2) sc by (simp add: site_ok_def s'(2))
qed

text \<open>C18.  Injection means what its annotations say, whatever the caches. On a started registry, if the static caches of the
  parameter are right for the registries they name (as they are at first), injecting a parameter gives the same result, the same error and
  the same state as interning the scope, looking up the name and selecting by type, name and
  priority directly: a \<open>scoped\<close> parameter becomes a deferred handle to the unique best candidate and constructs
  nothing, any other parameter is a request. The caches stay right.\<close>

theorem injection_without_caches:
  assumes ready: "tix_ready (prio (m_reg s)) (r_index (m_reg s))" and ni: "ni_inv (r_names (m_reg s))" "0 < ni_room (r_names (m_reg s))"
    and rid: "m_registryId s < 2 ^ 32" and ok: "site_ok (m_registryId s) (r_names (m_reg s)) (p_annotations p) st"
    and arg: "bean_arg (p_type p) = Some arg" and run: "injectParam co (run u f) p (s, st) = (o1, s', st')"
  shows "inject_direct co (run u f) arg (p_annotations p) s = (o1, s')
    \<and> (o1 = Ret h \<or> o1 = Exc e \<longrightarrow> site_ok (m_registryId s') (r_names (m_reg s')) (p_annotations p) st')
    \<and> (scopedAnnotation (p_annotations p) \<noteq> None \<longrightarrow> m_log s' = m_log s \<and> r_singletons (m_reg s') = r_singletons (m_reg s))"
proof (cases "scopedAnnotation (p_annotations p)")
  case (Some nm)
  then have i: "injectScoped (co_typeid co arg) nm (namedAnnotation (p_annotations p)) (s, st) = (o1, s', st')"
    using run arg by (simp add: injectParam_def)
  note d = scoped_direct [OF ready ni rid ok Some i]
  have "r_singletons (snd (internNameSafe (m_reg s) x)) = r_singletons (m_reg s)" for x
    by (auto simp: internNameSafe_def Let_def split: prod.splits)
  then have "m_log s' = m_log s \<and> r_singletons (m_reg s') = r_singletons (m_reg s)"
    using d(1) Some by (auto simp: inject_direct_def Let_def split_beta split: sum.splits if_splits)
  then show ?thesis using d by simp
next
  case None
  have keep: "site_ok (m_registryId s2) (r_names (m_reg s2)) as x"
    if "run u f req s = (o2, s2)" "o2 = Ret h \<or> o2 = Exc e" "site_ok (m_registryId s) (r_names (m_reg s)) as x" for req o2 s2 as x
  proof -
    have "frame s s2" using that(1,2) keeps_Ret [OF fr.run_keeps] keeps_Exc [OF fr.run_keeps] by blast
    then have "r_names (m_reg s2) = r_names (m_reg s)" "m_registryId s2 = m_registryId s" by (auto simp: frame_def reg_frame_def)
    then show ?thesis using that(3) by simp
  qed
  show ?thesis
  proof (cases "namedAnnotation (p_annotations p)")
    case None
    then have "run u f (ReqResolve (ti_lookupByTypeIndex (r_types (m_reg s)) (co_typeid co arg)) kUnnamed) s = (o1, s')" "st' = st"
      using run arg \<open>scopedAnnotation (p_annotations p) = None\<close> by (simp_all add: injectParam_def split: prod.splits)
    then show ?thesis using keep ok None \<open>scopedAnnotation (p_annotations p) = None\<close>
      by (auto simp: inject_direct_def lookupName_def)
  next
    case (Some x)
    obtain l cache where l: "lookupNameCached (m_registryId s) (m_reg s) (view x) (si_nameCache st) = (l, cache)"
      by (cases "lookupNameCached (m_registryId s) (m_reg s) (view x) (si_nameCache st)")
    have "cache_ok (m_registryId s) (r_names (m_reg s)) (view x) (si_nameCache st)" using ok Some by (simp add: site_ok_def)
    note c = lookup_cached [OF ni(1) rid this l]
    have st: "site_ok (m_registryId s) (r_names (m_reg s)) (p_annotations p) (st\<lparr>si_nameCache := cache\<rparr>)"
      using ok c(2) Some by (simp add: site_ok_def)
    have i: "injectNamed (run u f) (co_typeid co arg) x (s, st) = (o1, s', st')"
      using run arg None Some by (simp add: injectParam_def)
    have look: "lookupName (m_reg s) (Some x) = l" using c(1) by (simp add: lookupName_def)
    show ?thesis
    proof (cases l)
      case (Inl e1)
      then have "o1 = Exc e1" "s' = s" "st' = st\<lparr>si_nameCache := cache\<rparr>" using i by (simp_all add: injectNamed_def l)
      then show ?thesis using st None Some look Inl by (simp add: inject_direct_def)
    next
      case (Inr n)
      then have "run u f (ReqResolve (ti_lookupByTypeIndex (r_types (m_reg s)) (co_typeid co arg)) n) s = (o1, s')"
        "st' = st\<lparr>si_nameCache := cache\<rparr>" using i by (simp_all add: injectNamed_def l split: prod.splits)
      then show ?thesis using keep st None Some look Inr by (auto simp: inject_direct_def)
    qed
  qed
qed

subsection \<open>A concrete instance\<close>

text \<open>A session parameter \<open>[[=scoped{"req"}]] Bean<app::Thing>\<close>, first time and with warm caches.\<close>

definition inject_base :: registry where
  "inject_base = (m_reg sample_mstate)\<lparr>r_types := (r_types registry_init)\<lparr>ti_indexToId := [name_code ''app::Thing'' \<mapsto> 0]\<rparr>\<rparr>"

definition inject_registry :: registry where
  "inject_registry = inject_base\<lparr>r_index := tix_sortAllCandidates (prio inject_base) (tix_insertCandidate tix_init 0 kUnnamed 0)\<rparr>"

definition thing_param :: param where
  "thing_param = \<lparr>p_type = RClass ''Bean'' [] (Some (TemplBean, [app_type ''Thing''], ''Bean<Thing>'')), p_annotations = [AnnScoped (Some ''req'')]\<rparr>"

lemma inject_ready: "tix_ready (prio inject_registry) (r_index inject_registry)"
proof -
  have prio: "prio inject_registry = prio inject_base" by (simp add: inject_registry_def prio_def fun_eq_iff)
  have "tix_wf (tix_insertCandidate tix_init 0 kUnnamed 0)" by (rule insert_wf [OF init_wf]) (simp add: sentinel_defs)
  then show ?thesis unfolding prio by (simp add: inject_registry_def sortAll_ready)
qed

theorem injection_without_caches_witness:
  "\<exists>s' st'. injectParam sample_compiler (run idle_user 4) thing_param (sample_mstate\<lparr>m_reg := inject_registry\<rparr>, site_init) = (Ret (Proxy 1 0), s', st')
     \<and> inject_direct sample_compiler (run idle_user 4) (app_type ''Thing'') [AnnScoped (Some ''req'')] (sample_mstate\<lparr>m_reg := inject_registry\<rparr>)
         = (Ret (Proxy 1 0), s')"
proof -
  let ?s = "sample_mstate\<lparr>m_reg := inject_registry\<rparr>"
  have names: "r_names inject_registry = ni_init" "m_registryId ?s = 1"
    by (simp_all add: inject_registry_def inject_base_def sample_mstate_def registry_init_def)
  have arg: "bean_arg (p_type thing_param) = Some (app_type ''Thing'')" by (simp add: thing_param_def bean_arg_def)
  have types: "ti_lookupByTypeIndex (r_types (snd (internNameSafe inject_registry x))) (name_code ''app::Thing'') = 0" for x
    by (simp add: names_internSafe) (simp add: inject_registry_def inject_base_def ti_lookupByTypeIndex_def)
  have index: "tix_candidatesFor (r_index (snd (internNameSafe inject_registry x))) 0 0 = Some [0]" for x
    by (simp add: names_internSafe) (simp add: inject_registry_def Let_def tix_eval)
  have id: "fst (internNameSafe inject_registry ''req'') = 1" by (simp add: internNameSafe_names names ni_intern_def ni_init_def u32_def)
  have hi: "hi32 0 = 0" by (simp add: hi32_def)
  have run: "\<exists>s' st'. injectParam sample_compiler (run idle_user 4) thing_param (?s, site_init) = (Ret (Proxy 1 0), s', st')"
    using types [of "''req''"] index [of "''req''"] id
    by (simp add: injectParam_def arg injectScoped_def site_init_def internScopeNameCached_def view_def hi names Let_def split_beta
        deferredTarget_def sample_compiler_def sentinel_defs thing_param_def bean_arg_def)
  then obtain s' st' where s': "injectParam sample_compiler (run idle_user 4) thing_param (?s, site_init) = (Ret (Proxy 1 0), s', st')" by blast
  have ready: "tix_ready (prio (m_reg ?s)) (r_index (m_reg ?s))" using inject_ready by simp
  have ni: "ni_inv (r_names (m_reg ?s))" by (simp add: names ni_inv_init)
  have room: "0 < ni_room (r_names (m_reg ?s))" by (simp add: names ni_room_def ni_init_def sentinel_defs)
  have rid: "m_registryId ?s < 2 ^ 32" "site_ok (m_registryId ?s) (r_names (m_reg ?s)) (p_annotations thing_param) site_init"
    using site_ok_init [of 1] by (simp_all add: names)
  show ?thesis using injection_without_caches [OF ready ni room rid arg s'] s' by (auto simp: thing_param_def)
qed

end
