(* ===== verification/Listener_Views.thy ===== *)
theory Listener_Views
  imports Ctr_Prelude
begin

text \<open>
  The lock-free side of \<^verbatim>\<open>ListenerStore\<close>: dispatching threads protect the published view by a hazard slot,
  a mutation of the listeners publishes a new view under the mutex, retires the old one, and frees the
  retired views that no slot refers to. Memory is sequentially consistent; the freelist of slots is a list.
\<close>

subsection \<open>State\<close>

type_synonym view_ptr = nat

text \<open>A dispatch: about to load the view, to store it in the slot, to check it again, reading it, or reading
  under the mutex.\<close>

datatype dispatch_pc = DLoad | DStore view_ptr | DCheck view_ptr | DRead view_ptr | DLocked view_ptr

text \<open>\<open>DispatchHazardToken\<close>: the slot of the thread, if its count is published, and its nested dispatches, the
  innermost first.\<close>

record hz_thread =
  ht_slot :: "nat option"
  ht_published :: bool
  ht_frames :: "dispatch_pc list"

text \<open>The holder of the mutex: a mutation that scans the views still to check, with the views kept and the scan of
  the first one, or a dispatch without a slot.\<close>

datatype hz_mutex = Unlocked | Scanning "view_ptr list" "view_ptr list" "(nat \<times> nat) option" | LockedDispatch

record hz_sys =
  hz_view :: "view_ptr option"
  hz_allViews :: "view_ptr list"
  hz_hazardViews :: "nat \<Rightarrow> view_ptr option"
  hz_nextSlot :: nat
  hz_publishedSlots :: nat
  hz_freeSlots :: "nat list"
  hz_mutex :: hz_mutex
  hz_threads :: "nat \<Rightarrow> hz_thread"

definition hz_init :: hz_sys where
  "hz_init = \<lparr>hz_view = None, hz_allViews = [], hz_hazardViews = (\<lambda>_. None), hz_nextSlot = 0, hz_publishedSlots = 0,
     hz_freeSlots = [], hz_mutex = Unlocked, hz_threads = (\<lambda>_. \<lparr>ht_slot = None, ht_published = False, ht_frames = []\<rparr>)\<rparr>"

definition kDispatchHazardSlotCount :: nat where "kDispatchHazardSlotCount = 4096"

text \<open>The views that exist.\<close>

definition hz_live :: "hz_sys \<Rightarrow> view_ptr set" where
  "hz_live s = set_option (hz_view s) \<union>
     (case hz_mutex s of Scanning todo kept _ \<Rightarrow> set todo \<union> set kept | _ \<Rightarrow> set (hz_allViews s))"

subsection \<open>Steps\<close>

definition hz_put :: "nat \<Rightarrow> (hz_thread \<Rightarrow> hz_thread) \<Rightarrow> hz_sys \<Rightarrow> hz_sys" where
  "hz_put t f s = s\<lparr>hz_threads := (hz_threads s)(t := f (hz_threads s t))\<rparr>"

definition hz_top :: "nat \<Rightarrow> dispatch_pc list \<Rightarrow> hz_sys \<Rightarrow> hz_sys" where
  "hz_top t fs = hz_put t (\<lambda>ht. ht\<lparr>ht_frames := fs\<rparr>)"

definition hz_store :: "nat \<Rightarrow> view_ptr option \<Rightarrow> hz_sys \<Rightarrow> hz_sys" where
  "hz_store t v s = (case ht_slot (hz_threads s t) of
       None \<Rightarrow> s
     | Some i \<Rightarrow> s\<lparr>hz_hazardViews := (hz_hazardViews s)(i := v)\<rparr>)"

text \<open>A recycled slot is published already; otherwise the counter is advanced first and published in a step of its own.\<close>

definition acquireDispatchHazardSlot :: "nat \<Rightarrow> hz_sys \<Rightarrow> hz_sys" where
  "acquireDispatchHazardSlot t s =
     (if ht_slot (hz_threads s t) \<noteq> None then s
      else case hz_freeSlots s of
        i # is \<Rightarrow> hz_put t (\<lambda>ht. ht\<lparr>ht_slot := Some i, ht_published := True\<rparr>) (s\<lparr>hz_freeSlots := is\<rparr>)
      | [] \<Rightarrow>
          if hz_nextSlot s < kDispatchHazardSlotCount
          then hz_put t (\<lambda>ht. ht\<lparr>ht_slot := Some (hz_nextSlot s), ht_published := False\<rparr>) (s\<lparr>hz_nextSlot := hz_nextSlot s + 1\<rparr>)
          else s)"

definition publishHazardSlotCount :: "nat \<Rightarrow> hz_sys \<Rightarrow> hz_sys" where
  "publishHazardSlotCount t s =
     (case ht_slot (hz_threads s t) of
        None \<Rightarrow> s
      | Some i \<Rightarrow> hz_put t (\<lambda>ht. ht\<lparr>ht_published := True\<rparr>) (s\<lparr>hz_publishedSlots := max (hz_publishedSlots s) (i + 1)\<rparr>))"

definition releaseDispatchHazardSlot :: "nat \<Rightarrow> hz_sys \<Rightarrow> hz_sys" where
  "releaseDispatchHazardSlot t s =
     (case ht_slot (hz_threads s t) of
        None \<Rightarrow> s
      | Some i \<Rightarrow>
          if ht_published (hz_threads s t) \<and> ht_frames (hz_threads s t) = []
          then hz_put t (\<lambda>ht. ht\<lparr>ht_slot := None, ht_published := False\<rparr>) (s\<lparr>hz_freeSlots := i # hz_freeSlots s\<rparr>)
          else s)"

text \<open>The start of \<open>dispatch\<close>: with a slot, or under the mutex when no slot is left.\<close>

definition hz_dispatch :: "nat \<Rightarrow> hz_sys \<Rightarrow> hz_sys" where
  "hz_dispatch t s =
     (let ht = hz_threads s t
      in if ht_slot ht \<noteq> None
         then (if ht_published ht then hz_top t (DLoad # ht_frames ht) s else s)
         else if hz_freeSlots s = [] \<and> \<not> hz_nextSlot s < kDispatchHazardSlotCount \<and> hz_mutex s = Unlocked
         then (case hz_view s of None \<Rightarrow> s | Some v \<Rightarrow> (hz_top t (DLocked v # ht_frames ht) s)\<lparr>hz_mutex := LockedDispatch\<rparr>)
         else s)"

text \<open>The next step of the innermost dispatch; \<open>DRead\<close> covers the callbacks, its step is the end.\<close>

definition hz_advance :: "nat \<Rightarrow> hz_sys \<Rightarrow> hz_sys" where
  "hz_advance t s =
     (case ht_frames (hz_threads s t) of
        [] \<Rightarrow> s
      | DLoad # fs \<Rightarrow> (case hz_view s of None \<Rightarrow> hz_top t fs s | Some v \<Rightarrow> hz_top t (DStore v # fs) s)
      | DStore v # fs \<Rightarrow> hz_top t (DCheck v # fs) (hz_store t (Some v) s)
      | DCheck v # fs \<Rightarrow>
          (case hz_view s of
             None \<Rightarrow> hz_top t fs (hz_store t None s)
           | Some v' \<Rightarrow> if v' = v then hz_top t (DRead v # fs) s else hz_top t (DStore v' # fs) s)
      | DRead v # fs \<Rightarrow> hz_top t fs (hz_store t None s)
      | DLocked v # fs \<Rightarrow> (hz_top t fs s)\<lparr>hz_mutex := Unlocked\<rparr>)"

text \<open>\<open>rebuildView_\<close> up to the scan; the allocator returns any address not in use.\<close>

definition hz_rebuild :: "view_ptr \<Rightarrow> hz_sys \<Rightarrow> hz_sys" where
  "hz_rebuild new s =
     (if hz_mutex s = Unlocked \<and> new \<notin> hz_live s
      then s\<lparr>hz_view := Some new, hz_mutex := Scanning (hz_allViews s @ (case hz_view s of None \<Rightarrow> [] | Some v \<Rightarrow> [v])) [] None\<rparr>
      else s)"

text \<open>\<open>clear\<close> up to its scan.\<close>

definition hz_clear :: "hz_sys \<Rightarrow> hz_sys" where
  "hz_clear s =
     (if hz_mutex s = Unlocked
      then s\<lparr>hz_view := None, hz_mutex := Scanning (hz_allViews s @ (case hz_view s of None \<Rightarrow> [] | Some v \<Rightarrow> [v])) [] None\<rparr>
      else s)"

text \<open>\<open>reclaimRetiredViews_\<close>: one load of \<open>hazardReferences_\<close> at a time. A view that no slot refers to is freed.\<close>

definition hz_scan :: "hz_sys \<Rightarrow> hz_sys" where
  "hz_scan s =
     (case hz_mutex s of
        Scanning [] kept _ \<Rightarrow> s\<lparr>hz_allViews := rev kept, hz_mutex := Unlocked\<rparr>
      | Scanning (w # ws) kept None \<Rightarrow> s\<lparr>hz_mutex := Scanning (w # ws) kept (Some (0, min (hz_publishedSlots s) kDispatchHazardSlotCount))\<rparr>
      | Scanning (w # ws) kept (Some (i, n)) \<Rightarrow>
          if n \<le> i then s\<lparr>hz_mutex := Scanning ws kept None\<rparr>
          else if hz_hazardViews s i = Some w then s\<lparr>hz_mutex := Scanning ws (w # kept) None\<rparr>
          else s\<lparr>hz_mutex := Scanning (w # ws) kept (Some (i + 1, n))\<rparr>
      | _ \<Rightarrow> s)"

datatype hz_event = HAcquire nat | HPublish nat | HExit nat | HDispatch nat | HAdvance nat | HRebuild view_ptr | HClear | HScan

fun hz_exec :: "hz_event \<Rightarrow> hz_sys \<Rightarrow> hz_sys" where
  "hz_exec (HAcquire t) s = acquireDispatchHazardSlot t s"
| "hz_exec (HPublish t) s = publishHazardSlotCount t s"
| "hz_exec (HExit t) s = releaseDispatchHazardSlot t s"
| "hz_exec (HDispatch t) s = hz_dispatch t s"
| "hz_exec (HAdvance t) s = hz_advance t s"
| "hz_exec (HRebuild v) s = hz_rebuild v s"
| "hz_exec HClear s = hz_clear s"
| "hz_exec HScan s = hz_scan s"

text \<open>Executions. A thread dispatches outside every dispatch; with \<open>nested\<close> also inside the callbacks of one.\<close>

fun may_dispatch :: "bool \<Rightarrow> dispatch_pc list \<Rightarrow> bool" where
  "may_dispatch nested [] \<longleftrightarrow> True"
| "may_dispatch nested (DRead v # fs) \<longleftrightarrow> nested"
| "may_dispatch nested (DLocked v # fs) \<longleftrightarrow> nested"
| "may_dispatch nested (_ # fs) \<longleftrightarrow> False"

fun hz_allowed :: "bool \<Rightarrow> hz_event \<Rightarrow> hz_sys \<Rightarrow> bool" where
  "hz_allowed nested (HDispatch t) s \<longleftrightarrow> may_dispatch nested (ht_frames (hz_threads s t))"
| "hz_allowed nested _ s \<longleftrightarrow> True"

inductive hz_reachable :: "bool \<Rightarrow> hz_sys \<Rightarrow> bool" for nested :: bool where
  hz_start: "hz_reachable nested hz_init"
| hz_event: "hz_reachable nested s \<Longrightarrow> hz_allowed nested ev s \<Longrightarrow> hz_reachable nested (hz_exec ev s)"

text \<open>A view that a dispatch reads still exists.\<close>

definition hz_safe :: "hz_sys \<Rightarrow> bool" where
  "hz_safe s \<longleftrightarrow> (\<forall>t v. DRead v \<in> set (ht_frames (hz_threads s t)) \<or> DLocked v \<in> set (ht_frames (hz_threads s t)) \<longrightarrow> v \<in> hz_live s)"

subsection \<open>The invariant\<close>

definition slotted :: "hz_thread \<Rightarrow> bool" where "slotted ht \<longleftrightarrow> ht_slot ht \<noteq> None \<and> ht_published ht"

text \<open>A scan of \<open>v\<close> under way has not passed slot \<open>i\<close> and will reach it.\<close>

definition ahead :: "hz_mutex \<Rightarrow> view_ptr \<Rightarrow> nat \<Rightarrow> bool" where
  "ahead m v i \<longleftrightarrow> (\<forall>ws kept j n. m = Scanning (v # ws) kept (Some (j, n)) \<longrightarrow> j \<le> i \<and> i < n)"

primrec frame_ok :: "hz_sys \<Rightarrow> hz_thread \<Rightarrow> dispatch_pc \<Rightarrow> bool" where
  "frame_ok s ht DLoad \<longleftrightarrow> slotted ht"
| "frame_ok s ht (DStore v) \<longleftrightarrow> slotted ht"
| "frame_ok s ht (DCheck v) \<longleftrightarrow> slotted ht \<and> hz_hazardViews s (the (ht_slot ht)) = Some v"
| "frame_ok s ht (DRead v) \<longleftrightarrow> slotted ht \<and> hz_hazardViews s (the (ht_slot ht)) = Some v \<and> v \<in> hz_live s
     \<and> ahead (hz_mutex s) v (the (ht_slot ht))"
| "frame_ok s ht (DLocked v) \<longleftrightarrow> hz_mutex s = LockedDispatch \<and> hz_view s = Some v"

definition frames_ok :: "hz_sys \<Rightarrow> bool" where
  "frames_ok s \<longleftrightarrow> (\<forall>t. ht_frames (hz_threads s t) = []
     \<or> (\<exists>pc. ht_frames (hz_threads s t) = [pc] \<and> frame_ok s (hz_threads s t) pc))"

definition slots_ok :: "hz_sys \<Rightarrow> bool" where
  "slots_ok s \<longleftrightarrow> hz_nextSlot s \<le> kDispatchHazardSlotCount \<and> distinct (hz_freeSlots s)
     \<and> (\<forall>i\<in>set (hz_freeSlots s). i < hz_nextSlot s \<and> i < hz_publishedSlots s)
     \<and> (\<forall>t i. ht_slot (hz_threads s t) = Some i \<longrightarrow> i < hz_nextSlot s \<and> i \<notin> set (hz_freeSlots s)
          \<and> (ht_published (hz_threads s t) \<longrightarrow> i < hz_publishedSlots s)
          \<and> (\<forall>u. ht_slot (hz_threads s u) = Some i \<longrightarrow> u = t))"

definition hz_retired :: "hz_sys \<Rightarrow> view_ptr list" where
  "hz_retired s = (case hz_mutex s of Scanning todo kept _ \<Rightarrow> todo @ kept | _ \<Rightarrow> hz_allViews s)"

definition views_ok :: "hz_sys \<Rightarrow> bool" where
  "views_ok s \<longleftrightarrow> distinct (hz_retired s) \<and> (\<forall>v. hz_view s = Some v \<longrightarrow> v \<notin> set (hz_retired s))"

definition locked_once :: "hz_sys \<Rightarrow> bool" where
  "locked_once s \<longleftrightarrow> (\<forall>t u v w. ht_frames (hz_threads s t) = [DLocked v] \<longrightarrow> ht_frames (hz_threads s u) = [DLocked w] \<longrightarrow> t = u)"

definition hz_inv :: "hz_sys \<Rightarrow> bool" where
  "hz_inv s \<longleftrightarrow> frames_ok s \<and> slots_ok s \<and> views_ok s \<and> locked_once s"

lemma hz_live_retired: "hz_live s = set_option (hz_view s) \<union> set (hz_retired s)"
  by (simp add: hz_live_def hz_retired_def split: hz_mutex.split)

lemma hz_inv_init: "hz_inv hz_init"
  by (simp add: hz_inv_def hz_init_def frames_ok_def slots_ok_def views_ok_def locked_once_def hz_retired_def)

text \<open>A step of thread \<open>t\<close> leaves the frames of the others alone when it keeps the lock, the live views and the
  slots of the others.\<close>

lemma frames_ok_step:
  assumes "frames_ok s"
    and "\<And>u. u \<noteq> t \<Longrightarrow> hz_threads s' u = hz_threads s u"
    and "\<And>u pc. u \<noteq> t \<Longrightarrow> ht_frames (hz_threads s u) = [pc] \<Longrightarrow> frame_ok s (hz_threads s u) pc \<Longrightarrow> frame_ok s' (hz_threads s u) pc"
    and "ht_frames (hz_threads s' t) = [] \<or> (\<exists>pc. ht_frames (hz_threads s' t) = [pc] \<and> frame_ok s' (hz_threads s' t) pc)"
  shows "frames_ok s'"
  unfolding frames_ok_def
proof
  fix u
  show "ht_frames (hz_threads s' u) = [] \<or> (\<exists>pc. ht_frames (hz_threads s' u) = [pc] \<and> frame_ok s' (hz_threads s' u) pc)"
    using assms by (cases "u = t") (auto simp: frames_ok_def)
qed

lemma frame_ok_same:
  assumes "frame_ok s ht pc" "hz_view s' = hz_view s" "hz_mutex s' = hz_mutex s" "hz_allViews s' = hz_allViews s"
    and "\<And>i. ht_slot ht = Some i \<Longrightarrow> hz_hazardViews s' i = hz_hazardViews s i"
  shows "frame_ok s' ht pc"
  using assms by (cases pc) (auto simp: slotted_def hz_live_retired hz_retired_def cong: hz_mutex.case_cong)

lemma slots_ok_slot:
  assumes "slots_ok s" "ht_slot (hz_threads s t) = Some i"
  shows "i < hz_nextSlot s" "i \<notin> set (hz_freeSlots s)" "ht_published (hz_threads s t) \<Longrightarrow> i < hz_publishedSlots s"
    "ht_slot (hz_threads s u) = Some i \<Longrightarrow> u = t"
  using assms unfolding slots_ok_def by blast+

lemma slots_ok_free:
  assumes "slots_ok s" "hz_freeSlots s = i # is"
  shows "ht_slot (hz_threads s t) \<noteq> Some i"
  using slots_ok_slot(2) [OF assms(1), of t i] assms(2) by auto

lemma slots_okI:
  assumes "hz_nextSlot s \<le> kDispatchHazardSlotCount" "distinct (hz_freeSlots s)"
    and "\<And>i. i \<in> set (hz_freeSlots s) \<Longrightarrow> i < hz_nextSlot s \<and> i < hz_publishedSlots s"
    and "\<And>t i. ht_slot (hz_threads s t) = Some i \<Longrightarrow> i < hz_nextSlot s \<and> i \<notin> set (hz_freeSlots s)"
    and "\<And>t i. ht_slot (hz_threads s t) = Some i \<Longrightarrow> ht_published (hz_threads s t) \<Longrightarrow> i < hz_publishedSlots s"
    and "\<And>t u i. ht_slot (hz_threads s t) = Some i \<Longrightarrow> ht_slot (hz_threads s u) = Some i \<Longrightarrow> u = t"
  shows "slots_ok s"
  unfolding slots_ok_def using assms by blast

lemma slots_okD:
  assumes "slots_ok s"
  shows "hz_nextSlot s \<le> kDispatchHazardSlotCount" "distinct (hz_freeSlots s)"
    and "i \<in> set (hz_freeSlots s) \<Longrightarrow> i < hz_nextSlot s" "i \<in> set (hz_freeSlots s) \<Longrightarrow> i < hz_publishedSlots s"
  using assms by (auto simp: slots_ok_def)

lemma locked_once_step:
  assumes "locked_once s" "\<And>u v. ht_frames (hz_threads s' u) = [DLocked v] \<Longrightarrow> \<exists>w. ht_frames (hz_threads s u) = [DLocked w]"
  shows "locked_once s'"
  using assms unfolding locked_once_def by meson

lemma slots_ok_same:
  assumes "slots_ok s" "hz_nextSlot s' = hz_nextSlot s" "hz_publishedSlots s' = hz_publishedSlots s" "hz_freeSlots s' = hz_freeSlots s"
    and "\<And>u. ht_slot (hz_threads s' u) = ht_slot (hz_threads s u) \<and> ht_published (hz_threads s' u) = ht_published (hz_threads s u)"
  shows "slots_ok s'"
  using assms(1) unfolding slots_ok_def by (simp add: assms(2-))

lemma views_ok_same:
  assumes "views_ok s" "hz_view s' = hz_view s" "hz_mutex s' = hz_mutex s" "hz_allViews s' = hz_allViews s"
  shows "views_ok s'"
  using assms(1) unfolding views_ok_def hz_retired_def assms(2-) by (simp add: assms(2-) cong: hz_mutex.case_cong)

lemma acquireDispatchHazardSlot_inv:
  assumes "hz_inv s"
  shows "hz_inv (acquireDispatchHazardSlot t s)"
proof (cases "ht_slot (hz_threads s t)")
  case None
  have fr: "ht_frames (hz_threads s t) = [] \<or> (\<exists>v. ht_frames (hz_threads s t) = [DLocked v] \<and> hz_mutex s = LockedDispatch \<and> hz_view s = Some v)"
  proof -
    consider "ht_frames (hz_threads s t) = []" | pc where "ht_frames (hz_threads s t) = [pc]" "frame_ok s (hz_threads s t) pc"
      using assms by (auto simp: hz_inv_def frames_ok_def)
    then show ?thesis using None by cases (simp, case_tac pc, auto simp: slotted_def)
  qed
  have "frames_ok (acquireDispatchHazardSlot t s)"
  proof (rule frames_ok_step [where s = s and t = t])
    show "frames_ok s" using assms by (simp add: hz_inv_def)
    show "hz_threads (acquireDispatchHazardSlot t s) u = hz_threads s u" if "u \<noteq> t" for u
      using that by (simp add: acquireDispatchHazardSlot_def hz_put_def split: list.split)
    show "frame_ok (acquireDispatchHazardSlot t s) (hz_threads s u) pc" if "frame_ok s (hz_threads s u) pc" for u pc
      using that by (rule frame_ok_same) (simp_all add: acquireDispatchHazardSlot_def hz_put_def split: list.split)
    show "ht_frames (hz_threads (acquireDispatchHazardSlot t s) t) = [] \<or>
       (\<exists>pc. ht_frames (hz_threads (acquireDispatchHazardSlot t s) t) = [pc] \<and> frame_ok (acquireDispatchHazardSlot t s) (hz_threads (acquireDispatchHazardSlot t s) t) pc)"
      using fr by (auto simp: acquireDispatchHazardSlot_def hz_put_def split: list.split)
  qed
  moreover have "slots_ok (acquireDispatchHazardSlot t s)"
  proof (cases "hz_freeSlots s")
    case Nil
    have "ht_slot (hz_threads s u) \<noteq> Some (hz_nextSlot s)" for u
      using slots_ok_slot(1) [of s u "hz_nextSlot s"] assms by (auto simp: hz_inv_def)
    with assms None Nil show ?thesis
      by (auto simp: hz_inv_def slots_ok_def acquireDispatchHazardSlot_def hz_put_def intro: less_SucI)
  next
    case (Cons i "is")
    with slots_ok_free [of s i "is"] assms None show ?thesis
      by (auto simp: hz_inv_def slots_ok_def acquireDispatchHazardSlot_def hz_put_def)
  qed
  moreover have "views_ok (acquireDispatchHazardSlot t s)"
    by (rule views_ok_same [of s]) (use assms in \<open>simp_all add: hz_inv_def acquireDispatchHazardSlot_def hz_put_def split: list.split option.split\<close>)
  moreover have "locked_once (acquireDispatchHazardSlot t s)"
    by (rule locked_once_step [of s])
      (use assms in \<open>auto simp: hz_inv_def acquireDispatchHazardSlot_def hz_put_def split: list.splits if_splits\<close>)
  ultimately show ?thesis by (simp add: hz_inv_def)
qed (use assms in \<open>simp add: acquireDispatchHazardSlot_def\<close>)

lemma publishHazardSlotCount_inv:
  assumes "hz_inv s"
  shows "hz_inv (publishHazardSlotCount t s)"
proof (cases "ht_slot (hz_threads s t)")
  case (Some i)
  have same: "frame_ok (publishHazardSlotCount t s) ht pc" if "frame_ok s ht pc" for ht pc
    using that by (rule frame_ok_same) (simp_all add: publishHazardSlotCount_def hz_put_def split: option.split)
  have pub: "frame_ok s' (ht\<lparr>ht_published := True\<rparr>) pc" if "frame_ok s' ht pc" for s' ht pc
    using that by (cases pc) (simp_all add: slotted_def)
  have th: "hz_threads (publishHazardSlotCount t s) = (hz_threads s)(t := (hz_threads s t)\<lparr>ht_published := True\<rparr>)"
    by (simp add: publishHazardSlotCount_def hz_put_def Some)
  have "frames_ok (publishHazardSlotCount t s)"
  proof (rule frames_ok_step [where s = s and t = t])
    show "frames_ok s" using assms by (simp add: hz_inv_def)
    show "ht_frames (hz_threads (publishHazardSlotCount t s) t) = [] \<or>
       (\<exists>pc. ht_frames (hz_threads (publishHazardSlotCount t s) t) = [pc] \<and> frame_ok (publishHazardSlotCount t s) (hz_threads (publishHazardSlotCount t s) t) pc)"
      using assms pub same by (fastforce simp: hz_inv_def frames_ok_def th)
  qed (simp_all add: th same)
  moreover have "slots_ok (publishHazardSlotCount t s)"
  proof (rule slots_okI)
    have ok: "slots_ok s" using assms by (simp add: hz_inv_def)
    note sl = slots_ok_slot [OF ok]
    have slot: "ht_slot (hz_threads (publishHazardSlotCount t s) u) = ht_slot (hz_threads s u)" for u by (simp add: th)
    have oth: "hz_nextSlot (publishHazardSlotCount t s) = hz_nextSlot s" "hz_freeSlots (publishHazardSlotCount t s) = hz_freeSlots s"
      "hz_publishedSlots (publishHazardSlotCount t s) = max (hz_publishedSlots s) (i + 1)"
      by (simp_all add: publishHazardSlotCount_def hz_put_def Some)
    show "hz_nextSlot (publishHazardSlotCount t s) \<le> kDispatchHazardSlotCount" "distinct (hz_freeSlots (publishHazardSlotCount t s))"
      using slots_okD(1,2) [OF ok] by (simp_all add: oth)
    show "j < hz_nextSlot (publishHazardSlotCount t s) \<and> j < hz_publishedSlots (publishHazardSlotCount t s)"
      if "j \<in> set (hz_freeSlots (publishHazardSlotCount t s))" for j
      using that slots_okD(3,4) [OF ok, of j] by (simp add: oth)
    show "j < hz_nextSlot (publishHazardSlotCount t s) \<and> j \<notin> set (hz_freeSlots (publishHazardSlotCount t s))"
      if "ht_slot (hz_threads (publishHazardSlotCount t s) u) = Some j" for u j
      using that sl(1,2) [of u j] by (simp add: slot oth)
    show "j < hz_publishedSlots (publishHazardSlotCount t s)"
      if "ht_slot (hz_threads (publishHazardSlotCount t s) u) = Some j" "ht_published (hz_threads (publishHazardSlotCount t s) u)" for u j
      using that sl(3) [of u j] Some by (cases "u = t") (simp_all add: slot oth th less_max_iff_disj)
    show "w = u" if "ht_slot (hz_threads (publishHazardSlotCount t s) u) = Some j" "ht_slot (hz_threads (publishHazardSlotCount t s) w) = Some j" for u w j
      using that sl(4) [of u j w] by (simp add: slot)
  qed
  moreover have "views_ok (publishHazardSlotCount t s)"
    by (rule views_ok_same [of s]) (use assms in \<open>simp_all add: hz_inv_def publishHazardSlotCount_def hz_put_def split: list.split option.split\<close>)
  moreover have "locked_once (publishHazardSlotCount t s)"
    by (rule locked_once_step [of s]) (use assms in \<open>auto simp: hz_inv_def th split: if_splits\<close>)
  ultimately show ?thesis by (simp add: hz_inv_def)
qed (use assms in \<open>simp add: publishHazardSlotCount_def\<close>)

lemma releaseDispatchHazardSlot_inv:
  assumes "hz_inv s"
  shows "hz_inv (releaseDispatchHazardSlot t s)"
proof (cases "\<exists>i. ht_slot (hz_threads s t) = Some i \<and> ht_published (hz_threads s t) \<and> ht_frames (hz_threads s t) = []")
  case True
  then obtain i where i: "ht_slot (hz_threads s t) = Some i" "ht_published (hz_threads s t)" "ht_frames (hz_threads s t) = []" by blast
  have r: "releaseDispatchHazardSlot t s = hz_put t (\<lambda>ht. ht\<lparr>ht_slot := None, ht_published := False\<rparr>) (s\<lparr>hz_freeSlots := i # hz_freeSlots s\<rparr>)"
    by (simp add: releaseDispatchHazardSlot_def i)
  have "frames_ok (releaseDispatchHazardSlot t s)"
  proof (rule frames_ok_step [where s = s and t = t])
    show "frames_ok s" using assms by (simp add: hz_inv_def)
    show "frame_ok (releaseDispatchHazardSlot t s) (hz_threads s u) pc" if "frame_ok s (hz_threads s u) pc" for u pc
      using that by (rule frame_ok_same) (simp_all add: r hz_put_def)
  qed (simp_all add: r hz_put_def i)
  moreover have "slots_ok (releaseDispatchHazardSlot t s)"
  proof (rule slots_okI)
    have ok: "slots_ok s" using assms by (simp add: hz_inv_def)
    note sl = slots_ok_slot [OF ok] and it = slots_ok_slot [OF ok i(1)]
    have slot: "ht_slot (hz_threads (releaseDispatchHazardSlot t s) u) = Some j \<longleftrightarrow> u \<noteq> t \<and> ht_slot (hz_threads s u) = Some j" for u j
      by (simp add: r hz_put_def)
    have free: "hz_freeSlots (releaseDispatchHazardSlot t s) = i # hz_freeSlots s" by (simp add: r hz_put_def)
    have pub: "hz_publishedSlots (releaseDispatchHazardSlot t s) = hz_publishedSlots s" "hz_nextSlot (releaseDispatchHazardSlot t s) = hz_nextSlot s"
      by (simp_all add: r hz_put_def)
    show "hz_nextSlot (releaseDispatchHazardSlot t s) \<le> kDispatchHazardSlotCount" using slots_okD(1) [OF ok] by (simp add: pub)
    show "distinct (hz_freeSlots (releaseDispatchHazardSlot t s))" using slots_okD(2) [OF ok] it(2) by (simp add: free)
    show "j < hz_nextSlot (releaseDispatchHazardSlot t s) \<and> j < hz_publishedSlots (releaseDispatchHazardSlot t s)"
      if "j \<in> set (hz_freeSlots (releaseDispatchHazardSlot t s))" for j
    proof (cases "j = i")
      case True
      then show ?thesis using it(1) it(3) [OF i(2)] by (simp add: pub)
    next
      case False
      with that have "j \<in> set (hz_freeSlots s)" by (simp add: free)
      then show ?thesis using slots_okD(3,4) [OF ok] by (simp add: pub)
    qed
    show "j < hz_nextSlot (releaseDispatchHazardSlot t s) \<and> j \<notin> set (hz_freeSlots (releaseDispatchHazardSlot t s))"
      if "ht_slot (hz_threads (releaseDispatchHazardSlot t s) u) = Some j" for u j
    proof -
      from that have u: "u \<noteq> t" "ht_slot (hz_threads s u) = Some j" by (simp_all add: slot)
      have "j \<noteq> i" using it(4) [of u] u by blast
      then show ?thesis using sl(1,2) [OF u(2)] by (simp add: pub free)
    qed
    show "j < hz_publishedSlots (releaseDispatchHazardSlot t s)"
      if "ht_slot (hz_threads (releaseDispatchHazardSlot t s) u) = Some j" "ht_published (hz_threads (releaseDispatchHazardSlot t s) u)" for u j
      using that sl(3) [of u j] by (simp add: pub slot) (simp add: r hz_put_def)
    show "w = u" if "ht_slot (hz_threads (releaseDispatchHazardSlot t s) u) = Some j" "ht_slot (hz_threads (releaseDispatchHazardSlot t s) w) = Some j" for u w j
      using that sl(4) [of u j w] by (simp add: slot)
  qed
  moreover have "views_ok (releaseDispatchHazardSlot t s)"
    by (rule views_ok_same [of s]) (use assms in \<open>simp_all add: hz_inv_def releaseDispatchHazardSlot_def hz_put_def split: list.split option.split\<close>)
  moreover have "locked_once (releaseDispatchHazardSlot t s)"
    using assms by (simp add: hz_inv_def locked_once_def r hz_put_def i)
  ultimately show ?thesis by (simp add: hz_inv_def)
qed (use assms in \<open>auto simp: releaseDispatchHazardSlot_def split: option.split\<close>)

lemma hz_dispatch_inv:
  assumes "hz_inv s" and flat: "ht_frames (hz_threads s t) = []"
  shows "hz_inv (hz_dispatch t s)"
proof -
  have fo: "frames_ok s" using assms by (simp add: hz_inv_def)
  consider (slot) "slotted (hz_threads s t)" "hz_dispatch t s = hz_top t [DLoad] s"
    | (locked) v where "hz_mutex s = Unlocked" "hz_view s = Some v" "hz_dispatch t s = (hz_top t [DLocked v] s)\<lparr>hz_mutex := LockedDispatch\<rparr>"
    | (no) "hz_dispatch t s = s"
  proof (cases "ht_slot (hz_threads s t) = None")
    case True
    then show ?thesis
      using that(2,3) flat by (cases "hz_view s"; cases "hz_mutex s = Unlocked";
        cases "hz_freeSlots s = [] \<and> \<not> hz_nextSlot s < kDispatchHazardSlotCount") (simp_all add: hz_dispatch_def)
  next
    case False
    then show ?thesis
      using that flat by (cases "ht_published (hz_threads s t)") (simp_all add: hz_dispatch_def slotted_def)
  qed
  then show ?thesis
  proof cases
    case slot
    have "frames_ok (hz_top t [DLoad] s)"
    proof (rule frames_ok_step [where s = s and t = t])
      show "frames_ok s" by (rule fo)
      show "frame_ok (hz_top t [DLoad] s) (hz_threads s u) pc" if "frame_ok s (hz_threads s u) pc" for u pc
        using that by (rule frame_ok_same) (simp_all add: hz_top_def hz_put_def)
    qed (use slot in \<open>simp_all add: hz_top_def hz_put_def slotted_def\<close>)
    moreover have "slots_ok (hz_top t [DLoad] s)"
      by (rule slots_ok_same [of s]) (use assms in \<open>simp_all add: hz_inv_def hz_top_def hz_put_def\<close>)
    moreover have "views_ok (hz_top t [DLoad] s)"
      by (rule views_ok_same [of s]) (use assms in \<open>simp_all add: hz_inv_def hz_top_def hz_put_def\<close>)
    moreover have "locked_once (hz_top t [DLoad] s)"
      using assms by (simp add: hz_inv_def locked_once_def hz_top_def hz_put_def)
    ultimately show ?thesis by (simp add: slot hz_inv_def)
  next
    case locked
    have fr: "frame_ok (hz_dispatch t s) ht pc" if "frame_ok s ht pc" for ht pc
      using that locked by (cases pc) (auto simp: hz_top_def hz_put_def hz_live_def ahead_def)
    have unl: "ht_frames (hz_threads s u) \<noteq> [DLocked w]" for u w
      using fo locked(1) by (auto simp: frames_ok_def) (metis frame_ok.simps(5) hz_mutex.distinct(3) list.distinct(1) list.inject)
    have "frames_ok (hz_dispatch t s)"
      by (rule frames_ok_step [where s = s and t = t, OF fo]) (use locked fr in \<open>simp_all add: hz_top_def hz_put_def\<close>)
    moreover have "locked_once (hz_dispatch t s)"
      using unl locked by (auto simp: locked_once_def hz_top_def hz_put_def)
    moreover have "slots_ok (hz_dispatch t s)"
      by (rule slots_ok_same [of s]) (use assms locked in \<open>simp_all add: hz_inv_def hz_top_def hz_put_def\<close>)
    moreover have "views_ok (hz_dispatch t s)"
      using assms locked by (simp add: hz_inv_def views_ok_def hz_retired_def hz_top_def hz_put_def)
    ultimately show ?thesis by (simp add: hz_inv_def)
  qed (use assms in simp)
qed

lemma slots_apart:
  assumes "slots_ok s" "slotted (hz_threads s t)" "slotted (hz_threads s u)" "u \<noteq> t"
  shows "the (ht_slot (hz_threads s u)) \<noteq> the (ht_slot (hz_threads s t))"
  using slots_ok_slot(4) [OF assms(1), of t _ u] assms(2-) by (auto simp: slotted_def)

text \<open>A step of \<open>t\<close> that writes its own slot.\<close>

lemma hz_own_step:
  assumes "hz_inv s" "slotted (hz_threads s t)"
    and s': "s' = hz_top t fs s \<or> s' = hz_top t fs (hz_store t v s)"
    and fs: "fs = [] \<or> (\<exists>pc. fs = [pc] \<and> frame_ok s' (hz_threads s' t) pc \<and> (\<forall>w. pc \<noteq> DLocked w))"
  shows "hz_inv s'"
proof -
  obtain i where i: "ht_slot (hz_threads s t) = Some i" using assms(2) by (auto simp: slotted_def)
  have th: "hz_threads s' = (hz_threads s)(t := (hz_threads s t)\<lparr>ht_frames := fs\<rparr>)"
    using s' i by (auto simp: hz_top_def hz_put_def hz_store_def)
  have oth: "hz_view s' = hz_view s" "hz_mutex s' = hz_mutex s" "hz_allViews s' = hz_allViews s"
    "hz_nextSlot s' = hz_nextSlot s" "hz_publishedSlots s' = hz_publishedSlots s" "hz_freeSlots s' = hz_freeSlots s"
    using s' i by (auto simp: hz_top_def hz_put_def hz_store_def)
  have hv: "hz_hazardViews s' j = hz_hazardViews s j" if "j \<noteq> i" for j
    using s' i that by (auto simp: hz_top_def hz_put_def hz_store_def)
  have ok: "frames_ok s" "slots_ok s" "views_ok s" "locked_once s" using assms(1) by (simp_all add: hz_inv_def)
  have "frames_ok s'"
  proof (rule frames_ok_step [where s = s and t = t])
    show "frame_ok s' (hz_threads s u) pc" if u: "u \<noteq> t" "frame_ok s (hz_threads s u) pc" for u pc
      using u(2)
    proof (rule frame_ok_same)
      show "hz_hazardViews s' j = hz_hazardViews s j" if "ht_slot (hz_threads s u) = Some j" for j
      proof (rule hv)
        show "j \<noteq> i" using slots_ok_slot(4) [OF ok(2) i, of u] that u(1) by blast
      qed
    qed (rule oth)+
    show "ht_frames (hz_threads s' t) = [] \<or> (\<exists>pc. ht_frames (hz_threads s' t) = [pc] \<and> frame_ok s' (hz_threads s' t) pc)"
      using fs by (auto simp: th)
  qed (use ok in \<open>simp_all add: th\<close>)
  moreover have "slots_ok s'" by (rule slots_ok_same [OF ok(2) oth(4-6)]) (simp add: th)
  moreover have "views_ok s'" by (rule views_ok_same [OF ok(3) oth(1-3)])
  moreover have "locked_once s'" by (rule locked_once_step [OF ok(4)]) (use fs in \<open>auto simp: th split: if_splits\<close>)
  ultimately show ?thesis by (simp add: hz_inv_def)
qed

lemma frames_okE:
  assumes "hz_inv s"
  obtains "ht_frames (hz_threads s t) = []" | pc where "ht_frames (hz_threads s t) = [pc]" "frame_ok s (hz_threads s t) pc"
  using assms unfolding hz_inv_def frames_ok_def by blast

lemma hz_advance_inv:
  assumes "hz_inv s"
  shows "hz_inv (hz_advance t s)"
proof (cases rule: frames_okE [OF assms, where t = t])
  case 1
  with assms show ?thesis by (simp add: hz_advance_def)
next
  case (2 pc)
  note own = hz_own_step [OF assms, where t = t]
  have stored: "hz_hazardViews (hz_top t fs (hz_store t v s)) (the (ht_slot (hz_threads s t))) = v"
    if "slotted (hz_threads s t)" for fs v
    using that by (auto simp: slotted_def hz_top_def hz_put_def hz_store_def)
  have keep: "ht_slot (hz_threads (hz_top t fs s') t) = ht_slot (hz_threads s' t)"
    "ht_published (hz_threads (hz_top t fs s') t) = ht_published (hz_threads s' t)"
    "hz_threads (hz_store t v s') = hz_threads s'" for fs v s'
    by (simp_all add: hz_top_def hz_put_def hz_store_def split: option.split)
  show ?thesis
  proof (cases pc)
    case DLoad
    with 2 have a: "slotted (hz_threads s t)" by simp
    show ?thesis
    proof (cases "hz_view s")
      case None
      with 2 DLoad show ?thesis by (intro own [OF a, of _ "[]"]) (simp_all add: hz_advance_def)
    next
      case (Some v)
      with 2 DLoad a show ?thesis by (intro own [OF a, of _ "[DStore v]"]) (simp_all add: hz_advance_def slotted_def keep)
    qed
  next
    case (DStore v)
    with 2 have a: "slotted (hz_threads s t)" by simp
    with 2 DStore show ?thesis
      by (intro own [OF a, of _ "[DCheck v]" "Some v"]) (simp_all add: hz_advance_def slotted_def keep stored)
  next
    case (DCheck v)
    with 2 have a: "slotted (hz_threads s t)" "hz_hazardViews s (the (ht_slot (hz_threads s t))) = Some v" by simp_all
    consider "hz_view s = None" | "hz_view s = Some v" | v' where "hz_view s = Some v'" "v' \<noteq> v" by (cases "hz_view s") auto
    then show ?thesis
    proof cases
      case 1
      with 2 DCheck show ?thesis by (intro own [OF a(1), of _ "[]" None]) (simp_all add: hz_advance_def)
    next
      case c: 2
      have "v \<notin> set (hz_retired s)" using assms c by (simp add: hz_inv_def views_ok_def)
      then have "ahead (hz_mutex s) v i" for i by (auto simp: ahead_def hz_retired_def)
      then have "frame_ok (hz_top t [DRead v] s) (hz_threads (hz_top t [DRead v] s) t) (DRead v)"
        using a c by (simp add: slotted_def keep) (simp add: hz_top_def hz_put_def hz_live_retired)
      with 2 DCheck c show ?thesis by (intro own [OF a(1), of _ "[DRead v]"]) (simp_all add: hz_advance_def)
    next
      case (3 v')
      with 2 DCheck a show ?thesis by (intro own [OF a(1), of _ "[DStore v']"]) (simp_all add: hz_advance_def slotted_def keep)
    qed
  next
    case (DRead v)
    with 2 have a: "slotted (hz_threads s t)" by simp
    with 2 DRead show ?thesis by (intro own [OF a, of _ "[]" None]) (simp_all add: hz_advance_def)
  next
    case (DLocked v)
    with 2 have a: "ht_frames (hz_threads s t) = [DLocked v]" "hz_mutex s = LockedDispatch" by simp_all
    have adv: "hz_advance t s = (hz_top t [] s)\<lparr>hz_mutex := Unlocked\<rparr>" by (simp add: hz_advance_def a(1))
    have ok: "frames_ok s" "slots_ok s" "views_ok s" "locked_once s" using assms by (simp_all add: hz_inv_def)
    have "frames_ok (hz_advance t s)"
    proof (rule frames_ok_step [where s = s and t = t, OF ok(1)])
      show "frame_ok (hz_advance t s) (hz_threads s u) pc" if u: "u \<noteq> t" "ht_frames (hz_threads s u) = [pc]" "frame_ok s (hz_threads s u) pc" for u pc
      proof (cases pc)
        case (DLocked w)
        with u(2) a(1) ok(4) have "u = t" unfolding locked_once_def by blast
        with u(1) show ?thesis by simp
      qed (use u(3) a(2) in \<open>simp_all add: adv hz_top_def hz_put_def hz_live_def ahead_def\<close>)
    qed (simp_all add: adv hz_top_def hz_put_def)
    moreover have "slots_ok (hz_advance t s)" by (rule slots_ok_same [OF ok(2)]) (simp_all add: adv hz_top_def hz_put_def)
    moreover have "views_ok (hz_advance t s)" using ok(3) a(2) by (simp add: views_ok_def hz_retired_def adv hz_top_def hz_put_def)
    moreover have "locked_once (hz_advance t s)"
      by (rule locked_once_step [OF ok(4)]) (auto simp: adv hz_top_def hz_put_def split: if_splits)
    ultimately show ?thesis by (simp add: hz_inv_def)
  qed
qed

text \<open>A step of the mutex holder.\<close>

lemma hz_mutex_step:
  assumes "hz_inv s" "hz_mutex s \<noteq> LockedDispatch"
    and same: "hz_threads s' = hz_threads s" "hz_hazardViews s' = hz_hazardViews s" "hz_nextSlot s' = hz_nextSlot s"
      "hz_publishedSlots s' = hz_publishedSlots s" "hz_freeSlots s' = hz_freeSlots s"
    and read: "\<And>t v. ht_frames (hz_threads s t) = [DRead v] \<Longrightarrow> frame_ok s (hz_threads s t) (DRead v) \<Longrightarrow>
      v \<in> hz_live s' \<and> ahead (hz_mutex s') v (the (ht_slot (hz_threads s t)))"
    and views: "views_ok s'"
  shows "hz_inv s'"
proof -
  have ok: "frames_ok s" "slots_ok s" "locked_once s" using assms(1) by (simp_all add: hz_inv_def)
  have fr: "frame_ok s' (hz_threads s u) pc" if "ht_frames (hz_threads s u) = [pc]" "frame_ok s (hz_threads s u) pc" for u pc
    using that assms(2) read [of u] by (cases pc) (simp_all add: same)
  have "frames_ok s'" using ok(1) fr unfolding frames_ok_def same by blast
  moreover have "slots_ok s'" by (rule slots_ok_same [OF ok(2)]) (simp_all add: same)
  moreover have "locked_once s'" using ok(3) by (simp add: locked_once_def same)
  ultimately show ?thesis using views by (simp add: hz_inv_def)
qed

lemma hz_rebuild_inv:
  assumes "hz_inv s"
  shows "hz_inv (hz_rebuild v s)"
proof (cases "hz_mutex s = Unlocked \<and> v \<notin> hz_live s")
  case True
  have vo: "views_ok s" using assms by (simp add: hz_inv_def)
  show ?thesis
    by (rule hz_mutex_step [OF assms])
      (use True vo in \<open>auto simp: hz_rebuild_def hz_live_def ahead_def views_ok_def hz_retired_def split: option.splits\<close>)
qed (use assms in \<open>auto simp: hz_rebuild_def\<close>)

lemma hz_clear_inv:
  assumes "hz_inv s"
  shows "hz_inv (hz_clear s)"
proof (cases "hz_mutex s = Unlocked")
  case True
  have vo: "views_ok s" using assms by (simp add: hz_inv_def)
  show ?thesis
    by (rule hz_mutex_step [OF assms])
      (use True vo in \<open>auto simp: hz_clear_def hz_live_def ahead_def views_ok_def hz_retired_def split: option.splits\<close>)
qed (use assms in \<open>auto simp: hz_clear_def\<close>)

lemma hz_scan_inv:
  assumes "hz_inv s"
  shows "hz_inv (hz_scan s)"
proof (cases "hz_mutex s")
  case (Scanning todo kept sc)
  have vo: "views_ok s" and so: "slots_ok s" using assms by (simp_all add: hz_inv_def)
  have reach: "the (ht_slot ht) < min (hz_publishedSlots s) kDispatchHazardSlotCount" if "slotted ht" "ht = hz_threads s t" for ht t
    using that slots_ok_slot(1,3) [OF so, of t] slots_okD(1) [OF so] by (fastforce simp: slotted_def)
  have rule: "hz_inv s'" if "hz_threads s' = hz_threads s" "hz_hazardViews s' = hz_hazardViews s" "hz_nextSlot s' = hz_nextSlot s"
      "hz_publishedSlots s' = hz_publishedSlots s" "hz_freeSlots s' = hz_freeSlots s"
      "\<And>t v. frame_ok s (hz_threads s t) (DRead v) \<Longrightarrow> v \<in> hz_live s' \<and> ahead (hz_mutex s') v (the (ht_slot (hz_threads s t)))"
      "views_ok s'" for s'
  proof (rule hz_mutex_step [OF assms _ that(1-5) that(6) that(7)])
    show "hz_mutex s \<noteq> LockedDispatch" by (simp add: Scanning)
  qed
  show ?thesis
  proof (cases todo)
    case Nil
    then have sc: "hz_scan s = s\<lparr>hz_allViews := rev kept, hz_mutex := Unlocked\<rparr>" by (simp add: hz_scan_def Scanning)
    show ?thesis
      by (rule rule) (use Nil Scanning vo in \<open>auto simp: sc hz_live_def ahead_def views_ok_def hz_retired_def\<close>)
  next
    case (Cons w ws)
    show ?thesis
    proof (cases sc)
      case None
      then have sc': "hz_scan s = s\<lparr>hz_mutex := Scanning (w # ws) kept (Some (0, min (hz_publishedSlots s) kDispatchHazardSlotCount))\<rparr>"
        by (simp add: hz_scan_def Scanning Cons)
      show ?thesis
      proof (rule rule)
        show "v \<in> hz_live (hz_scan s) \<and> ahead (hz_mutex (hz_scan s)) v (the (ht_slot (hz_threads s t)))"
          if "frame_ok s (hz_threads s t) (DRead v)" for t v
          using that reach [of "hz_threads s t" t] by (auto simp: sc' hz_live_def ahead_def Scanning Cons)
      qed (use vo Scanning Cons in \<open>simp_all add: sc' views_ok_def hz_retired_def\<close>)
    next
      case (Some p)
      obtain i n where p: "p = (i, n)" by (cases p) blast
      note here = Scanning Cons Some p
      consider (free) "n \<le> i" "hz_scan s = s\<lparr>hz_mutex := Scanning ws kept None\<rparr>"
        | (held) "hz_scan s = s\<lparr>hz_mutex := Scanning ws (w # kept) None\<rparr>"
        | (pass) "hz_hazardViews s i \<noteq> Some w" "hz_scan s = s\<lparr>hz_mutex := Scanning (w # ws) kept (Some (i + 1, n))\<rparr>"
        by (cases "n \<le> i"; cases "hz_hazardViews s i = Some w") (simp_all add: hz_scan_def here)
      then show ?thesis
      proof cases
        case free
        show ?thesis
        proof (rule rule)
          show "v \<in> hz_live (hz_scan s) \<and> ahead (hz_mutex (hz_scan s)) v (the (ht_slot (hz_threads s t)))"
            if "frame_ok s (hz_threads s t) (DRead v)" for t v
          proof -
            have "v \<noteq> w" using that free(1) by (auto simp: ahead_def here)
            with that show ?thesis by (simp add: free hz_live_def here) (simp add: ahead_def)
          qed
        qed (use vo here in \<open>simp_all add: free views_ok_def hz_retired_def\<close>)
      next
        case held
        show ?thesis
          by (rule rule) (use vo in \<open>auto simp: held here hz_live_def ahead_def views_ok_def hz_retired_def\<close>)
      next
        case pass
        show ?thesis
        proof (rule rule)
          show "v \<in> hz_live (hz_scan s) \<and> ahead (hz_mutex (hz_scan s)) v (the (ht_slot (hz_threads s t)))"
            if r: "frame_ok s (hz_threads s t) (DRead v)" for t v
          proof (cases "v = w")
            case True
            with r have "i \<le> the (ht_slot (hz_threads s t)) \<and> the (ht_slot (hz_threads s t)) < n" "the (ht_slot (hz_threads s t)) \<noteq> i"
              using pass(1) by (auto simp: here ahead_def)
            with True show ?thesis by (simp add: pass hz_live_def) (simp add: ahead_def)
          next
            case False
            with r show ?thesis by (simp add: pass hz_live_def here) (simp add: ahead_def)
          qed
        qed (use vo here in \<open>simp_all add: pass views_ok_def hz_retired_def\<close>)
      qed
    qed
  qed
qed (use assms in \<open>simp_all add: hz_scan_def\<close>)

lemma may_dispatch_flat [simp]: "may_dispatch False fs \<longleftrightarrow> fs = []"
  by (cases "(False, fs)" rule: may_dispatch.cases) simp_all

lemma hz_exec_inv:
  assumes "hz_inv s" "hz_allowed False ev s"
  shows "hz_inv (hz_exec ev s)"
  using assms by (cases ev) (simp_all add: acquireDispatchHazardSlot_inv publishHazardSlotCount_inv releaseDispatchHazardSlot_inv
    hz_dispatch_inv hz_advance_inv hz_rebuild_inv hz_clear_inv hz_scan_inv)

lemma hz_reachable_inv: "hz_reachable False s \<Longrightarrow> hz_inv s"
proof (induction rule: hz_reachable.induct)
  case (hz_event s ev)
  then show ?case by (intro hz_exec_inv) simp_all
qed (rule hz_inv_init)

lemma hz_inv_safe:
  assumes "hz_inv s"
  shows "hz_safe s"
  unfolding hz_safe_def
proof (intro allI impI)
  fix t v
  assume r: "DRead v \<in> set (ht_frames (hz_threads s t)) \<or> DLocked v \<in> set (ht_frames (hz_threads s t))"
  show "v \<in> hz_live s"
  proof (cases rule: frames_okE [OF assms, where t = t])
    case 1
    with r show ?thesis by simp
  next
    case (2 pc)
    with r have "pc = DRead v \<or> pc = DLocked v" by auto
    with 2(2) show ?thesis by (auto simp: hz_live_def)
  qed
qed

subsection \<open>Nested dispatches\<close>

text \<open>A listener adds a view and lets the same thread dispatch again inside its callback, where a listener is removed
  afterwards.\<close>

definition hz_nested_run :: "hz_event list" where
  "hz_nested_run =
     [HRebuild 1, HScan, HAcquire 0, HPublish 0,
      HDispatch 0, HAdvance 0, HAdvance 0, HAdvance 0,
      HDispatch 0, HAdvance 0, HAdvance 0, HAdvance 0, HAdvance 0,
      HRebuild 2, HScan, HScan, HScan]"

fun hz_run :: "bool \<Rightarrow> hz_event list \<Rightarrow> hz_sys \<Rightarrow> hz_sys option" where
  "hz_run nested [] s = Some s"
| "hz_run nested (ev # evs) s = (if hz_allowed nested ev s then hz_run nested evs (hz_exec ev s) else None)"

lemma hz_run_reachable: "hz_reachable nested s \<Longrightarrow> hz_run nested evs s = Some s' \<Longrightarrow> hz_reachable nested s'"
proof (induction evs arbitrary: s)
  case (Cons ev evs)
  then show ?case by (auto intro: hz_event split: if_splits)
qed simp

lemmas hz_run_simps = hz_init_def acquireDispatchHazardSlot_def publishHazardSlotCount_def hz_dispatch_def hz_advance_def
  hz_rebuild_def hz_scan_def hz_top_def hz_put_def hz_store_def hz_live_def kDispatchHazardSlotCount_def Let_def

lemma hz_nested_unsafe: "\<exists>s. hz_run True hz_nested_run hz_init = Some s \<and> \<not> hz_safe s"
proof -
  obtain s where s: "hz_run True hz_nested_run hz_init = Some s" "ht_frames (hz_threads s 0) = [DRead 1]" "hz_live s = {2}"
    by (simp add: hz_nested_run_def hz_run_simps)
  from s(2,3) have "DRead 1 \<in> set (ht_frames (hz_threads s 0))" "(1::view_ptr) \<notin> hz_live s" by simp_all
  then have "\<not> hz_safe s" unfolding hz_safe_def by blast
  with s(1) show ?thesis by blast
qed



end
