(* ===== verification/Spec2Isabelle.thy ===== *)
theory Spec2Isabelle
  imports Claims Bean_Handles Bean_Metadata Context_Defaults Context_Start Bean_Access Any_Bean Injection Listener_Views
begin

text \<open>
  Verification of ctorium, a header-only C++26 dependency-injection container
  (\<^verbatim>\<open>src/include\<close>). All paths below are relative to \<^verbatim>\<open>src/include/internal/detail\<close> unless they
  start with \<^verbatim>\<open>api/\<close> or \<^verbatim>\<open>internal/\<close>.

  \<^bold>\<open>The program.\<close> Reflection over user types yields contributed descriptors (identity, exposed and
  concrete type, name, lifetime, priority, construction and destruction thunks). A registry collects
  them, and \<^verbatim>\<open>start()\<close> deduplicates them, builds the descriptor table, the candidate index and the
  links between factories, aliases and their primaries. After that, \<^verbatim>\<open>resolve<T>(name)\<close> selects a
  descriptor by type, name and priority, and materializes it according to its lifetime: a singleton in
  the registry, a prototype in a reference-counted slot, a session bean in the store of a scope, a
  thread-local bean in the store of the thread. Listeners observe four lifecycle phases.
  \<^verbatim>\<open>stop()\<close> destroys what was created, in reverse order.

  \<^bold>\<open>The theories, bottom up.\<close>
  \<^item> \<open>Ctr_Prelude\<close>: identifiers and sentinels (\<^verbatim>\<open>internal/*Id.hpp\<close>), lifetimes, origins and errors
    (\<^verbatim>\<open>api/ctr\<close>), \<open>u32\<close>, stable sorting by priority, shared list lemmas and fact collections.
  \<^item> \<open>Interning\<close>: \<^verbatim>\<open>NameInterning\<close>, \<^verbatim>\<open>TypeInterning\<close> (frozen part, overflow), \<^verbatim>\<open>DefaultsTable\<close>.
  \<^item> \<open>Type_Index\<close>: \<^verbatim>\<open>TypeIndex\<close>, \<^verbatim>\<open>internal/NameTable\<close> and the selection in \<^verbatim>\<open>Registry::resolve\<close>.
    The refinement theorem relates every published index state, however it was built and updated, to
    the specification ``the unique candidate of highest priority, or the right error''.
  \<^item> \<open>Descriptor_Table\<close>: descriptors, contributed descriptors, the two-column table.
  \<^item> \<open>Instance_Stores\<close>: \<^verbatim>\<open>SingletonStore\<close> and \<^verbatim>\<open>SessionStore\<close> as maps with an insertion log, and the
    deferred deallocation of session blocks.
  \<^item> \<open>Thread_Local_Store\<close>: \<^verbatim>\<open>ThreadLocalStore\<close> and the bookkeeping of threads between first use,
    thread exit and \<^verbatim>\<open>stop()\<close>.
  \<^item> \<open>Freelist\<close>, \<open>Prototype_Store\<close>: the Treiber stack, sequentially and interleaved, and the
    reference-counted prototype slots with the deletion of the store.
  \<^item> \<open>Listener_Store\<close>: registration, removal, views and dispatch of \<^verbatim>\<open>ListenerStore\<close> with the
    registration functions of \<^verbatim>\<open>ContextLifecycleImpl\<close>, each operation as one step.
  \<^item> \<open>Listener_Views\<close>: how any number of threads read the published listener view while mutations replace
    it: hazard slots, their recycling, publication, the scan that frees retired views. The invariant says
    that a view being read is never freed, and a run with a nested dispatch shows where it fails.
  \<^item> \<open>Registry_Start\<close>: the registry record, \<^verbatim>\<open>submitContribution\<close> and every phase of \<^verbatim>\<open>Registry::start\<close>.
  \<^item> \<open>Materialization\<close>, \<open>Resolution\<close>: \<^verbatim>\<open>Registry::resolve\<close>, \<^verbatim>\<open>materializeOneImpl\<close> and the four
    lifetimes, as one thread runs them. User code (constructors, hooks, listeners) is a parameter that
    may resolve further beans and throw.
  \<^item> \<open>Claims\<close>: \<^verbatim>\<open>claimMaterializationOrWait\<close> for any number of threads: tokens, wait slots, the walk that
    detects cross-thread cycles, waiting, releasing and notifying.
  \<^item> \<open>Destruction\<close>: \<^verbatim>\<open>stop()\<close> of the registry and of a scope, the rollback of a failed start, the
    destructor, the eager pass.
  \<^item> \<open>Binding\<close>: \<^verbatim>\<open>bindSingleton\<close> and \<^verbatim>\<open>bindSession\<close> before and after start.
  \<^item> \<open>Registry_Tables\<close>: the packed handles of \<^verbatim>\<open>materializeOneImpl\<close>, the chunked table of scopes, the
    per-call-site cache of scope names, the cache of type ids with its races.
  \<^item> \<open>Bean_Casts\<close>, \<open>Any_Bean\<close>, \<open>Bean_Handles\<close>, \<open>Bean_Access\<close>: the handles of \<^verbatim>\<open>api/ctr/Bean.hpp\<close> and
    \<^verbatim>\<open>api/ctr/AnyBean.hpp\<close>: layout, casts, context, metadata; copies, moves and destruction with the reference counts
    of prototypes; dereferencing in its three forms.
  \<^item> \<open>Reflection\<close>, \<open>Discovery\<close>, \<open>Member_Scan\<close>, \<open>Descriptor_Gen\<close>, \<open>Injection\<close>, \<open>Bean_Metadata\<close>: the compile-time side.
    Reflected types are data (a tree of scopes, classes with bases, members and annotations). The theories hold
    the qualified names and identity hashes of \<^verbatim>\<open>IdentityGen\<close>, the enumeration of \<^verbatim>\<open>internal/Discovery.hpp\<close>,
    the choice of constructors and hooks and the generated thunk arguments of \<^verbatim>\<open>DescriptorThunkGen\<close>, the
    descriptors of \<^verbatim>\<open>DescriptorBuilderGen\<close>, and the metadata ranges.
  \<^item> \<open>Discovered_Start\<close>: generated contributions meet the assumptions of \<^verbatim>\<open>Registry::start\<close>.
  \<^item> \<open>Contexts\<close>: \<^verbatim>\<open>ContextLifecycleImpl\<close>: root contexts by key, start and stop, scopes by key, default names,
    user data. \<open>Context_Scopes\<close> has the invariant of a context and its preservation by every call,
    \<open>Context_Defaults\<close> the effect of default names, \<open>Context_Lifecycle\<close> the order of destruction in \<^verbatim>\<open>stop()\<close>, and
    \<open>Context_Start\<close> that \<^verbatim>\<open>start()\<close> succeeds or leaves nothing alive.

  \<^bold>\<open>Modelling choices.\<close> Structs are records, enums datatypes, pointers addresses. A failed assertion or
  an access outside a container is \<open>None\<close>, respectively the outcome \<open>Abort\<close>; an exception is an error
  value; a wait on the condition variable is the outcome \<open>Blocked\<close> in the one-thread model and a step of
  its own in \<open>Claims\<close>. Resolution is mutually recursive through user code, so it carries fuel;
  \<open>resolution_terminates\<close> shows that a nesting depth of \<open>2 * n + 2\<close> for \<open>n\<close> descriptors is always
  enough, because every second call puts a new descriptor under construction. Counters that the code
  keeps in 32 bits are written with \<open>u32\<close> or as \<open>32 word\<close>; allocation failure of the C++ runtime is
  modelled only where the code catches it.

  \<^bold>\<open>Assumptions worth knowing.\<close> The theorems about start take a registry whose descriptor table is empty
  (\<open>startable\<close>), that is one without a session binding made before start. The theorems about stop take
  user code that does not resolve or throw while beans are destroyed, since the code calls it in
  \<^verbatim>\<open>noexcept\<close> functions.

  \<^bold>\<open>Interfaces.\<close> What several components promise is a locale, interpreted on the model's definitions:
  interning tables and instance stores as maps, and \<open>resolution_frame\<close>, the steps from which every property
  that all resolutions keep is derived (its interpretations give the frame conditions, the order of
  dependencies, the coherence of scopes and the permanence of session instances).

  \<^bold>\<open>Not modelled.\<close> What user code computes: constructors, hooks, listeners and thunk bodies appear as what they
  resolve, throw and release. Memory orders: the model is sequentially consistent. Capacity hints
  (\<^verbatim>\<open>reserve\<close>), alignment and prefetching. Allocation failures that the code does not catch. The return values that
  producer methods build. Umbrella headers, tests and benchmarks.
\<close>

end
